(* ===== verification/Prelude.thy ===== *)
theory Prelude
  imports Main "HOL-Library.Word" "HOL-Library.Monad_Syntax"
begin

unbundle bit_operations_syntax

text \<open>
  Shared vocabulary of the development: the machine integers of the i386 target, the flat
  byte-addressed memory that every pointer of the kernel points into, little-endian 32-bit
  access to it, and the separation lemmas (\<open>mem_simps\<close>) with which the component proofs
  compute loads after stores.  A C function whose loops may not end, or that reads past the
  end of a string, returns an \<open>option\<close>; \<open>None\<close> is "no defined result".
\<close>

named_theorems mem_simps \<open>loads after stores, sizes of disjoint regions\<close>

type_synonym u8 = "8 word"
type_synonym u16 = "16 word"
type_synonym u32 = "32 word"
type_synonym u64 = "64 word"

type_synonym mem = "u32 \<Rightarrow> u8"

text \<open>Masking with a run of ones is taking bits.\<close>

lemma and_masks:
  fixes x :: "'a::len word"
  shows "x AND 1 = take_bit 1 x" "x AND 0xF = take_bit 4 x" "x AND 0xFF = take_bit 8 x"
    "x AND 0x3FF = take_bit 10 x" "x AND 0xFFF = take_bit 12 x" "x AND 0xFFFF = take_bit 16 x"
  by (simp_all add: take_bit_eq_mask mask_numeral)

lemma take_bit_small: "unat x < 2 ^ n \<Longrightarrow> take_bit n x = x" for x :: "'a::len word"
  by (simp add: word_unat_eq_iff unsigned_take_bit_eq take_bit_nat_eq_self)

section \<open>Little-endian access\<close>

definition load32 :: "mem \<Rightarrow> u32 \<Rightarrow> u32" where
  "load32 m a = ucast (m a) OR push_bit 8 (ucast (m (a + 1)))
     OR push_bit 16 (ucast (m (a + 2))) OR push_bit 24 (ucast (m (a + 3)))"

definition store32 :: "mem \<Rightarrow> u32 \<Rightarrow> u32 \<Rightarrow> mem" where
  "store32 m a v = m(a := ucast v, a + 1 := ucast (drop_bit 8 v),
     a + 2 := ucast (drop_bit 16 v), a + 3 := ucast (drop_bit 24 v))"

definition load64 :: "mem \<Rightarrow> u32 \<Rightarrow> u64" where
  "load64 m a = ucast (load32 m a) OR push_bit 32 (ucast (load32 m (a + 4)))"

section \<open>Disjoint regions of the address space\<close>

text \<open>
  \<open>apart a n b k\<close>: the \<open>n\<close> bytes at \<open>a\<close> and the \<open>k\<close> bytes at \<open>b\<close> do not meet.  The
  distances are taken modulo \<open>2 ^ 32\<close>, so no side condition about wrap-around is needed.
\<close>

definition apart :: "u32 \<Rightarrow> nat \<Rightarrow> u32 \<Rightarrow> nat \<Rightarrow> bool" where
  "apart a n b k \<longleftrightarrow> n \<le> unat (b - a) \<and> k \<le> unat (a - b)"

lemma apart_sym: "apart a n b k \<longleftrightarrow> apart b k a n"
  by (auto simp: apart_def)

lemma apart_neq: "apart a n b k \<Longrightarrow> 0 < n \<Longrightarrow> a \<noteq> b"
  by (auto simp: apart_def)

lemma unat_bound32: "unat (x :: u32) < 4294967296"
  using unsigned_less [of x] by simp

lemma unat_bound8: "unat (x :: u8) < 256"
  using unsigned_less [of x] by simp

lemma unat_bound64: "unat (x :: u64) < 18446744073709551616"
  using unsigned_less [of x] by simp

lemma unat_succ: "i < n \<Longrightarrow> unat (i + 1) = Suc (unat (i :: u32))"
  using unat_bound32 [of n] by (simp add: word_less_nat_alt unat_word_ariths)

lemma counter_decreases: "i < n \<Longrightarrow> unat (n - (i + 1)) < unat (n - (i :: u32))"
proof -
  assume i: "i < n"
  then have "i + 1 \<le> n" by (simp add: word_le_nat_alt word_less_nat_alt unat_succ [OF i])
  then show ?thesis using i by (simp add: unat_sub less_imp_le unat_succ [OF i] word_less_nat_alt diff_less_mono2)
qed

lemma le_step: "i < n \<Longrightarrow> i \<le> d \<longleftrightarrow> d = i \<or> i + 1 \<le> (d :: u32)"
  by (auto simp: word_le_nat_alt unat_succ word_unat_eq_iff)

lemma unat_minus_word:
  assumes "d \<noteq> 0" shows "unat (- d :: u32) = 2 ^ 32 - unat d"
  using assms unat_sub_if_size [of 0 d] by (auto simp: word_size unat_gt_0)

lemma apart_shift:
  assumes "apart a n b k" and c: "unat c + n' \<le> n" and d: "unat d + k' \<le> k"
    and pos: "0 < n'" "0 < k'"
  shows "apart (a + c) n' (b + d) k'"
proof -
  let ?e = "b - a"
  from assms have n: "n \<le> unat ?e" and k: "k \<le> unat (- ?e)" by (auto simp: apart_def)
  from n c pos have ne: "?e \<noteq> 0" by auto
  with k have k': "k + unat ?e \<le> 2 ^ 32"
    using unat_minus_word [OF ne] unat_bound32 [of ?e] by (simp add: less_imp_le_nat le_diff_conv2)
  have 1: "unat (?e + d) = unat ?e + unat d"
    using k' d pos by (subst unat_add_lem [THEN iffD1]) auto
  have ge: "c \<le> ?e + d"
    using 1 n c by (simp add: word_le_nat_alt)
  have 2: "unat (?e + d - c) = unat ?e + unat d - unat c"
    using unat_sub [OF ge] 1 by simp
  have ne2: "?e + d - c \<noteq> 0"
    using 2 n c pos by (auto simp flip: unat_eq_0)
  have 3: "unat (- (?e + d - c)) = 2 ^ 32 - (unat ?e + unat d - unat c)"
    using unat_minus_word [OF ne2] 2 by simp
  have "n' \<le> unat (?e + d - c)" using 2 n c by simp
  moreover have "k' \<le> unat (- (?e + d - c))" using 3 k' d n c by simp
  ultimately show ?thesis
    by (simp add: apart_def algebra_simps)
qed

lemma apart_mono: "apart a n b k \<Longrightarrow> n' \<le> n \<Longrightarrow> k' \<le> k \<Longrightarrow> apart a n' b k'"
  by (auto simp: apart_def)

lemma apart_shift_left:
  "apart a n b k \<Longrightarrow> unat c + n' \<le> n \<Longrightarrow> 0 < n' \<Longrightarrow> 0 < k \<Longrightarrow> apart (a + c) n' b k"
  using apart_shift [of a n b k c n' 0 k] by simp

lemma apart_shift_right:
  "apart a n b k \<Longrightarrow> unat d + k' \<le> k \<Longrightarrow> 0 < n \<Longrightarrow> 0 < k' \<Longrightarrow> apart a n (b + d) k'"
  using apart_shift [of a n b k 0 n d k'] by simp

text \<open>Two fields of one object: the base address cancels.\<close>

lemma apart_same_base [simp]: "apart (a + c) n (a + d) k \<longleftrightarrow> apart c n d k"
  by (simp add: apart_def algebra_simps)

lemma apart_base_left [simp]: "apart a n (a + d) k \<longleftrightarrow> apart 0 n d k"
  by (simp add: apart_def algebra_simps)

lemma apart_base_right [simp]: "apart (a + c) n a k \<longleftrightarrow> apart c n 0 k"
  by (simp add: apart_def algebra_simps)

text \<open>Regions that do not wrap, given by their bounds.\<close>

lemma apart_bounds:
  assumes "unat a + n \<le> unat b" and "unat b + k \<le> 2 ^ 32" "0 < n"
  shows "apart a n b k"
proof -
  have le: "a \<le> b" using assms by (simp add: word_le_nat_alt)
  have 1: "unat (b - a) = unat b - unat a" using unat_sub [OF le] .
  have ne: "b - a \<noteq> 0" using 1 assms by (auto simp flip: unat_eq_0)
  have "unat (a - b) = 2 ^ 32 - (unat b - unat a)"
    using unat_minus_word [OF ne] 1 by simp
  with 1 assms unat_bound32 [of b] show ?thesis by (auto simp: apart_def)
qed

lemma apart_bytes:
  assumes "apart a n b k" and "unat c < n" and "unat d < k"
  shows "a + c \<noteq> b + d"
proof -
  have "apart (a + c) 1 (b + d) 1" by (rule apart_shift [OF assms(1)]) (use assms in auto)
  then show ?thesis by (rule apart_neq) simp
qed

section \<open>Loads after stores\<close>

lemma store32_other:
  assumes "apart a 4 b 1"
  shows "store32 m a v b = m b"
proof -
  have "a + c \<noteq> b" if "unat c < 4" for c :: u32
    using apart_bytes [OF assms that, of 0] by simp
  from this [of 0] this [of 1] this [of 2] this [of 3] show ?thesis
    by (simp add: store32_def)
qed

lemma load32_cong:
  assumes "\<And>c. unat c < 4 \<Longrightarrow> m (a + c) = m' (a + c)"
  shows "load32 m a = load32 m' a"
  using assms [of 0] assms [of 1] assms [of 2] assms [of 3] by (simp add: load32_def)

lemma load32_store32_same [simp, mem_simps]: "load32 (store32 m a v) a = v"
proof -
  have ne: "a + 1 \<noteq> a" "a + 2 \<noteq> a" "a + 3 \<noteq> a" "a + 2 \<noteq> a + 1" "a + 3 \<noteq> a + 1"
    "a + 3 \<noteq> a + 2" by auto
  show ?thesis
  proof (rule bit_word_eqI)
    fix n :: nat assume "n < LENGTH(32)"
    then consider "n < 8" | "8 \<le> n" "n < 16" | "16 \<le> n" "n < 24" | "24 \<le> n" "n < 32"
      by force
    then show "bit (load32 (store32 m a v) a) n = bit v n"
      by cases (use ne in \<open>simp_all add: load32_def store32_def bit_simps\<close>, linarith+)
  qed
qed

lemma load32_store32_apart [mem_simps]:
  assumes "apart a 4 b 4"
  shows "load32 (store32 m a v) b = load32 m b"
proof (rule load32_cong)
  fix c :: u32 assume "unat c < 4"
  then have "apart a 4 (b + c) 1"
    by (intro apart_shift_right [OF assms]) auto
  then show "store32 m a v (b + c) = m (b + c)" by (rule store32_other)
qed

lemma load32_upd_apart [mem_simps]:
  assumes "apart a 1 b 4"
  shows "load32 (m(a := x)) b = load32 m b"
proof (rule load32_cong)
  fix c :: u32 assume "unat c < 4"
  then have "apart a 1 (b + c) 1"
    by (intro apart_shift_right [OF assms]) auto
  then have "a \<noteq> b + c" by (rule apart_neq) simp
  then show "(m(a := x)) (b + c) = m (b + c)" by simp
qed

text \<open>Constant offsets are compared by evaluation.\<close>

lemmas apart_numeral [simp] =
  apart_def [of "numeral i" n "numeral j" k for i n j k]
  apart_def [of 0 n "numeral j" k for n j k]
  apart_def [of "numeral i" n 0 k for i n k]
  apart_def [of 1 n "numeral j" k for n j k]
  apart_def [of "numeral i" n 1 k for i n k]

lemma load32_byte_upd_ne [mem_simps]:
  "apart a 1 b 1 \<Longrightarrow> (m(a := x)) b = m b"
  using apart_neq by fastforce

lemma store32_idem [simp]: "store32 (store32 m a v) a w = store32 m a w"
  by (rule ext) (simp add: store32_def)

section \<open>Page boundaries\<close>

lemma and_page_mask: "x AND 0xfffff000 = push_bit 12 (drop_bit 12 x)" for x :: u32
proof -
  have "x AND 0xfffff000 = x AND push_bit 12 (mask 20)" by (simp add: mask_numeral)
  also have "\<dots> = push_bit 12 (drop_bit 12 x)"
    by (rule bit_word_eqI) (auto simp: bit_simps)
  finally show ?thesis .
qed

lemma page_split: "unat x = unat (x AND 0xfffff000) + unat x mod 4096 \<and> unat (x AND 0xfffff000) mod 4096 = 0"
  for x :: u32
proof -
  have "unat x div 4096 * 4096 \<le> unat x" by simp
  then have "unat x div 4096 * 4096 < 4294967296" using unat_bound32 [of x] by linarith
  then have "unat (x AND 0xfffff000) = unat x div 4096 * 4096"
    by (simp add: and_page_mask push_bit_eq_mult drop_bit_eq_div unat_word_ariths unat_div)
  then show ?thesis by simp
qed

end
