(* ===== verification/Machine.thy ===== *)
theory Machine
  imports Prelude
begin

text \<open>
  The hardware state the C code acts on (kern/sys/system.c and the inline assembly of
  kern/mm/vmm.c): the flat memory as the kernel addresses it, the log of port writes, the
  control registers and the registers that a context switch saves.  Also the two byte loops
  of kern/misc/klib.c, \<open>memset\<close> and \<open>memcpy\<close>, with the closed forms the other theories use.
  The components extend this record, so that every operation of the kernel is a function on
  one state.
\<close>

record machine =
  ram :: mem
  ports :: "(u16 \<times> u8) list"
  cr0 :: u32
  cr2 :: u32
  cr3 :: u32
  esp :: u32
  ebp :: u32
  ebx :: u32
  esi :: u32
  edi :: u32
  halted :: bool

text \<open>
  How a call ends that may not come back to its caller: it returns, it continues at another address
  with the stack of another task, or the processor stands in a \<open>hlt\<close> that only an interrupt ends
  (interrupt handlers run with interrupts off, so there it stays).
\<close>

datatype 'a flow = Returned 'a | Switched (sw_eip: u32) (sw_new: u32) (sw_state: 'a) | Stopped 'a

section \<open>Port output\<close>

definition outport :: "u16 \<Rightarrow> u8 \<Rightarrow> 'a machine_scheme \<Rightarrow> 'a machine_scheme" where
  "outport port data s = s\<lparr>ports := ports s @ [(port, data)]\<rparr>"

definition outports :: "(u16 \<times> u8) list \<Rightarrow> 'a machine_scheme \<Rightarrow> 'a machine_scheme" where
  "outports ps s = fold (\<lambda>(p, d). outport p d) ps s"

lemma outports_ports: "outports ps s = s\<lparr>ports := ports s @ ps\<rparr>"
  by (induction ps arbitrary: s) (auto simp: outports_def outport_def)

section \<open>memset and memcpy\<close>

text \<open>\<open>memset\<close> returns its first argument, which no caller of the kernel uses.\<close>

function memset_loop :: "u32 \<Rightarrow> u8 \<Rightarrow> u32 \<Rightarrow> u32 \<Rightarrow> mem \<Rightarrow> mem" where
  "memset_loop buf val sz i m =
     (if i < sz then memset_loop buf val sz (i + 1) (m(buf + i := val)) else m)"
  by pat_completeness auto
termination
  by (relation "measure (\<lambda>(buf, val, sz, i, m). unat (sz - i))") (auto simp: counter_decreases)

definition memset :: "u32 \<Rightarrow> u8 \<Rightarrow> u32 \<Rightarrow> mem \<Rightarrow> mem" where
  "memset bufptr val sz m = memset_loop bufptr val sz 0 m"

function memcpy_loop :: "u32 \<Rightarrow> u32 \<Rightarrow> u32 \<Rightarrow> u32 \<Rightarrow> mem \<Rightarrow> mem" where
  "memcpy_loop src dst sz i m =
     (if i < sz then memcpy_loop src dst sz (i + 1) (m(dst + i := m (src + i))) else m)"
  by pat_completeness auto
termination
  by (relation "measure (\<lambda>(src, dst, sz, i, m). unat (sz - i))") (auto simp: counter_decreases)

definition memcpy :: "u32 \<Rightarrow> u32 \<Rightarrow> u32 \<Rightarrow> mem \<Rightarrow> mem" where
  "memcpy srcptr dstptr sz m = memcpy_loop srcptr dstptr sz 0 m"

declare memset_loop.simps [simp del] memcpy_loop.simps [simp del]

text \<open>The position \<open>d\<close> is written by a loop that starts at \<open>i\<close> iff \<open>i \<le> d < sz\<close>.\<close>

lemma memset_loop_eq:
  "memset_loop buf val sz i m = (\<lambda>b. if i \<le> b - buf \<and> b - buf < sz then val else m b)"
proof (induction buf val sz i m rule: memset_loop.induct)
  case (1 buf val sz i m)
  show ?case
  proof (cases "i < sz")
    case True
    then show ?thesis
      by (subst memset_loop.simps, simp add: "1.IH", intro ext)
        (auto simp: True le_step [OF True] diff_eq_eq add.commute)
  next
    case False
    then show ?thesis by (subst memset_loop.simps) (auto simp: fun_eq_iff)
  qed
qed

lemma memset_eq: "memset buf val sz m = (\<lambda>b. if b - buf < sz then val else m b)"
  by (simp add: memset_def memset_loop_eq)

lemma memcpy_loop_eq:
  assumes "apart src (unat sz) dst (unat sz)"
  shows "memcpy_loop src dst sz i m =
    (\<lambda>b. if i \<le> b - dst \<and> b - dst < sz then m (src + (b - dst)) else m b)"
  using assms
proof (induction src dst sz i m rule: memcpy_loop.induct)
  case (1 src dst sz i m)
  show ?case
  proof (cases "i < sz")
    case True
    have "src + d \<noteq> dst + i" if "d < sz" for d
      using apart_bytes [OF "1.prems", of d i] that True by (simp add: word_less_nat_alt)
    then show ?thesis
      by (subst memcpy_loop.simps, simp only: "1.IH" [OF True "1.prems"] True if_True, intro ext)
        (simp only: fun_upd_apply le_step [OF True], use True in \<open>auto split: if_splits\<close>)
  next
    case False
    then show ?thesis by (subst memcpy_loop.simps) (auto simp: fun_eq_iff)
  qed
qed

lemma memcpy_eq:
  assumes "apart src (unat sz) dst (unat sz)"
  shows "memcpy src dst sz m = (\<lambda>b. if b - dst < sz then m (src + (b - dst)) else m b)"
  by (simp add: memcpy_def memcpy_loop_eq [OF assms])

lemma memset_other [mem_simps]: "apart a (unat sz) b 1 \<Longrightarrow> memset a v sz m b = m b"
  by (auto simp: memset_eq apart_def word_less_nat_alt)

lemma load32_memset_apart [mem_simps]:
  assumes "apart a (unat sz) b 4" "0 < sz"
  shows "load32 (memset a v sz m) b = load32 m b"
proof (rule load32_cong)
  fix c :: u32 assume "unat c < 4"
  then have "apart a (unat sz) (b + c) 1"
    using assms by (intro apart_shift_right [OF assms(1)]) (auto simp: unat_gt_0 word_neq_0_conv)
  then show "memset a v sz m (b + c) = m (b + c)" by (rule memset_other)
qed

lemma load32_memset_zero [mem_simps]:
  assumes "unat d + 4 \<le> unat sz"
  shows "load32 (memset a 0 sz m) (a + d) = 0"
proof -
  have "memset a 0 sz m (a + d + c) = 0" if "unat c < 4" for c
  proof -
    have "unat (d + c) = unat d + unat c"
      using that assms unat_bound32 [of sz] by (subst unat_add_lem [THEN iffD1]) simp_all
    then show ?thesis using that assms by (simp add: memset_eq word_less_nat_alt add.assoc)
  qed
  from this [of 0] this [of 1] this [of 2] this [of 3] show ?thesis
    by (simp add: load32_def)
qed

lemma load32_memcpy:
  assumes "apart src (unat sz) dst (unat sz)" "unat d + 4 \<le> unat sz"
  shows "load32 (memcpy src dst sz m) (dst + d) = load32 m (src + d)"
proof -
  have "memcpy src dst sz m (dst + d + c) = m (src + d + c)" if "unat c < 4" for c
  proof -
    have "unat (d + c) = unat d + unat c"
      using that assms(2) unat_bound32 [of sz] by (subst unat_add_lem [THEN iffD1]) simp_all
    then show ?thesis using that assms by (simp add: memcpy_eq word_less_nat_alt add.assoc)
  qed
  from this [of 0] this [of 1] this [of 2] this [of 3] show ?thesis
    by (simp add: load32_def)
qed

lemma load32_memcpy_apart [mem_simps]:
  assumes "apart src (unat sz) dst (unat sz)" "apart dst (unat sz) b 4" "0 < sz"
  shows "load32 (memcpy src dst sz m) b = load32 m b"
proof (rule load32_cong)
  fix c :: u32 assume "unat c < 4"
  then have "apart dst (unat sz) (b + c) 1"
    using assms by (intro apart_shift_right [OF assms(2)]) (auto simp: unat_gt_0 word_neq_0_conv)
  then show "memcpy src dst sz m (b + c) = m (b + c)"
    using assms(1) by (auto simp: memcpy_eq apart_def word_less_nat_alt)
qed

end
