(* ===== verification/Vga.thy ===== *)
theory Vga
  imports Machine "HOL-Library.Signed_Division"
begin

text \<open>
  kern/misc/vga.c: the 80 by 25 text console.  \<open>vga_mem\<close> is the device memory as an array of
  16-bit cells indexed from its base \<open>0xC00B8000\<close>; an index outside \<open>0..1999\<close> is a cell before
  or after the screen, as in the C code, which does not check the index.  A C string is the list
  of its bytes; the terminator is the end of the list or an embedded zero byte.  Proved: the
  screen's bounds, which only a backspace at the top left corner leaves, what one character does, scrolling, and that \<open>vga_clear\<close> blanks every cell.
\<close>

record console = machine +
  cursor :: int
  vga_mem :: "int \<Rightarrow> u16"
  attribute :: u16

definition HEIGHT :: int where "HEIGHT = 25"
definition WIDTH :: int where "WIDTH = 80"
definition BUFFER_LEN :: int where "BUFFER_LEN = 2000"

abbreviation str :: "string \<Rightarrow> u8 list" where
  "str \<equiv> map of_char"

text \<open>The state before the kernel runs: static storage is zero.\<close>

definition console0 :: console where
  "console0 = \<lparr>ram = (\<lambda>_. 0), ports = [], cr0 = 0, cr2 = 0, cr3 = 0, esp = 0, ebp = 0, ebx = 0, esi = 0,
     edi = 0, halted = False, cursor = 0, vga_mem = (\<lambda>_. 0), attribute = 0\<rparr>"

section \<open>Operations\<close>

definition vga_scroll :: "'a console_scheme \<Rightarrow> 'a console_scheme" where
  "vga_scroll s =
     (let m1 = fold (\<lambda>i m. m(i := m (i + WIDTH))) [0..WIDTH * (HEIGHT - 1) - 1] (vga_mem s);
          m2 = fold (\<lambda>i m. m(WIDTH * (HEIGHT - 1) + i := attribute s)) [0..WIDTH - 1] m1
      in s\<lparr>vga_mem := m2, cursor := WIDTH * (HEIGHT - 1)\<rparr>)"

definition vga_update_csr :: "'a console_scheme \<Rightarrow> 'a console_scheme" where
  "vga_update_csr s =
     outports [(0x3D4, 14), (0x3D5, word_of_int (drop_bit 8 (cursor s))),
               (0x3D4, 15), (0x3D5, word_of_int (cursor s))] s"

text \<open>\<open>char\<close> is signed on the target: it is sign extended before the attribute is or-ed in.\<close>

definition vga_cell :: "u8 \<Rightarrow> u16 \<Rightarrow> u16" where
  "vga_cell c attr = (scast c :: u16) OR attr"

definition vga_write_char :: "u8 \<Rightarrow> 'a console_scheme \<Rightarrow> 'a console_scheme" where
  "vga_write_char c s0 =
     (let s = (if cursor s0 = BUFFER_LEN then vga_scroll s0 else s0)
      in vga_update_csr
        (if c = 10 then s\<lparr>cursor := (cursor s + 80) - (cursor s smod 80)\<rparr>
         else if c = 8 then
           s\<lparr>cursor := cursor s - 1,
             vga_mem := (vga_mem s)(cursor s - 1 := vga_cell 32 (attribute s))\<rparr>
         else
           s\<lparr>vga_mem := (vga_mem s)(cursor s := vga_cell c (attribute s)),
             cursor := cursor s + 1\<rparr>))"

fun vga_write :: "u8 list \<Rightarrow> 'a console_scheme \<Rightarrow> 'a console_scheme" where
  "vga_write [] s = s"
| "vga_write (c # cs) s = (if c = 0 then s else vga_write cs (vga_write_char c s))"

text \<open>The argument of \<open>vga_writeln\<close> may be the null pointer.\<close>

definition vga_writeln :: "u8 list option \<Rightarrow> 'a console_scheme \<Rightarrow> 'a console_scheme" where
  "vga_writeln st s =
     vga_write (str ''\<newline>'') (case st of Some cs \<Rightarrow> vga_write cs s | None \<Rightarrow> s)"

definition vga_clear :: "'a console_scheme \<Rightarrow> 'a console_scheme" where
  "vga_clear s =
     vga_update_csr ((((vga_write_char 32) ^^ nat (WIDTH * HEIGHT)) s)\<lparr>cursor := 0\<rparr>)"

definition vga_set_color :: "u8 \<Rightarrow> u8 \<Rightarrow> 'a console_scheme \<Rightarrow> 'a console_scheme" where
  "vga_set_color fore back s =
     s\<lparr>attribute := push_bit 8 (push_bit 4 (ucast back) OR (ucast fore AND 0x0F))\<rparr>"

definition vga_init :: "'a console_scheme \<Rightarrow> 'a console_scheme" where
  "vga_init s = vga_clear (vga_set_color 0xF 0 s)"

lemmas vga_const = HEIGHT_def WIDTH_def BUFFER_LEN_def

section \<open>Loops over the cells in closed form\<close>

lemma fold_shift:
  assumes "0 < k"
  shows "fold (\<lambda>i m. m(i := m (i + k))) [a..b] m j = (if a \<le> j \<and> j \<le> b then m (j + k) else m j)"
  using assms
proof (induction a b arbitrary: m rule: upto.induct)
  case (1 a b)
  show ?case
  proof (cases "a \<le> b")
    case True
    then have "[a..b] = a # [a + 1..b]" by (rule upto_rec1)
    then show ?thesis using "1.IH" [OF True "1.prems"] True "1.prems" by auto
  qed auto
qed

lemma fold_fill:
  "fold (\<lambda>i m. m(k + i := x)) [a..b] m j = (if a \<le> j - k \<and> j - k \<le> b then x else m j)"
proof (induction a b arbitrary: m rule: upto.induct)
  case (1 a b)
  show ?case
  proof (cases "a \<le> b")
    case True
    then have "[a..b] = a # [a + 1..b]" by (rule upto_rec1)
    then show ?thesis using "1.IH" [OF True] True by auto
  qed auto
qed

lemma vga_scroll_mem:
  "vga_mem (vga_scroll s) i =
     (if 0 \<le> i \<and> i < 1920 then vga_mem s (i + 80)
      else if 1920 \<le> i \<and> i < 2000 then attribute s else vga_mem s i)"
  by (simp add: vga_scroll_def vga_const fold_fill fold_shift del: upto_rec_numeral)

lemma vga_scroll_cursor [simp]: "cursor (vga_scroll s) = 1920"
  and vga_scroll_attribute [simp]: "attribute (vga_scroll s) = attribute s"
  by (simp_all add: vga_scroll_def vga_const)

lemma vga_update_csr_simps [simp]:
  "cursor (vga_update_csr s) = cursor s" "vga_mem (vga_update_csr s) = vga_mem s"
  "attribute (vga_update_csr s) = attribute s"
  by (simp_all add: vga_update_csr_def outports_ports)

lemma smod_nonneg: "0 \<le> a \<Longrightarrow> a smod 80 = a mod (80 :: int)"
  by (simp add: signed_modulo_int_def signed_divide_int_def minus_mult_div_eq_mod sgn_if)

section \<open>The console invariant\<close>

definition vga_ok :: "'a console_scheme \<Rightarrow> bool" where
  "vga_ok s \<longleftrightarrow> 0 \<le> cursor s \<and> cursor s \<le> BUFFER_LEN"

lemma vga_write_char_attribute [simp]: "attribute (vga_write_char c s) = attribute s"
  by (simp add: vga_write_char_def Let_def)

lemma vga_write_char_space_cursor:
  "cursor (vga_write_char 32 s) = (if cursor s = 2000 then 1921 else cursor s + 1)"
  by (simp add: vga_write_char_def Let_def vga_const)

lemma vga_write_char_space_mem:
  "vga_mem (vga_write_char 32 s) i =
    (if cursor s = 2000 then
       (if i = 1920 then vga_cell 32 (attribute s) else vga_mem (vga_scroll s) i)
     else if i = cursor s then vga_cell 32 (attribute s) else vga_mem s i)"
  by (simp add: vga_write_char_def Let_def vga_const)

lemma newline_bound: "0 \<le> c \<Longrightarrow> c < 2000 \<Longrightarrow> 0 \<le> c + 80 - c mod 80 \<and> c + 80 - c mod (80 :: int) \<le> 2000"
  by presburger

text \<open>
  C30. From a cursor in \<open>0..2000\<close>, one character keeps it there and writes no cell outside the screen, with
  one exception, a backspace at the top left corner: that writes the cell before the screen, and no
  other, and leaves the cursor at \<open>-1\<close>.
\<close>

theorem vga_write_char_in_bounds:
  assumes "vga_ok s"
  shows "if c = 8 \<and> cursor s = 0
    then cursor (vga_write_char c s) = - 1 \<and>
      vga_mem (vga_write_char c s) = (vga_mem s)(- 1 := vga_cell 32 (attribute s))
    else vga_ok (vga_write_char c s) \<and>
      (\<forall>i. i < 0 \<or> BUFFER_LEN \<le> i \<longrightarrow> vga_mem (vga_write_char c s) i = vga_mem s i)"
  using assms newline_bound [of "cursor s"]
  by (auto simp: vga_write_char_def Let_def vga_ok_def vga_const vga_scroll_mem smod_nonneg)

theorem vga_write_char_in_bounds_witness:
  "vga_ok (vga_write_char 10 (console0\<lparr>cursor := 2000\<rparr>)) \<and> cursor (vga_write_char 8 console0) = - 1"
  using vga_write_char_in_bounds [of "console0\<lparr>cursor := 2000\<rparr>" 10] vga_write_char_in_bounds [of console0 8]
  by (simp add: vga_ok_def vga_const) (simp add: console0_def)

section \<open>Clearing the screen\<close>

text \<open>
  The state after \<open>n\<close> of the spaces that \<open>vga_clear\<close> writes from cursor \<open>c0\<close>: the screen has
  scrolled \<open>k\<close> times, and only cells above the scrolled start of the text are not blank.
\<close>

definition blank :: "u16 \<Rightarrow> u16 \<Rightarrow> bool" where
  "blank attr x \<longleftrightarrow> x = vga_cell 32 attr \<or> x = attr"

definition clearing :: "int \<Rightarrow> u16 \<Rightarrow> nat \<Rightarrow> int \<Rightarrow> 'a console_scheme \<Rightarrow> bool" where
  "clearing c0 attr n k s \<longleftrightarrow> attribute s = attr \<and> 0 \<le> k \<and>
     cursor s = c0 + int n - 80 * k \<and> cursor s \<le> 2000 \<and> (0 < k \<longrightarrow> 1920 < cursor s) \<and>
     (\<forall>i. max 0 (c0 - 80 * k) \<le> i \<and> i < cursor s \<longrightarrow> blank attr (vga_mem s i)) \<and>
     (0 < k \<longrightarrow> (\<forall>i. max 0 (c0 - 80 * k) \<le> i \<and> i < 2000 \<longrightarrow> blank attr (vga_mem s i)))"

lemma clearing_step:
  assumes "clearing c0 attr n k s" and c0: "0 \<le> c0"
  shows "\<exists>k'. clearing c0 attr (Suc n) k' (vga_write_char 32 s)"
proof (cases "cursor s = 2000")
  case True
  have "clearing c0 attr (Suc n) (k + 1) (vga_write_char 32 s)"
    using assms True
    by (auto simp: clearing_def vga_write_char_space_cursor vga_write_char_space_mem
        vga_scroll_mem blank_def)
  then show ?thesis ..
next
  case False
  have "clearing c0 attr (Suc n) k (vga_write_char 32 s)"
    using assms False
    by (auto simp: clearing_def vga_write_char_space_cursor vga_write_char_space_mem blank_def)
  then show ?thesis ..
qed

lemma clearing_iterate:
  assumes "0 \<le> cursor s" "cursor s \<le> 2000"
  shows "\<exists>k. clearing (cursor s) (attribute s) n k (((vga_write_char 32) ^^ n) s)"
proof (induction n)
  case 0
  have "clearing (cursor s) (attribute s) 0 0 s" using assms by (auto simp: clearing_def)
  then show ?case by auto
next
  case (Suc n)
  then show ?case using clearing_step [of "cursor s" "attribute s" n _ "((vga_write_char 32) ^^ n) s"] assms
    by auto
qed

text \<open>
  From any cursor position, \<open>vga_clear\<close> leaves every cell of the screen blank (a space or a
  zero character in the current attribute) and puts the cursor at the top left, although it
  writes its 2000 spaces from the current cursor and scrolls on the way.
\<close>

theorem vga_clear_blanks_screen:
  assumes "vga_ok s" and "0 \<le> i" "i < WIDTH * HEIGHT"
  shows "blank (attribute s) (vga_mem (vga_clear s) i) \<and> cursor (vga_clear s) = 0"
proof -
  let ?t = "((vga_write_char 32) ^^ 2000) s"
  obtain k where k: "clearing (cursor s) (attribute s) 2000 k ?t"
    using clearing_iterate assms(1) by (auto simp: vga_ok_def vga_const)
  have "blank (attribute s) (vga_mem ?t i)"
  proof (cases "0 < k")
    case True
    with k assms show ?thesis by (auto simp: clearing_def vga_const)
  next
    case False
    with k assms show ?thesis by (auto simp: clearing_def vga_const vga_ok_def)
  qed
  then show ?thesis by (simp add: vga_clear_def vga_const)
qed

theorem vga_clear_blanks_screen_witness:
  "blank 0x300 (vga_mem (vga_clear (console0\<lparr>cursor := 1234, attribute := 0x300\<rparr>)) 77)"
  using vga_clear_blanks_screen [of "console0\<lparr>cursor := 1234, attribute := 0x300\<rparr>" 77]
  by (simp add: vga_ok_def vga_const)

end
