(* ===== verification/Klib.thy ===== *)
theory Klib
  imports Vga
begin

text \<open>
  kern/misc/klib.c: number formatting into a static buffer (\<open>itoa\<close>) and the kernel's
  \<open>kprintf\<close>.  \<open>None\<close> stands for a division by zero, a digit index past the digit string, a
  format that ends inside a directive, or a directive without a matching argument.  Proved: the
  text \<open>itoa\<close> leaves in the buffer reads back as the number, for every base from 2 to 16 in
  which the number has at most 30 digits, and what \<open>kprintf\<close> prints on formats without
  directives.
\<close>

record klib = console +
  itoa_buf :: "u8 list"

definition klib0 :: klib where
  "klib0 = console.extend console0 \<lparr>itoa_buf = replicate 32 0\<rparr>"

section \<open>itoa\<close>

definition digit_char :: "u32 \<Rightarrow> u8 option" where
  "digit_char d = (if d < 17 then Some ((str ''0123456789abcdef'' @ [0]) ! unat d) else None)"

text \<open>The loop counts the buffer index down from 30; it stops at index 0 at the latest.\<close>

fun itoa_loop :: "u32 \<Rightarrow> nat \<Rightarrow> u32 \<Rightarrow> u8 list \<Rightarrow> (nat \<times> u8 list) option" where
  "itoa_loop base 0 val buf = Some (0, buf)"
| "itoa_loop base (Suc i) val buf =
     (if val = 0 then Some (Suc i, buf)
      else if base = 0 then None
      else do {
        c \<leftarrow> digit_char (val mod base);
        itoa_loop base i (val div base) (buf[Suc i := c])
      })"

text \<open>The result is the offset in the buffer that \<open>itoa\<close> returns a pointer to.\<close>

definition itoa :: "u32 \<Rightarrow> u32 \<Rightarrow> 'a klib_scheme \<Rightarrow> (nat \<times> 'a klib_scheme) option" where
  "itoa val base s =
     (if val \<noteq> 0 then do {
        (i, buf) \<leftarrow> itoa_loop base 30 val (itoa_buf s);
        Some (i + 1, s\<lparr>itoa_buf := buf\<rparr>)
      }
      else Some (30, s\<lparr>itoa_buf := (itoa_buf s)[30 := 48]\<rparr>))"

text \<open>The C string at an offset of the buffer.\<close>

definition buf_str :: "nat \<Rightarrow> u8 list \<Rightarrow> u8 list" where
  "buf_str i buf = takeWhile (\<lambda>c. c \<noteq> 0) (drop i buf)"

section \<open>kprintf\<close>

datatype karg = KInt u32 | KStr "u8 list"

definition print_num :: "u32 \<Rightarrow> u32 \<Rightarrow> 'a klib_scheme \<Rightarrow> 'a klib_scheme option" where
  "print_num val base s =
     do { (i, s) \<leftarrow> itoa val base s; Some (vga_write (drop i (itoa_buf s)) s) }"

fun directive :: "u8 \<Rightarrow> karg list \<Rightarrow> 'a klib_scheme \<Rightarrow> (karg list \<times> 'a klib_scheme) option" where
  "directive c args s =
     (if c = of_char CHR ''c'' then
        (case args of KInt i # rest \<Rightarrow> do { s \<leftarrow> print_num i 10 s; Some (rest, s) } | _ \<Rightarrow> None)
      else if c = of_char CHR ''d'' then
        (case args of
           KInt i # rest \<Rightarrow>
             do {
               s \<leftarrow> (if i <s 0 then print_num (- i) 10 (vga_write_char (of_char CHR ''-'') s)
                     else print_num i 10 s);
               Some (rest, s) }
         | _ \<Rightarrow> None)
      else if c = of_char CHR ''o'' then
        (case args of KInt i # rest \<Rightarrow> do { s \<leftarrow> print_num i 8 s; Some (rest, s) } | _ \<Rightarrow> None)
      else if c = of_char CHR ''s'' then
        (case args of KStr t # rest \<Rightarrow> Some (rest, vga_write t s) | _ \<Rightarrow> None)
      else if c = of_char CHR ''x'' then
        (case args of KInt i # rest \<Rightarrow> do { s \<leftarrow> print_num i 16 s; Some (rest, s) } | _ \<Rightarrow> None)
      else Some (args, s))"

text \<open>
  The format is the list of the bytes before its terminator.  After a directive the pointer
  moves on by one: a format that ends with a percent sign is read past its terminator.
\<close>

fun kprintf :: "u8 list \<Rightarrow> karg list \<Rightarrow> 'a klib_scheme \<Rightarrow> 'a klib_scheme option" where
  "kprintf [] args s = Some s"
| "kprintf (c # fmt) args s =
     (if c = 0 then Some s
      else if c \<noteq> of_char CHR ''%'' then kprintf fmt args (vga_write_char c s)
      else case fmt of
        [] \<Rightarrow> None
      | d # rest \<Rightarrow>
          if d = 0 then None
          else do { (args, s) \<leftarrow> directive d args s; kprintf rest args s })"

section \<open>Reading the digits back\<close>

definition digit_val :: "u8 \<Rightarrow> nat" where
  "digit_val c = (if c < 58 then unat c - 48 else unat c - 87)"

definition parse_num :: "nat \<Rightarrow> u8 list \<Rightarrow> nat" where
  "parse_num base cs = foldl (\<lambda>acc c. acc * base + digit_val c) 0 cs"

lemma parse_num_snoc: "parse_num base (cs @ [c]) = parse_num base cs * base + digit_val c"
  by (simp add: parse_num_def)

lemma digit_char_table:
  "\<forall>n \<in> set [0..<16]. case digit_char (word_of_nat n) of None \<Rightarrow> False
     | Some c \<Rightarrow> c \<noteq> 0 \<and> digit_val c = n"
  by code_simp

lemma digit_char_16:
  assumes "d < 16"
  shows "\<exists>c. digit_char d = Some c \<and> c \<noteq> 0 \<and> digit_val c = unat d"
proof -
  have "unat d \<in> set [0..<16]" using assms by (simp add: word_less_nat_alt)
  with digit_char_table show ?thesis by (fastforce split: option.splits)
qed

definition printable_base :: "u32 \<Rightarrow> bool" where
  "printable_base base \<longleftrightarrow> 2 \<le> base \<and> base \<le> 16"

lemma itoa_loop_digits:
  assumes "printable_base base" "unat val < unat base ^ i" "i < length buf"
  shows "\<exists>j buf' ds. itoa_loop base i val buf = Some (j, buf') \<and> length buf' = length buf \<and>
    drop (Suc j) buf' = ds @ drop (Suc i) buf \<and> 0 \<notin> set ds \<and> parse_num (unat base) ds = unat val"
  using assms
proof (induction i arbitrary: val buf)
  case 0
  then have "val = 0" by (simp add: unat_eq_zero)
  then show ?case by (auto simp: parse_num_def intro: exI [of _ 0])
next
  case (Suc i)
  show ?case
  proof (cases "val = 0")
    case True
    then show ?thesis by (auto simp: parse_num_def)
  next
    case False
    have base: "0 < base" "base \<le> 16" "0 < unat base"
      using Suc.prems(1) by (auto simp: printable_base_def word_le_nat_alt word_less_nat_alt)
    then have "val mod base < 16"
      using word_mod_less_divisor [of base val] by auto
    then obtain c where c: "digit_char (val mod base) = Some c" "c \<noteq> 0"
      "digit_val c = unat val mod unat base"
      using digit_char_16 [of "val mod base"] by (auto simp: unat_mod)
    have "unat (val div base) < unat base ^ i"
      using Suc.prems(2) base(3) by (simp add: unat_div less_mult_imp_div_less mult.commute)
    then obtain j buf' ds where IH: "itoa_loop base i (val div base) (buf[Suc i := c]) = Some (j, buf')"
      "length buf' = length buf" "drop (Suc j) buf' = ds @ drop (Suc i) (buf[Suc i := c])"
      "0 \<notin> set ds" "parse_num (unat base) ds = unat (val div base)"
      using Suc.IH [of "val div base" "buf[Suc i := c]"] Suc.prems by auto
    have "drop (Suc i) (buf[Suc i := c]) = c # drop (Suc (Suc i)) buf"
      using Suc.prems(3) by (simp add: drop_update_swap Cons_nth_drop_Suc [symmetric])
    moreover have "parse_num (unat base) (ds @ [c]) = unat val"
      by (simp add: parse_num_snoc IH(5) c(3) unat_div)
    ultimately have "drop (Suc j) buf' = (ds @ [c]) @ drop (Suc (Suc i)) buf \<and> 0 \<notin> set (ds @ [c])"
      using IH(3,4) c(2) by simp
    then show ?thesis
      using False base c(1) IH(1,2) \<open>parse_num (unat base) (ds @ [c]) = unat val\<close> by auto
  qed
qed

lemma takeWhile_terminated: "0 \<notin> set ds \<Longrightarrow> takeWhile (\<lambda>c. c \<noteq> 0) (ds @ 0 # xs) = (ds :: u8 list)"
  by (induction ds) auto

definition itoa_buf_ok :: "u8 list \<Rightarrow> bool" where
  "itoa_buf_ok buf \<longleftrightarrow> length buf = 32 \<and> buf ! 31 = 0"

lemma drop_31: "itoa_buf_ok buf \<Longrightarrow> drop 31 buf = [0]"
  by (simp add: itoa_buf_ok_def Cons_nth_drop_Suc [symmetric])

lemma itoa_reads_back:
  assumes "printable_base base" and "unat val < unat base ^ 30" and "itoa_buf_ok (itoa_buf s)"
  shows "\<exists>i s'. itoa val base s = Some (i, s') \<and> itoa_buf_ok (itoa_buf s') \<and>
    parse_num (unat base) (buf_str i (itoa_buf s')) = unat val"
proof (cases "val = 0")
  case True
  have "drop 30 ((itoa_buf s)[30 := 48]) = [48, 0]"
    using assms(3) by (simp add: itoa_buf_ok_def Cons_nth_drop_Suc [symmetric] drop_update_swap)
  then show ?thesis
    using True assms(3)
    by (auto simp: itoa_def buf_str_def parse_num_def digit_val_def itoa_buf_ok_def)
next
  case False
  obtain j buf' ds where r: "itoa_loop base 30 val (itoa_buf s) = Some (j, buf')"
    "length buf' = length (itoa_buf s)" "drop (Suc j) buf' = ds @ drop 31 (itoa_buf s)"
    "0 \<notin> set ds" "parse_num (unat base) ds = unat val"
    using itoa_loop_digits [OF assms(1,2), of "itoa_buf s"] assms(3)
    by (auto simp: itoa_buf_ok_def)
  have d: "drop (Suc j) buf' = ds @ [0]" using r(3) drop_31 [OF assms(3)] by simp
  have len: "length buf' = 32" using r(2) assms(3) by (simp add: itoa_buf_ok_def)
  have "buf' ! 31 = last buf'" using len by (simp add: last_conv_nth flip: length_greater_0_conv)
  also have "\<dots> = last (drop (Suc j) buf')" using d by (metis append_is_Nil_conv last_drop not_Cons_self2 drop_eq_Nil not_le)
  finally have "itoa_buf_ok buf'" using d len by (simp add: itoa_buf_ok_def)
  then show ?thesis
    using False r(1,4,5) d by (simp add: itoa_def buf_str_def takeWhile_terminated)
qed

text \<open>
  C29. In every base from 2 to 16 in which the number has at most 30 digits, \<open>itoa\<close> returns, the
  string it returns a pointer to reads back as the number, and the buffer keeps its terminator.
\<close>

theorem itoa_roundtrip:
  assumes "printable_base base" and "unat val < unat base ^ 30" and "itoa_buf_ok (itoa_buf s)"
  shows "\<exists>i s'. itoa val base s = Some (i, s') \<and> itoa_buf_ok (itoa_buf s') \<and>
    parse_num (unat base) (buf_str i (itoa_buf s')) = unat val"
  using assms by (rule itoa_reads_back)

theorem itoa_roundtrip_witness:
  "\<exists>i s'. itoa 0xDEADBEEF 16 klib0 = Some (i, s') \<and>
    parse_num 16 (buf_str i (itoa_buf s')) = 0xDEADBEEF"
  using itoa_roundtrip [of 16 "0xDEADBEEF" klib0]
  by (auto simp: printable_base_def itoa_buf_ok_def klib0_def console.defs)

section \<open>What kprintf does to the rest of the state\<close>

lemma vga_write_char_ram [simp]: "ram (vga_write_char c s) = ram s"
  by (simp add: vga_write_char_def Let_def vga_update_csr_def outports_ports vga_scroll_def)

lemma vga_write_ram [simp]: "ram (vga_write t s) = ram s"
  by (induction t s rule: vga_write.induct) auto

lemma vga_write_char_buf [simp]: "itoa_buf (vga_write_char c s) = itoa_buf s"
  by (simp add: vga_write_char_def Let_def vga_update_csr_def outports_ports vga_scroll_def)

lemma vga_write_buf [simp]: "itoa_buf (vga_write t s) = itoa_buf s"
  by (induction t s rule: vga_write.induct) auto

lemma print_num_ram: "print_num v b s = Some s' \<Longrightarrow> ram s' = ram s"
  by (auto simp: print_num_def itoa_def bind_eq_Some_conv split: if_splits prod.splits)

lemma directive_ram: "directive c args s = Some (args', s') \<Longrightarrow> ram s' = ram s"
  by (auto simp: bind_eq_Some_conv split: if_splits list.splits karg.splits dest: print_num_ram)

lemma kprintf_ram: "kprintf fmt args s = Some s' \<Longrightarrow> ram s' = ram s"
proof (induction fmt args s rule: kprintf.induct)
  case (2 c fmt args s)
  then show ?case
    by (cases fmt) (auto simp: bind_eq_Some_conv simp del: directive.simps
        split: if_splits prod.splits dest: directive_ram)
qed simp

text \<open>Output changes nothing but the console, the ports and the buffer of \<open>itoa\<close>.\<close>

definition console_only :: "'a klib_scheme \<Rightarrow> 'a klib_scheme \<Rightarrow> bool" where
  "console_only s s' \<longleftrightarrow> ram s' = ram s \<and> cr0 s' = cr0 s \<and> cr2 s' = cr2 s \<and> cr3 s' = cr3 s \<and> esp s' = esp s \<and>
     ebp s' = ebp s \<and> ebx s' = ebx s \<and> esi s' = esi s \<and> edi s' = edi s \<and> halted s' = halted s \<and>
     attribute s' = attribute s \<and> klib.more s' = klib.more s"

lemma console_only_refl [simp]: "console_only s s"
  by (simp add: console_only_def)

lemma console_only_trans [trans]: "console_only s t \<Longrightarrow> console_only t u \<Longrightarrow> console_only s u"
  by (simp add: console_only_def)

lemma console_only_update:
  "console_only s s' \<Longrightarrow>
    s' = s\<lparr>ports := ports s', cursor := cursor s', vga_mem := vga_mem s', itoa_buf := itoa_buf s'\<rparr>"
  by (rule klib.equality) (simp_all add: console_only_def)

lemma console_onlyE:
  assumes "console_only s s'"
  obtains p c v b where "s' = s\<lparr>ports := p, cursor := c, vga_mem := v, itoa_buf := b\<rparr>"
  using console_only_update [OF assms] by blast

lemma console_only_buf [simp]: "console_only s (t\<lparr>itoa_buf := b\<rparr>) = console_only s t"
  by (simp add: console_only_def)

lemma vga_write_char_console [simp]: "console_only s (vga_write_char c t) = console_only s t"
  by (simp add: vga_write_char_def Let_def vga_update_csr_def outports_ports console_only_def
      vga_scroll_def)

lemma vga_write_console [simp]: "console_only s (vga_write cs t) = console_only s t"
  by (induction cs t rule: vga_write.induct) auto

lemma print_num_console: "print_num v b t = Some s' \<Longrightarrow> console_only s t \<Longrightarrow> console_only s s'"
  by (auto simp: print_num_def itoa_def bind_eq_Some_conv split: if_splits prod.splits)

lemma directive_console:
  "directive c args t = Some (args', s') \<Longrightarrow> console_only s t \<Longrightarrow> console_only s s'"
  by (auto simp: bind_eq_Some_conv split: if_splits list.splits karg.splits dest: print_num_console)

lemma kprintf_console_from:
  "kprintf fmt args t = Some s' \<Longrightarrow> console_only s t \<Longrightarrow> console_only s s'"
proof (induction fmt args t rule: kprintf.induct)
  case (2 c fmt args t)
  then show ?case
    by (cases fmt) (auto simp: bind_eq_Some_conv simp del: directive.simps split: if_splits,
        metis directive_console)
qed auto

lemmas kprintf_console = kprintf_console_from [OF _ console_only_refl]

text \<open>A format without a percent sign is written as it stands.\<close>

lemma kprintf_plain:
  "of_char CHR ''%'' \<notin> set fmt \<Longrightarrow> kprintf fmt args s = Some (vga_write fmt s)"
  by (induction fmt arbitrary: s) auto

section \<open>kprintf returns on matching arguments\<close>

text \<open>The arguments that a format takes: one word per numeric directive, one string per \<open>%s\<close>.\<close>

fun matches :: "u8 list \<Rightarrow> karg list \<Rightarrow> bool" where
  "matches [] args = True"
| "matches (c # fmt) args =
     (if c = 0 then True
      else if c \<noteq> of_char CHR ''%'' then matches fmt args
      else case fmt of
        [] \<Rightarrow> False
      | d # rest \<Rightarrow>
          d \<noteq> 0 \<and>
          (if d \<in> set (str ''cdox'') then
             (case args of KInt _ # as \<Rightarrow> matches rest as | _ \<Rightarrow> False)
           else if d = of_char CHR ''s'' then
             (case args of KStr _ # as \<Rightarrow> matches rest as | _ \<Rightarrow> False)
           else matches rest args))"

lemma print_num_returns:
  assumes "itoa_buf_ok (itoa_buf s)" "b \<in> {8, 10, 16}"
  shows "\<exists>s'. print_num v b s = Some s' \<and> itoa_buf_ok (itoa_buf s')"
proof -
  have "printable_base b" using assms(2) by (auto simp: printable_base_def)
  moreover have "unat v < unat b ^ 30"
    using assms(2) unat_bound32 [of v] by (auto intro: less_trans)
  ultimately show ?thesis
    using itoa_reads_back [of b v s] assms(1) by (auto simp: print_num_def)
qed

lemma directive_numeric:
  assumes "itoa_buf_ok (itoa_buf s)" "d \<in> set (str ''cdox'')"
  shows "\<exists>s'. directive d (KInt v # as) s = Some (as, s') \<and> itoa_buf_ok (itoa_buf s')"
proof -
  have p: "\<exists>t'. print_num w b t = Some t' \<and> itoa_buf_ok (itoa_buf t')"
    if "b \<in> {8, 10, 16}" "itoa_buf t = itoa_buf s" for w b and t :: "'a klib_scheme"
    using print_num_returns [of t b w] that assms(1) by simp
  show ?thesis
    using assms(2) p [of 8 s v] p [of 10 s v] p [of 16 s v]
      p [of 10 "vga_write_char 45 s" "- v"] by auto
qed

lemma kprintf_matches:
  assumes "matches fmt args" "itoa_buf_ok (itoa_buf s)"
  shows "\<exists>s'. kprintf fmt args s = Some s' \<and> itoa_buf_ok (itoa_buf s')"
  using assms
proof (induction fmt args arbitrary: s rule: matches.induct)
  case (2 c fmt args)
  show ?case
  proof (cases "c = 0 \<or> c \<noteq> of_char CHR ''%''")
    case True
    then show ?thesis using 2 by auto
  next
    case False
    with "2.prems" obtain d rest where fmt: "fmt = d # rest" and d: "d \<noteq> 0"
      by (cases fmt) auto
    consider (num) "d \<in> set (str ''cdox'')" | (string) "d = of_char CHR ''s''"
      | (other) "d \<notin> set (str ''cdox'')" "d \<noteq> of_char CHR ''s''" by blast
    then show ?thesis
    proof cases
      case num
      with False fmt "2.prems"(1) obtain v as where as: "args = KInt v # as" "matches rest as"
        by (auto split: list.splits karg.splits)
      with num obtain s1 where s1: "directive d args s = Some (as, s1)" "itoa_buf_ok (itoa_buf s1)"
        using directive_numeric [OF "2.prems"(2)] by blast
      then show ?thesis
        using "2.IH"(2) [OF _ _ fmt num as(1) refl as(2)] False as(2) fmt d by (simp del: directive.simps)
    next
      case string
      with False fmt "2.prems"(1) obtain t as where as: "args = KStr t # as" "matches rest as"
        by (auto split: list.splits karg.splits)
      with string fmt False d "2.prems"(2) show ?thesis
        using "2.IH"(3) [OF _ _ fmt _ _ as(1) refl as(2), where s = "vga_write t s"] by simp
    next
      case other
      with False fmt "2.prems" d show ?thesis
        using "2.IH"(4) [OF _ _ fmt, where s = s] by auto
    qed
  qed
qed simp

text \<open>
  \<open>kprintf\<close> returns whenever the arguments match the directives of the format, and it leaves
  the memory of the kernel and the terminator of the digit buffer as they were.
\<close>

theorem kprintf_returns:
  assumes "matches fmt args" and "itoa_buf_ok (itoa_buf s)"
  shows "\<exists>s'. kprintf fmt args s = Some s' \<and> itoa_buf_ok (itoa_buf s') \<and> ram s' = ram s"
  using kprintf_matches [OF assms] kprintf_ram by blast

theorem kprintf_returns_witness:
  "\<exists>s'. kprintf (str ''trap %x (%d) is %s'') [KInt 14, KInt (-14), KStr (str ''fault'')] klib0
     = Some s'"
  using kprintf_returns [of "str ''trap %x (%d) is %s''" "[KInt 14, KInt (-14), KStr (str ''fault'')]" klib0]
  by (auto simp: itoa_buf_ok_def klib0_def console.defs)

declare kprintf.simps [simp del] directive.simps [simp del]

end
