(* ===== verification/Gdt.thy ===== *)
theory Gdt
  imports Klib
begin

text \<open>
  kern/x86/gdt.c: the global descriptor table.  The table is the list of its five entries; an
  index past it has no defined result.  \<open>gdtr\<close> is the processor register that
  \<open>gdt_install\<close> (kern/asm/gdt.S) loads.  Proved: the split of base, limit and flags over the
  fields of an entry is the one the processor reads back, and the four segments of \<open>gdt_init\<close>
  are flat.
\<close>

record gdt_e =
  lim_low :: u16
  base_low :: u16
  base_mid :: u8
  access :: u8
  gran :: u8
  base_high :: u8

record dt_p =
  lim :: u16
  base :: u32

record gdt_state = klib +
  gdt :: "gdt_e list"
  gdt_ptr :: dt_p
  gdtr :: dt_p

definition zero_gdt_e :: gdt_e where
  "zero_gdt_e = \<lparr>lim_low = 0, base_low = 0, base_mid = 0, access = 0, gran = 0, base_high = 0\<rparr>"

definition gdt0 :: gdt_state where
  "gdt0 = klib.extend klib0 \<lparr>gdt = replicate 5 zero_gdt_e, gdt_ptr = \<lparr>lim = 0, base = 0\<rparr>,
     gdtr = \<lparr>lim = 0, base = 0\<rparr>\<rparr>"

section \<open>Operations\<close>

definition gdt_entry :: "u64 \<Rightarrow> u64 \<Rightarrow> u8 \<Rightarrow> u8 \<Rightarrow> gdt_e" where
  "gdt_entry bse lmt acc grn =
     \<lparr>lim_low = ucast (lmt AND 0xFFFF),
      base_low = ucast (bse AND 0xFFFF),
      base_mid = ucast (drop_bit 16 bse AND 0xFF),
      access = acc,
      gran = ucast (drop_bit 16 lmt AND 0x0F) OR (grn AND 0xF0),
      base_high = ucast (drop_bit 24 bse AND 0xFF)\<rparr>"

definition gdt_set_entry ::
    "u8 \<Rightarrow> u64 \<Rightarrow> u64 \<Rightarrow> u8 \<Rightarrow> u8 \<Rightarrow> 'a gdt_state_scheme \<Rightarrow> 'a gdt_state_scheme option" where
  "gdt_set_entry idx bse lmt acc grn s =
     (if unat idx < length (gdt s)
      then Some (s\<lparr>gdt := (gdt s)[unat idx := gdt_entry bse lmt acc grn]\<rparr>) else None)"

definition gdt_install :: "'a gdt_state_scheme \<Rightarrow> 'a gdt_state_scheme" where
  "gdt_install s = s\<lparr>gdtr := gdt_ptr s\<rparr>"

fun set_entries :: "(u8 \<times> u8) list \<Rightarrow> 'a gdt_state_scheme \<Rightarrow> 'a gdt_state_scheme option" where
  "set_entries [] s = Some s"
| "set_entries ((i, acc) # es) s =
     do { s \<leftarrow> gdt_set_entry i 0 0xFFFFFFFF acc 0xCF s; set_entries es s }"

text \<open>The address of the static table is chosen by the linker.\<close>

definition gdt_init :: "u32 \<Rightarrow> 'a gdt_state_scheme \<Rightarrow> 'a gdt_state_scheme option" where
  "gdt_init gdt_addr s =
     do {
       let s = s\<lparr>gdt_ptr := \<lparr>lim = 8 * 5 - 1, base = gdt_addr\<rparr>\<rparr>;
       s \<leftarrow> gdt_set_entry 0 0 0 0 0 s;
       s \<leftarrow> set_entries [(1, 0x9A), (2, 0x92), (3, 0xFA), (4, 0xF2)] s;
       Some (gdt_install s)
     }"

section \<open>What the processor reads\<close>

definition seg_base :: "gdt_e \<Rightarrow> u32" where
  "seg_base e = ucast (base_low e) OR push_bit 16 (ucast (base_mid e))
     OR push_bit 24 (ucast (base_high e))"

definition seg_limit :: "gdt_e \<Rightarrow> u32" where
  "seg_limit e = ucast (lim_low e) OR push_bit 16 (ucast (gran e) AND 0xF)"

definition seg_flags :: "gdt_e \<Rightarrow> u8" where
  "seg_flags e = drop_bit 4 (gran e)"

text \<open>With the granularity flag set, the limit counts pages of 4 KiB.\<close>

definition seg_top :: "gdt_e \<Rightarrow> u32" where
  "seg_top e = (if bit (gran e) 7 then push_bit 12 (seg_limit e) OR 0xFFF else seg_limit e)"

lemma and_high_nibble: "x AND 0xF0 = push_bit 4 (take_bit 4 (drop_bit 4 x))" for x :: u8
proof -
  have "x AND 0xF0 = x AND push_bit 4 (mask 4)" by (simp add: mask_numeral)
  also have "\<dots> = push_bit 4 (take_bit 4 (drop_bit 4 x))"
    by (rule bit_word_eqI) (auto simp: bit_simps)
  finally show ?thesis .
qed

lemma gdt_entry_base: "seg_base (gdt_entry bse lmt acc grn) = ucast bse"
proof (rule bit_word_eqI)
  fix n :: nat assume "n < LENGTH(32)"
  then consider "n < 16" | "16 \<le> n" "n < 24" | "24 \<le> n" "n < 32" by force
  then show "bit (seg_base (gdt_entry bse lmt acc grn)) n = bit (ucast bse :: u32) n"
    by cases (auto simp: seg_base_def gdt_entry_def and_masks bit_simps)
qed

lemma gdt_entry_limit: "seg_limit (gdt_entry bse lmt acc grn) = ucast (take_bit 20 lmt)"
proof (rule bit_word_eqI)
  fix n :: nat assume "n < LENGTH(32)"
  then consider "n < 16" | "16 \<le> n" "n < 20" | "20 \<le> n" "n < 32" by force
  then show "bit (seg_limit (gdt_entry bse lmt acc grn)) n = bit (ucast (take_bit 20 lmt) :: u32) n"
    by cases (auto simp: seg_limit_def gdt_entry_def and_masks and_high_nibble bit_simps)
qed

lemma gdt_entry_access: "access (gdt_entry bse lmt acc grn) = acc"
  by (simp add: gdt_entry_def)

lemma gdt_entry_flags: "seg_flags (gdt_entry bse lmt acc grn) = drop_bit 4 grn"
  by (rule bit_word_eqI)
    (auto simp: seg_flags_def gdt_entry_def and_masks and_high_nibble bit_simps
      dest: bit_imp_le_length)

text \<open>
  What \<open>gdt_set_entry\<close> stores at a valid index is read back by the processor as the low 32
  bits of the base, the low 20 bits of the limit, the access byte and the high nibble of the
  granularity byte; the other entries do not change; an index past the table has no defined
  result.
\<close>

theorem gdt_set_entry_decodes:
  "(unat idx < length (gdt s) \<longrightarrow>
     (\<exists>s' e. gdt_set_entry idx bse lmt acc grn s = Some s' \<and> gdt s' = (gdt s)[unat idx := e] \<and>
        seg_base e = ucast bse \<and> seg_limit e = ucast (take_bit 20 lmt) \<and>
        access e = acc \<and> seg_flags e = drop_bit 4 grn)) \<and>
   (length (gdt s) \<le> unat idx \<longrightarrow> gdt_set_entry idx bse lmt acc grn s = None)"
  by (auto simp: gdt_set_entry_def gdt_entry_base gdt_entry_limit gdt_entry_flags gdt_entry_access
      intro!: exI [of _ "gdt_entry bse lmt acc grn"])

theorem gdt_set_entry_decodes_witness:
  "\<exists>s' e. gdt_set_entry 3 0x12345678 0xABCDE 0xFA 0xCF gdt0 = Some s' \<and>
     gdt s' = (gdt gdt0)[3 := e] \<and> seg_base e = 0x12345678 \<and> seg_limit e = 0xABCDE"
  using gdt_set_entry_decodes [where idx = 3 and bse = "0x12345678" and lmt = "0xABCDE" and acc = "0xFA"
      and grn = "0xCF" and s = gdt0]
  by (auto simp: gdt0_def klib.defs)

text \<open>The segment a selector names: null, or flat over the whole address space.\<close>

definition flat_segment :: "u8 \<Rightarrow> gdt_e \<Rightarrow> bool" where
  "flat_segment acc e \<longleftrightarrow> seg_base e = 0 \<and> seg_top e = 0xFFFFFFFF \<and> access e = acc"

text \<open>
  \<open>gdt_init\<close> returns on a table of five entries: entry 0 is the null descriptor, the other
  four are flat segments with the access bytes of kernel code, kernel data, user code and user
  data, and the register holds the table's address and its last byte offset.
\<close>

theorem gdt_init_flat:
  assumes "length (gdt s) = 5"
  shows "\<exists>s' e1 e2 e3 e4. gdt_init a s = Some s' \<and> gdt s' = [zero_gdt_e, e1, e2, e3, e4] \<and>
    flat_segment 0x9A e1 \<and> flat_segment 0x92 e2 \<and> flat_segment 0xFA e3 \<and>
    flat_segment 0xF2 e4 \<and> gdtr s' = \<lparr>lim = 39, base = a\<rparr>"
proof -
  obtain g0 g1 g2 g3 g4 where g: "gdt s = [g0, g1, g2, g3, g4]"
    using assms by (auto simp: numeral_eq_Suc length_Suc_conv)
  show ?thesis
    by (simp add: gdt_init_def gdt_set_entry_def gdt_install_def g gdt_entry_def zero_gdt_e_def
        flat_segment_def seg_base_def seg_top_def seg_limit_def)
qed

theorem gdt_init_flat_witness:
  "\<exists>s'. gdt_init 0xC0105000 gdt0 = Some s' \<and> gdtr s' = \<lparr>lim = 39, base = 0xC0105000\<rparr>"
  using gdt_init_flat [of gdt0 "0xC0105000"] by (auto simp: gdt0_def klib.defs)

end
