(* ===== verification/Idt.thy ===== *)
theory Idt
  imports Gdt
begin

text \<open>
  kern/x86/idt.c: the interrupt descriptor table and the remapping of the two interrupt
  controllers.  The stubs \<open>isr0..isr31\<close> and \<open>irq0..irq15\<close> are labels of kern/asm/int.S; their
  addresses are arguments.  Proved: the processor finds stub \<open>v\<close> behind vector \<open>v\<close>, for the 48
  vectors the code sets, and every other gate stays absent.
\<close>

record idt_e =
  low :: u16
  sel :: u16
  zero :: u8
  flags :: u8
  high :: u16

record idt_state = gdt_state +
  idt_entries :: "idt_e list"
  idt_ptr :: dt_p
  idtr :: dt_p
  interrupts_on :: bool

definition zero_idt_e :: idt_e where
  "zero_idt_e = \<lparr>low = 0, sel = 0, zero = 0, flags = 0, high = 0\<rparr>"

definition idt0 :: idt_state where
  "idt0 = gdt_state.extend gdt0 \<lparr>idt_entries = replicate 256 zero_idt_e,
     idt_ptr = \<lparr>lim = 0, base = 0\<rparr>, idtr = \<lparr>lim = 0, base = 0\<rparr>, interrupts_on = False\<rparr>"

section \<open>Operations\<close>

definition pic_remap :: "'a machine_scheme \<Rightarrow> 'a machine_scheme" where
  "pic_remap s = outports
     [(0x20, 0x11), (0xA0, 0x11), (0x21, 0x20), (0xA1, 0x28), (0x21, 0x04), (0xA1, 0x02),
      (0x21, 0x01), (0xA1, 0x01), (0x21, 0x0), (0xA1, 0x0)] s"

definition idt_entry :: "u32 \<Rightarrow> u16 \<Rightarrow> u8 \<Rightarrow> idt_e" where
  "idt_entry add sl fl =
     \<lparr>low = ucast (add AND 0xFFFF), sel = sl, zero = 0, flags = fl,
      high = ucast (drop_bit 16 add AND 0xFFFF)\<rparr>"

text \<open>The vector is an 8-bit number and the table has 256 entries: no index is out of range.\<close>

definition idt_add_entry ::
    "u8 \<Rightarrow> u32 \<Rightarrow> u16 \<Rightarrow> u8 \<Rightarrow> 'a idt_state_scheme \<Rightarrow> 'a idt_state_scheme" where
  "idt_add_entry vec add sl fl s =
     s\<lparr>idt_entries := (idt_entries s)[unat vec := idt_entry add sl fl]\<rparr>"

definition idt_install :: "'a idt_state_scheme \<Rightarrow> 'a idt_state_scheme" where
  "idt_install s = s\<lparr>idtr := idt_ptr s, interrupts_on := True\<rparr>"

text \<open>The 48 calls of \<open>idt_add_entry\<close>, in the order of the code.\<close>

definition idt_init ::
    "u32 \<Rightarrow> (nat \<Rightarrow> u32) \<Rightarrow> (nat \<Rightarrow> u32) \<Rightarrow> 'a idt_state_scheme \<Rightarrow> 'a idt_state_scheme" where
  "idt_init entries_addr isr irq s =
     (let s = s\<lparr>idt_ptr := \<lparr>lim = 8 * 256 - 1, base = entries_addr\<rparr>\<rparr>;
          s = pic_remap s;
          s = fold (\<lambda>v. idt_add_entry (word_of_nat v) (isr v) 0x08 0x8E) [0..<32] s;
          s = fold (\<lambda>v. idt_add_entry (word_of_nat v) (irq (v - 32)) 0x08 0x8E) [32..<48] s
      in idt_install s)"

section \<open>What the processor reads\<close>

definition gate_target :: "idt_e \<Rightarrow> u32" where
  "gate_target e = ucast (low e) OR push_bit 16 (ucast (high e))"

definition gate_present :: "idt_e \<Rightarrow> bool" where
  "gate_present e = bit (flags e) 7"

lemma idt_entry_target: "gate_target (idt_entry add sl fl) = add"
proof (rule bit_word_eqI)
  fix n :: nat assume "n < LENGTH(32)"
  then consider "n < 16" | "16 \<le> n" "n < 32" by force
  then show "bit (gate_target (idt_entry add sl fl)) n = bit add n"
    by cases (auto simp: gate_target_def idt_entry_def and_masks bit_simps)
qed

lemma idt_entry_fields [simp]:
  "sel (idt_entry add sl fl) = sl" "flags (idt_entry add sl fl) = fl" "zero (idt_entry add sl fl) = 0"
  by (simp_all add: idt_entry_def)

lemma fold_add_entries:
  assumes "length (idt_entries s) = 256" "b \<le> 256" "v < 256"
  shows "idt_entries (fold (\<lambda>v. idt_add_entry (word_of_nat v) (f v) sl fl) [a..<b] s) ! v =
      (if a \<le> v \<and> v < b then idt_entry (f v) sl fl else idt_entries s ! v) \<and>
    length (idt_entries (fold (\<lambda>v. idt_add_entry (word_of_nat v) (f v) sl fl) [a..<b] s)) = 256"
  using assms
proof (induction b)
  case (Suc b)
  then show ?case
    by (auto simp: idt_add_entry_def unat_of_nat nth_list_update)
qed simp

lemma idt_init_entries:
  assumes "length (idt_entries s) = 256" "v < 256"
  shows "idt_entries (idt_init a isr irq s) ! v =
    (if v < 32 then idt_entry (isr v) 8 0x8E
     else if v < 48 then idt_entry (irq (v - 32)) 8 0x8E else idt_entries s ! v)"
proof -
  let ?s1 = "pic_remap (s\<lparr>idt_ptr := \<lparr>lim = 8 * 256 - 1, base = a\<rparr>\<rparr>)"
  let ?s2 = "fold (\<lambda>v. idt_add_entry (word_of_nat v) (isr v) 0x08 0x8E) [0..<32] ?s1"
  have 1: "idt_entries ?s1 = idt_entries s" by (simp add: pic_remap_def outports_ports)
  have 2: "idt_entries ?s2 ! v = (if v < 32 then idt_entry (isr v) 8 0x8E else idt_entries s ! v)"
    "length (idt_entries ?s2) = 256"
    using fold_add_entries [of ?s1 32 v isr 8 "0x8E" 0] assms 1 by auto
  show ?thesis
    using fold_add_entries [of ?s2 48 v "\<lambda>v. irq (v - 32)" 8 "0x8E" 32] assms(2) 2
    by (simp add: idt_init_def idt_install_def Let_def del: upt_rec_numeral)
qed

text \<open>
  After \<open>idt_init\<close>, the gate of each processor exception and each remapped request line is
  present, targets its assembly stub and runs in the kernel code segment; every other gate is
  as absent as the zero-initialised table had it.
\<close>

theorem idt_init_gates:
  assumes "idt_entries s = replicate 256 zero_idt_e" and "v < 256"
  shows "let e = idt_entries (idt_init a isr irq s) ! v in
    gate_present e = (v < 48) \<and>
    (if v < 32 then gate_target e = isr v \<and> sel e = 8
     else if v < 48 then gate_target e = irq (v - 32) \<and> sel e = 8 else e = zero_idt_e)"
  using assms idt_init_entries [of s v a isr irq]
  by (simp add: idt_entry_target gate_present_def zero_idt_e_def Let_def)

theorem idt_init_gates_witness:
  "gate_target (idt_entries (idt_init 0xC0106000 (\<lambda>v. 0xC0100000 + word_of_nat v)
      (\<lambda>v. 0xC0101000 + word_of_nat v) idt0) ! 33) = 0xC0101001"
  using idt_init_gates [of idt0 33 "0xC0106000" "\<lambda>v. 0xC0100000 + word_of_nat v"
      "\<lambda>v. 0xC0101000 + word_of_nat v"]
  by (simp add: idt0_def gdt_state.defs Let_def)

end
