(* ===== verification/Interrupts.thy ===== *)
theory Interrupts
  imports Idt
begin

text \<open>
  kern/x86/int.c: the table of C handlers and the two entry points that the assembly stubs
  call.  A function pointer of the table is a value of \<open>handler\<close>, one constructor per handler the
  kernel registers; what calling one does is the argument \<open>run\<close>, supplied where the handlers are
  defined.  Proved: dispatch to the registered handler, the acknowledgements \<open>irq_handler\<close> sends
  and when it sends them, and the message for a trap without handler.
\<close>

datatype handler = Page_fault | Timer_handler

record regs_t =
  r_gs :: u32
  r_fs :: u32
  r_es :: u32
  r_ds :: u32
  r_edi :: u32
  r_esi :: u32
  r_ebp :: u32
  r_esp :: u32
  r_ebx :: u32
  r_edx :: u32
  r_ecx :: u32
  r_eax :: u32
  int_no :: u32
  err_code :: u32
  r_eip :: u32
  r_cs :: u32
  r_eflags :: u32
  r_useresp :: u32
  r_ss :: u32

record int_state = idt_state +
  handlers :: "handler option list"

definition int0 :: int_state where
  "int0 = idt_state.extend idt0 \<lparr>handlers = replicate 256 None\<rparr>"

definition regs_of :: "u32 \<Rightarrow> u32 \<Rightarrow> regs_t" where
  "regs_of n err = \<lparr>r_gs = 0, r_fs = 0, r_es = 0, r_ds = 0, r_edi = 0, r_esi = 0, r_ebp = 0,
     r_esp = 0, r_ebx = 0, r_edx = 0, r_ecx = 0, r_eax = 0, int_no = n, err_code = err,
     r_eip = 0, r_cs = 0, r_eflags = 0, r_useresp = 0, r_ss = 0\<rparr>"

section \<open>Operations\<close>

definition trap_messages :: "u8 list list" where
  "trap_messages = map str
     [''Division by zero'', ''Debug'', ''Non-maskable interrupt'', ''Breakpoint'',
      ''Detected overflow'', ''Out-of-bounds'', ''Invalid opcode'', ''No coprocessor'',
      ''Double fault'', ''Coprocessor segment overrun'', ''Bad TSS'', ''Segment not present'',
      ''Stack fault'', ''General protection fault'', ''Page fault'', ''Unknown interrupt'',
      ''Coprocessor fault'', ''Alignment check'', ''Machine check'', ''Reserved'', ''Reserved'',
      ''Reserved'', ''Reserved'', ''Reserved'', ''Reserved'', ''Reserved'', ''Reserved'',
      ''Reserved'', ''Reserved'', ''Reserved'', ''Reserved'', ''Reserved'']"

definition add_int_handler :: "u8 \<Rightarrow> handler \<Rightarrow> 'a int_state_scheme \<Rightarrow> 'a int_state_scheme" where
  "add_int_handler n h s = s\<lparr>handlers := (handlers s)[unat n := Some h]\<rparr>"

definition isr_handler ::
    "(handler \<Rightarrow> regs_t \<Rightarrow> 'a int_state_scheme \<Rightarrow> 'a int_state_scheme option) \<Rightarrow> regs_t
     \<Rightarrow> 'a int_state_scheme \<Rightarrow> 'a int_state_scheme option" where
  "isr_handler run r s =
     (let n = int_no r in
      if unat n < length (handlers s) then
        (case handlers s ! unat n of
           Some h \<Rightarrow> run h r s
         | None \<Rightarrow>
             if unat n < length trap_messages then
               kprintf (str ''recieved trap %x (%d) -> %s \<newline>'')
                 [KInt n, KInt n, KStr (trap_messages ! unat n)] s
             else None)
      else None)"

definition irq_handler ::
    "(handler \<Rightarrow> regs_t \<Rightarrow> 'a int_state_scheme \<Rightarrow> 'a int_state_scheme option) \<Rightarrow> regs_t
     \<Rightarrow> 'a int_state_scheme \<Rightarrow> 'a int_state_scheme option" where
  "irq_handler run r s =
     (let n = int_no r in
      if unat n < length (handlers s) then
        do {
          s \<leftarrow> (case handlers s ! unat n of
                 Some h \<Rightarrow> run h r s
               | None \<Rightarrow> kprintf (str ''recieved hardware int %x (%d) \<newline>'') [KInt n, KInt n] s);
          let s = (if 40 \<le> n then outport 0xA0 0x20 s else s);
          Some (outport 0x20 0x20 s)
        }
      else None)"

section \<open>Dispatch and acknowledgement\<close>

text \<open>What the controllers are told at the end of an interrupt of vector \<open>n\<close>.\<close>

definition eoi :: "u32 \<Rightarrow> (u16 \<times> u8) list" where
  "eoi n = (if 40 \<le> n then [(0xA0, 0x20), (0x20, 0x20)] else [(0x20, 0x20)])"

lemma unat_ucast_vector: "unat (ucast (n :: u8) :: u32) = unat n"
  using unat_bound8 [of n] by (simp add: unsigned_ucast_eq take_bit_nat_eq_self_iff)

lemma vector_eq: "int_no r = ucast n \<Longrightarrow> unat (int_no r) = unat (n :: u8)"
  by (simp add: unat_ucast_vector)

lemma irq_handler_registered:
  assumes "unat (int_no r) < length (handlers s)" "handlers s ! unat (int_no r) = Some h"
    "run h r s = Some t"
  shows "irq_handler run r s = Some (outports (eoi (int_no r)) t)"
  using assms by (simp add: irq_handler_def Let_def outports_def eoi_def)

text \<open>
  Once \<open>add_int_handler\<close> has registered a handler for a vector, both entry points call it for
  that vector: \<open>isr_handler\<close> is exactly the call, and \<open>irq_handler\<close> is the call followed by the
  acknowledgement, to both controllers for vectors from 40 on and to the master alone below.
  The entry of every other vector is unchanged.
\<close>

theorem registered_handler_runs:
  assumes "length (handlers s) = 256" and "s' = add_int_handler n h s"
  shows "(int_no r = ucast n \<longrightarrow>
      isr_handler run r s' = run h r s' \<and>
      irq_handler run r s' = map_option (outports (eoi (int_no r))) (run h r s')) \<and>
    (\<forall>k. k \<noteq> unat n \<longrightarrow> handlers s' ! k = handlers s ! k)"
proof -
  have at_n: "handlers s' ! unat n = Some h" "unat n < length (handlers s')"
    and others: "\<forall>k. k \<noteq> unat n \<longrightarrow> handlers s' ! k = handlers s ! k"
    using assms unat_bound8 [of n] by (simp_all add: add_int_handler_def)
  have "isr_handler run r s' = run h r s' \<and>
      irq_handler run r s' = map_option (outports (eoi (int_no r))) (run h r s')"
    if "int_no r = ucast n"
    using at_n by (cases "run h r s'")
      (simp_all add: isr_handler_def irq_handler_def Let_def that unat_ucast_vector
        outports_def eoi_def)
  with others show ?thesis by blast
qed

theorem registered_handler_runs_witness:
  "ports (the (irq_handler (\<lambda>_ _. Some) (regs_of 41 0) (add_int_handler 41 Timer_handler int0)))
     = [(0xA0, 0x20), (0x20, 0x20)]"
  using registered_handler_runs [of int0 "add_int_handler 41 Timer_handler int0" 41 Timer_handler
      "regs_of 41 0" "\<lambda>_ _. Some"]
  by (simp add: int0_def regs_of_def idt_state.defs add_int_handler_def outports_ports eoi_def
      idt0_def gdt_state.defs gdt0_def klib.defs klib0_def console.defs console0_def)

lemma trap_messages_length: "length trap_messages = 32"
  by (simp add: trap_messages_def)

text \<open>
  A vector without handler never stops the kernel: an exception (vector below 32) prints its
  message and returns, and a device interrupt prints a message and is acknowledged.  Only a trap
  from 32 on without handler would read past the table of messages.
\<close>

theorem unhandled_interrupts_return:
  assumes "handlers s = replicate 256 None" and "itoa_buf_ok (itoa_buf s)" and "int_no r < 256"
  shows "(int_no r < 32 \<longrightarrow> (\<exists>t. isr_handler run r s = Some t \<and> ram t = ram s)) \<and>
    (32 \<le> int_no r \<longrightarrow> isr_handler run r s = None) \<and>
    (\<exists>t. irq_handler run r s = Some (outports (eoi (int_no r)) t) \<and> ram t = ram s)"
proof -
  let ?n = "int_no r"
  obtain t where t: "kprintf (str ''recieved hardware int %x (%d) \<newline>'') [KInt ?n, KInt ?n] s = Some t"
    using kprintf_matches [of "str ''recieved hardware int %x (%d) \<newline>''" "[KInt ?n, KInt ?n]" s] assms(2)
    by auto
  obtain u where u: "kprintf (str ''recieved trap %x (%d) -> %s \<newline>'')
      [KInt ?n, KInt ?n, KStr (trap_messages ! unat ?n)] s = Some u"
    using kprintf_matches [of "str ''recieved trap %x (%d) -> %s \<newline>''"
        "[KInt ?n, KInt ?n, KStr (trap_messages ! unat ?n)]" s] assms(2)
    by auto
  have b: "unat ?n < 256" using assms(3) by (simp add: word_less_nat_alt)
  have "ram t = ram s" "ram u = ram s"
    using kprintf_ram [OF t] kprintf_ram [OF u] by simp_all
  then show ?thesis
    using assms(1) b t u
    by (auto simp: isr_handler_def irq_handler_def Let_def trap_messages_length word_less_nat_alt
        word_le_nat_alt outports_def eoi_def)
qed

theorem unhandled_interrupts_return_witness:
  "isr_handler (\<lambda>_ _. Some) (regs_of 33 0) int0 = None"
  using unhandled_interrupts_return [of int0 "regs_of 33 0" "\<lambda>_ _. Some"]
  by (simp add: int0_def regs_of_def idt_state.defs idt0_def gdt_state.defs gdt0_def klib.defs
      klib0_def console.defs itoa_buf_ok_def)

end
