(* ===== verification/Kheap.thy ===== *)
theory Kheap
  imports Interrupts
begin

text \<open>
  kern/mm/kheap.c: the kernel heap.  A block is its header, the payload and a footer that points
  back to the header; free blocks are kept in nine doubly linked lists (bins) by the logarithm
  of their size, each sorted by size.  Every structure lives in \<open>ram\<close> at the offsets the i386
  compiler gives it:
  \<^item> \<open>block_t\<close>: \<open>hole\<close> at 0 (one byte), \<open>size\<close> at 4, \<open>next\<close> at 8, \<open>prev\<close> at 12; 16 bytes;
  \<^item> \<open>footer_t\<close>: \<open>header\<close> at 0; 4 bytes, right after the payload;
  \<^item> \<open>bin_t\<close>: \<open>head\<close> at 0; \<open>heap_t\<close>: \<open>start\<close> 0, \<open>end\<close> 4, \<open>max\<close> 8, \<open>super\<close> 12, \<open>ro\<close> 13,
    \<open>bins\<close> 16.
  The address given to the caller is that of the \<open>next\<close> field.  The array \<open>bins\<close> is read without
  a bounds check, as in C: an index past 8 reads the memory behind the structure.  The state
  carries the file's two globals and the bump pointer of kern/mm/kmalloc.c.
\<close>

record heap_state = int_state +
  kheap_initialized :: u8
  kheap :: u32
  alloc_ptr :: u32

definition KHEAP_START :: u32 where "KHEAP_START = 0xD0000000"
definition KHEAP_END :: u32 where "KHEAP_END = 0xD0100000"
definition MIN_ALLOC_SZ :: u32 where "MIN_ALLOC_SZ = 4"
definition BIN_CNT :: u32 where "BIN_CNT = 9"
definition BLCK_OVERHEAD :: u32 where "BLCK_OVERHEAD = 20"
definition OFFSET :: u32 where "OFFSET = 8"
definition PG_SZ :: u32 where "PG_SZ = 0x1000"

lemmas heap_const = KHEAP_START_def KHEAP_END_def MIN_ALLOC_SZ_def BIN_CNT_def
  BLCK_OVERHEAD_def OFFSET_def PG_SZ_def

section \<open>Fields\<close>

definition blk_hole :: "mem \<Rightarrow> u32 \<Rightarrow> u8" where "blk_hole m b = m b"
definition blk_size :: "mem \<Rightarrow> u32 \<Rightarrow> u32" where "blk_size m b = load32 m (b + 4)"
definition blk_next :: "mem \<Rightarrow> u32 \<Rightarrow> u32" where "blk_next m b = load32 m (b + 8)"
definition blk_prev :: "mem \<Rightarrow> u32 \<Rightarrow> u32" where "blk_prev m b = load32 m (b + 12)"

definition set_hole :: "u32 \<Rightarrow> u8 \<Rightarrow> mem \<Rightarrow> mem" where "set_hole b v m = m(b := v)"
definition set_size :: "u32 \<Rightarrow> u32 \<Rightarrow> mem \<Rightarrow> mem" where "set_size b v m = store32 m (b + 4) v"
definition set_next :: "u32 \<Rightarrow> u32 \<Rightarrow> mem \<Rightarrow> mem" where "set_next b v m = store32 m (b + 8) v"
definition set_prev :: "u32 \<Rightarrow> u32 \<Rightarrow> mem \<Rightarrow> mem" where "set_prev b v m = store32 m (b + 12) v"

definition bin_head :: "mem \<Rightarrow> u32 \<Rightarrow> u32" where "bin_head m bin = load32 m bin"
definition set_head :: "u32 \<Rightarrow> u32 \<Rightarrow> mem \<Rightarrow> mem" where "set_head bin v m = store32 m bin v"

definition foot_header :: "mem \<Rightarrow> u32 \<Rightarrow> u32" where "foot_header m f = load32 m f"
definition set_foot_header :: "u32 \<Rightarrow> u32 \<Rightarrow> mem \<Rightarrow> mem" where
  "set_foot_header f v m = store32 m f v"

definition heap_start :: "mem \<Rightarrow> u32 \<Rightarrow> u32" where "heap_start m h = load32 m h"
definition heap_end :: "mem \<Rightarrow> u32 \<Rightarrow> u32" where "heap_end m h = load32 m (h + 4)"
definition heap_bin :: "mem \<Rightarrow> u32 \<Rightarrow> u32 \<Rightarrow> u32" where
  "heap_bin m h i = load32 m (h + 16 + 4 * i)"

lemmas blk_fields = blk_hole_def blk_size_def blk_next_def blk_prev_def
  set_hole_def set_size_def set_next_def set_prev_def bin_head_def set_head_def
  foot_header_def set_foot_header_def

section \<open>Footers and bin indices\<close>

definition get_foot :: "mem \<Rightarrow> u32 \<Rightarrow> u32" where
  "get_foot m blck = blck + 16 + blk_size m blck"

definition create_foot :: "u32 \<Rightarrow> mem \<Rightarrow> mem" where
  "create_foot blck m = set_foot_header (get_foot m blck) blck m"

function bin_index_loop :: "u32 \<Rightarrow> u32 \<Rightarrow> u32" where
  "bin_index_loop sz index =
     (let sz = drop_bit 1 sz in if sz \<noteq> 0 then bin_index_loop sz (index + 1) else index)"
  by pat_completeness auto
termination
proof (relation "measure (\<lambda>(sz, index). unat sz)", goal_cases)
  case (2 sz index x)
  then have "unat (drop_bit 1 sz) < unat sz"
    by (cases "sz = 0") (auto simp: unat_div drop_bit_Suc unat_gt_0)
  with 2 show ?case by simp
qed simp

declare bin_index_loop.simps [simp del]

definition get_bin_index :: "u32 \<Rightarrow> u32" where
  "get_bin_index sz =
     (let sz = (if sz < 4 then 4 else sz);
          index = bin_index_loop sz 0 - 2
      in if BIN_CNT - 1 < index then BIN_CNT - 1 else index)"

definition get_bin :: "mem \<Rightarrow> u32 \<Rightarrow> u32 \<Rightarrow> u32" where
  "get_bin m h sz = heap_bin m h (get_bin_index sz)"

definition get_wilderness :: "mem \<Rightarrow> u32 \<Rightarrow> u32" where
  "get_wilderness m h = foot_header m (heap_end m h - 4)"

section \<open>The lists of free blocks\<close>

partial_function (option) first_fit_loop :: "mem \<Rightarrow> u32 \<Rightarrow> u32 \<Rightarrow> u32 option" where
  "first_fit_loop m temp sz =
     (if temp = 0 then Some 0
      else if sz \<le> blk_size m temp then Some temp
      else first_fit_loop m (blk_next m temp) sz)"

definition get_first_fit :: "mem \<Rightarrow> u32 \<Rightarrow> u32 \<Rightarrow> u32 option" where
  "get_first_fit m bin sz =
     (if bin_head m bin = 0 then Some 0 else first_fit_loop m (bin_head m bin) sz)"

text \<open>The walk of \<open>add_block_sorted\<close>: the pair of \<open>temp\<close> and \<open>prev\<close> when it stops.\<close>

partial_function (option) sorted_pos :: "mem \<Rightarrow> u32 \<Rightarrow> u32 \<Rightarrow> u32 \<Rightarrow> (u32 \<times> u32) option" where
  "sorted_pos m blck temp prev =
     (if temp \<noteq> 0 \<and> blk_size m temp \<le> blk_size m blck
      then sorted_pos m blck (blk_next m temp) temp
      else Some (temp, prev))"

definition add_block_sorted :: "u32 \<Rightarrow> u32 \<Rightarrow> mem \<Rightarrow> mem option" where
  "add_block_sorted bin blck m0 =
     (let m = set_prev blck 0 (set_next blck 0 m0) in
      if bin_head m bin = 0 then Some (set_head bin blck m)
      else do {
        (temp, prev) \<leftarrow> sorted_pos m blck (bin_head m bin) 0;
        Some
          (if temp = 0 then set_prev blck prev (set_next prev blck m)
           else if prev \<noteq> 0 then
             set_prev temp blck (set_prev blck prev (set_next prev blck (set_next blck temp m)))
           else
             (let m = set_next blck (bin_head m bin) m;
                  m = set_prev (bin_head m bin) blck m
              in set_head bin blck m))
      })"

partial_function (option) find_block :: "mem \<Rightarrow> u32 \<Rightarrow> u32 \<Rightarrow> bool option" where
  "find_block m temp blck =
     (if temp = 0 then Some False
      else if temp = blck then Some True
      else find_block m (blk_next m temp) blck)"

definition unlink :: "u32 \<Rightarrow> mem \<Rightarrow> mem" where
  "unlink temp m =
     (if blk_next m temp = 0 then set_next (blk_prev m temp) 0 m
      else
        (let m = set_next (blk_prev m temp) (blk_next m temp) m
         in set_prev (blk_next m temp) (blk_prev m temp) m))"

definition remove_block ::
    "u32 \<Rightarrow> u32 \<Rightarrow> 'a heap_state_scheme \<Rightarrow> 'a heap_state_scheme option" where
  "remove_block bin blck s =
     (let m = ram s in
      if bin_head m bin = 0 then Some s
      else if bin_head m bin = blck then
        Some (s\<lparr>ram := set_prev blck 0 (set_next blck 0
                 (set_head bin (blk_next m (bin_head m bin)) m))\<rparr>)
      else do {
        found \<leftarrow> find_block m (blk_next m (bin_head m bin)) blck;
        if found then
          Some (s\<lparr>ram := set_prev blck 0 (set_next blck 0 (unlink blck m))\<rparr>)
        else kprintf (str ''block not in bin... whatttt \<newline>'') [] s
      })"

section \<open>Allocation and release\<close>

definition kheap_init :: "'a heap_state_scheme \<Rightarrow> 'a heap_state_scheme option" where
  "kheap_init s =
     (let init = KHEAP_START;
          m = set_size init (KHEAP_END - KHEAP_START - BLCK_OVERHEAD) (ram s);
          m = set_prev init 0 (set_next init 0 m);
          m = create_foot init m
      in do {
        m \<leftarrow> add_block_sorted (get_bin m (kheap s) (blk_size m init)) init m;
        Some (s\<lparr>ram := m, kheap_initialized := 1\<rparr>)
      })"

text \<open>The search over the bins: it goes on to the next bin until a block is found.\<close>

partial_function (option) bin_search :: "mem \<Rightarrow> u32 \<Rightarrow> u32 \<Rightarrow> u32 \<Rightarrow> (u32 \<times> u32) option" where
  "bin_search m h idx sz =
     do {
       found \<leftarrow> get_first_fit m (heap_bin m h idx) sz;
       if found \<noteq> 0 then Some (heap_bin m h idx, found) else bin_search m h (idx + 1) sz
     }"

definition split_block :: "u32 \<Rightarrow> u32 \<Rightarrow> u32 \<Rightarrow> mem \<Rightarrow> mem option" where
  "split_block h found sz m =
     (let split = found + BLCK_OVERHEAD + sz;
          m = set_size split (blk_size m found - sz - BLCK_OVERHEAD) m;
          m = set_hole split 1 m;
          m = create_foot split m
      in do {
        m \<leftarrow> add_block_sorted (get_bin m h (blk_size m split)) split m;
        let m = set_size found sz m;
        Some (create_foot found m)
      })"

definition kheap_alloc ::
    "u32 \<Rightarrow> 'a heap_state_scheme \<Rightarrow> (u32 \<times> 'a heap_state_scheme) option" where
  "kheap_alloc sz s =
     do {
       (tmp, found) \<leftarrow> bin_search (ram s) (kheap s) (get_bin_index sz) sz;
       m \<leftarrow> (if BLCK_OVERHEAD + MIN_ALLOC_SZ < blk_size (ram s) found - sz
             then split_block (kheap s) found sz (ram s) else Some (ram s));
       s \<leftarrow> remove_block tmp found (s\<lparr>ram := set_hole found 0 m\<rparr>);
       Some (found + 8, s\<lparr>ram := memset (found + 8) 0 (blk_size (ram s) found + 8) (ram s)\<rparr>)
     }"

text \<open>
  The two ways of \<open>kheap_alloc_a\<close> to cut the wilderness \<open>wild\<close>: up to a page boundary, or from
  its start on.
\<close>

definition carve_aligned :: "u32 \<Rightarrow> u32 \<Rightarrow> u32 \<Rightarrow> u32 \<Rightarrow> mem \<Rightarrow> (u32 \<times> mem) option" where
  "carve_aligned h wild old_sz sz m =
     do {
       let extra = PG_SZ - (wild AND 0xFFF);
       let m = set_size wild (extra - BLCK_OVERHEAD - 8) m;
       let m = set_hole wild 1 (create_foot wild m);
       m \<leftarrow> add_block_sorted (get_bin m h (blk_size m wild)) wild m;
       let ret = wild + blk_size m wild + BLCK_OVERHEAD;
       let m = set_hole ret 0 (create_foot ret (set_size ret sz m));
       let new_wild = ret + sz + BLCK_OVERHEAD;
       let m = set_size new_wild
         (old_sz - blk_size m wild - blk_size m ret - 2 * BLCK_OVERHEAD) m;
       let m = create_foot new_wild (set_hole new_wild 1 m);
       m \<leftarrow> add_block_sorted (get_bin m h (blk_size m new_wild)) new_wild m;
       Some (ret, m)
     }"

definition carve_start :: "u32 \<Rightarrow> u32 \<Rightarrow> u32 \<Rightarrow> mem \<Rightarrow> (u32 \<times> mem) option" where
  "carve_start h wild sz m =
     do {
       let new_wild = wild + sz + BLCK_OVERHEAD;
       let m = create_foot new_wild (set_hole new_wild 1 m);
       m \<leftarrow> add_block_sorted (get_bin m h (blk_size m new_wild)) new_wild m;
       let m = set_hole wild 0 (set_size wild sz m);
       Some (wild, create_foot wild m)
     }"

text \<open>
  The test for a page boundary is written with the logical \<open>&&\<close>: it asks whether \<open>wild + 8\<close> is
  the null pointer.
\<close>

definition kheap_alloc_a ::
    "u32 \<Rightarrow> 'a heap_state_scheme \<Rightarrow> (u32 \<times> 'a heap_state_scheme) option" where
  "kheap_alloc_a sz s =
     (let wild = get_wilderness (ram s) (kheap s);
          old_sz = blk_size (ram s) wild;
          m = set_hole wild 1 (ram s)
      in do {
        s \<leftarrow> remove_block (get_bin m (kheap s) (blk_size m wild)) wild (s\<lparr>ram := m\<rparr>);
        let on_boundary = (wild + 8 = 0);
        (ret, m) \<leftarrow>
          (if \<not> on_boundary then carve_aligned (kheap s) wild old_sz sz (ram s)
           else carve_start (kheap s) wild sz (ram s));
        Some (ret + 8, s\<lparr>ram := memset (ret + 8) 0 (blk_size m ret + 8) m\<rparr>)
      })"

text \<open>The two merges of \<open>kheap_free\<close>, with the block before and with the block behind.\<close>

definition coalesce_prev ::
    "u32 \<Rightarrow> u32 \<Rightarrow> u32 \<Rightarrow> 'a heap_state_scheme \<Rightarrow> (u32 \<times> 'a heap_state_scheme) option" where
  "coalesce_prev h prev_b blck s =
     (if blk_hole (ram s) prev_b \<noteq> 0 then
        do {
          s \<leftarrow> remove_block (get_bin (ram s) h (blk_size (ram s) prev_b)) prev_b s;
          let m = ram s;
          let m = set_size prev_b (blk_size m prev_b + (BLCK_OVERHEAD + blk_size m blck)) m;
          let m = set_foot_header (get_foot m blck) prev_b m;
          Some (prev_b, s\<lparr>ram := m\<rparr>)
        }
      else Some (blck, s))"

definition coalesce_next ::
    "u32 \<Rightarrow> u32 \<Rightarrow> u32 \<Rightarrow> 'a heap_state_scheme \<Rightarrow> 'a heap_state_scheme option" where
  "coalesce_next h next_b blck s =
     (if blk_hole (ram s) next_b \<noteq> 0 then
        do {
          s \<leftarrow> remove_block (get_bin (ram s) h (blk_size (ram s) next_b)) next_b s;
          let m = ram s;
          let m = set_size blck (blk_size m blck + (BLCK_OVERHEAD + blk_size m next_b)) m;
          let m = set_foot_header (get_foot m next_b) 0 m;
          let m = set_size next_b 0 m;
          let m = set_foot_header (get_foot m blck) blck m;
          Some (s\<lparr>ram := m\<rparr>)
        }
      else Some s)"

definition kheap_free ::
    "u32 \<Rightarrow> 'a heap_state_scheme \<Rightarrow> 'a heap_state_scheme option" where
  "kheap_free addr s0 =
     (let blck = addr - OFFSET; h = kheap s0 in
      if blck = heap_start (ram s0) h then
        do {
          let m = set_hole blck 1 (ram s0);
          m \<leftarrow> add_block_sorted (get_bin m h (blk_size m blck)) blck m;
          Some (s0\<lparr>ram := m\<rparr>)
        }
      else
        do {
          let next_b = get_foot (ram s0) blck + 4;
          let prev_b = foot_header (ram s0) (blck - 4);
          (blck, s) \<leftarrow> coalesce_prev h prev_b blck s0;
          s \<leftarrow> coalesce_next h next_b blck s;
          let m = set_hole blck 1 (ram s);
          m \<leftarrow> add_block_sorted (get_bin m h (blk_size m blck)) blck m;
          Some (s\<lparr>ram := m\<rparr>)
        })"

end
