(* ===== verification/Kheap_Bins.thy ===== *)
theory Kheap_Bins
  imports Kheap
begin

text \<open>
  The bins of the kernel heap as lists: \<open>bin_list m bin xs\<close> says that the bin at address \<open>bin\<close>
  holds exactly the blocks \<open>xs\<close>, in this order, sorted by size, with the back links right (the
  back link of the head is whatever \<open>remove_block\<close> left there).  Proved: the loops end on such
  lists, \<open>add_block_sorted\<close> is sorted insertion behind blocks of the same size,
  \<open>remove_block\<close> is removal, \<open>get_first_fit\<close> finds the smallest block that fits, each touches only
  the links of the blocks concerned, and \<open>get_bin_index\<close> is the capped logarithm.
\<close>

section \<open>Fields after updates\<close>

lemma apart_field:
  assumes "apart x 16 y 16" "unat c + n \<le> 16" "unat d + k \<le> 16" "0 < n" "0 < k"
  shows "apart (x + c) n (y + d) k"
  by (rule apart_shift [OF assms])

lemma fields_same_block [simp]:
  "blk_next (set_next x v m) x = v" "blk_prev (set_prev x v m) x = v"
  "blk_size (set_size x v m) x = v" "blk_hole (set_hole x b m) x = b"
  "blk_next (set_prev x v m) x = blk_next m x" "blk_prev (set_next x v m) x = blk_prev m x"
  "blk_size (set_next x v m) x = blk_size m x" "blk_size (set_prev x v m) x = blk_size m x"
  "blk_size (set_hole x b m) x = blk_size m x" "blk_next (set_size x v m) x = blk_next m x"
  "blk_prev (set_size x v m) x = blk_prev m x" "blk_next (set_hole x b m) x = blk_next m x"
  "blk_prev (set_hole x b m) x = blk_prev m x" "blk_hole (set_next x v m) x = blk_hole m x"
  "blk_hole (set_prev x v m) x = blk_hole m x" "blk_hole (set_size x v m) x = blk_hole m x"
  by (simp_all add: blk_fields mem_simps store32_other)

lemma fields_other_block:
  assumes "apart x 16 y 16"
  shows "blk_next (set_next x v m) y = blk_next m y" "blk_prev (set_next x v m) y = blk_prev m y"
    "blk_size (set_next x v m) y = blk_size m y" "blk_hole (set_next x v m) y = blk_hole m y"
    "blk_next (set_prev x v m) y = blk_next m y" "blk_prev (set_prev x v m) y = blk_prev m y"
    "blk_size (set_prev x v m) y = blk_size m y" "blk_hole (set_prev x v m) y = blk_hole m y"
    "blk_next (set_size x v m) y = blk_next m y" "blk_prev (set_size x v m) y = blk_prev m y"
    "blk_size (set_size x v m) y = blk_size m y" "blk_hole (set_size x v m) y = blk_hole m y"
    "blk_next (set_hole x b m) y = blk_next m y" "blk_prev (set_hole x b m) y = blk_prev m y"
    "blk_size (set_hole x b m) y = blk_size m y" "blk_hole (set_hole x b m) y = blk_hole m y"
proof -
  have f: "apart (x + c) 4 (y + d) 4" if "unat c \<le> 12" "unat d \<le> 12" for c d
    using apart_field [OF assms, of c 4 d 4] that by simp
  have h: "apart x (Suc 0) (y + d) 4" if "unat d \<le> 12" for d
    using apart_field [OF assms, of 0 1 d 4] that by simp
  have g: "apart (x + c) 4 y (Suc 0)" if "unat c \<le> 12" for c
    using apart_field [OF assms, of c 4 0 1] that by simp
  have n: "x \<noteq> y" using assms by (rule apart_neq) simp
  show "blk_next (set_next x v m) y = blk_next m y" "blk_prev (set_next x v m) y = blk_prev m y"
    "blk_size (set_next x v m) y = blk_size m y" "blk_hole (set_next x v m) y = blk_hole m y"
    "blk_next (set_prev x v m) y = blk_next m y" "blk_prev (set_prev x v m) y = blk_prev m y"
    "blk_size (set_prev x v m) y = blk_size m y" "blk_hole (set_prev x v m) y = blk_hole m y"
    "blk_next (set_size x v m) y = blk_next m y" "blk_prev (set_size x v m) y = blk_prev m y"
    "blk_size (set_size x v m) y = blk_size m y" "blk_hole (set_size x v m) y = blk_hole m y"
    "blk_next (set_hole x b m) y = blk_next m y" "blk_prev (set_hole x b m) y = blk_prev m y"
    "blk_size (set_hole x b m) y = blk_size m y" "blk_hole (set_hole x b m) y = blk_hole m y"
    using n by (simp_all add: blk_fields load32_store32_apart store32_other load32_upd_apart f g h)
qed

text \<open>Storing a word outside a block, in particular a bin's head, keeps the block's fields.\<close>

lemma fields_outside:
  assumes "apart a 4 y 16"
  shows "blk_next (store32 m a v) y = blk_next m y" "blk_prev (store32 m a v) y = blk_prev m y"
    "blk_size (store32 m a v) y = blk_size m y" "blk_hole (store32 m a v) y = blk_hole m y"
proof -
  have f: "apart a 4 (y + d) 4" if "unat d \<le> 12" for d
    using apart_shift_right [OF assms, of d 4] that by simp
  have g: "apart a 4 y (Suc 0)" using apart_mono [OF assms, of 4 1] by simp
  show "blk_next (store32 m a v) y = blk_next m y" "blk_prev (store32 m a v) y = blk_prev m y"
    "blk_size (store32 m a v) y = blk_size m y" "blk_hole (store32 m a v) y = blk_hole m y"
    by (simp_all add: blk_fields load32_store32_apart store32_other f g)
qed

lemma fields_set_head:
  assumes "apart bin 4 y 16"
  shows "blk_next (set_head bin v m) y = blk_next m y" "blk_prev (set_head bin v m) y = blk_prev m y"
    "blk_size (set_head bin v m) y = blk_size m y" "blk_hole (set_head bin v m) y = blk_hole m y"
  using fields_outside [OF assms] by (simp_all add: set_head_def)

lemma bin_head_same [simp]: "bin_head (set_head bin v m) bin = v"
  by (simp add: blk_fields)

lemma bin_head_other:
  assumes "apart bin 4 x 16"
  shows "bin_head (set_next x v m) bin = bin_head m bin" "bin_head (set_prev x v m) bin = bin_head m bin"
    "bin_head (set_size x v m) bin = bin_head m bin" "bin_head (set_hole x b m) bin = bin_head m bin"
proof -
  have "apart x 16 bin 4" using assms by (simp add: apart_sym)
  then have f: "apart (x + c) 4 bin 4" if "unat c \<le> 12" for c
    using apart_shift_left [of x 16 bin 4 c 4] that by simp
  have g: "apart x (Suc 0) bin 4" using apart_mono [OF \<open>apart x 16 bin 4\<close>, of 1 4] by simp
  show "bin_head (set_next x v m) bin = bin_head m bin" "bin_head (set_prev x v m) bin = bin_head m bin"
    "bin_head (set_size x v m) bin = bin_head m bin" "bin_head (set_hole x b m) bin = bin_head m bin"
    by (simp_all add: blk_fields load32_store32_apart load32_upd_apart f g)
qed

section \<open>Paths and back links\<close>

fun path :: "mem \<Rightarrow> u32 \<Rightarrow> u32 list \<Rightarrow> u32 \<Rightarrow> bool" where
  "path m p [] q \<longleftrightarrow> p = q"
| "path m p (x # xs) q \<longleftrightarrow> p = x \<and> x \<noteq> 0 \<and> path m (blk_next m x) xs q"

fun back_links :: "mem \<Rightarrow> u32 list \<Rightarrow> bool" where
  "back_links m (x # y # ys) \<longleftrightarrow> blk_prev m y = x \<and> back_links m (y # ys)"
| "back_links m _ = True"

lemma path_append: "path m p (xs @ ys) q \<longleftrightarrow> (\<exists>r. path m p xs r \<and> path m r ys q)"
  by (induction xs arbitrary: p) auto

lemma path_cong:
  "(\<And>x. x \<in> set xs \<Longrightarrow> blk_next m' x = blk_next m x) \<Longrightarrow> path m' p xs q = path m p xs q"
  by (induction xs arbitrary: p) auto

lemma back_links_cong:
  "(\<And>x. x \<in> set (tl xs) \<Longrightarrow> blk_prev m' x = blk_prev m x) \<Longrightarrow> back_links m' xs = back_links m xs"
  by (induction m xs rule: back_links.induct) auto

lemma path_0 [simp]: "path m 0 xs q \<longleftrightarrow> xs = [] \<and> q = 0"
  by (cases xs) auto

lemma path_nonzero: "p \<noteq> 0 \<Longrightarrow> path m p xs 0 \<longleftrightarrow> (\<exists>ys. xs = p # ys \<and> path m (blk_next m p) ys 0)"
  by (cases xs) auto

lemma path_unique: "path m p xs 0 \<Longrightarrow> path m p ys 0 \<Longrightarrow> xs = ys"
proof (induction xs arbitrary: p ys)
  case Nil
  then show ?case by simp
next
  case (Cons x xs)
  then show ?case by (auto simp: path_nonzero)
qed

lemma path_head_fresh: "path m (blk_next m x) xs 0 \<Longrightarrow> x \<noteq> 0 \<Longrightarrow> x \<notin> set xs"
proof
  assume p: "path m (blk_next m x) xs 0" and "x \<noteq> 0" and "x \<in> set xs"
  then obtain ys zs where xs: "xs = ys @ x # zs" by (meson split_list)
  then have "path m (blk_next m x) zs 0" using p by (auto simp: path_append)
  then have "zs = xs" using p by (rule path_unique)
  then show False using xs by (metis append_Cons append_self_conv2 list.distinct(1) append_eq_conv_conj
        length_Cons length_append less_add_Suc1 less_irrefl_nat add_Suc_right)
qed

lemma path_mem_nonzero: "path m p xs q \<Longrightarrow> x \<in> set xs \<Longrightarrow> x \<noteq> 0"
  by (induction xs arbitrary: p) auto

lemma path_distinct: "path m p xs 0 \<Longrightarrow> distinct xs"
  by (induction xs arbitrary: p) (auto simp: path_head_fresh)

lemma back_links_append:
  "back_links m (xs @ y # ys) \<longleftrightarrow>
     back_links m xs \<and> back_links m (y # ys) \<and> (xs \<noteq> [] \<longrightarrow> blk_prev m y = last xs)"
  by (induction m xs rule: back_links.induct) auto

section \<open>Bins as lists\<close>

text \<open>Two block addresses are the same block or have disjoint headers.\<close>

definition sep2 :: "u32 \<Rightarrow> u32 \<Rightarrow> bool" where
  "sep2 x y \<longleftrightarrow> x = y \<or> apart x 16 y 16"

lemma fields_if:
  assumes "sep2 x y"
  shows "blk_next (set_next x v m) y = (if y = x then v else blk_next m y)"
    "blk_prev (set_prev x v m) y = (if y = x then v else blk_prev m y)"
    "blk_size (set_size x v m) y = (if y = x then v else blk_size m y)"
    "blk_hole (set_hole x b m) y = (if y = x then b else blk_hole m y)"
    "blk_prev (set_next x v m) y = blk_prev m y" "blk_size (set_next x v m) y = blk_size m y"
    "blk_hole (set_next x v m) y = blk_hole m y" "blk_next (set_prev x v m) y = blk_next m y"
    "blk_size (set_prev x v m) y = blk_size m y" "blk_hole (set_prev x v m) y = blk_hole m y"
    "blk_next (set_size x v m) y = blk_next m y" "blk_prev (set_size x v m) y = blk_prev m y"
    "blk_hole (set_size x v m) y = blk_hole m y" "blk_next (set_hole x b m) y = blk_next m y"
    "blk_prev (set_hole x b m) y = blk_prev m y" "blk_size (set_hole x b m) y = blk_size m y"
  using assms by (auto simp: sep2_def fields_other_block)

definition separated :: "u32 set \<Rightarrow> bool" where
  "separated S \<longleftrightarrow> (\<forall>x\<in>S. \<forall>y\<in>S. sep2 x y)"

lemma separatedD: "separated S \<Longrightarrow> x \<in> S \<Longrightarrow> y \<in> S \<Longrightarrow> sep2 x y"
  by (auto simp: separated_def)

lemma separated_subset: "separated S \<Longrightarrow> T \<subseteq> S \<Longrightarrow> separated T"
  by (auto simp: separated_def)

definition bin_list :: "mem \<Rightarrow> u32 \<Rightarrow> u32 list \<Rightarrow> bool" where
  "bin_list m bin xs \<longleftrightarrow> path m (bin_head m bin) xs 0 \<and> back_links m xs \<and>
     sorted (map (blk_size m) xs) \<and> (\<forall>x\<in>set xs. apart bin 4 x 16) \<and> separated (set xs)"

text \<open>The same without the order by size, which \<open>kheap_alloc\<close> breaks for a moment.\<close>

definition bin_chain :: "mem \<Rightarrow> u32 \<Rightarrow> u32 list \<Rightarrow> bool" where
  "bin_chain m bin xs \<longleftrightarrow> path m (bin_head m bin) xs 0 \<and> back_links m xs \<and>
     (\<forall>x\<in>set xs. apart bin 4 x 16) \<and> separated (set xs)"

lemma bin_list_chain:
  "bin_list m bin xs \<longleftrightarrow> bin_chain m bin xs \<and> sorted (map (blk_size m) xs)"
  by (auto simp: bin_list_def bin_chain_def)

text \<open>
  What an operation on one bin may write: the head of the bin and the two links of the blocks
  of a set.
\<close>

definition links_only :: "u32 \<Rightarrow> u32 set \<Rightarrow> mem \<Rightarrow> mem \<Rightarrow> bool" where
  "links_only bin S m m' \<longleftrightarrow>
     (\<forall>a. apart bin 4 a 1 \<longrightarrow> (\<forall>x\<in>S. apart (x + 8) 8 a 1) \<longrightarrow> m' a = m a)"

lemma links_only_refl [simp]: "links_only bin S m m"
  by (simp add: links_only_def)

lemma links_only_steps:
  assumes "links_only bin S m m'"
  shows "links_only bin S m (set_head bin v m')"
    "x \<in> S \<Longrightarrow> links_only bin S m (set_next x v m')"
    "x \<in> S \<Longrightarrow> links_only bin S m (set_prev x v m')"
proof -
  have n: "apart (x + 8) 4 a 1" and p: "apart (x + 12) 4 a 1" if "apart (x + 8) 8 a 1" for a
    using apart_shift_left [OF that, of 0 4] apart_shift_left [OF that, of 4 4]
    by (simp_all add: add.assoc)
  show "links_only bin S m (set_head bin v m')"
    using assms by (simp add: links_only_def set_head_def store32_other)
  show "links_only bin S m (set_next x v m')" if "x \<in> S"
    using assms that n by (simp add: links_only_def set_next_def store32_other)
  show "links_only bin S m (set_prev x v m')" if "x \<in> S"
    using assms that p by (simp add: links_only_def set_prev_def store32_other)
qed

lemma links_only_size:
  assumes l: "links_only bin S m m'" and b: "apart bin 4 y 8"
    and s: "\<And>x. x \<in> S \<Longrightarrow> sep2 x y"
  shows "blk_size m' y = blk_size m y" "blk_hole m' y = blk_hole m y"
proof -
  have eq: "m' (y + d) = m (y + d)" if d: "unat d < 8" for d
  proof -
    have "apart bin 4 (y + d) 1" using apart_shift_right [OF b, of d 1] d by simp
    moreover have "apart (x + 8) 8 (y + d) 1" if "x \<in> S" for x
    proof (cases "x = y")
      case True
      have "unat (d - 8) \<ge> 8 \<and> 1 \<le> unat (8 - d)"
        using d by (auto simp: unat_sub_if_size word_size)
      then show ?thesis using True by (simp add: apart_def)
    next
      case False
      then have "apart x 16 y 16" using s [OF that] by (simp add: sep2_def)
      then show ?thesis using apart_field [of x y 8 8 d 1] d by simp
    qed
    ultimately show ?thesis using l by (simp add: links_only_def)
  qed
  have "m' (y + 4 + c) = m (y + 4 + c)" if "unat c < 4" for c
  proof -
    have "unat (4 + c) < 8"
      using that by (simp add: unat_word_ariths)
    from eq [OF this] show ?thesis by (simp add: add.assoc)
  qed
  then show "blk_size m' y = blk_size m y"
    unfolding blk_size_def by (rule load32_cong)
  show "blk_hole m' y = blk_hole m y"
    using eq [of 0] by (simp add: blk_hole_def)
qed

section \<open>Insertion\<close>

declare first_fit_loop.simps [simp del] sorted_pos.simps [simp del] find_block.simps [simp del]

definition bin_insert :: "mem \<Rightarrow> u32 \<Rightarrow> u32 list \<Rightarrow> u32 list" where
  "bin_insert m b xs = takeWhile (\<lambda>x. blk_size m x \<le> blk_size m b) xs @ b #
     dropWhile (\<lambda>x. blk_size m x \<le> blk_size m b) xs"

lemma set_bin_insert [simp]: "set (bin_insert m b xs) = insert b (set xs)"
  unfolding bin_insert_def
  by (simp, metis set_append takeWhile_dropWhile_id Un_commute)

lemma bin_insert_eq:
  "bin_insert m b (ys @ zs) = ys @ b # zs"
  if "\<And>y. y \<in> set ys \<Longrightarrow> blk_size m y \<le> blk_size m b" "zs \<noteq> [] \<Longrightarrow> \<not> blk_size m (hd zs) \<le> blk_size m b"
  using that by (cases zs) (auto simp: bin_insert_def takeWhile_append2 dropWhile_append2)

lemma sorted_pos_path:
  assumes "path m temp xs 0"
  shows "sorted_pos m b temp prev =
    Some (case dropWhile (\<lambda>x. blk_size m x \<le> blk_size m b) xs of [] \<Rightarrow> 0 | z # _ \<Rightarrow> z,
          last (prev # takeWhile (\<lambda>x. blk_size m x \<le> blk_size m b) xs))"
  using assms
proof (induction xs arbitrary: temp prev)
  case Nil
  then show ?case by (subst sorted_pos.simps) simp
next
  case (Cons x xs)
  then show ?case by (subst sorted_pos.simps) auto
qed

lemma sorted_insert_position:
  assumes "sorted (map f (ys @ zs))" "\<And>y. y \<in> set ys \<Longrightarrow> f y \<le> f b" "zs \<noteq> [] \<Longrightarrow> f b \<le> f (hd zs)"
  shows "sorted (map f (ys @ b # zs))"
  using assms by (cases zs) (auto simp: sorted_append)

text \<open>
  The links of the memory after \<open>b\<close> went in between \<open>ys\<close> and \<open>zs\<close>, and that they are all a bin
  list needs.
\<close>

definition linked_between :: "mem \<Rightarrow> mem \<Rightarrow> u32 list \<Rightarrow> u32 \<Rightarrow> u32 list \<Rightarrow> bool" where
  "linked_between m m' ys b zs \<longleftrightarrow>
     (\<forall>x \<in> insert b (set (ys @ zs)).
        blk_next m' x = (if x = b then (case zs of [] \<Rightarrow> 0 | z # _ \<Rightarrow> z)
                         else if ys \<noteq> [] \<and> x = last ys then b else blk_next m x) \<and>
        (x = b \<longrightarrow> ys \<noteq> [] \<longrightarrow> blk_prev m' x = last ys) \<and>
        (x \<noteq> b \<longrightarrow> blk_prev m' x = (if zs \<noteq> [] \<and> x = hd zs then b else blk_prev m x)))"

lemma linked_betweenD:
  assumes "linked_between m m' ys b zs" "x \<in> set (ys @ zs)" "x \<noteq> b"
  shows "blk_next m' x = (if ys \<noteq> [] \<and> x = last ys then b else blk_next m x)"
    "blk_prev m' x = (if zs \<noteq> [] \<and> x = hd zs then b else blk_prev m x)"
proof -
  have "x \<in> insert b (set (ys @ zs))" using assms(2) by simp
  from bspec [OF assms(1) [unfolded linked_between_def] this] assms(3) show
    "blk_next m' x = (if ys \<noteq> [] \<and> x = last ys then b else blk_next m x)"
    "blk_prev m' x = (if zs \<noteq> [] \<and> x = hd zs then b else blk_prev m x)"
    by simp_all
qed

lemma linked_between_path:
  assumes "linked_between m m' ys b zs" "path m p (ys @ zs) 0" "b \<noteq> 0" "b \<notin> set (ys @ zs)"
  shows "path m' (if ys = [] then b else p) (ys @ b # zs) 0"
proof -
  have d: "distinct (ys @ zs)" using assms(2) by (rule path_distinct)
  have zs: "path m' (case zs of [] \<Rightarrow> 0 | z # _ \<Rightarrow> z) zs 0"
  proof (cases zs)
    case Nil
    then show ?thesis by simp
  next
    case (Cons z zs')
    obtain r where "path m p ys r" "path m r zs 0" using assms(2) by (auto simp: path_append)
    then have "path m z zs 0" using Cons by simp
    have c: "blk_next m' x = blk_next m x" if "x \<in> set zs" for x
    proof -
      have "x \<noteq> b" "ys \<noteq> [] \<longrightarrow> x \<noteq> last ys" "x \<in> set (ys @ zs)"
        using that assms(4) d last_in_set [of ys] by (auto simp: disjoint_iff)
      then show ?thesis using linked_betweenD [OF assms(1)] by auto
    qed
    have "path m' z zs 0 = path m z zs 0" by (rule path_cong) (rule c)
    then show ?thesis using \<open>path m z zs 0\<close> Cons by simp
  qed
  have b: "path m' b (b # zs) 0"
    using zs assms(1,3) by (simp add: linked_between_def)
  show ?thesis
  proof (cases ys rule: rev_cases)
    case Nil
    then show ?thesis using b by simp
  next
    case (snoc ys' y)
    obtain r where "path m p (ys' @ [y]) r" using assms(2) snoc path_append [of m p ys zs 0] by auto
    then have p: "path m p ys' y" "y \<noteq> 0" by (auto simp: path_append)
    have "blk_next m' x = blk_next m x" if "x \<in> set ys'" for x
    proof -
      have "x \<noteq> b" "x \<noteq> y" "x \<in> set (ys @ zs)" using that assms(4) d snoc by auto
      then show ?thesis using linked_betweenD [OF assms(1)] snoc by simp
    qed
    then have "path m' p ys' y" using p path_cong [of ys' m' m] by simp
    moreover have "blk_next m' y = b"
    proof -
      have "y \<noteq> b" "y \<in> set (ys @ zs)" using assms(4) snoc by auto
      then show ?thesis using linked_betweenD [OF assms(1)] snoc by simp
    qed
    ultimately show ?thesis using b p(2) snoc by (auto simp: path_append)
  qed
qed

lemma linked_between_back:
  assumes "linked_between m m' ys b zs" "back_links m (ys @ zs)" "distinct (ys @ zs)"
    "b \<notin> set (ys @ zs)"
  shows "back_links m' (ys @ b # zs)"
proof -
  have ys: "back_links m' ys"
  proof -
    have "back_links m ys"
      using assms(2) by (cases zs) (auto simp: back_links_append)
    moreover have "blk_prev m' x = blk_prev m x" if "x \<in> set (tl ys)" for x
    proof -
      have "x \<in> set ys" using that by (rule list.set_sel(2) [rotated]) (use that in auto)
      then have "x \<noteq> b" "zs \<noteq> [] \<longrightarrow> x \<noteq> hd zs" "x \<in> set (ys @ zs)"
        using assms(3,4) by auto
      then show ?thesis using linked_betweenD [OF assms(1)] by auto
    qed
    ultimately show ?thesis using back_links_cong [of ys m' m] by simp
  qed
  have "back_links m' (b # zs)"
  proof (cases zs)
    case Nil
    then show ?thesis by simp
  next
    case (Cons z zs')
    have "back_links m zs"
      using assms(2) Cons back_links_append [of m ys z zs'] by simp
    moreover have "blk_prev m' x = blk_prev m x" if "x \<in> set (tl zs)" for x
    proof -
      have "x \<noteq> b" "x \<noteq> hd zs" "x \<in> set (ys @ zs)"
        using that assms(3,4) Cons by auto
      then show ?thesis using linked_betweenD [OF assms(1)] by auto
    qed
    ultimately have "back_links m' zs" using back_links_cong [of zs m' m] by simp
    moreover have "blk_prev m' z = b"
    proof -
      have "z \<noteq> b" "z \<in> set (ys @ zs)" using assms(4) Cons by auto
      then show ?thesis using linked_betweenD [OF assms(1)] Cons by simp
    qed
    ultimately show ?thesis using Cons by simp
  qed
  then show ?thesis
    using ys assms(1) by (simp add: back_links_append linked_between_def)
qed

text \<open>The blocks and the head of a bin that an insertion works on, all in one place.\<close>

lemma add_block_sorted_links:
  assumes bl: "bin_list m bin xs" and b: "b \<noteq> 0" "b \<notin> set xs" "apart bin 4 b 16"
    and sep: "separated (insert b (set xs))"
    and split: "xs = ys @ zs" "ys = takeWhile (\<lambda>x. blk_size m x \<le> blk_size m b) xs"
      "zs = dropWhile (\<lambda>x. blk_size m x \<le> blk_size m b) xs"
  shows "\<exists>m'. add_block_sorted bin b m = Some m' \<and> linked_between m m' ys b zs \<and>
    bin_head m' bin = (if ys = [] then b else bin_head m bin) \<and>
    links_only bin (insert b (set xs)) m m'"
proof -
  let ?S = "insert b (set xs)"
  let ?m1 = "set_prev b 0 (set_next b 0 m)"
  have s2: "\<And>x y. x \<in> ?S \<Longrightarrow> y \<in> ?S \<Longrightarrow> sep2 x y" using sep by (auto simp: separated_def)
  have bh: "\<And>x. x \<in> ?S \<Longrightarrow> apart bin 4 x 16" using bl b by (auto simp: bin_list_def)
  have p: "path m (bin_head m bin) xs 0" using bl by (simp add: bin_list_def)
  then have d: "distinct xs" by (rule path_distinct)
  have nz: "\<And>x. x \<in> set xs \<Longrightarrow> x \<noteq> 0" using p by (rule path_mem_nonzero)
  note f = fields_if [OF s2] fields_set_head [OF bh] bin_head_other [OF bh]
  have sz: "blk_size ?m1 x = blk_size m x" if "x \<in> ?S" for x using that by (simp add: f)
  have p1: "path ?m1 (bin_head ?m1 bin) xs 0"
  proof -
    have "blk_next ?m1 x = blk_next m x" if "x \<in> set xs" for x
      using that b(2) by (auto simp: f)
    then show ?thesis using p path_cong [of xs ?m1 m] by (simp add: f)
  qed
  have tw: "takeWhile (\<lambda>x. blk_size ?m1 x \<le> blk_size ?m1 b) xs = ys"
    "dropWhile (\<lambda>x. blk_size ?m1 x \<le> blk_size ?m1 b) xs = zs"
    unfolding split(2,3) by (auto intro!: takeWhile_cong dropWhile_cong simp: sz)
  have pos: "sorted_pos ?m1 b (bin_head ?m1 bin) 0 =
      Some (case zs of [] \<Rightarrow> 0 | z # _ \<Rightarrow> z, last (0 # ys))"
    using sorted_pos_path [OF p1, of b 0] tw by simp
  have lo: "links_only bin ?S m ?m1" by (intro links_only_steps links_only_refl) auto
  consider (empty) "xs = []" | (last) y where "ys \<noteq> []" "last ys = y" "zs = []"
    | (first) z zs' where "ys = []" "zs = z # zs'"
    | (middle) y z zs' where "ys \<noteq> []" "last ys = y" "zs = z # zs'"
    using split(1) by (cases zs; cases "ys = []") auto
  then show ?thesis
  proof cases
    case empty
    then have "bin_head m bin = 0" using p by simp
    then have "add_block_sorted bin b m = Some (set_head bin b ?m1)"
      by (simp add: add_block_sorted_def f)
    moreover have "links_only bin ?S m (set_head bin b ?m1)" by (intro links_only_steps lo)
    ultimately show ?thesis
      using empty split(1) by (auto simp: linked_between_def f)
  next
    case last
    then have xs: "xs = ys" and y: "y \<in> set xs" "y \<noteq> b" "y \<noteq> 0"
      using split(1) b(2) nz by auto
    have hd: "bin_head m bin \<noteq> 0" using p xs last(1) nz by (cases ys) auto
    let ?m' = "set_prev b y (set_next y b ?m1)"
    have "add_block_sorted bin b m = Some ?m'"
      using pos last hd by (simp add: add_block_sorted_def f)
    moreover have "links_only bin ?S m ?m'" using y by (intro links_only_steps lo) auto
    moreover have "linked_between m ?m' ys b zs"
      using xs y last b(2) by (auto simp: linked_between_def f)
    ultimately show ?thesis using xs y last by (auto simp: f)
  next
    case first
    then have xs: "xs = z # zs'" and z: "z \<in> set xs" "z \<noteq> b" "z \<noteq> 0" "bin_head m bin = z"
      using split(1) b(2) nz p by auto
    let ?m' = "set_head bin b (set_prev z b (set_next b z ?m1))"
    have "add_block_sorted bin b m = Some ?m'"
      using pos first z by (simp add: add_block_sorted_def f Let_def)
    moreover have "links_only bin ?S m ?m'" using z by (intro links_only_steps lo) auto
    moreover have "linked_between m ?m' ys b zs"
      using xs z first b(2) by (auto simp: linked_between_def f)
    ultimately show ?thesis using first by auto
  next
    case middle
    then have xs: "xs = ys @ z # zs'" and y: "y \<in> set xs" "y \<in> set ys" "y \<noteq> b" "y \<noteq> 0"
      and z: "z \<in> set xs" "z \<noteq> b" "z \<noteq> 0"
      using split(1) b(2) nz by auto
    have yz: "y \<noteq> z" using d xs y(2) by auto
    have hd: "bin_head m bin \<noteq> 0" using p xs middle(1) nz by (cases ys) auto
    let ?m' = "set_prev z b (set_prev b y (set_next y b (set_next b z ?m1)))"
    have "add_block_sorted bin b m = Some ?m'"
      using pos middle hd y(4) z(3) by (simp add: add_block_sorted_def f)
    moreover have "links_only bin ?S m ?m'" using y z by (intro links_only_steps lo) auto
    moreover have "linked_between m ?m' ys b zs"
      using xs y z yz middle b(2) by (auto simp: linked_between_def f)
    ultimately show ?thesis using xs y z middle by (auto simp: f)
  qed
qed

lemma add_block_sorted_list:
  assumes bl: "bin_list m bin xs" and b: "b \<noteq> 0" "b \<notin> set xs" "apart bin 4 b 16"
    and sep: "separated (insert b (set xs))"
  shows "\<exists>m'. add_block_sorted bin b m = Some m' \<and> bin_list m' bin (bin_insert m b xs) \<and>
    links_only bin (insert b (set xs)) m m'"
proof -
  let ?S = "insert b (set xs)"
  define ys where "ys = takeWhile (\<lambda>x. blk_size m x \<le> blk_size m b) xs"
  define zs where "zs = dropWhile (\<lambda>x. blk_size m x \<le> blk_size m b) xs"
  have xs: "xs = ys @ zs" by (simp add: ys_def zs_def)
  have bi: "bin_insert m b xs = ys @ b # zs" by (simp add: bin_insert_def ys_def zs_def)
  obtain m' where m': "add_block_sorted bin b m = Some m'" "linked_between m m' ys b zs"
    "bin_head m' bin = (if ys = [] then b else bin_head m bin)" "links_only bin ?S m m'"
    using add_block_sorted_links [OF assms xs ys_def zs_def] by blast
  have p: "path m (bin_head m bin) (ys @ zs) 0" and bk: "back_links m (ys @ zs)"
    and so: "sorted (map (blk_size m) (ys @ zs))"
    using bl xs by (auto simp: bin_list_def)
  have apart8: "apart bin 4 x 8" if "x \<in> ?S" for x
    using bl b that by (auto simp: bin_list_def intro: apart_mono)
  have size: "blk_size m' x = blk_size m x" if "x \<in> ?S" for x
    using links_only_size [OF m'(4) apart8 [OF that]] sep that by (auto simp: separated_def)
  have "path m' (bin_head m' bin) (ys @ b # zs) 0"
    using linked_between_path [OF m'(2) p b(1)] b(2) xs m'(3) by simp
  moreover have "back_links m' (ys @ b # zs)"
    using linked_between_back [OF m'(2) bk path_distinct [OF p]] b(2) xs by simp
  moreover have "sorted (map (blk_size m) (ys @ b # zs))"
  proof (rule sorted_insert_position [OF so])
    show "blk_size m y \<le> blk_size m b" if "y \<in> set ys" for y
      using that set_takeWhileD by (fastforce simp: ys_def)
    show "blk_size m b \<le> blk_size m (hd zs)" if "zs \<noteq> []"
      using that hd_dropWhile [of "\<lambda>x. blk_size m x \<le> blk_size m b" xs] by (simp add: zs_def)
  qed
  then have "sorted (map (blk_size m') (ys @ b # zs))"
    using size xs by (simp cong: map_cong)
  ultimately have "bin_list m' bin (bin_insert m b xs)"
    unfolding bi using bl b(3) sep xs by (simp add: bin_list_def)
  then show ?thesis using m'(1,4) by blast
qed

section \<open>Search\<close>

lemma first_fit_loop_path:
  "path m temp xs 0 \<Longrightarrow> first_fit_loop m temp sz =
     Some (case filter (\<lambda>x. sz \<le> blk_size m x) xs of [] \<Rightarrow> 0 | x # _ \<Rightarrow> x)"
proof (induction xs arbitrary: temp)
  case Nil
  then show ?case by (subst first_fit_loop.simps) simp
next
  case (Cons x xs)
  then show ?case by (subst first_fit_loop.simps) auto
qed

lemma get_first_fit_path:
  "path m (bin_head m bin) xs 0 \<Longrightarrow> get_first_fit m bin sz =
     Some (case filter (\<lambda>x. sz \<le> blk_size m x) xs of [] \<Rightarrow> 0 | x # _ \<Rightarrow> x)"
  by (auto simp: get_first_fit_def first_fit_loop_path)

lemma get_first_fit_best:
  assumes "bin_list m bin xs"
  shows "\<exists>r. get_first_fit m bin sz = Some r \<and>
    (r = 0 \<longrightarrow> (\<forall>x\<in>set xs. blk_size m x < sz)) \<and>
    (r \<noteq> 0 \<longrightarrow> r \<in> set xs \<and> sz \<le> blk_size m r \<and>
       (\<forall>x\<in>set xs. sz \<le> blk_size m x \<longrightarrow> blk_size m r \<le> blk_size m x))"
proof -
  let ?f = "filter (\<lambda>x. sz \<le> blk_size m x) xs"
  have p: "path m (bin_head m bin) xs 0" and so: "sorted (map (blk_size m) xs)"
    using assms by (auto simp: bin_list_def)
  show ?thesis
  proof (cases ?f)
    case Nil
    then have "\<forall>x\<in>set xs. blk_size m x < sz"
      by (simp add: filter_empty_conv not_le)
    then show ?thesis using Nil get_first_fit_path [OF p, of sz] by simp
  next
    case (Cons r rs)
    then have r: "r \<in> set xs" "sz \<le> blk_size m r"
      using Cons_eq_filterD [OF Cons [symmetric]] by auto
    have "sorted (map (blk_size m) ?f)" using so by (rule sorted_filter)
    then have "\<forall>x\<in>set ?f. blk_size m r \<le> blk_size m x" unfolding Cons by auto
    then have "\<forall>x\<in>set xs. sz \<le> blk_size m x \<longrightarrow> blk_size m r \<le> blk_size m x" by simp
    then show ?thesis
      using r Cons path_mem_nonzero [OF p] get_first_fit_path [OF p, of sz] by auto
  qed
qed

section \<open>Removal\<close>

lemma find_block_path: "path m temp xs 0 \<Longrightarrow> find_block m temp b = Some (b \<in> set xs)"
proof (induction xs arbitrary: temp)
  case Nil
  then show ?case by (subst find_block.simps) simp
next
  case (Cons x xs)
  then show ?case by (subst find_block.simps) auto
qed

text \<open>The links after a block behind the head went out from between \<open>ys\<close> and \<open>zs\<close>.\<close>

lemma path_unlinked:
  assumes p: "path m p (ys @ b # zs) 0" and ys: "ys \<noteq> []"
    and nx: "\<And>x. x \<in> set (ys @ zs) \<Longrightarrow>
      blk_next m' x = (if x = last ys then (case zs of [] \<Rightarrow> 0 | z # _ \<Rightarrow> z) else blk_next m x)"
  shows "path m' p (ys @ zs) 0"
proof -
  have d: "distinct (ys @ b # zs)" using p by (rule path_distinct)
  obtain ys' y where y: "ys = ys' @ [y]" using ys by (cases ys rule: rev_cases) auto
  have p': "path m p ys' y" "y \<noteq> 0" "path m (blk_next m b) zs 0"
    using p y by (auto simp: path_append)
  have n: "blk_next m b = (case zs of [] \<Rightarrow> 0 | z # _ \<Rightarrow> z)" using p'(3) by (cases zs) auto
  have "path m' p ys' y = path m p ys' y"
    by (rule path_cong) (use nx y d in auto)
  moreover have "path m' (blk_next m b) zs 0 = path m (blk_next m b) zs 0"
    by (rule path_cong) (use nx y d in auto)
  moreover have "blk_next m' y = blk_next m b" using nx [of y] y n by simp
  ultimately show ?thesis using p' y by (auto simp: path_append)
qed

lemma back_links_unlinked:
  assumes b: "back_links m (ys @ b # zs)" "distinct (ys @ b # zs)" and ys: "ys \<noteq> []"
    and pv: "\<And>x. x \<in> set (ys @ zs) \<Longrightarrow>
      blk_prev m' x = (if zs \<noteq> [] \<and> x = hd zs then last ys else blk_prev m x)"
  shows "back_links m' (ys @ zs)"
proof -
  have in_tl: "x \<in> set (tl ys) \<Longrightarrow> x \<in> set ys" for x by (cases ys) auto
  have "back_links m' ys = back_links m ys"
    by (rule back_links_cong) (use pv b(2) in_tl in \<open>cases zs; auto\<close>)
  then have 1: "back_links m' ys" using b(1) by (simp add: back_links_append)
  show ?thesis
  proof (cases zs)
    case Nil
    then show ?thesis using 1 by simp
  next
    case (Cons z zs')
    have "back_links m' zs = back_links m zs"
      by (rule back_links_cong) (use pv b(2) Cons in auto)
    then have "back_links m' zs" using b(1) Cons by (simp add: back_links_append)
    moreover have "blk_prev m' z = last ys" using pv Cons by simp
    ultimately show ?thesis using 1 Cons by (simp add: back_links_append)
  qed
qed

lemma bin_chain_subset:
  assumes "bin_chain m bin xs" "set ys \<subseteq> set xs" "path m' (bin_head m' bin) ys 0" "back_links m' ys"
  shows "bin_chain m' bin ys"
  using assms separated_subset [of "set xs" "set ys"] by (auto simp: bin_chain_def)

lemma remove_block_chain:
  assumes bl: "bin_chain (ram s) bin xs" and b: "b \<in> set xs"
  shows "\<exists>m'. remove_block bin b s = Some (s\<lparr>ram := m'\<rparr>) \<and> bin_chain m' bin (remove1 b xs) \<and>
    links_only bin (set xs) (ram s) m'"
proof -
  let ?m = "ram s"
  have s2: "\<And>x y. x \<in> set xs \<Longrightarrow> y \<in> set xs \<Longrightarrow> sep2 x y"
    and bh: "\<And>x. x \<in> set xs \<Longrightarrow> apart bin 4 x 16"
    and p: "path ?m (bin_head ?m bin) xs 0" and bk: "back_links ?m xs"
    using bl by (auto simp: bin_chain_def separated_def)
  have d: "distinct xs" using p by (rule path_distinct)
  have nz: "\<And>x. x \<in> set xs \<Longrightarrow> x \<noteq> 0" using p by (rule path_mem_nonzero)
  note f = fields_if [OF s2] fields_set_head [OF bh] bin_head_other [OF bh]
  obtain x0 xs0 where xs0: "xs = x0 # xs0" "bin_head ?m bin = x0" "path ?m (blk_next ?m x0) xs0 0"
    using p b by (cases xs) auto
  show ?thesis
  proof (cases "b = x0")
    case True
    let ?m' = "set_prev b 0 (set_next b 0 (set_head bin (blk_next ?m b) ?m))"
    have r: "remove_block bin b s = Some (s\<lparr>ram := ?m'\<rparr>)"
      using True xs0 nz b by (simp add: remove_block_def Let_def)
    have l: "links_only bin (set xs) ?m ?m'" using b by (intro links_only_steps links_only_refl) auto
    have "path ?m' (blk_next ?m b) xs0 0 = path ?m (blk_next ?m b) xs0 0"
      by (rule path_cong) (use True xs0(1) d in \<open>auto simp: f\<close>)
    then have "path ?m' (bin_head ?m' bin) xs0 0" using True xs0 b by (simp add: f)
    moreover have "back_links ?m' xs0 = back_links ?m xs0"
      by (rule back_links_cong) (use True xs0(1) d list.set_sel(2) [of xs0] in \<open>cases xs0; auto simp: f\<close>)
    then have "back_links ?m' xs0" using bk xs0(1) by (cases xs0) auto
    ultimately have "bin_chain ?m' bin (remove1 b xs)"
      using bin_chain_subset [OF bl, of "remove1 b xs"] True xs0(1) by auto
    then show ?thesis using r l by blast
  next
    case False
    then obtain ys zs where xs: "xs = ys @ b # zs" and ys: "ys \<noteq> []" "hd ys = x0"
      using b xs0(1) by (metis append_Nil hd_append list.sel(1) split_list)
    then have lst: "last ys \<in> set xs" "last ys \<noteq> b" and pb: "blk_prev ?m b = last ys"
      using d bk by (auto simp: back_links_append)
    have nb: "blk_next ?m b = (case zs of [] \<Rightarrow> 0 | z # _ \<Rightarrow> z)"
    proof -
      have "path ?m (blk_next ?m b) zs 0" using p xs by (auto simp: path_append)
      then show ?thesis by (cases zs) auto
    qed
    define m1 where "m1 = unlink b ?m"
    let ?m' = "set_prev b 0 (set_next b 0 m1)"
    have "find_block ?m (blk_next ?m x0) b = Some True"
      using find_block_path [OF xs0(3), of b] b False xs0(1) by simp
    then have r: "remove_block bin b s = Some (s\<lparr>ram := ?m'\<rparr>)"
      using False xs0 nz by (simp add: remove_block_def Let_def m1_def)
    have zin: "z \<in> set xs" "z \<noteq> b" "z \<noteq> 0" "z \<noteq> last ys" if "zs = z # zs'" for z zs'
      using that xs d nz ys(1) last_in_set [of ys] by auto
    have m1: "m1 = (case zs of [] \<Rightarrow> set_next (last ys) 0 ?m
        | z # _ \<Rightarrow> set_prev z (last ys) (set_next (last ys) z ?m))"
      using nb pb zin lst b by (auto simp: m1_def unlink_def f split: list.splits)
    have l1: "links_only bin (set xs) ?m m1"
      unfolding m1 using lst(1) zin by (cases zs) (auto intro!: links_only_steps)
    then have l: "links_only bin (set xs) ?m ?m'" using b by (intro links_only_steps) auto
    have nx: "blk_next ?m' x =
        (if x = last ys then (case zs of [] \<Rightarrow> 0 | z # _ \<Rightarrow> z) else blk_next ?m x)"
      if "x \<in> set (ys @ zs)" for x
      using that xs d lst b zin unfolding m1 by (cases zs) (auto simp: f)
    have pv: "blk_prev ?m' x = (if zs \<noteq> [] \<and> x = hd zs then last ys else blk_prev ?m x)"
      if "x \<in> set (ys @ zs)" for x
      using that xs d lst b zin unfolding m1 by (cases zs) (auto simp: f)
    have hd': "bin_head ?m' bin = bin_head ?m bin"
      using lst b zin unfolding m1 by (cases zs) (auto simp: f)
    have rm: "remove1 b xs = ys @ zs" using xs d by (simp add: remove1_append)
    have "path ?m' (bin_head ?m' bin) (ys @ zs) 0"
      unfolding hd' using p unfolding xs by (rule path_unlinked) (use ys(1) nx in auto)
    moreover have "back_links ?m' (ys @ zs)"
      by (rule back_links_unlinked [of ?m ys b zs]) (use bk d ys(1) pv xs in auto)
    ultimately have "bin_chain ?m' bin (remove1 b xs)"
      using bin_chain_subset [OF bl, of "remove1 b xs"] rm xs by auto
    then show ?thesis using r l by blast
  qed
qed

lemma links_only_sizes:
  assumes "links_only bin S m m'" "separated S" "\<forall>x\<in>S. apart bin 4 x 16" "y \<in> S"
  shows "blk_size m' y = blk_size m y" "blk_hole m' y = blk_hole m y"
proof -
  have "apart bin 4 y 16" using assms(3,4) by blast
  then have "apart bin 4 y 8" by (rule apart_mono) auto
  moreover have "\<And>x. x \<in> S \<Longrightarrow> sep2 x y" using assms(2,4) by (simp add: separated_def)
  ultimately show "blk_size m' y = blk_size m y" "blk_hole m' y = blk_hole m y"
    using links_only_size [OF assms(1)] by blast+
qed

text \<open>It is enough that the other blocks are in order.\<close>

lemma remove_block_but:
  assumes "bin_chain (ram s) bin xs" "b \<in> set xs" "sorted (map (blk_size (ram s)) (remove1 b xs))"
  shows "\<exists>m'. remove_block bin b s = Some (s\<lparr>ram := m'\<rparr>) \<and> bin_list m' bin (remove1 b xs) \<and>
    links_only bin (set xs) (ram s) m'"
proof -
  obtain m' where m': "remove_block bin b s = Some (s\<lparr>ram := m'\<rparr>)"
    "bin_chain m' bin (remove1 b xs)" "links_only bin (set xs) (ram s) m'"
    using remove_block_chain [OF assms(1,2)] by blast
  have "blk_size m' x = blk_size (ram s) x" if "x \<in> set xs" for x
    using links_only_sizes(1) [OF m'(3)] assms(1) that by (simp add: bin_chain_def)
  then have "map (blk_size m') (remove1 b xs) = map (blk_size (ram s)) (remove1 b xs)"
    using set_remove1_subset [of b xs] by auto
  then have "bin_list m' bin (remove1 b xs)"
    unfolding bin_list_chain using m'(2) assms(3) by metis
  then show ?thesis using m' by blast
qed

lemma remove_block_list:
  assumes bl: "bin_list (ram s) bin xs" and b: "b \<in> set xs"
  shows "\<exists>m'. remove_block bin b s = Some (s\<lparr>ram := m'\<rparr>) \<and> bin_list m' bin (remove1 b xs) \<and>
    links_only bin (set xs) (ram s) m'"
proof (rule remove_block_but [OF _ b])
  have "distinct xs" using bl path_distinct by (auto simp: bin_list_def)
  then show "sorted (map (blk_size (ram s)) (remove1 b xs))"
    using bl sorted_filter
    by (auto simp: bin_list_def distinct_remove1_removeAll removeAll_filter_not_eq)
qed (use bl in \<open>simp add: bin_list_chain\<close>)

section \<open>The bin of a size\<close>

lemma bin_index_loop_log:
  "2 ^ k \<le> unat sz \<Longrightarrow> unat sz < 2 ^ Suc k \<Longrightarrow> bin_index_loop sz i = i + word_of_nat k"
proof (induction k arbitrary: sz i)
  case 0
  then have "unat sz = 1" by simp
  then have "drop_bit 1 sz = 0" by (simp add: unat_drop_bit_eq flip: unat_eq_0)
  then show ?case by (subst bin_index_loop.simps) simp
next
  case (Suc k)
  have u: "unat (drop_bit 1 sz) = unat sz div 2"
    by (simp add: unat_div drop_bit_Suc)
  then have "2 ^ k \<le> unat (drop_bit 1 sz)" "unat (drop_bit 1 sz) < 2 ^ Suc k"
    using Suc.prems by auto
  then have "bin_index_loop (drop_bit 1 sz) (i + 1) = i + 1 + word_of_nat k"
    by (rule Suc.IH)
  moreover have "(0::nat) < 2 ^ k" by simp
  then have "0 < unat (drop_bit 1 sz)" using \<open>2 ^ k \<le> unat (drop_bit 1 sz)\<close> by linarith
  then have "drop_bit 1 sz \<noteq> 0" by (metis less_numeral_extra(3) unsigned_0)
  ultimately show ?case by (subst bin_index_loop.simps) (simp add: algebra_simps)
qed

lemma log_exists: "0 < n \<Longrightarrow> \<exists>k. 2 ^ k \<le> n \<and> n < 2 ^ Suc k" for n :: nat
proof (induction n rule: less_induct)
  case (less n)
  show ?case
  proof (cases "n = 1")
    case True
    then show ?thesis by (intro exI [of _ 0]) simp
  next
    case False
    then have "n div 2 < n" "0 < n div 2" using less.prems by auto
    then obtain k where "2 ^ k \<le> n div 2" "n div 2 < 2 ^ Suc k"
      using less.IH by blast
    then show ?thesis by (intro exI [of _ "Suc k"]) auto
  qed
qed

lemma get_bin_index_log:
  "\<exists>k. get_bin_index sz = word_of_nat (min (k - 2) 8) \<and> 2 \<le> k \<and> k < 32 \<and>
     2 ^ k \<le> max 4 (unat sz) \<and> max 4 (unat sz) < 2 ^ Suc k"
proof -
  let ?z = "if sz < 4 then 4 else sz"
  have z: "unat ?z = max 4 (unat sz)" by (auto simp: word_less_nat_alt max_def)
  then obtain k where k: "2 ^ k \<le> unat ?z" "unat ?z < 2 ^ Suc k"
    using log_exists [of "unat ?z"] by (metis less_max_iff_disj zero_less_numeral)
  have k2: "2 \<le> k"
  proof (rule ccontr)
    assume "\<not> 2 \<le> k"
    then have "(2::nat) ^ Suc k \<le> 2 ^ 2" by (intro power_increasing) auto
    then show False using k z by simp
  qed
  have k32: "k < 32"
  proof (rule ccontr)
    assume "\<not> k < 32"
    then have "(2::nat) ^ 32 \<le> 2 ^ k" by (intro power_increasing) auto
    then show False using k(1) unat_bound32 [of ?z] by simp
  qed
  have "bin_index_loop ?z 0 = word_of_nat k" using bin_index_loop_log [OF k, of 0] by simp
  moreover have "word_of_nat k - 2 = (word_of_nat (k - 2) :: u32)" using k2 by (simp add: of_nat_diff)
  moreover have "(8 < (word_of_nat (k - 2) :: u32)) = (8 < k - 2)"
    using k32 by (simp add: word_less_nat_alt unat_of_nat)
  ultimately have "get_bin_index sz = word_of_nat (min (k - 2) 8)"
    by (auto simp: get_bin_index_def BIN_CNT_def Let_def min_def)
  then show ?thesis using k k2 k32 z by auto
qed

text \<open>
  \<open>get_bin_index\<close> never leaves the array of nine bins.  Bin \<open>i\<close> below 8 is for the sizes from
  \<open>2 ^ (i + 2)\<close> to \<open>2 ^ (i + 3) - 1\<close> (sizes under 4 count as 4), bin 8 for everything from 1024 on.
\<close>

theorem get_bin_index_range:
  "unat (get_bin_index sz) \<le> 8 \<and>
   (unat (get_bin_index sz) < 8 \<longrightarrow>
      2 ^ (unat (get_bin_index sz) + 2) \<le> max 4 (unat sz) \<and>
      max 4 (unat sz) < 2 ^ (unat (get_bin_index sz) + 3)) \<and>
   (unat (get_bin_index sz) = 8 \<longleftrightarrow> 1024 \<le> unat sz)"
proof -
  obtain k where k: "get_bin_index sz = word_of_nat (min (k - 2) 8)" "2 \<le> k" "k < 32"
    "2 ^ k \<le> max 4 (unat sz)" "max 4 (unat sz) < 2 ^ Suc k"
    using get_bin_index_log by blast
  have u: "unat (get_bin_index sz) = min (k - 2) 8" using k(1) by (simp add: unat_of_nat)
  have "1024 \<le> unat sz \<longleftrightarrow> 10 \<le> k"
  proof
    assume "1024 \<le> unat sz"
    then have "(2::nat) ^ 10 < 2 ^ Suc k" using k(5) by simp
    then show "10 \<le> k" using power_less_imp_less_exp [of "2::nat" 10 "Suc k"] by simp
  next
    assume "10 \<le> k"
    then have "(2::nat) ^ 10 \<le> 2 ^ k" by (intro power_increasing) auto
    then show "1024 \<le> unat sz" using k(4) by simp
  qed
  moreover have "2 ^ (min (k - 2) 8 + 2) \<le> max 4 (unat sz) \<and> max 4 (unat sz) < 2 ^ (min (k - 2) 8 + 3)"
    if "min (k - 2) 8 < 8"
  proof -
    have "min (k - 2) 8 + 2 = k" "min (k - 2) 8 + 3 = Suc k" using that k(2) by auto
    then show ?thesis using k(4,5) by simp
  qed
  ultimately show ?thesis using u by auto
qed

theorem get_bin_index_range_witness: "unat (get_bin_index 24) \<le> 8"
  using get_bin_index_range [of 24] by simp

section \<open>The contract of a bin\<close>

text \<open>
  What the allocator relies on, as an interface: a store of keyed items in which an item can be
  put, from which an item can be taken, and which finds a least item that is large enough.
\<close>

locale keyed_bin =
  fixes holds :: "'m \<Rightarrow> 'a list \<Rightarrow> bool"
    and key :: "'m \<Rightarrow> 'a \<Rightarrow> 'k::linorder"
    and may_add :: "'a \<Rightarrow> 'a list \<Rightarrow> bool"
    and add :: "'a \<Rightarrow> 'm \<Rightarrow> 'm option"
    and del :: "'a \<Rightarrow> 'm \<Rightarrow> 'm option"
    and fit :: "'m \<Rightarrow> 'k \<Rightarrow> 'a option"
    and nil :: 'a
  assumes add_law: "holds m xs \<Longrightarrow> may_add b xs \<Longrightarrow>
      \<exists>m' ys. add b m = Some m' \<and> holds m' ys \<and> set ys = insert b (set xs) \<and>
        (\<forall>x\<in>set ys. key m' x = key m x)"
    and del_law: "holds m xs \<Longrightarrow> b \<in> set xs \<Longrightarrow>
      \<exists>m' ys. del b m = Some m' \<and> holds m' ys \<and> set ys = set xs - {b} \<and>
        (\<forall>x\<in>set xs. key m' x = key m x)"
    and fit_law: "holds m xs \<Longrightarrow>
      \<exists>r. fit m k = Some r \<and> (if r = nil then \<forall>x\<in>set xs. key m x < k
        else r \<in> set xs \<and> k \<le> key m r \<and> (\<forall>x\<in>set xs. k \<le> key m x \<longrightarrow> key m r \<le> key m x))"
begin

text \<open>What was put in is found again: a request it can serve does not fail afterwards.\<close>

lemma fit_after_add:
  assumes "holds m xs" "may_add b xs" "k \<le> key m b"
  shows "\<exists>m' r. add b m = Some m' \<and> fit m' k = Some r \<and> r \<noteq> nil \<and>
    k \<le> key m r \<and> key m r \<le> key m b"
proof -
  obtain m' ys where m': "add b m = Some m'" "holds m' ys" "set ys = insert b (set xs)"
    "\<forall>x\<in>set ys. key m' x = key m x"
    using add_law [OF assms(1,2)] by blast
  obtain r where r: "fit m' k = Some r"
    "if r = nil then \<forall>x\<in>set ys. key m' x < k
     else r \<in> set ys \<and> k \<le> key m' r \<and> (\<forall>x\<in>set ys. k \<le> key m' x \<longrightarrow> key m' r \<le> key m' x)"
    using fit_law [OF m'(2)] by blast
  have b: "b \<in> set ys" "k \<le> key m' b" using m'(3,4) assms(3) by auto
  then have "r \<noteq> nil" using r(2) by (auto simp: not_less [symmetric])
  then have "r \<in> set ys" "k \<le> key m' r" "key m' r \<le> key m' b" using r(2) b by auto
  then show ?thesis using m'(1,4) r(1) \<open>r \<noteq> nil\<close> b(1) by auto
qed

text \<open>Taking the item found leaves only items that are too small or at least as large.\<close>

lemma del_after_fit:
  assumes "holds m xs" "fit m k = Some r" "r \<noteq> nil"
  shows "\<exists>m' ys. del r m = Some m' \<and> holds m' ys \<and> set ys = set xs - {r} \<and>
    (\<forall>x\<in>set ys. key m' x < k \<or> key m r \<le> key m' x)"
proof -
  from fit_law [OF assms(1), of k] assms(2,3)
  have r: "r \<in> set xs" "\<forall>x\<in>set xs. k \<le> key m x \<longrightarrow> key m r \<le> key m x" by auto
  obtain m' ys where m': "del r m = Some m'" "holds m' ys" "set ys = set xs - {r}"
    "\<forall>x\<in>set xs. key m' x = key m x"
    using del_law [OF assms(1) r(1)] by blast
  have "\<forall>x\<in>set ys. key m' x < k \<or> key m r \<le> key m' x"
    using r(2) m'(3,4) by (auto simp: not_less)
  then show ?thesis using m' by blast
qed

end

text \<open>The bins of the kernel meet the contract, whatever the rest of the state is.\<close>

definition may_add :: "u32 \<Rightarrow> u32 \<Rightarrow> u32 list \<Rightarrow> bool" where
  "may_add bin b xs \<longleftrightarrow> b \<noteq> 0 \<and> b \<notin> set xs \<and> apart bin 4 b 16 \<and> separated (insert b (set xs))"

definition remove_block_mem :: "'a heap_state_scheme \<Rightarrow> u32 \<Rightarrow> u32 \<Rightarrow> mem \<Rightarrow> mem option" where
  "remove_block_mem s bin b m = map_option ram (remove_block bin b (s\<lparr>ram := m\<rparr>))"

lemma bin_list_facts:
  assumes "bin_list m bin xs"
  shows "separated (set xs)" "\<forall>x\<in>set xs. apart bin 4 x 16" "distinct xs"
  using assms path_distinct by (auto simp: bin_list_def)

interpretation kb: keyed_bin "\<lambda>m xs. bin_list m bin xs" blk_size "may_add bin"
  "add_block_sorted bin" "remove_block_mem s bin" "\<lambda>m sz. get_first_fit m bin sz" 0
  for bin s
proof unfold_locales
  fix m xs b
  assume h: "bin_list m bin xs" "may_add bin b xs"
  then obtain m' where m': "add_block_sorted bin b m = Some m'" "bin_list m' bin (bin_insert m b xs)"
    "links_only bin (insert b (set xs)) m m'"
    using add_block_sorted_list [OF h(1), of b] by (auto simp: may_add_def)
  have "\<forall>x\<in>insert b (set xs). apart bin 4 x 16"
    using h bin_list_facts(2) [OF h(1)] by (simp add: may_add_def)
  then have "\<forall>x\<in>insert b (set xs). blk_size m' x = blk_size m x"
    using links_only_sizes(1) [OF m'(3)] h(2) by (auto simp: may_add_def)
  with m' show "\<exists>m' ys. add_block_sorted bin b m = Some m' \<and> bin_list m' bin ys \<and>
      set ys = insert b (set xs) \<and> (\<forall>x\<in>set ys. blk_size m' x = blk_size m x)"
    by (intro exI [of _ m'] exI [of _ "bin_insert m b xs"]) simp
next
  fix m xs b
  assume h: "bin_list m bin xs" "b \<in> set xs"
  then obtain m' where m': "remove_block bin b (s\<lparr>ram := m\<rparr>) = Some (s\<lparr>ram := m'\<rparr>)"
    "bin_list m' bin (remove1 b xs)" "links_only bin (set xs) m m'"
    using remove_block_list [of "s\<lparr>ram := m\<rparr>" bin xs b] by auto
  have r: "remove_block_mem s bin b m = Some m'" using m'(1) by (simp add: remove_block_mem_def)
  have st: "set (remove1 b xs) = set xs - {b}" using bin_list_facts(3) [OF h(1)] by simp
  have "\<forall>x\<in>set xs. blk_size m' x = blk_size m x"
    using links_only_sizes(1) [OF m'(3) bin_list_facts(1,2) [OF h(1)]] by blast
  with r st m'(2) show "\<exists>m' ys. remove_block_mem s bin b m = Some m' \<and> bin_list m' bin ys \<and>
      set ys = set xs - {b} \<and> (\<forall>x\<in>set xs. blk_size m' x = blk_size m x)"
    by blast
next
  fix m xs sz
  assume "bin_list m bin xs"
  then obtain r where "get_first_fit m bin sz = Some r"
    "r = 0 \<longrightarrow> (\<forall>x\<in>set xs. blk_size m x < sz)"
    "r \<noteq> 0 \<longrightarrow> r \<in> set xs \<and> sz \<le> blk_size m r \<and>
       (\<forall>x\<in>set xs. sz \<le> blk_size m x \<longrightarrow> blk_size m r \<le> blk_size m x)"
    using get_first_fit_best by blast
  then show "\<exists>r. get_first_fit m bin sz = Some r \<and> (if r = 0 then \<forall>x\<in>set xs. blk_size m x < sz
      else r \<in> set xs \<and> sz \<le> blk_size m r \<and>
        (\<forall>x\<in>set xs. sz \<le> blk_size m x \<longrightarrow> blk_size m r \<le> blk_size m x))"
    by (intro exI [of _ r]) simp
qed

section \<open>Properties\<close>

lemma load32_zero [simp]: "load32 (\<lambda>_. 0) a = 0"
  by (simp add: load32_def)

lemma empty_bin: "bin_list (\<lambda>_. 0) bin []"
  by (simp add: bin_list_def bin_head_def separated_def)

lemma may_add_first: "apart bin 4 b 16 \<Longrightarrow> b \<noteq> 0 \<Longrightarrow> may_add bin b []"
  by (simp add: may_add_def separated_def sep2_def)

lemma one_block_bin: "bin_list (set_head 0xC0200000 0xD0000000 (\<lambda>_. 0)) 0xC0200000 [0xD0000000]"
  by (simp add: bin_list_def separated_def sep2_def blk_next_def set_head_def
      bin_head_def load32_store32_apart)

text \<open>
  \<open>add_block_sorted\<close> ends on every bin that is a list and puts the block behind all blocks
  that are not larger and before all larger ones; the bin stays a sorted doubly linked list, and
  nothing but the bin's head and the links of these blocks is written.
\<close>

theorem add_block_sorted_inserts:
  assumes "bin_list m bin xs" and "may_add bin b xs"
  shows "\<exists>m'. add_block_sorted bin b m = Some m' \<and> bin_list m' bin (bin_insert m b xs) \<and>
    links_only bin (insert b (set xs)) m m'"
  using assms add_block_sorted_list [of m bin xs b] by (simp add: may_add_def)

theorem add_block_sorted_inserts_witness:
  "\<exists>m'. add_block_sorted 0xC0200000 0xD0000000 (\<lambda>_. 0) = Some m' \<and>
    bin_list m' 0xC0200000 [0xD0000000]"
  using add_block_sorted_inserts [OF empty_bin may_add_first, of "0xC0200000" "0xD0000000"]
  by (auto simp: bin_insert_def)

text \<open>
  C18. \<open>remove_block\<close> ends, takes exactly the given block out of its bin, keeps the order of the
  others and writes nothing but the head and the links; a block that is not in the bin leaves
  the memory as it is.
\<close>

theorem remove_block_removes:
  assumes "bin_list (ram s) bin xs"
  shows "(b \<in> set xs \<longrightarrow> (\<exists>m'. remove_block bin b s = Some (s\<lparr>ram := m'\<rparr>) \<and>
      bin_list m' bin (remove1 b xs) \<and> links_only bin (set xs) (ram s) m')) \<and>
    (b \<notin> set xs \<longrightarrow> (\<exists>s'. remove_block bin b s = Some s' \<and> ram s' = ram s))"
proof -
  have p: "path (ram s) (bin_head (ram s) bin) xs 0" using assms by (simp add: bin_list_def)
  have "\<exists>s'. remove_block bin b s = Some s' \<and> ram s' = ram s" if "b \<notin> set xs"
  proof (cases xs)
    case Nil
    then show ?thesis using p by (simp add: remove_block_def)
  next
    case (Cons x xs')
    then have "path (ram s) (blk_next (ram s) x) xs' 0" using p by simp
    then have "find_block (ram s) (blk_next (ram s) x) b = Some False"
      using find_block_path that Cons by simp
    then show ?thesis
      using p Cons that by (auto simp: remove_block_def Let_def kprintf_plain)
  qed
  then show ?thesis using remove_block_list [OF assms] by blast
qed

theorem remove_block_removes_witness:
  "\<exists>m'. remove_block 0xC0200000 0xD0000000
      (idt_state.extend idt0 \<lparr>handlers = [], kheap_initialized = 1, kheap = 0, alloc_ptr = 0\<rparr>
        \<lparr>ram := set_head 0xC0200000 0xD0000000 (\<lambda>_. 0)\<rparr>) =
      Some (idt_state.extend idt0 \<lparr>handlers = [], kheap_initialized = 1, kheap = 0, alloc_ptr = 0\<rparr>
        \<lparr>ram := m'\<rparr>) \<and> bin_list m' 0xC0200000 []"
proof -
  let ?s = "idt_state.extend idt0 \<lparr>handlers = [], kheap_initialized = 1, kheap = 0, alloc_ptr = 0\<rparr>
        \<lparr>ram := set_head 0xC0200000 0xD0000000 (\<lambda>_. 0)\<rparr> :: heap_state"
  have "bin_list (ram ?s) 0xC0200000 [0xD0000000]" using one_block_bin by simp
  from remove_block_removes [OF this, of "0xD0000000"] show ?thesis by auto
qed

text \<open>
  A free block that was put into a bin is found again: afterwards every request that fits in
  it gets from this bin a block that is large enough and no larger than it.
\<close>

theorem added_block_is_found:
  assumes "bin_list m bin xs" and "may_add bin b xs" and "sz \<le> blk_size m b"
  shows "\<exists>m' r. add_block_sorted bin b m = Some m' \<and> get_first_fit m' bin sz = Some r \<and> r \<noteq> 0 \<and>
    sz \<le> blk_size m r \<and> blk_size m r \<le> blk_size m b"
  using assms by (rule kb.fit_after_add)

theorem added_block_is_found_witness:
  "\<exists>m' r. add_block_sorted 0xC0200000 0xD0000000 (set_size 0xD0000000 100 (\<lambda>_. 0)) = Some m' \<and>
    get_first_fit m' 0xC0200000 40 = Some r \<and> r \<noteq> 0"
proof -
  let ?m = "set_size 0xD0000000 100 (\<lambda>_. 0) :: mem"
  have "bin_list ?m 0xC0200000 []"
    by (simp add: bin_list_def separated_def bin_head_other) (simp add: bin_head_def)
  moreover have "may_add 0xC0200000 0xD0000000 []" by (rule may_add_first) auto
  moreover have "40 \<le> blk_size ?m 0xD0000000" by simp
  ultimately show ?thesis using added_block_is_found by blast
qed

text \<open>
  C17. \<open>get_first_fit\<close> returns a smallest block of the bin that is large enough, and the null
  pointer only if none is.
\<close>

theorem get_first_fit_best_fit:
  assumes "bin_list m bin xs"
  shows "\<exists>r. get_first_fit m bin sz = Some r \<and>
    (r = 0 \<longrightarrow> (\<forall>x\<in>set xs. blk_size m x < sz)) \<and>
    (r \<noteq> 0 \<longrightarrow> r \<in> set xs \<and> sz \<le> blk_size m r \<and>
       (\<forall>x\<in>set xs. sz \<le> blk_size m x \<longrightarrow> blk_size m r \<le> blk_size m x))"
  using assms by (rule get_first_fit_best)

theorem get_first_fit_best_fit_witness:
  "\<exists>r. get_first_fit (set_head 0xC0200000 0xD0000000 (\<lambda>_. 0)) 0xC0200000 0 = Some r"
  using get_first_fit_best_fit [OF one_block_bin, of 0] by blast

end
