(* ===== verification/Kheap_Tiling.thy ===== *)
theory Kheap_Tiling
  imports Kheap_Bins
begin

text \<open>
  The kernel heap as a whole: between \<open>start\<close> and \<open>end\<close> the blocks tile the memory without gaps,
  every footer points back to its block, and the nine bins hold free blocks of the sizes their
  index stands for.  \<open>heap_inv\<close> is that invariant.  This theory has the geometry (different blocks
  do not meet), the frame rules (what a write to some blocks leaves alone) and the effect on the
  invariant of putting a block into its bin, of taking one out, of splitting and of merging.
\<close>

section \<open>Regions that are kept and regions that are written\<close>

definition keeps :: "mem \<Rightarrow> mem \<Rightarrow> u32 \<Rightarrow> nat \<Rightarrow> bool" where
  "keeps m m' a n \<longleftrightarrow> (\<forall>c. unat c < n \<longrightarrow> m' (a + c) = m (a + c))"

definition writes_in :: "(u32 \<times> nat) set \<Rightarrow> mem \<Rightarrow> mem \<Rightarrow> bool" where
  "writes_in R m m' \<longleftrightarrow> (\<forall>a. (\<forall>r\<in>R. apart (fst r) (snd r) a 1) \<longrightarrow> m' a = m a)"

lemma keeps_trans: "keeps m m' a n \<Longrightarrow> keeps m' m'' a n \<Longrightarrow> keeps m m'' a n"
  by (simp add: keeps_def)

lemma keeps_sub:
  assumes "keeps m m' a n" "unat d + k \<le> n"
  shows "keeps m m' (a + d) k"
  unfolding keeps_def
proof (intro allI impI)
  fix c :: u32 assume c: "unat c < k"
  have "unat (d + c) \<le> unat d + unat c" by (simp add: unat_word_ariths)
  then have "unat (d + c) < n" using c assms(2) by simp
  then have "m' (a + (d + c)) = m (a + (d + c))" using assms(1) unfolding keeps_def by blast
  then show "m' (a + d + c) = m (a + d + c)" by (simp add: add.assoc)
qed

lemma keeps_mono: "keeps m m' a n \<Longrightarrow> k \<le> n \<Longrightarrow> keeps m m' a k"
  by (simp add: keeps_def)

lemma keeps_load32: "keeps m m' a 4 \<Longrightarrow> load32 m' a = load32 m a"
  by (rule load32_cong) (simp add: keeps_def)

lemma keeps_load32_at: "keeps m m' a n \<Longrightarrow> unat d + 4 \<le> n \<Longrightarrow> load32 m' (a + d) = load32 m (a + d)"
  by (rule keeps_load32 [OF keeps_sub])

lemma keeps_byte: "keeps m m' a n \<Longrightarrow> 0 < n \<Longrightarrow> m' a = m a"
  unfolding keeps_def by (metis add.right_neutral unsigned_0)

lemma keeps_blk:
  assumes "keeps m m' b 16"
  shows "blk_size m' b = blk_size m b" "blk_hole m' b = blk_hole m b"
    "blk_next m' b = blk_next m b" "blk_prev m' b = blk_prev m b"
  using keeps_load32_at [OF assms, of 4] keeps_load32_at [OF assms, of 8]
    keeps_load32_at [OF assms, of 12] keeps_byte [OF assms]
  by (simp_all add: blk_fields)

lemma keeps_size_hole:
  assumes "keeps m m' b 8"
  shows "blk_size m' b = blk_size m b" "blk_hole m' b = blk_hole m b"
  using keeps_load32_at [OF assms, of 4] keeps_byte [OF assms]
  by (simp_all add: blk_fields)

lemma writes_in_refl [simp]: "writes_in R m m"
  by (simp add: writes_in_def)

lemma writes_in_trans: "writes_in R m m' \<Longrightarrow> writes_in R m' m'' \<Longrightarrow> writes_in R m m''"
  by (simp add: writes_in_def)

lemma writes_in_mono: "writes_in R m m' \<Longrightarrow> R \<subseteq> R' \<Longrightarrow> writes_in R' m m'"
  unfolding writes_in_def by (meson subset_iff)

text \<open>A write inside one of the regions.\<close>

lemma writes_in_cover:
  assumes "writes_in R m m'"
    and "\<And>r. r \<in> R \<Longrightarrow> \<exists>q\<in>R'. \<exists>d. fst r = fst q + d \<and> unat d + snd r \<le> snd q \<and> 0 < snd r"
  shows "writes_in R' m m'"
  unfolding writes_in_def
proof (intro allI impI)
  fix a assume a: "\<forall>q\<in>R'. apart (fst q) (snd q) a 1"
  have "apart (fst r) (snd r) a 1" if r: "r \<in> R" for r
  proof -
    obtain q d where q: "q \<in> R'" "fst r = fst q + d" "unat d + snd r \<le> snd q" "0 < snd r"
      using assms(2) [OF r] by blast
    then show ?thesis using apart_shift_left [of "fst q" "snd q" a 1 d "snd r"] a by simp
  qed
  then show "m' a = m a" using assms(1) by (simp add: writes_in_def)
qed

lemma writes_in_store32: "writes_in {(a, 4)} m (store32 m a v)"
  by (simp add: writes_in_def store32_other)

lemma writes_in_upd: "writes_in {(a, 1)} m (m(a := v))"
  by (auto simp: writes_in_def apart_def)

lemma writes_in_memset: "writes_in {(a, unat n)} m (memset a v n m)"
  by (simp add: writes_in_def memset_other)

lemma writes_in_keeps:
  assumes "writes_in R m m'" "\<And>r. r \<in> R \<Longrightarrow> 0 < snd r \<and> apart (fst r) (snd r) a n"
  shows "keeps m m' a n"
  unfolding keeps_def
proof (intro allI impI)
  fix c :: u32 assume c: "unat c < n"
  have "apart (fst r) (snd r) (a + c) 1" if "r \<in> R" for r
    using assms(2) [OF that] c by (intro apart_shift_right [of _ _ a n]) auto
  then show "m' (a + c) = m (a + c)" using assms(1) by (simp add: writes_in_def)
qed

text \<open>A store that changes one byte or word inside a region.\<close>

lemma store32_in: "unat d + 4 \<le> n \<Longrightarrow> writes_in {(a, n)} m (store32 m (a + d) v)"
  by (rule writes_in_cover [OF writes_in_store32]) auto

lemma upd_in: "0 < n \<Longrightarrow> writes_in {(a, n)} m (m(a := v))"
  by (rule writes_in_cover [OF writes_in_upd]) (auto intro!: exI [of _ 0])

lemma memset_in: "unat d + unat k \<le> n \<Longrightarrow> 0 < k \<Longrightarrow> writes_in {(a, n)} m (memset (a + d) v k m)"
  by (rule writes_in_cover [OF writes_in_memset]) (auto simp: unat_gt_0 word_neq_0_conv)

section \<open>Blocks that tile an interval\<close>

definition blk_len :: "mem \<Rightarrow> u32 \<Rightarrow> nat" where
  "blk_len m b = 20 + unat (blk_size m b)"

fun tiled :: "mem \<Rightarrow> u32 \<Rightarrow> u32 list \<Rightarrow> u32 \<Rightarrow> bool" where
  "tiled m a [] e \<longleftrightarrow> a = e"
| "tiled m a (b # bs) e \<longleftrightarrow> b = a \<and> unat a + blk_len m a \<le> unat e \<and>
     foot_header m (get_foot m a) = a \<and> tiled m (a + 20 + blk_size m a) bs e"

lemma tile_next:
  assumes "unat a + blk_len m a \<le> unat (e :: u32)"
  shows "unat (a + 20 + blk_size m a) = unat a + blk_len m a"
  using assms unat_bound32 [of e] by (simp add: blk_len_def unat_word_ariths)

lemma tiled_le: "tiled m a bs e \<Longrightarrow> unat a \<le> unat e"
proof (induction bs arbitrary: a)
  case (Cons b bs)
  then show ?case using tile_next [of a m e] by fastforce
qed simp

lemma tiled_mem:
  "tiled m a bs e \<Longrightarrow> b \<in> set bs \<Longrightarrow>
     unat a \<le> unat b \<and> unat b + blk_len m b \<le> unat e \<and> foot_header m (get_foot m b) = b"
proof (induction bs arbitrary: a)
  case (Cons c bs)
  then show ?case using tile_next [of a m e] by fastforce
qed simp

lemma tiled_after:
  "tiled m a (c # bs) e \<Longrightarrow> b \<in> set bs \<Longrightarrow> unat c + blk_len m c \<le> unat b"
  using tile_next [of a m e] tiled_mem [of m "a + 20 + blk_size m a" bs e b] by simp

lemma blk_len_pos [simp]: "0 < blk_len m b" "20 \<le> blk_len m b"
  by (simp_all add: blk_len_def)

lemma tiled_distinct: "tiled m a bs e \<Longrightarrow> distinct bs"
proof (induction bs arbitrary: a)
  case (Cons b bs)
  have "b \<notin> set bs"
  proof
    assume "b \<in> set bs"
    then have "unat b + blk_len m b \<le> unat b" by (rule tiled_after [OF Cons.prems])
    then show False using blk_len_pos(1) [of m b] by linarith
  qed
  then show ?case using Cons by auto
qed simp

lemma tiled_order:
  "tiled m a bs e \<Longrightarrow> b \<in> set bs \<Longrightarrow> c \<in> set bs \<Longrightarrow> b \<noteq> c \<Longrightarrow>
     unat b + blk_len m b \<le> unat c \<or> unat c + blk_len m c \<le> unat b"
proof (induction bs arbitrary: a)
  case (Cons d bs)
  then show ?case using tiled_after [OF Cons.prems(1)] by fastforce
qed simp

lemma apart_bounds2:
  assumes "unat a + n \<le> unat b \<or> unat b + k \<le> unat a" "unat a + n \<le> 2 ^ 32" "unat b + k \<le> 2 ^ 32"
    "0 < n" "0 < k"
  shows "apart a n b k"
  using assms apart_bounds [of a n b k] apart_bounds [of b k a n] by (auto simp: apart_sym)

lemma tiled_apart:
  assumes "tiled m a bs e" "b \<in> set bs" "c \<in> set bs" "b \<noteq> c"
  shows "apart b (blk_len m b) c (blk_len m c)"
proof (rule apart_bounds2)
  show "unat b + blk_len m b \<le> unat c \<or> unat c + blk_len m c \<le> unat b"
    by (rule tiled_order [OF assms])
  show "unat b + blk_len m b \<le> 2 ^ 32" "unat c + blk_len m c \<le> 2 ^ 32"
    using tiled_mem [OF assms(1,2)] tiled_mem [OF assms(1,3)] unat_bound32 [of e] by auto
qed simp_all

lemma tiled_append:
  "tiled m a (xs @ ys) e \<longleftrightarrow> (\<exists>r. tiled m a xs r \<and> tiled m r ys e)"
proof (induction xs arbitrary: a)
  case (Cons x xs)
  show ?case
  proof
    assume t: "tiled m a ((x # xs) @ ys) e"
    then obtain r where r: "tiled m (a + 20 + blk_size m a) xs r" "tiled m r ys e"
      using Cons.IH by auto
    have "unat a + blk_len m a \<le> unat e" using t by simp
    then have "unat a + blk_len m a \<le> unat r" using tiled_le [OF r(1)] tile_next [of a m e] by simp
    then show "\<exists>r. tiled m a (x # xs) r \<and> tiled m r ys e" using t r by auto
  next
    assume "\<exists>r. tiled m a (x # xs) r \<and> tiled m r ys e"
    then obtain r where r: "tiled m a (x # xs) r" "tiled m r ys e" by blast
    then have "unat a + blk_len m a \<le> unat e" using tiled_le [OF r(2)] by simp
    then show "tiled m a ((x # xs) @ ys) e" using r Cons.IH by auto
  qed
qed auto

lemma tiled_cong:
  assumes "\<And>b. b \<in> set bs \<Longrightarrow> blk_size m' b = blk_size m b \<and>
    foot_header m' (get_foot m b) = foot_header m (get_foot m b)"
  shows "tiled m' a bs e \<longleftrightarrow> tiled m a bs e"
  using assms by (induction bs arbitrary: a) (auto simp: blk_len_def get_foot_def)

text \<open>One block becomes two, or two become one.\<close>

lemma tiled_split:
  assumes t: "tiled m a (xs @ b # ys) e"
    and o: "\<And>x. x \<in> set (xs @ ys) \<Longrightarrow> blk_size m' x = blk_size m x \<and>
      foot_header m' (get_foot m x) = foot_header m (get_foot m x)"
    and b: "blk_len m' b + blk_len m' c = blk_len m b" "c = b + 20 + blk_size m' b"
    and f: "foot_header m' (get_foot m' b) = b" "foot_header m' (get_foot m' c) = c"
  shows "tiled m' a (xs @ b # c # ys) e"
proof -
  obtain r where r: "tiled m a xs r" "tiled m r (b # ys) e"
    using t tiled_append by blast
  have 1: "tiled m' a xs r" using tiled_cong [of xs m' m a r] o r(1) by simp
  have rb: "r = b" and le: "unat b + blk_len m b \<le> unat e" using r(2) by auto
  have le1: "unat b + blk_len m' b \<le> unat e" using le b(1) by simp
  then have uc: "unat c = unat b + blk_len m' b" using b(2) tile_next [of b m' e] by simp
  have le2: "unat c + blk_len m' c \<le> unat e" using le b(1) uc by simp
  have "unat (c + 20 + blk_size m' c) = unat (b + 20 + blk_size m b)"
    using tile_next [OF le2] tile_next [OF le] uc b(1) by simp
  then have eq: "c + 20 + blk_size m' c = b + 20 + blk_size m b" by (simp only: word_unat_eq_iff)
  have "tiled m' (b + 20 + blk_size m b) ys e"
    using tiled_cong [of ys m' m "b + 20 + blk_size m b" e] o r(2) rb by simp
  then have "tiled m' (c + 20 + blk_size m' c) ys e" by (simp only: eq)
  then have "tiled m' c (c # ys) e" using le2 f(2) by simp
  then have "tiled m' b (b # c # ys) e"
    using le1 f(1) by (simp only: tiled.simps(2) [of _ _ b "c # ys"] b(2) [symmetric] simp_thms)
  then show ?thesis using 1 rb tiled_append by blast
qed

lemma tiled_merge:
  assumes t: "tiled m a (xs @ b # c # ys) e"
    and o: "\<And>x. x \<in> set (xs @ ys) \<Longrightarrow> blk_size m' x = blk_size m x \<and>
      foot_header m' (get_foot m x) = foot_header m (get_foot m x)"
    and b: "blk_size m' b = blk_size m b + (20 + blk_size m c)"
    and f: "foot_header m' (get_foot m c) = b"
  shows "tiled m' a (xs @ b # ys) e \<and> get_foot m' b = get_foot m c \<and>
    blk_len m' b = blk_len m b + blk_len m c"
proof -
  obtain r where r: "tiled m a xs r" "tiled m r (b # c # ys) e"
    using t tiled_append by blast
  have 1: "tiled m' a xs r" using tiled_cong [of xs m' m a r] o r(1) by simp
  have rb: "r = b" and c: "c = b + 20 + blk_size m b" and le: "unat b + blk_len m b \<le> unat e"
    "unat c + blk_len m c \<le> unat e" using r(2) by auto
  have uc: "unat c = unat b + blk_len m b" using tile_next [OF le(1)] c by simp
  have len: "blk_len m' b = blk_len m b + blk_len m c"
    using le(2) uc unat_bound32 [of e] by (simp add: blk_len_def b unat_word_ariths)
  have foot: "get_foot m' b = get_foot m c" by (simp add: get_foot_def b c)
  have eq: "b + 20 + blk_size m' b = c + 20 + blk_size m c" by (simp add: b c)
  have "tiled m' (c + 20 + blk_size m c) ys e"
    using tiled_cong [of ys m' m "c + 20 + blk_size m c" e] o r(2) rb by simp
  then have "tiled m' (b + 20 + blk_size m' b) ys e" by (simp only: eq)
  then have "tiled m' b (b # ys) e"
    using le(2) uc len f foot by simp
  then show ?thesis using 1 rb tiled_append foot len by blast
qed

section \<open>The nine bins together\<close>

definition free_set :: "(nat \<Rightarrow> u32 list) \<Rightarrow> u32 set" where
  "free_set fl = (\<Union>i<9. set (fl i))"

definition bins_apart :: "(nat \<Rightarrow> u32) \<Rightarrow> u32 set \<Rightarrow> bool" where
  "bins_apart bin T \<longleftrightarrow> separated T \<and> 0 \<notin> T \<and>
     (\<forall>i<9. (\<forall>x\<in>T. apart (bin i) 4 x 16) \<and> (\<forall>j<9. i \<noteq> j \<longrightarrow> apart (bin i) 4 (bin j) 4))"

definition bins_ok :: "mem \<Rightarrow> (nat \<Rightarrow> u32) \<Rightarrow> (nat \<Rightarrow> u32 list) \<Rightarrow> bool" where
  "bins_ok m bin fl \<longleftrightarrow> (\<forall>i<9. bin_list m (bin i) (fl i)) \<and>
     (\<forall>i<9. \<forall>j<9. i \<noteq> j \<longrightarrow> set (fl i) \<inter> set (fl j) = {})"

definition link_regions :: "(nat \<Rightarrow> u32) \<Rightarrow> u32 set \<Rightarrow> (u32 \<times> nat) set" where
  "link_regions bin F = (\<lambda>i. (bin i, 4)) ` {..<9} \<union> (\<lambda>x. (x + 8, 8)) ` F"

lemma bins_apart_mono: "bins_apart bin T \<Longrightarrow> S \<subseteq> T \<Longrightarrow> bins_apart bin S"
  by (auto simp: bins_apart_def intro: separated_subset)

lemma links_only_writes:
  assumes "links_only (bin i) S m m'" "i < 9" "S \<subseteq> F"
  shows "writes_in (link_regions bin F) m m'"
  unfolding writes_in_def
proof (intro allI impI)
  fix a assume a: "\<forall>r\<in>link_regions bin F. apart (fst r) (snd r) a 1"
  have "(bin i, 4) \<in> link_regions bin F" and "\<And>x. x \<in> S \<Longrightarrow> (x + 8, 8) \<in> link_regions bin F"
    using assms(2,3) by (auto simp: link_regions_def)
  then have "apart (bin i) 4 a 1" "\<And>x. x \<in> S \<Longrightarrow> apart (x + 8) 8 a 1" using a by fastforce+
  then show "m' a = m a" using assms(1) by (simp add: links_only_def)
qed

lemma link_regions_mono: "F \<subseteq> G \<Longrightarrow> link_regions bin F \<subseteq> link_regions bin G"
  by (auto simp: link_regions_def)

lemma links_keep:
  assumes w: "writes_in (link_regions bin F) m m'" and b: "bins_apart bin T" "F \<subseteq> T" "y \<in> T"
  shows "blk_size m' y = blk_size m y" "blk_hole m' y = blk_hole m y"
    "y \<notin> F \<Longrightarrow> keeps m m' y 16"
proof -
  have n: "keeps m m' y k" if k: "k = 8 \<or> k = 16 \<and> y \<notin> F" for k
  proof (rule writes_in_keeps [OF w])
    fix r assume "r \<in> link_regions bin F"
    then consider i where "i < 9" "r = (bin i, 4)" | x where "x \<in> F" "r = (x + 8, 8)"
      by (auto simp: link_regions_def)
    then show "0 < snd r \<and> apart (fst r) (snd r) y k"
    proof cases
      case 1
      then have "apart (bin i) 4 y 16" using b by (simp add: bins_apart_def)
      then show ?thesis using 1 k apart_mono [of "bin i" 4 y 16 4 k] by auto
    next
      case 2
      then have s: "sep2 x y" using b separatedD [of T x y] by (auto simp: bins_apart_def)
      show ?thesis
      proof (cases "x = y")
        case True
        then have "k = 8" using 2 k by auto
        then show ?thesis using True 2 by (simp add: apart_def)
      next
        case False
        then have "apart x 16 y 16" using s by (simp add: sep2_def)
        then have "apart (x + 8) 8 (y + 0) k" by (rule apart_field) (use k in auto)
        then show ?thesis using 2 by simp
      qed
    qed
  qed
  show "blk_size m' y = blk_size m y" "blk_hole m' y = blk_hole m y"
    using keeps_size_hole [OF n [of 8]] by simp_all
  show "y \<notin> F \<Longrightarrow> keeps m m' y 16" by (rule n) simp
qed

lemma bin_list_cong:
  assumes "bin_head m' bin = bin_head m bin"
    "\<And>x. x \<in> set xs \<Longrightarrow> blk_next m' x = blk_next m x \<and> blk_prev m' x = blk_prev m x"
  shows "bin_chain m' bin xs \<longleftrightarrow> bin_chain m bin xs"
    "(\<And>x. x \<in> set xs \<Longrightarrow> blk_size m' x = blk_size m x) \<Longrightarrow> bin_list m' bin xs \<longleftrightarrow> bin_list m bin xs"
proof -
  have tl: "x \<in> set (tl xs) \<Longrightarrow> x \<in> set xs" for x by (cases xs) auto
  show c: "bin_chain m' bin xs \<longleftrightarrow> bin_chain m bin xs"
    using assms path_cong [of xs m' m] back_links_cong [of xs m' m] tl by (auto simp: bin_chain_def)
  show "bin_list m' bin xs \<longleftrightarrow> bin_list m bin xs"
    if sz: "\<And>x. x \<in> set xs \<Longrightarrow> blk_size m' x = blk_size m x"
  proof -
    have "map (blk_size m') xs = map (blk_size m) xs" using sz by simp
    then show ?thesis unfolding bin_list_chain using c by metis
  qed
qed

lemma bin_list_keeps:
  assumes "bin_list m bin xs" "keeps m m' bin 4" "\<And>x. x \<in> set xs \<Longrightarrow> keeps m m' x 16"
  shows "bin_list m' bin xs"
proof -
  have "bin_head m' bin = bin_head m bin" using keeps_load32 [OF assms(2)] by (simp add: bin_head_def)
  then show ?thesis using bin_list_cong(2) [of m' bin m xs] assms(1) keeps_blk [OF assms(3)] by blast
qed

lemma bins_ok_keeps:
  assumes "bins_ok m bin fl" "\<And>i. i < 9 \<Longrightarrow> keeps m m' (bin i) 4"
    "\<And>x. x \<in> free_set fl \<Longrightarrow> keeps m m' x 16"
  shows "bins_ok m' bin fl"
  unfolding bins_ok_def
proof (intro conjI allI impI)
  show "bin_list m' (bin i) (fl i)" if "i < 9" for i
    using assms(1) that
    by (intro bin_list_keeps [of m _ _ m'] assms) (auto simp: bins_ok_def free_set_def)
  show "set (fl i) \<inter> set (fl j) = {}" if "i < 9" "j < 9" "i \<noteq> j" for i j
    using assms(1) that by (simp add: bins_ok_def)
qed

text \<open>The other bins do not notice an operation on one bin.\<close>

lemma links_keep_bin:
  assumes l: "links_only (bin i) S m m'" and b: "bins_apart bin T" "S \<subseteq> T" "set xs \<subseteq> T"
    and ij: "i < 9" "j < 9" "i \<noteq> j" "set xs \<inter> S = {}" and bl: "bin_list m (bin j) xs"
  shows "bin_list m' (bin j) xs"
proof (rule bin_list_keeps [OF bl])
  have w: "writes_in (insert (bin i, 4) ((\<lambda>x. (x + 8, 8)) ` S)) m m'"
    using l by (auto simp: links_only_def writes_in_def)
  show "keeps m m' (bin j) 4"
  proof (rule writes_in_keeps [OF w])
    fix r :: "u32 \<times> nat" assume "r \<in> insert (bin i, 4) ((\<lambda>x. (x + 8, 8)) ` S)"
    then consider "r = (bin i, 4)" | x where "x \<in> S" "r = (x + 8, 8)" by auto
    then show "0 < snd r \<and> apart (fst r) (snd r) (bin j) 4"
    proof cases
      case 2
      then have "apart x 16 (bin j) 4" using b ij by (auto simp: bins_apart_def apart_sym)
      then show ?thesis using 2 apart_shift_left [of x 16 "bin j" 4 8 8] by simp
    qed (use b ij in \<open>simp add: bins_apart_def\<close>)
  qed
  show "keeps m m' x 16" if "x \<in> set xs" for x
    using links_keep(3) [OF links_only_writes [where bin = bin, OF l ij(1) order_refl] b(1,2)]
      that b(3) ij(4) by auto
qed

lemma bins_add:
  assumes ok: "bins_ok m bin fl" and T: "bins_apart bin T" "free_set fl \<subseteq> T" "b \<in> T"
    and b: "b \<notin> free_set fl" and i: "i < 9"
  shows "\<exists>m'. add_block_sorted (bin i) b m = Some m' \<and>
    bins_ok m' bin (fl(i := bin_insert m b (fl i))) \<and>
    writes_in (link_regions bin (insert b (free_set fl))) m m'"
proof -
  have fi: "set (fl i) \<subseteq> free_set fl" using i by (auto simp: free_set_def)
  have bl: "bin_list m (bin i) (fl i)" using ok i by (simp add: bins_ok_def)
  have "separated (insert b (set (fl i)))"
    by (rule separated_subset [of T]) (use T fi in \<open>auto simp: bins_apart_def\<close>)
  then obtain m' where m': "add_block_sorted (bin i) b m = Some m'"
    "bin_list m' (bin i) (bin_insert m b (fl i))" "links_only (bin i) (insert b (set (fl i))) m m'"
    using add_block_sorted_list [OF bl, of b] T b i fi by (auto simp: bins_apart_def)
  have "bin_list m' (bin j) (fl j)" if j: "j < 9" "j \<noteq> i" for j
  proof (rule links_keep_bin [OF m'(3) T(1)])
    show "set (fl j) \<inter> insert b (set (fl i)) = {}"
      using ok i j b by (auto simp: bins_ok_def free_set_def)
    show "bin_list m (bin j) (fl j)" using ok j by (simp add: bins_ok_def)
  qed (use T fi i j in \<open>auto simp: free_set_def\<close>)
  moreover have "set (fl j) \<inter> insert b (set (fl i)) = {}" if "j < 9" "j \<noteq> i" for j
    using ok i that b by (auto simp: bins_ok_def free_set_def)
  ultimately have "bins_ok m' bin (fl(i := bin_insert m b (fl i)))"
    using m'(2) ok by (auto simp: bins_ok_def)
  moreover have "writes_in (link_regions bin (insert b (free_set fl))) m m'"
    using links_only_writes [where bin = bin, OF m'(3) i] fi by blast
  ultimately show ?thesis using m'(1) by blast
qed

text \<open>
  Taking a block out works even if its size has been changed since it was put in; \<open>m\<close> is the
  memory before that change.
\<close>

lemma bins_del:
  assumes ok: "bins_ok m bin fl" and T: "bins_apart bin T" "free_set fl \<subseteq> T"
    and i: "i < 9" "b \<in> set (fl i)"
    and ch: "\<And>k. k < 9 \<Longrightarrow> bin_head (ram s) (bin k) = bin_head m (bin k)"
      "\<And>x. x \<in> free_set fl \<Longrightarrow> blk_next (ram s) x = blk_next m x \<and> blk_prev (ram s) x = blk_prev m x"
      "\<And>x. x \<in> free_set fl \<Longrightarrow> x \<noteq> b \<Longrightarrow> blk_size (ram s) x = blk_size m x"
  shows "\<exists>m'. remove_block (bin i) b s = Some (s\<lparr>ram := m'\<rparr>) \<and>
    bins_ok m' bin (fl(i := remove1 b (fl i))) \<and>
    writes_in (link_regions bin (free_set fl)) (ram s) m'"
proof -
  have fi: "set (fl j) \<subseteq> free_set fl" if "j < 9" for j using that by (auto simp: free_set_def)
  have bl: "bin_list m (bin j) (fl j)" if "j < 9" for j using ok that by (simp add: bins_ok_def)
  have c: "bin_chain (ram s) (bin i) (fl i)"
    using bin_list_cong(1) [of "ram s" "bin i" m "fl i"] ch fi [OF i(1)] bl [OF i(1)] i(1)
    by (auto simp: bin_list_chain)
  have d: "distinct (fl i)" using bin_list_facts(3) [OF bl [OF i(1)]] .
  have "sorted (map (blk_size m) (remove1 b (fl i)))"
    using bl [OF i(1)] d sorted_filter
    by (auto simp: bin_list_def distinct_remove1_removeAll removeAll_filter_not_eq)
  moreover have "map (blk_size (ram s)) (remove1 b (fl i)) = map (blk_size m) (remove1 b (fl i))"
    using ch(3) fi [OF i(1)] d by auto
  ultimately have "sorted (map (blk_size (ram s)) (remove1 b (fl i)))" by metis
  then obtain m' where m': "remove_block (bin i) b s = Some (s\<lparr>ram := m'\<rparr>)"
    "bin_list m' (bin i) (remove1 b (fl i))" "links_only (bin i) (set (fl i)) (ram s) m'"
    using remove_block_but [OF c i(2)] by blast
  have dj: "set (fl j) \<inter> set (fl i) = {}" if "j < 9" "j \<noteq> i" for j
    using ok i that by (auto simp: bins_ok_def)
  have "bin_list m' (bin j) (fl j)" if j: "j < 9" "j \<noteq> i" for j
  proof (rule links_keep_bin [OF m'(3) T(1)])
    show "set (fl j) \<inter> set (fl i) = {}" using dj j by blast
    have "x \<noteq> b" if "x \<in> set (fl j)" for x using dj [OF j] i(2) that by auto
    then show "bin_list (ram s) (bin j) (fl j)"
      using bin_list_cong(2) [of "ram s" "bin j" m "fl j"] ch fi [OF j(1)] bl [OF j(1)] j(1) by blast
  qed (use T fi i j in auto)
  moreover have "set (fl j) \<inter> set (remove1 b (fl i)) = {}" if "j < 9" "j \<noteq> i" for j
    using dj [OF that] set_remove1_subset [of b "fl i"] by blast
  ultimately have "bins_ok m' bin (fl(i := remove1 b (fl i)))"
    using m'(2) ok by (auto simp: bins_ok_def)
  moreover have "writes_in (link_regions bin (free_set fl)) (ram s) m'"
    by (rule links_only_writes [where bin = bin, OF m'(3) i(1) fi [OF i(1)]])
  ultimately show ?thesis using m'(1) by blast
qed

lemma free_set_insert: "i < 9 \<Longrightarrow> free_set (fl(i := bin_insert m b (fl i))) = insert b (free_set fl)"
  by (auto simp: free_set_def split: if_splits)

lemma free_set_remove:
  assumes "bins_ok m bin fl" "i < 9" "b \<in> set (fl i)"
  shows "free_set (fl(i := remove1 b (fl i))) = free_set fl - {b}"
proof -
  have "distinct (fl i)" using assms bin_list_facts(3) by (auto simp: bins_ok_def)
  moreover have "b \<notin> set (fl j)" if "j < 9" "j \<noteq> i" for j
    using assms that by (auto simp: bins_ok_def)
  ultimately show ?thesis using assms(2) by (auto simp: free_set_def split: if_splits)
qed

end
