(* ===== verification/Kheap_Alloc.thy ===== *)
theory Kheap_Alloc
  imports Kheap_Tiling
begin

text \<open>
  The invariant of the kernel heap, and \<open>kheap_alloc\<close>: as long as some free block is large
  enough it returns a block that was free, cleared and at least as large as asked for, it keeps
  the invariant, and it writes nothing but that block, the links of the free blocks and the heads
  of the bins.
\<close>

section \<open>The invariant\<close>

definition bin_at :: "mem \<Rightarrow> u32 \<Rightarrow> nat \<Rightarrow> u32" where
  "bin_at m h i = heap_bin m h (of_nat i)"

definition heap_size :: "mem \<Rightarrow> u32 \<Rightarrow> nat" where
  "heap_size m h = unat (heap_end m h - heap_start m h)"

text \<open>The structure of 52 bytes, the nine bin heads and the blocks are apart from each other.\<close>

definition heap_layout :: "mem \<Rightarrow> u32 \<Rightarrow> bool" where
  "heap_layout m h \<longleftrightarrow> 0 < heap_start m h \<and> heap_start m h < heap_end m h \<and>
     apart h 52 (heap_start m h) (heap_size m h) \<and>
     (\<forall>i<9. apart (bin_at m h i) 4 (heap_start m h) (heap_size m h) \<and>
        apart (bin_at m h i) 4 h 52 \<and>
        (\<forall>j<9. i \<noteq> j \<longrightarrow> apart (bin_at m h i) 4 (bin_at m h j) 4))"

definition heap_inv :: "mem \<Rightarrow> u32 \<Rightarrow> u32 list \<Rightarrow> (nat \<Rightarrow> u32 list) \<Rightarrow> bool" where
  "heap_inv m h bs fl \<longleftrightarrow> heap_layout m h \<and> tiled m (heap_start m h) bs (heap_end m h) \<and>
     bins_ok m (bin_at m h) fl \<and>
     (\<forall>i<9. \<forall>x\<in>set (fl i). x \<in> set bs \<and> unat (get_bin_index (blk_size m x)) = i) \<and>
     (\<forall>b\<in>set bs. blk_hole m b \<noteq> 0 \<longrightarrow> b \<in> free_set fl)"

lemma free_setI: "i < 9 \<Longrightarrow> x \<in> set (fl i) \<Longrightarrow> x \<in> free_set fl"
  by (auto simp: free_set_def)

lemma heap_invD:
  assumes "heap_inv m h bs fl"
  shows "heap_layout m h" "tiled m (heap_start m h) bs (heap_end m h)" "bins_ok m (bin_at m h) fl"
    "free_set fl \<subseteq> set bs"
    "i < 9 \<Longrightarrow> x \<in> set (fl i) \<Longrightarrow> unat (get_bin_index (blk_size m x)) = i"
    "b \<in> set bs \<Longrightarrow> blk_hole m b \<noteq> 0 \<Longrightarrow> b \<in> free_set fl"
  using assms by (auto simp: heap_inv_def free_set_def)

section \<open>Geometry\<close>

lemma in_heap_apart:
  assumes t: "tiled m S bs E" and b: "b \<in> set bs" and a: "apart a k S (unat (E - S))" "0 < k"
  shows "apart a k b (blk_len m b)"
proof -
  have m: "unat S \<le> unat b" "unat b + blk_len m b \<le> unat E" using tiled_mem [OF t b] by auto
  then have "unat (b - S) + blk_len m b \<le> unat (E - S)"
    using unat_sub [of S b] unat_sub [of S E] by (simp add: word_le_nat_alt)
  then have "apart a k (S + (b - S)) (blk_len m b)"
    by (intro apart_shift_right [OF a(1)]) (use a in auto)
  then show ?thesis by simp
qed

lemma tiled_separated:
  assumes "tiled m S bs E"
  shows "separated (set bs)"
  unfolding separated_def sep2_def
proof (intro ballI)
  fix x y assume "x \<in> set bs" "y \<in> set bs"
  moreover have "16 \<le> blk_len m z" for z using blk_len_pos(2) [of m z] by linarith
  ultimately show "x = y \<or> apart x 16 y 16"
    using tiled_apart [OF assms, of x y] apart_mono [of x "blk_len m x" y "blk_len m y" 16 16] by blast
qed

lemma bin_block_apart:
  assumes "heap_layout m h" "tiled m (heap_start m h) bs (heap_end m h)" "b \<in> set bs" "i < 9"
  shows "apart (bin_at m h i) 4 b (blk_len m b)"
  by (rule in_heap_apart [OF assms(2,3)]) (use assms in \<open>simp_all add: heap_layout_def heap_size_def\<close>)

lemma heap_bins_apart:
  assumes l: "heap_layout m h" and t: "tiled m (heap_start m h) bs (heap_end m h)"
  shows "bins_apart (bin_at m h) (set bs)"
proof -
  have "0 \<notin> set bs"
  proof
    assume "0 \<in> set bs"
    then show False using tiled_mem [OF t, of 0] l by (simp add: heap_layout_def word_less_nat_alt)
  qed
  moreover have "apart (bin_at m h i) 4 x 16" if "i < 9" "x \<in> set bs" for i x
    using bin_block_apart [OF l t that(2,1)] by (rule apart_mono) (simp_all add: blk_len_def)
  ultimately show ?thesis
    using tiled_separated [OF t] l by (simp add: bins_apart_def heap_layout_def)
qed

text \<open>
  A block header that lies at \<open>d\<close> inside the block \<open>b\<close>, behind \<open>b\<close>'s own header, may be put into
  the bins as well.
\<close>

lemma inner_bins_apart:
  assumes l: "heap_layout m h" and t: "tiled m (heap_start m h) bs (heap_end m h)" and b: "b \<in> set bs"
    and d: "16 \<le> unat d" "unat d + 16 \<le> blk_len m b"
  shows "bins_apart (bin_at m h) (insert (b + d) (set bs))"
proof -
  have ba: "bins_apart (bin_at m h) (set bs)" by (rule heap_bins_apart [OF l t])
  have inb: "unat b + blk_len m b \<le> unat (heap_end m h)" using tiled_mem [OF t b] by simp
  have ub: "unat (b + d) = unat b + unat d"
    using inb d unat_bound32 [of "heap_end m h"] by (subst unat_add_lem [THEN iffD1]) simp_all
  have s1: "apart (b + d) 16 x 16" if x: "x \<in> set bs" for x
  proof (cases "x = b")
    case True
    have "apart b 16 (b + d) 16"
      by (rule apart_bounds) (use ub d inb unat_bound32 [of "heap_end m h"] in simp_all)
    then show ?thesis using True by (simp add: apart_sym)
  next
    case False
    then have "apart b (blk_len m b) x (blk_len m x)" using tiled_apart [OF t b x] by simp
    then have "apart (b + d) 16 (x + 0) 16"
      by (rule apart_shift) (use d in \<open>simp_all add: blk_len_def\<close>)
    then show ?thesis by simp
  qed
  have bd0: "b + d \<noteq> 0" using ub d by (metis not_numeral_le_zero trans_le_add2 unsigned_0)
  have new: "apart (bin_at m h i) 4 (b + d) 16" if "i < 9" for i
    using apart_shift_right [OF bin_block_apart [OF l t b that], of d 16] d by simp
  have "sep2 x y" if "x \<in> insert (b + d) (set bs)" "y \<in> insert (b + d) (set bs)" for x y
    using that s1 ba by (auto simp: sep2_def apart_sym bins_apart_def separated_def)
  then have "separated (insert (b + d) (set bs))" by (simp add: separated_def)
  then show ?thesis using ba bd0 new by (simp add: bins_apart_def)
qed

section \<open>What writing to some blocks leaves alone\<close>

definition op_regions :: "mem \<Rightarrow> u32 \<Rightarrow> u32 set \<Rightarrow> u32 set \<Rightarrow> (u32 \<times> nat) set" where
  "op_regions m h C F = (\<lambda>c. (c, blk_len m c)) ` C \<union> link_regions (bin_at m h) F"

lemma op_frame:
  assumes l: "heap_layout m h" and t: "tiled m (heap_start m h) bs (heap_end m h)"
    and w: "writes_in (op_regions m h C F) m m'" and C: "C \<subseteq> set bs" and F: "F \<subseteq> set bs"
  shows "keeps m m' h 52"
    "y \<in> set bs \<Longrightarrow> y \<notin> C \<Longrightarrow> blk_size m' y = blk_size m y"
    "y \<in> set bs \<Longrightarrow> y \<notin> C \<Longrightarrow> blk_hole m' y = blk_hole m y"
    "y \<in> set bs \<Longrightarrow> y \<notin> C \<Longrightarrow> foot_header m' (get_foot m y) = foot_header m (get_foot m y)"
    "y \<in> set bs \<Longrightarrow> y \<notin> C \<Longrightarrow> y \<notin> F \<Longrightarrow> keeps m m' y (blk_len m y)"
proof -
  have cases_r: "P" if "r \<in> op_regions m h C F" "\<And>c. c \<in> C \<Longrightarrow> r = (c, blk_len m c) \<Longrightarrow> P"
    "\<And>i. i < 9 \<Longrightarrow> r = (bin_at m h i, 4) \<Longrightarrow> P" "\<And>x. x \<in> F \<Longrightarrow> r = (x + 8, 8) \<Longrightarrow> P" for r P
    using that by (auto simp: op_regions_def link_regions_def)
  have ba: "bins_apart (bin_at m h) (set bs)" by (rule heap_bins_apart [OF l t])
  show "keeps m m' h 52"
  proof (rule writes_in_keeps [OF w])
    fix r assume r: "r \<in> op_regions m h C F"
    have h: "apart h 52 b (blk_len m b)" if "b \<in> set bs" for b
      by (rule in_heap_apart [OF t that]) (use l in \<open>simp_all add: heap_layout_def heap_size_def\<close>)
    show "0 < snd r \<and> apart (fst r) (snd r) h 52"
    proof (rule cases_r [OF r])
      fix c assume "c \<in> C" "r = (c, blk_len m c)"
      then show ?thesis using h C by (auto simp: apart_sym)
    next
      fix i :: nat assume "i < 9" "r = (bin_at m h i, 4)"
      then show ?thesis using l by (simp add: heap_layout_def)
    next
      fix x assume x: "x \<in> F" "r = (x + 8, 8)"
      then have "apart x (blk_len m x) h 52" using h [of x] F x by (auto simp: apart_sym)
      then have "apart (x + 8) 8 h 52" by (rule apart_shift_left) (simp_all add: blk_len_def)
      then show ?thesis using x by simp
    qed
  qed
  assume y: "y \<in> set bs" "y \<notin> C"
  have part: "keeps m m' (y + d) n" if d: "unat d + n \<le> blk_len m y" "0 < n"
    and lk: "y \<in> F \<Longrightarrow> apart 8 8 d n" for d n
  proof (rule writes_in_keeps [OF w])
    fix r assume r: "r \<in> op_regions m h C F"
    show "0 < snd r \<and> apart (fst r) (snd r) (y + d) n"
    proof (rule cases_r [OF r])
      fix c assume c: "c \<in> C" "r = (c, blk_len m c)"
      then have "apart c (blk_len m c) y (blk_len m y)" using tiled_apart [OF t, of c y] C y by auto
      then show ?thesis using c apart_shift_right [of c "blk_len m c" y "blk_len m y" d n] d by simp
    next
      fix i :: nat assume i: "i < 9" "r = (bin_at m h i, 4)"
      then show ?thesis
        using apart_shift_right [OF bin_block_apart [OF l t y(1) i(1)], of d n] d by simp
    next
      fix x assume x: "x \<in> F" "r = (x + 8, 8)"
      show ?thesis
      proof (cases "x = y")
        case True
        then show ?thesis using lk x by simp
      next
        case False
        then have "apart x (blk_len m x) y (blk_len m y)" using tiled_apart [OF t, of x y] F x y by auto
        then have "apart (x + 8) 8 (y + d) n" by (rule apart_shift) (use d in \<open>simp_all add: blk_len_def\<close>)
        then show ?thesis using x by simp
      qed
    qed
  qed
  have "keeps m m' (y + 0) 8" by (rule part) (simp_all add: blk_len_def)
  then show "blk_size m' y = blk_size m y" "blk_hole m' y = blk_hole m y"
    using keeps_size_hole by simp_all
  have len: "blk_len m y \<le> 2 ^ 32"
    using tiled_mem [OF t y(1)] unat_bound32 [of "heap_end m h"] by simp
  have u: "unat (16 + blk_size m y) = 16 + unat (blk_size m y)"
    using len by (subst unat_add_lem [THEN iffD1]) (simp_all add: blk_len_def)
  have "apart 8 8 (16 + blk_size m y) 4"
    by (rule apart_bounds) (use u len in \<open>simp_all add: blk_len_def\<close>)
  then have "keeps m m' (y + (16 + blk_size m y)) 4"
    by (intro part) (use u in \<open>simp_all add: blk_len_def\<close>)
  then show "foot_header m' (get_foot m y) = foot_header m (get_foot m y)"
    using keeps_load32 by (simp add: get_foot_def foot_header_def add.assoc)
  show "keeps m m' y (blk_len m y)" if "y \<notin> F"
    using part [of 0 "blk_len m y"] that by simp
qed

section \<open>Looking up a bin\<close>

lemma heap_bin_keeps:
  assumes "keeps m m' h 52" "unat i \<le> 8"
  shows "heap_bin m' h i = heap_bin m h i"
proof -
  have "unat (16 + 4 * i) = 16 + 4 * unat i"
    using assms(2) by (simp add: unat_word_ariths)
  then have "load32 m' (h + (16 + 4 * i)) = load32 m (h + (16 + 4 * i))"
    by (intro keeps_load32_at [OF assms(1)]) (use assms(2) in simp)
  then show ?thesis by (simp add: heap_bin_def add.assoc)
qed

lemma layout_keeps:
  assumes "keeps m m' h 52"
  shows "heap_start m' h = heap_start m h" "heap_end m' h = heap_end m h"
    "i < 9 \<Longrightarrow> bin_at m' h i = bin_at m h i" "heap_layout m' h \<longleftrightarrow> heap_layout m h"
proof -
  show 1: "heap_start m' h = heap_start m h" "heap_end m' h = heap_end m h"
    using keeps_load32_at [OF assms, of 0] keeps_load32_at [OF assms, of 4]
    by (simp_all add: heap_start_def heap_end_def)
  show b: "bin_at m' h i = bin_at m h i" if "i < 9" for i
    unfolding bin_at_def by (rule heap_bin_keeps [OF assms]) (use that in \<open>simp add: unat_of_nat\<close>)
  show "heap_layout m' h \<longleftrightarrow> heap_layout m h"
    using b by (auto simp: heap_layout_def heap_size_def 1)
qed

lemma get_bin_at:
  assumes "keeps m m' h 52"
  shows "get_bin m' h sz = bin_at m h (unat (get_bin_index sz))"
proof -
  have "unat (get_bin_index sz) \<le> 8"
  proof -
    obtain k where k: "get_bin_index sz = word_of_nat (min (k - 2) 8)"
      using get_bin_index_log by blast
    show ?thesis by (simp add: k unat_of_nat)
  qed
  then show ?thesis using heap_bin_keeps [OF assms] by (simp add: get_bin_def bin_at_def)
qed

lemma bin_index_bound [simp]: "unat (get_bin_index sz) < 9"
proof -
  obtain k where k: "get_bin_index sz = word_of_nat (min (k - 2) 8)"
    using get_bin_index_log by blast
  show ?thesis by (simp add: k unat_of_nat)
qed

lemma keeps_refl [simp]: "keeps m m a n"
  by (simp add: keeps_def)

lemma bins_ok_cong: "(\<And>i. i < 9 \<Longrightarrow> bin' i = bin i) \<Longrightarrow> bins_ok m bin' fl \<longleftrightarrow> bins_ok m bin fl"
  by (simp add: bins_ok_def)

section \<open>Writes inside one block\<close>

lemma block_bound:
  assumes "heap_layout m h" "tiled m (heap_start m h) bs (heap_end m h)" "b \<in> set bs"
  shows "unat b + blk_len m b < 2 ^ 32"
  using tiled_mem [OF assms(2,3)] unat_bound32 [of "heap_end m h"] by simp

text \<open>Behind the header: the bins and the header stay as they are.\<close>

lemma inner_writes:
  assumes l: "heap_layout m h" and t: "tiled m (heap_start m h) bs (heap_end m h)" and b: "b \<in> set bs"
    and w: "writes_in {(b + 16, blk_len m b - 16)} m1 m2"
  shows "keeps m1 m2 b 16" "writes_in (op_regions m h {b} F) m1 m2"
    "bins_ok m1 (bin_at m h) fl \<Longrightarrow> free_set fl \<subseteq> set bs \<Longrightarrow> bins_ok m2 (bin_at m h) fl"
proof -
  note bd = block_bound [OF l t b]
  have "apart 16 (blk_len m b - 16) 0 16"
    unfolding apart_sym [of 16] by (rule apart_bounds) (use bd in simp_all)
  then show k: "keeps m1 m2 b 16"
    by (intro writes_in_keeps [OF w]) (simp add: blk_len_def)
  show "writes_in (op_regions m h {b} F) m1 m2"
    by (rule writes_in_cover [OF w]) (simp add: op_regions_def blk_len_def)
  have away: "keeps m1 m2 y n" if "apart b (blk_len m b) y n" "0 < n" for y n
  proof (rule writes_in_keeps [OF w])
    have "apart (b + 16) (blk_len m b - 16) y n"
      by (rule apart_shift_left [OF that(1)]) (use that in \<open>simp_all add: blk_len_def\<close>)
    then show "0 < snd r \<and> apart (fst r) (snd r) y n" if "r \<in> {(b + 16, blk_len m b - 16)}" for r
      using that by (simp add: blk_len_def)
  qed
  assume ok: "bins_ok m1 (bin_at m h) fl" and fr: "free_set fl \<subseteq> set bs"
  show "bins_ok m2 (bin_at m h) fl"
  proof (rule bins_ok_keeps [OF ok])
    show "keeps m1 m2 (bin_at m h i) 4" if "i < 9" for i
      using bin_block_apart [OF l t b that] by (intro away) (simp_all add: apart_sym)
    show "keeps m1 m2 x 16" if "x \<in> free_set fl" for x
    proof (cases "x = b")
      case True
      then show ?thesis using k by simp
    next
      case False
      then have "apart b (blk_len m b) x (blk_len m x)" using tiled_apart [OF t b, of x] that fr by auto
      then have "keeps m1 m2 x (blk_len m x)" by (rule away) simp
      then show ?thesis by (rule keeps_mono) (simp add: blk_len_def)
    qed
  qed
qed

text \<open>Links of new blocks at the offsets \<open>D\<close> inside \<open>b\<close> and of free blocks.\<close>

lemma inner_links:
  assumes l: "heap_layout m h" and t: "tiled m (heap_start m h) bs (heap_end m h)" and b: "b \<in> set bs"
    and D: "\<And>d. d \<in> D \<Longrightarrow> 16 \<le> unat d \<and> unat d + 16 \<le> blk_len m b" and F: "F \<subseteq> set bs"
    and w: "writes_in (link_regions (bin_at m h) ((+) b ` D \<union> F)) m1 m2"
  shows "writes_in (op_regions m h {b} F) m1 m2"
    "16 \<le> unat e \<Longrightarrow> unat e + n \<le> blk_len m b \<Longrightarrow> 0 < n \<Longrightarrow>
       (\<And>d. d \<in> D \<Longrightarrow> apart (d + 8) 8 e n) \<Longrightarrow> keeps m1 m2 (b + e) n"
proof -
  note bd = block_bound [OF l t b]
  have u8: "unat (d + 8) = unat d + 8" if "d \<in> D" for d
    using bd D [OF that] by (subst unat_add_lem [THEN iffD1]) (simp_all add: blk_len_def)
  show "writes_in (op_regions m h {b} F) m1 m2"
  proof (rule writes_in_cover [OF w])
    fix r assume "r \<in> link_regions (bin_at m h) ((+) b ` D \<union> F)"
    then consider d where "d \<in> D" "r = (b + d + 8, 8)" | "r \<in> link_regions (bin_at m h) F"
      by (auto simp: link_regions_def)
    then show "\<exists>q\<in>op_regions m h {b} F. \<exists>d. fst r = fst q + d \<and> unat d + snd r \<le> snd q \<and> 0 < snd r"
    proof cases
      case 1
      then show ?thesis
        by (intro bexI [of _ "(b, blk_len m b)"] exI [of _ "d + 8"])
          (use u8 [OF 1(1)] D [OF 1(1)] in \<open>simp_all add: op_regions_def add.assoc\<close>)
    next
      case 2
      then have "0 < snd r" by (auto simp: link_regions_def)
      then show ?thesis using 2
        by (intro bexI [of _ r] exI [of _ 0]) (simp_all add: op_regions_def)
    qed
  qed
  assume e: "16 \<le> unat e" "unat e + n \<le> blk_len m b" "0 < n"
    and ed: "\<And>d. d \<in> D \<Longrightarrow> apart (d + 8) 8 e n"
  show "keeps m1 m2 (b + e) n"
  proof (rule writes_in_keeps [OF w])
    fix r assume "r \<in> link_regions (bin_at m h) ((+) b ` D \<union> F)"
    then consider i where "i < 9" "r = (bin_at m h i, 4)" | d where "d \<in> D" "r = (b + d + 8, 8)"
      | "r = (b + 8, 8)" | x where "x \<in> F" "x \<noteq> b" "r = (x + 8, 8)"
      by (auto simp: link_regions_def)
    then show "0 < snd r \<and> apart (fst r) (snd r) (b + e) n"
    proof cases
      case 1
      then show ?thesis
        using apart_shift_right [OF bin_block_apart [OF l t b 1(1)], of e n] e by simp
    next
      case 2
      then show ?thesis using ed [OF 2(1)] by (simp add: add.assoc)
    next
      case 3
      have "apart 8 8 e n" by (rule apart_bounds) (use e bd in simp_all)
      then show ?thesis using 3 by simp
    next
      case 4
      then have "apart x (blk_len m x) b (blk_len m b)" using tiled_apart [OF t, of x b] F b by auto
      then have "apart (x + 8) 8 (b + e) n" by (rule apart_shift) (use e in \<open>simp_all add: blk_len_def\<close>)
      then show ?thesis using 4 by simp
    qed
  qed
qed

section \<open>Splitting a block\<close>

text \<open>
  What \<open>kheap_alloc\<close> needs to know after \<open>split_block\<close>: the new block is in its bin, all links
  are those of a memory \<open>m2\<close> in which the bins were in order, only the size of \<open>found\<close> changed.
\<close>

definition links_as :: "mem \<Rightarrow> mem \<Rightarrow> (nat \<Rightarrow> u32) \<Rightarrow> u32 set \<Rightarrow> u32 \<Rightarrow> bool" where
  "links_as m' m2 bin F b \<longleftrightarrow> (\<forall>k<9. bin_head m' (bin k) = bin_head m2 (bin k)) \<and>
     (\<forall>x\<in>F. blk_next m' x = blk_next m2 x \<and> blk_prev m' x = blk_prev m2 x \<and>
        (x \<noteq> b \<longrightarrow> blk_size m' x = blk_size m2 x))"

lemma resize_links:
  assumes T: "bins_apart bin T" "b \<in> T" "F \<subseteq> T"
    and w: "writes_in {(b + 4, 4), (f, 4)} m2 m3"
    and f: "apart f 4 b 16" "\<And>x. x \<in> F \<Longrightarrow> apart f 4 x 16" "\<And>i. i < 9 \<Longrightarrow> apart f 4 (bin i) 4"
  shows "links_as m3 m2 bin F b"
  unfolding links_as_def
proof (intro conjI allI ballI impI)
  show "bin_head m3 (bin k) = bin_head m2 (bin k)" if "k < 9" for k
  proof -
    have "apart b 16 (bin k) 4" using T that by (simp add: bins_apart_def apart_sym)
    then have "apart (b + 4) 4 (bin k) 4" by (rule apart_shift_left) simp_all
    then have "keeps m2 m3 (bin k) 4"
      by (intro writes_in_keeps [OF w]) (use f(3) [OF that] in auto)
    then show ?thesis by (simp add: bin_head_def keeps_load32)
  qed
  fix x assume x: "x \<in> F"
  have other: "keeps m2 m3 x 16" if "x \<noteq> b"
  proof -
    have "sep2 b x" using T x by (intro separatedD [of T]) (auto simp: bins_apart_def)
    then have "apart b 16 x 16" using that by (simp add: sep2_def)
    then have "apart (b + 4) 4 (x + 0) 16" by (rule apart_shift) simp_all
    then show ?thesis by (intro writes_in_keeps [OF w]) (use f(2) [OF x] in auto)
  qed
  have same: "keeps m2 m3 (b + 8) 8"
  proof (rule writes_in_keeps [OF w])
    have "apart f 4 (b + 8) 8" by (rule apart_shift_right [OF f(1)]) simp_all
    then show "0 < snd r \<and> apart (fst r) (snd r) (b + 8) 8" if "r \<in> {(b + 4, 4), (f, 4)}" for r
      using that by auto
  qed
  show "blk_next m3 x = blk_next m2 x"
    using keeps_blk(3) [OF other] keeps_load32_at [OF same, of 0] by (cases "x = b") (auto simp: blk_next_def)
  show "blk_prev m3 x = blk_prev m2 x"
    using keeps_blk(4) [OF other] keeps_load32_at [OF same, of 4]
    by (cases "x = b") (auto simp: blk_prev_def add.assoc)
  show "x \<noteq> b \<Longrightarrow> blk_size m3 x = blk_size m2 x" using keeps_blk(1) [OF other] by blast
qed

text \<open>The three stores that make the new block, and the two that shorten the old one.\<close>

lemma new_block_stores:
  fixes m :: mem
  assumes bd: "unat b + (20 + unat n) < 2 ^ 32" and sz: "unat sz + 24 < unat n"
  defines "split \<equiv> b + (20 + sz)"
  defines "m1 \<equiv> create_foot split (set_hole split 1 (set_size split (n - sz - 20) m))"
  shows "writes_in {(b + 16, 4 + unat n)} m m1"
    "blk_size m1 split = n - sz - 20" "blk_hole m1 split = 1" "load32 m1 (b + (16 + n)) = split"
proof -
  have u: "unat (20 + sz) = 20 + unat sz" "unat (24 + sz) = 24 + unat sz" "unat (8 + sz) = 8 + unat sz"
    "unat (4 + sz) = 4 + unat sz" "unat (16 + n) = 16 + unat n"
    using assms unat_bound32 [of n] by (simp_all add: unat_word_ariths)
  have foot: "split + 16 + (n - sz - 20) = b + (16 + n)" "split + 4 = b + (24 + sz)"
    by (simp_all add: split_def)
  have a1: "apart (16 + n) 4 (24 + sz) 4" "apart (16 + n) 4 (20 + sz) 1"
    unfolding apart_sym [of "16 + n"] using u sz bd by (intro apart_bounds; simp)+
  have m1: "m1 = store32 ((store32 m (b + (24 + sz)) (n - sz - 20))(split := 1)) (b + (16 + n)) split"
    unfolding m1_def create_foot_def get_foot_def set_foot_header_def
    by (simp only: fields_same_block foot) (simp only: blk_fields foot)
  show "writes_in {(b + 16, 4 + unat n)} m m1"
  proof -
    have "writes_in {(b + 16, 4 + unat n)} m (store32 m (b + 16 + (8 + sz)) (n - sz - 20))"
      by (rule store32_in) (use u sz in simp)
    moreover have "writes_in {(b + 16, 4 + unat n)} x (x(b + 16 + (4 + sz) := 1))" for x
      by (rule writes_in_cover [OF writes_in_upd])
        (use u sz in \<open>auto intro!: exI [of _ "4 + sz"]\<close>)
    moreover have "writes_in {(b + 16, 4 + unat n)} x (store32 x (b + 16 + n) split)" for x
      by (rule store32_in) (use u sz in simp)
    ultimately show ?thesis
      unfolding m1 split_def
      by (simp add: add.assoc) (meson writes_in_trans)
  qed
  show "load32 m1 (b + (16 + n)) = split" unfolding m1 by simp
  have "apart (b + (16 + n)) 4 (split + 0) 1" "apart (b + (16 + n)) 4 (split + 4) 4"
    using a1 by (simp add: split_def) (use a1 in \<open>simp only: foot(2) apart_same_base\<close>)
  then show "blk_size m1 split = n - sz - 20" "blk_hole m1 split = 1"
    unfolding m1 blk_size_def blk_hole_def foot(2) [symmetric]
    by (simp_all add: load32_store32_apart load32_upd_apart store32_other)
qed

lemma in_block_writes:
  assumes "unat d + k \<le> blk_len m b" "0 < k" "b \<in> C" "writes_in {(b + d, k)} m1 m2"
  shows "writes_in (op_regions m h C F) m1 m2"
  by (rule writes_in_cover [OF assms(4)])
    (use assms in \<open>auto intro!: bexI [of _ "(b, blk_len m b)"] exI [of _ d] simp: op_regions_def\<close>)

lemma inner_not_block:
  assumes l: "heap_layout m h" and t: "tiled m (heap_start m h) bs (heap_end m h)" and b: "b \<in> set bs"
    and d: "0 < unat d" "unat d < blk_len m b"
  shows "b + d \<notin> set bs"
proof
  assume c: "b + d \<in> set bs"
  have "unat (b + d) = unat b + unat d"
    using block_bound [OF l t b] d(2) by (subst unat_add_lem [THEN iffD1]) simp_all
  moreover have "b \<noteq> b + d" using d(1) by auto
  ultimately show False
    using tiled_order [OF t b c] d blk_len_pos(1) [of m "b + d"] by linarith
qed

lemma split_block_effect:
  assumes inv: "heap_inv m h bs fl" and fd: "found \<in> free_set fl"
    and sz: "unat sz + 24 < unat (blk_size m found)"
  defines "split \<equiv> found + (20 + sz)" and "rest \<equiv> blk_size m found - sz - 20"
  shows "\<exists>m2 m' fl2. split_block h found sz m = Some m' \<and> bins_ok m2 (bin_at m h) fl2 \<and>
    (\<forall>i<9. set (fl2 i) = set (fl i) \<union> (if i = unat (get_bin_index rest) then {split} else {})) \<and>
    links_as m' m2 (bin_at m h) (insert split (free_set fl)) found \<and>
    writes_in (op_regions m h {found} (free_set fl)) m m' \<and>
    blk_size m' found = sz \<and> blk_size m' split = rest \<and> blk_hole m' split = 1 \<and>
    foot_header m' (get_foot m' split) = split \<and> foot_header m' (get_foot m' found) = found"
proof -
  let ?n = "blk_size m found" and ?F = "free_set fl" and ?bin = "bin_at m h"
  note l = heap_invD(1) [OF inv] and t = heap_invD(2) [OF inv] and ok = heap_invD(3) [OF inv]
    and fr = heap_invD(4) [OF inv]
  have b: "found \<in> set bs" using fd fr by blast
  have len: "blk_len m found = 20 + unat ?n" by (simp add: blk_len_def)
  have bd: "unat found + (20 + unat ?n) < 2 ^ 32" using block_bound [OF l t b] len by simp
  have u: "unat (20 + sz) = 20 + unat sz" "unat (16 + sz) = 16 + unat sz" "unat (16 + ?n) = 16 + unat ?n"
    "unat (28 + sz) = 28 + unat sz"
    using bd sz by (simp_all add: unat_word_ariths)
  define m1 where "m1 = create_foot split (set_hole split 1 (set_size split rest m))"
  note s = new_block_stores [OF bd sz, of m, folded split_def rest_def m1_def]
  have "4 + unat ?n = blk_len m found - 16" using len by simp
  note iw = inner_writes [OF l t b, of m m1, folded this, OF s(1)]
  have T: "bins_apart ?bin (insert split (set bs))"
    unfolding split_def by (rule inner_bins_apart [OF l t b]) (use u sz len in simp_all)
  have ns: "split \<notin> set bs"
    unfolding split_def by (rule inner_not_block [OF l t b]) (use u sz len in simp_all)
  define j where "j = unat (get_bin_index rest)"
  have j: "j < 9" by (simp add: j_def)
  have h1: "keeps m m1 h 52" by (rule op_frame(1) [OF l t iw(2) [of "{}"]]) (use b in simp_all)
  have "free_set fl \<subseteq> insert split (set bs)" "split \<notin> free_set fl" using fr ns by auto
  then obtain m2 where m2: "add_block_sorted (?bin j) split m1 = Some m2"
    "bins_ok m2 ?bin (fl(j := bin_insert m1 split (fl j)))"
    "writes_in (link_regions ?bin (insert split ?F)) m1 m2"
    using bins_add [OF iw(3) [OF ok fr] T _ _ _ j] by blast
  define m' where "m' = create_foot found (set_size found sz m2)"
  have m': "m' = store32 (store32 m2 (found + 4) sz) (found + (16 + sz)) found"
    by (simp add: m'_def create_foot_def get_foot_def set_foot_header_def set_size_def blk_size_def add.assoc)
  have "found + BLCK_OVERHEAD + sz = split" by (simp add: split_def BLCK_OVERHEAD_def)
  then have run: "split_block h found sz m = Some m'"
    using m2(1) get_bin_at [OF h1, of rest] s(2)
    by (simp add: split_block_def Let_def BLCK_OVERHEAD_def m1_def [symmetric] rest_def [symmetric]
        j_def m'_def)
  have m2w: "writes_in (link_regions ?bin ((+) found ` {20 + sz} \<union> ?F)) m1 m2"
    using m2(3) by (simp add: split_def)
  note il = inner_links [OF l t b _ fr m2w]
  have 12: "keeps m1 m2 (found + e) k"
    if "16 \<le> unat e" "unat e + k \<le> 20 + unat ?n" "0 < k" "apart (28 + sz) 8 e k" for e k
    using il(2) [of e k] that u sz len by simp
  have 23: "keeps m2 m' (found + e) k" if "apart 4 4 e k" "apart (16 + sz) 4 e k" for e k
    unfolding m'
    by (rule keeps_trans [OF writes_in_keeps [OF writes_in_store32] writes_in_keeps [OF writes_in_store32]])
      (use that in auto)
  have a: "apart 4 4 (20 + sz) 8" "apart (16 + sz) 4 (20 + sz) 8" "apart 4 4 (16 + ?n) 4"
    "apart (16 + sz) 4 (16 + ?n) 4" "apart (28 + sz) 8 (16 + ?n) 4" "apart 0 16 (16 + sz) 4" "apart 4 4 (16 + sz) 4"
    by (rule apart_bounds; use u sz bd in simp)+
  have a8: "apart (28 + sz) 8 (20 + sz) 8"
    unfolding apart_sym [of "28 + sz"] by (rule apart_bounds) (use u sz bd in simp_all)
  have "keeps m1 m' split 8"
    unfolding split_def
    by (rule keeps_trans [OF 12 23]) (use a a8 u sz in simp_all)
  then have sp: "blk_size m' split = rest" "blk_hole m' split = 1"
    using keeps_size_hole s(2,3) by simp_all
  have "keeps m1 m' (found + (16 + ?n)) 4"
    by (rule keeps_trans [OF 12 23]) (use a u sz in simp_all)
  then have "load32 m' (found + (16 + ?n)) = split" using keeps_load32 s(4) by simp
  moreover have "get_foot m' split = found + (16 + ?n)" 
    by (simp only: get_foot_def sp(1)) (simp add: split_def rest_def)
  ultimately have fs: "foot_header m' (get_foot m' split) = split" by (simp add: foot_header_def)
  have fsz: "blk_size m' found = sz"
    using a(7) by (simp add: blk_size_def m' load32_store32_apart apart_sym)
  have ff: "foot_header m' (get_foot m' found) = found"
    using fsz by (simp add: foot_header_def get_foot_def m' add.assoc)
  have w3: "writes_in {(found + 4, 4), (found + (16 + sz), 4)} m2 m'"
    unfolding m' by (rule writes_in_trans; rule writes_in_mono [OF writes_in_store32]) auto
  have la: "links_as m' m2 ?bin (insert split ?F) found"
  proof (rule resize_links [OF T _ _ w3])
    show "apart (found + (16 + sz)) 4 found 16" using a(6) by (simp add: apart_sym)
    show "apart (found + (16 + sz)) 4 (?bin i) 4" if "i < 9" for i
      unfolding apart_sym [of _ _ "?bin i"]
      by (rule apart_shift_right [OF bin_block_apart [OF l t b that]]) (use u sz len in simp_all)
    show "apart (found + (16 + sz)) 4 x 16" if x: "x \<in> insert split ?F" for x
    proof -
      consider "x = split" | "x = found" | "x \<noteq> found" "x \<in> set bs" using x fr by blast
      then show ?thesis
      proof cases
        case 1
        have "apart (16 + sz) 4 (20 + sz) 16" by (rule apart_bounds) (use u sz bd in simp_all)
        then show ?thesis using 1 by (simp add: split_def)
      next
        case 2
        then show ?thesis using a(6) by (simp add: apart_sym)
      next
        case 3
        then have "apart found (blk_len m found) x (blk_len m x)" using tiled_apart [OF t b] by simp
        then have "apart (found + (16 + sz)) 4 (x + 0) 16"
          by (rule apart_shift) (use u sz len in \<open>simp_all add: blk_len_def\<close>)
        then show ?thesis by simp
      qed
    qed
  qed (use fr b in auto)
  have w: "writes_in (op_regions m h {found} ?F) m m'"
  proof (rule writes_in_trans [OF iw(2) writes_in_trans])
    show "writes_in (op_regions m h {found} ?F) m1 m2" by (rule il(1)) (use u sz len in simp_all)
    have "writes_in (op_regions m h {found} ?F) m2 (store32 m2 (found + 4) sz)"
      by (rule in_block_writes [OF _ _ _ writes_in_store32]) (simp_all add: len)
    moreover have "writes_in (op_regions m h {found} ?F) x (store32 x (found + (16 + sz)) found)" for x
      by (rule in_block_writes [OF _ _ _ writes_in_store32]) (use u sz in \<open>simp_all add: len\<close>)
    ultimately show "writes_in (op_regions m h {found} ?F) m2 m'"
      unfolding m' by (rule writes_in_trans)
  qed
  have "\<forall>i<9. set ((fl(j := bin_insert m1 split (fl j))) i) = set (fl i) \<union> (if i = j then {split} else {})"
    by simp
  then show ?thesis using run m2(2) la w fsz sp fs ff unfolding j_def by blast
qed

section \<open>Finding a block\<close>

lemma get_bin_index_mono:
  assumes "a \<le> b"
  shows "unat (get_bin_index a) \<le> unat (get_bin_index b)"
proof -
  obtain k where k: "get_bin_index a = word_of_nat (min (k - 2) 8)" "2 ^ k \<le> max 4 (unat a)"
    using get_bin_index_log by blast
  obtain l where l: "get_bin_index b = word_of_nat (min (l - 2) 8)" "max 4 (unat b) < 2 ^ Suc l"
    using get_bin_index_log by blast
  have "max 4 (unat a) \<le> max 4 (unat b)" using assms by (auto simp: word_le_nat_alt)
  then have "(2::nat) ^ k < 2 ^ Suc l" using k(2) l(2) by linarith
  then have "k \<le> l" using power_less_imp_less_exp [of "2::nat" k "Suc l"] by simp
  then show ?thesis by (simp add: k(1) l(1) unat_of_nat min_def) arith
qed

lemma bin_search_finds:
  assumes ok: "bins_ok m (bin_at m h) fl" and x: "x \<in> set (fl k)" "sz \<le> blk_size m x" "k < 9"
  shows "i \<le> k \<Longrightarrow> \<exists>j found. bin_search m h (word_of_nat i) sz = Some (bin_at m h j, found) \<and>
    i \<le> j \<and> j < 9 \<and> found \<in> set (fl j) \<and> sz \<le> blk_size m found"
proof (induction "k - i" arbitrary: i)
  case (0 i)
  then have i: "i = k" by simp
  have bl: "bin_list m (bin_at m h k) (fl k)" using ok x by (simp add: bins_ok_def)
  obtain r where r: "get_first_fit m (bin_at m h k) sz = Some r"
    "r = 0 \<longrightarrow> (\<forall>x\<in>set (fl k). blk_size m x < sz)" "r \<noteq> 0 \<longrightarrow> r \<in> set (fl k) \<and> sz \<le> blk_size m r"
    using get_first_fit_best [OF bl] by blast
  have "r \<noteq> 0" using r(2) x by (auto simp: not_less)
  then show ?case using r x i
    by (subst bin_search.simps) (auto simp: bin_at_def)
next
  case (Suc n i)
  then have i: "i < k" by simp
  have bl: "bin_list m (bin_at m h i) (fl i)" using ok x i by (simp add: bins_ok_def)
  obtain r where r: "get_first_fit m (bin_at m h i) sz = Some r"
    "r \<noteq> 0 \<longrightarrow> r \<in> set (fl i) \<and> sz \<le> blk_size m r"
    using get_first_fit_best [OF bl] by blast
  show ?case
  proof (cases "r = 0")
    case True
    obtain j found where "bin_search m h (word_of_nat (Suc i)) sz = Some (bin_at m h j, found)"
      "Suc i \<le> j" "j < 9" "found \<in> set (fl j)" "sz \<le> blk_size m found"
      using Suc.hyps(1) [of "Suc i"] Suc.hyps(2) i by fastforce
    then show ?thesis using r True
      by (subst bin_search.simps) (auto simp: bin_at_def add.commute intro!: exI [of _ j])
  next
    case False
    then show ?thesis using r i x
      by (subst bin_search.simps) (auto simp: bin_at_def)
  qed
qed

section \<open>Handing a block out\<close>

text \<open>The end of \<open>kheap_alloc\<close>: mark the block, take it out of its bin, clear it.\<close>

lemma hand_out:
  assumes T: "bins_apart bin T" "found \<in> T" "free_set fl \<subseteq> T"
    and ok: "bins_ok m2 bin fl" and i: "i < 9" "found \<in> set (fl i)"
    and la: "links_as mA m2 bin (free_set fl) found"
    and fit: "unat (blk_size mA found) + 16 < 2 ^ 32"
    and sep: "\<And>x. x \<in> free_set fl \<Longrightarrow> x \<noteq> found \<Longrightarrow> apart found (16 + unat (blk_size mA found)) x 16"
      "\<And>k. k < 9 \<Longrightarrow> apart (bin k) 4 found (16 + unat (blk_size mA found))"
  shows "\<exists>m5 m6. remove_block (bin i) found (s\<lparr>ram := set_hole found 0 mA\<rparr>) = Some (s\<lparr>ram := m5\<rparr>) \<and>
    m6 = memset (found + 8) 0 (blk_size m5 found + 8) m5 \<and>
    bins_ok m6 bin (fl(i := remove1 found (fl i))) \<and>
    writes_in (link_regions bin (free_set fl)) (set_hole found 0 mA) m5 \<and>
    writes_in {(found + 8, 8 + unat (blk_size mA found))} m5 m6 \<and>
    (\<forall>c. unat c < 8 + unat (blk_size mA found) \<longrightarrow> m6 (found + 8 + c) = 0) \<and>
    blk_hole m6 found = 0 \<and> blk_size m6 found = blk_size mA found"
proof -
  let ?sz = "blk_size mA found" and ?mB = "set_hole found 0 mA" and ?F = "free_set fl"
  have s2: "sep2 found x" if "x \<in> ?F" for x
    using T that by (intro separatedD [of T]) (auto simp: bins_apart_def)
  have b4: "apart (bin k) 4 found 16" if "k < 9" for k using T that by (simp add: bins_apart_def)
  have B: "bin_head ?mB (bin k) = bin_head m2 (bin k)" if "k < 9" for k
    using la that b4 [OF that] by (simp add: links_as_def bin_head_other)
  have Bx: "blk_next ?mB x = blk_next m2 x \<and> blk_prev ?mB x = blk_prev m2 x" if "x \<in> ?F" for x
    using la that by (simp add: links_as_def fields_if [OF s2])
  have Bs: "blk_size ?mB x = blk_size m2 x" if "x \<in> ?F" "x \<noteq> found" for x
    using la that by (simp add: links_as_def fields_if [OF s2])
  obtain m5 where m5: "remove_block (bin i) found (s\<lparr>ram := ?mB\<rparr>) = Some (s\<lparr>ram := m5\<rparr>)"
    "bins_ok m5 bin (fl(i := remove1 found (fl i)))" "writes_in (link_regions bin ?F) ?mB m5"
    using bins_del [OF ok T(1,3) i, of "s\<lparr>ram := ?mB\<rparr>"] B Bx Bs by auto
  have sz5: "blk_size m5 found = ?sz" "blk_hole m5 found = 0"
    using links_keep(1,2) [OF m5(3) T(1,3,2)] by simp_all
  define m6 where "m6 = memset (found + 8) 0 (blk_size m5 found + 8) m5"
  have un: "unat (?sz + 8) = 8 + unat ?sz" using fit by (subst unat_add_lem [THEN iffD1]) simp_all
  have w6: "writes_in {(found + 8, 8 + unat ?sz)} m5 m6"
    using writes_in_memset [of "found + 8" "?sz + 8" m5 0] un by (simp add: m6_def sz5)
  have fr': "free_set (fl(i := remove1 found (fl i))) = ?F - {found}"
    by (rule free_set_remove [OF ok i])
  have ok6: "bins_ok m6 bin (fl(i := remove1 found (fl i)))"
  proof (rule bins_ok_keeps [OF m5(2)])
    show "keeps m5 m6 (bin k) 4" if "k < 9" for k
    proof (rule writes_in_keeps [OF w6])
      have "apart found (16 + unat ?sz) (bin k) 4" using sep(2) [OF that] by (simp add: apart_sym)
      then have "apart (found + 8) (8 + unat ?sz) (bin k) 4" by (rule apart_shift_left) simp_all
      then show "0 < snd r \<and> apart (fst r) (snd r) (bin k) 4" if "r \<in> {(found + 8, 8 + unat ?sz)}" for r
        using that by simp
    qed
    show "keeps m5 m6 x 16" if "x \<in> free_set (fl(i := remove1 found (fl i)))" for x
    proof (rule writes_in_keeps [OF w6])
      have "apart found (16 + unat ?sz) x 16" using that sep(1) fr' by auto
      then have "apart (found + 8) (8 + unat ?sz) x 16" by (rule apart_shift_left) simp_all
      then show "0 < snd r \<and> apart (fst r) (snd r) x 16" if "r \<in> {(found + 8, 8 + unat ?sz)}" for r
        using that by simp
    qed
  qed
  have z: "m6 (found + 8 + c) = 0" if "unat c < 8 + unat ?sz" for c
    using that un by (simp add: m6_def sz5 memset_eq word_less_nat_alt)
  have "apart 8 (8 + unat ?sz) 0 8"
    unfolding apart_sym [of 8] by (rule apart_bounds) (use fit in simp_all)
  then have "keeps m5 m6 found 8" by (intro writes_in_keeps [OF w6]) simp
  then have "blk_hole m6 found = 0 \<and> blk_size m6 found = ?sz" using keeps_size_hole sz5 by simp
  then show ?thesis using m5 w6 ok6 z m6_def by blast
qed

text \<open>What \<open>hand_out\<close> leaves alone behind the payload it clears.\<close>

lemma hand_out_keeps:
  assumes l: "heap_layout m h" and t: "tiled m (heap_start m h) bs (heap_end m h)" and b: "b \<in> set bs"
    and D: "\<And>d. d \<in> D \<Longrightarrow> 16 \<le> unat d \<and> unat d + 16 \<le> blk_len m b" and F: "F \<subseteq> set bs"
    and w: "writes_in (link_regions (bin_at m h) ((+) b ` D \<union> F)) (set_hole b 0 mA) m5"
      "writes_in {(b + 8, 8 + n)} m5 m6"
    and n: "20 + n \<le> blk_len m b"
  shows "writes_in (op_regions m h {b} F) mA m6"
    "16 + n \<le> unat e \<Longrightarrow> unat e + k \<le> blk_len m b \<Longrightarrow> 0 < k \<Longrightarrow>
       (\<And>d. d \<in> D \<Longrightarrow> apart (d + 8) 8 e k) \<Longrightarrow> keeps mA m6 (b + e) k"
proof -
  note il = inner_links [OF l t b D F w(1)] and bd = block_bound [OF l t b]
  have "writes_in (op_regions m h {b} F) mA (set_hole b 0 mA)"
    unfolding set_hole_def
    by (rule in_block_writes [where d = 0 and k = 1]) (use writes_in_upd [of b] in \<open>simp_all add: blk_len_def\<close>)
  moreover have "writes_in (op_regions m h {b} F) m5 m6"
    by (rule in_block_writes [OF _ _ _ w(2)]) (use n in simp_all)
  ultimately show "writes_in (op_regions m h {b} F) mA m6"
    using il(1) writes_in_trans by blast
  assume e: "16 + n \<le> unat e" "unat e + k \<le> blk_len m b" "0 < k"
    and ed: "\<And>d. d \<in> D \<Longrightarrow> apart (d + 8) 8 e k"
  have "apart 0 1 e k" "apart 8 (8 + n) e k" by (rule apart_bounds; use e bd in simp)+
  then have "keeps mA (set_hole b 0 mA) (b + e) k" "keeps m5 m6 (b + e) k"
    unfolding set_hole_def
    by (intro writes_in_keeps [OF writes_in_upd] writes_in_keeps [OF w(2)]; simp)+
  moreover have "keeps (set_hole b 0 mA) m5 (b + e) k"
    by (rule il(2)) (use e ed in simp_all)
  ultimately show "keeps mA m6 (b + e) k" using keeps_trans by blast
qed

text \<open>
  The common end of every operation on the heap: with the layout kept, the blocks tiled again and
  the bins in order it only remains to say which block is where.
\<close>

lemma heap_invI:
  assumes "heap_layout m h" "keeps m m' h 52"
    and "tiled m' (heap_start m h) bs (heap_end m h)" "bins_ok m' (bin_at m h) fl"
    and "\<And>i x. i < 9 \<Longrightarrow> x \<in> set (fl i) \<Longrightarrow> x \<in> set bs \<and> unat (get_bin_index (blk_size m' x)) = i"
    and "\<And>b. b \<in> set bs \<Longrightarrow> blk_hole m' b \<noteq> 0 \<Longrightarrow> b \<in> free_set fl"
  shows "heap_inv m' h bs fl"
proof -
  note k = layout_keeps [OF assms(2)]
  have "bins_ok m' (bin_at m' h) fl" using bins_ok_cong [of "bin_at m' h"] k(3) assms(4) by metis
  then show ?thesis using assms by (simp add: heap_inv_def k)
qed

definition used_set :: "u32 list \<Rightarrow> (nat \<Rightarrow> u32 list) \<Rightarrow> u32 set" where
  "used_set bs fl = set bs - free_set fl"

definition alloc_result ::
    "mem \<Rightarrow> u32 \<Rightarrow> u32 list \<Rightarrow> (nat \<Rightarrow> u32 list) \<Rightarrow> u32 \<Rightarrow> u32 \<Rightarrow> mem \<Rightarrow> u32 list \<Rightarrow>
      (nat \<Rightarrow> u32 list) \<Rightarrow> bool" where
  "alloc_result m h bs fl sz b m' bs' fl' \<longleftrightarrow>
     heap_inv m' h bs' fl' \<and> b \<in> free_set fl \<and> used_set bs' fl' = insert b (used_set bs fl) \<and>
     free_set fl - {b} \<subseteq> free_set fl' \<and>
     (unat sz + 24 < unat (blk_size m b) \<longrightarrow>
        (\<exists>x\<in>free_set fl'. blk_size m' x = blk_size m b - sz - 20)) \<and>
     sz \<le> blk_size m' b \<and> (\<forall>c. unat c < 8 + unat (blk_size m' b) \<longrightarrow> m' (b + 8 + c) = 0) \<and>
     writes_in (op_regions m h {b} (free_set fl)) m m'"

lemma alloc_whole:
  assumes inv: "heap_inv m h bs fl" and i: "i < 9" "b \<in> set (fl i)" and sz: "sz \<le> blk_size m b"
    and ns: "\<not> unat sz + 24 < unat (blk_size m b)"
  shows "\<exists>m5 m6. remove_block (bin_at m h i) b (s\<lparr>ram := set_hole b 0 m\<rparr>) = Some (s\<lparr>ram := m5\<rparr>) \<and>
    m6 = memset (b + 8) 0 (blk_size m5 b + 8) m5 \<and>
    alloc_result m h bs fl sz b m6 bs (fl(i := remove1 b (fl i)))"
proof -
  let ?F = "free_set fl" and ?n = "blk_size m b" and ?fl = "fl(i := remove1 b (fl i))"
  note l = heap_invD(1) [OF inv] and t = heap_invD(2) [OF inv] and ok = heap_invD(3) [OF inv]
    and fr = heap_invD(4) [OF inv]
  have bF: "b \<in> ?F" and b: "b \<in> set bs" using i fr by (auto simp: free_set_def)
  note bd = block_bound [OF l t b]
  have sep: "apart b (16 + unat ?n) x 16" if "x \<in> ?F" "x \<noteq> b" for x
    using tiled_apart [OF t b, of x] that fr apart_mono [of b "blk_len m b" x "blk_len m x"]
    by (auto simp: blk_len_def)
  have sepb: "apart (bin_at m h k) 4 b (16 + unat ?n)" if "k < 9" for k
    using apart_mono [OF bin_block_apart [OF l t b that], of 4] by (simp add: blk_len_def)
  have la: "links_as m m (bin_at m h) ?F b" by (simp add: links_as_def)
  have "unat ?n + 16 < 2 ^ 32" using bd by (simp add: blk_len_def)
  from hand_out [OF heap_bins_apart [OF l t] b fr ok i la this sep sepb, of s]
  obtain m5 m6 where h: "remove_block (bin_at m h i) b (s\<lparr>ram := set_hole b 0 m\<rparr>) = Some (s\<lparr>ram := m5\<rparr>)"
    "m6 = memset (b + 8) 0 (blk_size m5 b + 8) m5" "bins_ok m6 (bin_at m h) ?fl"
    "writes_in (link_regions (bin_at m h) ?F) (set_hole b 0 m) m5"
    "writes_in {(b + 8, 8 + unat ?n)} m5 m6"
    "\<forall>c. unat c < 8 + unat ?n \<longrightarrow> m6 (b + 8 + c) = 0" "blk_hole m6 b = 0" "blk_size m6 b = ?n"
    by blast
  have w5: "writes_in (link_regions (bin_at m h) ((+) b ` {} \<union> ?F)) (set_hole b 0 m) m5" using h(4) by simp
  note hk = hand_out_keeps [OF l t b _ fr w5 h(5)]
  have w: "writes_in (op_regions m h {b} ?F) m m6" by (rule hk(1)) (simp_all add: blk_len_def)
  note of = op_frame [OF l t w _ fr, simplified, OF b]
  have fr': "free_set ?fl = ?F - {b}" by (rule free_set_remove [OF ok i])
  have u: "unat (16 + ?n) = 16 + unat ?n"
    using bd by (subst unat_add_lem [THEN iffD1]) (simp_all add: blk_len_def)
  have "keeps m m6 (b + (16 + ?n)) 4" by (rule hk(2)) (use u in \<open>simp_all add: blk_len_def\<close>)
  then have "foot_header m6 (get_foot m b) = foot_header m (get_foot m b)"
    by (simp add: foot_header_def get_foot_def keeps_load32 add.assoc)
  then have "tiled m6 (heap_start m h) bs (heap_end m h)"
    using tiled_cong [of bs m6 m] t of(2,4) h(8) by metis
  moreover have "x \<in> set bs \<and> unat (get_bin_index (blk_size m6 x)) = k"
    if k: "k < 9" and x: "x \<in> set (?fl k)" for k x
  proof -
    have "x \<in> free_set ?fl" using free_setI [of k x ?fl] k x by blast
    then have "x \<noteq> b" "x \<in> ?F" using fr' by auto
    moreover have "x \<in> set (fl k)" using x set_remove1_subset [of b "fl i"] by (auto split: if_splits)
    ultimately show ?thesis using of(2) [of x] heap_invD(5) [OF inv k] fr by auto
  qed
  moreover have "x \<in> free_set ?fl" if "x \<in> set bs" "blk_hole m6 x \<noteq> 0" for x
    using that h(7) of(3) [of x] heap_invD(6) [OF inv, of x] fr' by (cases "x = b") auto
  ultimately have "heap_inv m6 h bs ?fl" using heap_invI [OF l of(1) _ h(3)] by blast
  moreover have "used_set bs ?fl = insert b (used_set bs fl)" using fr' b bF by (auto simp: used_set_def)
  ultimately have "alloc_result m h bs fl sz b m6 bs ?fl"
    unfolding alloc_result_def using bF sz ns h(6,8) w fr' by (simp add: Diff_subset)
  then show ?thesis using h(1,2) by blast
qed

lemma alloc_split:
  assumes inv: "heap_inv m h bs fl" and i: "i < 9" "b \<in> set (fl i)"
    and sz: "unat sz + 24 < unat (blk_size m b)"
  shows "\<exists>mA m5 m6 bs' fl'. split_block h b sz m = Some mA \<and>
    remove_block (bin_at m h i) b (s\<lparr>ram := set_hole b 0 mA\<rparr>) = Some (s\<lparr>ram := m5\<rparr>) \<and>
    m6 = memset (b + 8) 0 (blk_size m5 b + 8) m5 \<and> alloc_result m h bs fl sz b m6 bs' fl'"
proof -
  let ?F = "free_set fl" and ?n = "blk_size m b" and ?bin = "bin_at m h"
  define split where "split = b + (20 + sz)"
  define rest where "rest = ?n - sz - 20"
  note l = heap_invD(1) [OF inv] and t = heap_invD(2) [OF inv] and ok = heap_invD(3) [OF inv]
    and fr = heap_invD(4) [OF inv]
  have bF: "b \<in> ?F" and b: "b \<in> set bs" using i fr by (auto simp: free_set_def)
  have len: "blk_len m b = 20 + unat ?n" by (simp add: blk_len_def)
  note bd = block_bound [OF l t b, unfolded len]
  have u: "unat (20 + sz) = 20 + unat sz" "unat (16 + sz) = 16 + unat sz" "unat (16 + ?n) = 16 + unat ?n"
    "unat (28 + sz) = 28 + unat sz"
    using bd sz by (simp_all add: unat_word_ariths)
  have urest: "unat rest = unat ?n - unat sz - 20"
    using sz bd by (simp add: rest_def unat_sub_if_size word_size)
  obtain m2 mA fl2 where A: "split_block h b sz m = Some mA" "bins_ok m2 ?bin fl2"
    "\<forall>i<9. set (fl2 i) = set (fl i) \<union> (if i = unat (get_bin_index rest) then {split} else {})"
    "links_as mA m2 ?bin (insert split ?F) b" "writes_in (op_regions m h {b} ?F) m mA"
    "blk_size mA b = sz" "blk_size mA split = rest" "blk_hole mA split = 1"
    "foot_header mA (get_foot mA split) = split" "foot_header mA (get_foot mA b) = b"
    using split_block_effect [OF inv bF sz, folded split_def rest_def] by blast
  have F2: "free_set fl2 = insert split ?F"
  proof (intro equalityI insert_subsetI)
    show "split \<in> free_set fl2"
      using A(3) free_setI [of "unat (get_bin_index rest)" split fl2] by simp
    show "?F \<subseteq> free_set fl2" using A(3) by (auto simp: free_set_def)
    show "free_set fl2 \<subseteq> insert split ?F" using A(3) by (auto simp: free_set_def split: if_splits)
  qed
  have T: "bins_apart ?bin (insert split (set bs))"
    unfolding split_def by (rule inner_bins_apart [OF l t b]) (use u sz len in simp_all)
  have ns: "split \<notin> set bs"
    unfolding split_def by (rule inner_not_block [OF l t b]) (use u sz len in simp_all)
  have sep: "apart b (16 + unat sz) x 16" if "x \<in> insert split ?F" "x \<noteq> b" for x
  proof (cases "x = split")
    case True
    have "apart 0 (16 + unat sz) (20 + sz) 16" by (rule apart_bounds) (use u sz bd in simp_all)
    then show ?thesis using True by (simp add: split_def)
  next
    case False
    then show ?thesis
      using tiled_apart [OF t b, of x] that fr apart_mono [of b "blk_len m b" x "blk_len m x"] sz
      by (auto simp: blk_len_def)
  qed
  have sepb: "apart (?bin k) 4 b (16 + unat sz)" if "k < 9" for k
    using apart_mono [OF bin_block_apart [OF l t b that], of 4] sz by (simp add: blk_len_def)
  have i2: "b \<in> set (fl2 i)" using A(3) i by auto
  have "unat (blk_size mA b) + 16 < 2 ^ 32" using bd sz A(6) by simp
  from hand_out [OF T _ _ A(2) i(1) i2 A(4) [folded F2] this, unfolded F2 A(6), OF _ _ sep sepb, of s]
  obtain m5 m6 where h: "remove_block (?bin i) b (s\<lparr>ram := set_hole b 0 mA\<rparr>) = Some (s\<lparr>ram := m5\<rparr>)"
    "m6 = memset (b + 8) 0 (blk_size m5 b + 8) m5" "bins_ok m6 ?bin (fl2(i := remove1 b (fl2 i)))"
    "writes_in (link_regions ?bin (insert split ?F)) (set_hole b 0 mA) m5"
    "writes_in {(b + 8, 8 + unat sz)} m5 m6"
    "\<forall>c. unat c < 8 + unat sz \<longrightarrow> m6 (b + 8 + c) = 0" "blk_hole m6 b = 0" "blk_size m6 b = sz"
    using b fr by blast
  let ?fl = "fl2(i := remove1 b (fl2 i))"
  have w5: "writes_in (link_regions ?bin ((+) b ` {20 + sz} \<union> ?F)) (set_hole b 0 mA) m5"
    using h(4) by (simp add: split_def)
  note hk = hand_out_keeps [OF l t b _ fr w5 h(5)]
  have "writes_in (op_regions m h {b} ?F) mA m6" by (rule hk(1)) (use u sz len in simp_all)
  then have w: "writes_in (op_regions m h {b} ?F) m m6" using A(5) writes_in_trans by blast
  note of = op_frame [OF l t w _ fr, simplified, OF b]
  have a: "apart (28 + sz) 8 (16 + ?n) 4" by (rule apart_bounds) (use u sz bd in simp_all)
  have a': "apart (28 + sz) 8 (20 + sz) 8" "apart (28 + sz) 8 (16 + sz) 4"
    unfolding apart_sym [of "28 + sz"] by (rule apart_bounds; use u sz bd in simp)+
  have k: "keeps mA m6 (b + e) k" if "16 + unat sz \<le> unat e" "unat e + k \<le> 20 + unat ?n" "0 < k"
    "apart (28 + sz) 8 e k" for e k
    by (rule hk(2)) (use that u sz len in simp_all)
  have "keeps mA m6 split 8" unfolding split_def by (rule k) (use a' u sz in simp_all)
  then have sp: "blk_size m6 split = rest" "blk_hole m6 split = 1" using keeps_size_hole A(7,8) by simp_all
  have "keeps mA m6 (b + (16 + ?n)) 4" by (rule k) (use a u sz in simp_all)
  moreover have fsp: "split + 16 + rest = b + (16 + ?n)" by (simp add: split_def rest_def)
  ultimately have fs: "foot_header m6 (get_foot m6 split) = split"
    using A(9) by (simp add: foot_header_def get_foot_def sp(1) A(7) fsp keeps_load32)
  have "keeps mA m6 (b + (16 + sz)) 4" by (rule k) (use a' u sz in simp_all)
  then have fb: "foot_header m6 (get_foot m6 b) = b"
    using A(10) by (simp add: foot_header_def get_foot_def A(6) h(8) keeps_load32 add.assoc)
  obtain xs ys where bs: "bs = xs @ b # ys" using b by (meson split_list)
  let ?bs = "xs @ b # split # ys"
  have d: "distinct (xs @ b # ys)" using tiled_distinct [OF t] bs by simp
  have tl: "tiled m6 (heap_start m h) ?bs (heap_end m h)"
  proof (rule tiled_split [OF t [unfolded bs]])
    show "blk_size m6 x = blk_size m x \<and> foot_header m6 (get_foot m x) = foot_header m (get_foot m x)"
      if "x \<in> set (xs @ ys)" for x
      using of(2,4) [of x] that d bs by auto
    show "blk_len m6 b + blk_len m6 split = blk_len m b"
      using sp(1) h(8) urest sz by (simp add: blk_len_def)
  qed (use fb fs h(8) in \<open>simp_all add: split_def add.assoc\<close>)
  have fr': "free_set ?fl = insert split ?F - {b}" using free_set_remove [OF A(2) i(1) i2] F2 by simp
  have idx: "x \<in> set ?bs \<and> unat (get_bin_index (blk_size m6 x)) = k"
    if kx: "k < 9" "x \<in> set (?fl k)" for k x
  proof -
    have "x \<in> free_set ?fl" using free_setI [of k x ?fl] kx by blast
    then have x: "x \<noteq> b" "x \<in> insert split ?F" using fr' by auto
    have "x \<in> set (fl2 k)" using kx(2) set_remove1_subset [of b "fl2 i"] by (auto split: if_splits)
    then consider "x = split" "k = unat (get_bin_index rest)" | "x \<in> set (fl k)"
      using A(3) kx(1) by (auto split: if_splits)
    then show ?thesis
    proof cases
      case 2
      then have "x \<in> set bs" using free_setI [of k x fl] kx(1) 2 fr by blast
      then show ?thesis using of(2) [of x] heap_invD(5) [OF inv kx(1) 2] x(1) bs by auto
    qed (use sp in simp)
  qed
  have hole: "x \<in> free_set ?fl" if x: "x \<in> set ?bs" "blk_hole m6 x \<noteq> 0" for x
  proof -
    have "x \<noteq> b" using x(2) h(7) by auto
    then show ?thesis using x of(3) [of x] heap_invD(6) [OF inv, of x] fr' bs by (cases "x = split") auto
  qed
  have "heap_inv m6 h ?bs ?fl" by (rule heap_invI [OF l of(1) tl h(3) idx hole])
  moreover have "used_set ?bs ?fl = insert b (used_set bs fl)"
    using fr' bs bF ns by (auto simp: used_set_def)
  moreover have "?F - {b} \<subseteq> free_set ?fl" using fr' by auto
  moreover have "\<exists>x\<in>free_set ?fl. blk_size m6 x = ?n - sz - 20"
  proof (rule bexI [of _ split])
    show "blk_size m6 split = ?n - sz - 20" using sp(1) by (simp add: rest_def)
    show "split \<in> free_set ?fl" unfolding fr' using ns b by auto
  qed
  ultimately have "alloc_result m h bs fl sz b m6 ?bs ?fl"
    unfolding alloc_result_def using bF h(6,8) w by simp
  then show ?thesis using A(1) h(1,2) by blast
qed

lemma kheap_alloc_ok:
  assumes inv: "heap_inv (ram s) (kheap s) bs fl" and x: "x \<in> free_set fl" "sz \<le> blk_size (ram s) x"
  shows "\<exists>b m' bs' fl'. kheap_alloc sz s = Some (b + 8, s\<lparr>ram := m'\<rparr>) \<and>
    alloc_result (ram s) (kheap s) bs fl sz b m' bs' fl'"
proof -
  let ?m = "ram s" and ?h = "kheap s"
  obtain k where k: "k < 9" "x \<in> set (fl k)" using x(1) by (auto simp: free_set_def)
  have "unat (get_bin_index sz) \<le> k"
    using get_bin_index_mono [OF x(2)] heap_invD(5) [OF inv k] by simp
  from bin_search_finds [OF heap_invD(3) [OF inv] k(2) x(2) k(1) this]
  obtain j b where j: "bin_search ?m ?h (get_bin_index sz) sz = Some (bin_at ?m ?h j, b)"
    "j < 9" "b \<in> set (fl j)" "sz \<le> blk_size ?m b" by auto
  have cond: "BLCK_OVERHEAD + MIN_ALLOC_SZ < blk_size ?m b - sz \<longleftrightarrow> unat sz + 24 < unat (blk_size ?m b)"
    using j(4) by (auto simp: BLCK_OVERHEAD_def MIN_ALLOC_SZ_def word_less_nat_alt unat_sub)
  show ?thesis
  proof (cases "unat sz + 24 < unat (blk_size ?m b)")
    case True
    from alloc_split [OF inv j(2,3) True, of s] obtain mA m5 m6 bs' fl' where
      "split_block ?h b sz ?m = Some mA"
      "remove_block (bin_at ?m ?h j) b (s\<lparr>ram := set_hole b 0 mA\<rparr>) = Some (s\<lparr>ram := m5\<rparr>)"
      "m6 = memset (b + 8) 0 (blk_size m5 b + 8) m5" "alloc_result ?m ?h bs fl sz b m6 bs' fl'"
      by blast
    then show ?thesis using j(1) True cond by (auto simp: kheap_alloc_def)
  next
    case False
    from alloc_whole [OF inv j(2,3,4) False, of s] obtain m5 m6 where
      "remove_block (bin_at ?m ?h j) b (s\<lparr>ram := set_hole b 0 ?m\<rparr>) = Some (s\<lparr>ram := m5\<rparr>)"
      "m6 = memset (b + 8) 0 (blk_size m5 b + 8) m5"
      "alloc_result ?m ?h bs fl sz b m6 bs (fl(j := remove1 b (fl j)))"
      by blast
    then show ?thesis using j(1) False cond by (auto simp: kheap_alloc_def)
  qed
qed

end
