(* ===== verification/Kheap_Free.thy ===== *)
theory Kheap_Free
  imports Kheap_Alloc
begin

text \<open>
  \<open>kheap_free\<close>: the block goes back into the bins, merged with the free blocks right before and
  behind it, and the invariant holds again.  Between the steps the heap is open at one block,
  which is in no bin (\<open>heap_open\<close>).
\<close>

section \<open>The heap open at one block\<close>

definition heap_open :: "mem \<Rightarrow> u32 \<Rightarrow> u32 list \<Rightarrow> (nat \<Rightarrow> u32 list) \<Rightarrow> u32 \<Rightarrow> bool" where
  "heap_open m h bs fl b \<longleftrightarrow> heap_layout m h \<and> tiled m (heap_start m h) bs (heap_end m h) \<and>
     bins_ok m (bin_at m h) fl \<and>
     (\<forall>i<9. \<forall>x\<in>set (fl i). x \<in> set bs \<and> unat (get_bin_index (blk_size m x)) = i) \<and>
     (\<forall>x\<in>set bs. x \<noteq> b \<longrightarrow> blk_hole m x \<noteq> 0 \<longrightarrow> x \<in> free_set fl) \<and>
     b \<in> set bs \<and> b \<notin> free_set fl"

lemma heap_openD:
  assumes "heap_open m h bs fl b"
  shows "heap_layout m h" "tiled m (heap_start m h) bs (heap_end m h)" "bins_ok m (bin_at m h) fl"
    "free_set fl \<subseteq> set bs" "b \<in> set bs" "b \<notin> free_set fl"
    "i < 9 \<Longrightarrow> x \<in> set (fl i) \<Longrightarrow> x \<in> set bs \<and> unat (get_bin_index (blk_size m x)) = i"
    "x \<in> set bs \<Longrightarrow> x \<noteq> b \<Longrightarrow> blk_hole m x \<noteq> 0 \<Longrightarrow> x \<in> free_set fl"
  using assms by (auto simp: heap_open_def free_set_def)

lemma heap_openI:
  assumes "heap_layout m h" "keeps m m' h 52"
    and "tiled m' (heap_start m h) bs (heap_end m h)" "bins_ok m' (bin_at m h) fl"
    and "\<And>i x. i < 9 \<Longrightarrow> x \<in> set (fl i) \<Longrightarrow> x \<in> set bs \<and> unat (get_bin_index (blk_size m' x)) = i"
    and "\<And>x. x \<in> set bs \<Longrightarrow> x \<noteq> b \<Longrightarrow> blk_hole m' x \<noteq> 0 \<Longrightarrow> x \<in> free_set fl"
    and "b \<in> set bs" "b \<notin> free_set fl"
  shows "heap_open m' h bs fl b"
proof -
  note k = layout_keeps [OF assms(2)]
  have "bins_ok m' (bin_at m' h) fl" using bins_ok_cong [of "bin_at m' h"] k(3) assms(4) by metis
  then show ?thesis using assms by (simp add: heap_open_def k)
qed

lemma heap_inv_open: "heap_inv m h bs fl \<Longrightarrow> b \<in> used_set bs fl \<Longrightarrow> heap_open m h bs fl b"
  by (auto simp: heap_inv_def heap_open_def used_set_def)

section \<open>Everything an operation may write\<close>

definition heap_regions :: "mem \<Rightarrow> u32 \<Rightarrow> (u32 \<times> nat) set" where
  "heap_regions m h = insert (heap_start m h, heap_size m h) ((\<lambda>i. (bin_at m h i, 4)) ` {..<9})"

text \<open>
  \<open>heap_change m h m' U\<close>: from \<open>m\<close> to \<open>m'\<close> only the heap and the heads of the bins changed, and
  nothing of the blocks in \<open>U\<close>.
\<close>

definition heap_change :: "mem \<Rightarrow> u32 \<Rightarrow> mem \<Rightarrow> u32 set \<Rightarrow> bool" where
  "heap_change m h m' U \<longleftrightarrow> keeps m m' h 52 \<and> writes_in (heap_regions m h) m m' \<and>
     (\<forall>u\<in>U. keeps m m' u (blk_len m u))"

lemma blk_len_keeps: "keeps m m' u n \<Longrightarrow> 8 \<le> n \<Longrightarrow> blk_len m' u = blk_len m u"
  using keeps_size_hole(1) [OF keeps_mono [of m m' u n 8]] by (simp add: blk_len_def)

lemma heap_regions_keeps: "keeps m m' h 52 \<Longrightarrow> heap_regions m' h = heap_regions m h"
  using layout_keeps [of m m' h] by (auto simp: heap_regions_def heap_size_def)

lemma heap_change_trans:
  assumes "heap_change m h m' U" "heap_change m' h m'' V" "W \<subseteq> U" "W \<subseteq> V"
  shows "heap_change m h m'' W"
proof -
  have k: "keeps m m' h 52" and r: "heap_regions m' h = heap_regions m h"
    using assms(1) heap_regions_keeps by (auto simp: heap_change_def)
  have "keeps m m'' u (blk_len m u)" if "u \<in> W" for u
  proof -
    have 1: "keeps m m' u (blk_len m u)" using assms that by (auto simp: heap_change_def)
    have "blk_len m' u = blk_len m u" using 1 by (rule blk_len_keeps) (simp add: blk_len_def)
    then show ?thesis using 1 assms that keeps_trans by (fastforce simp: heap_change_def)
  qed
  then show ?thesis
    using assms(1,2) r keeps_trans writes_in_trans unfolding heap_change_def by metis
qed

lemma op_change:
  assumes l: "heap_layout m h" and t: "tiled m (heap_start m h) bs (heap_end m h)"
    and w: "writes_in (op_regions m h C F) m m'" and C: "C \<subseteq> set bs" and F: "F \<subseteq> set bs"
  shows "heap_change m h m' (set bs - C - F)"
proof -
  have "writes_in (heap_regions m h) m m'"
  proof (rule writes_in_cover [OF w])
    fix r assume r: "r \<in> op_regions m h C F"
    have inside: "\<exists>d. b + e = heap_start m h + d \<and> unat d + n \<le> heap_size m h"
      if b: "b \<in> set bs" and e: "unat e + n \<le> blk_len m b" for b e n
    proof -
      have i: "unat (heap_start m h) \<le> unat b" "unat b + blk_len m b \<le> unat (heap_end m h)"
        using tiled_mem [OF t b] by auto
      have "unat (b + e) \<le> unat b + unat e" by (simp add: unat_word_ariths)
      moreover have "unat (b + e) = unat b + unat e"
        using i e unat_bound32 [of "heap_end m h"] by (subst unat_add_lem [THEN iffD1]) simp_all
      ultimately have "unat (b + e - heap_start m h) + n \<le> heap_size m h"
        using i e unat_sub [of "heap_start m h" "heap_end m h"] unat_sub [of "heap_start m h" "b + e"]
        by (simp add: heap_size_def word_le_nat_alt)
      then show ?thesis by (intro exI [of _ "b + e - heap_start m h"]) simp
    qed
    consider c where "c \<in> C" "r = (c, blk_len m c)" | i where "i < 9" "r = (bin_at m h i, 4)"
      | x where "x \<in> F" "r = (x + 8, 8)"
      using r by (auto simp: op_regions_def link_regions_def)
    then show "\<exists>q\<in>heap_regions m h. \<exists>d. fst r = fst q + d \<and> unat d + snd r \<le> snd q \<and> 0 < snd r"
    proof cases
      case 1
      then show ?thesis using inside [of c 0 "blk_len m c"] C by (auto simp: heap_regions_def)
    next
      case 2
      then show ?thesis
        by (intro bexI [of _ r] exI [of _ 0]) (simp_all add: heap_regions_def)
    next
      case 3
      then show ?thesis using inside [of x 8 8] F by (auto simp: heap_regions_def blk_len_def)
    qed
  qed
  then show ?thesis using op_frame(1,5) [OF l t w C F] by (auto simp: heap_change_def)
qed

text \<open>Writes inside the blocks \<open>C\<close> only.\<close>

definition block_regions :: "mem \<Rightarrow> u32 set \<Rightarrow> (u32 \<times> nat) set" where
  "block_regions m C = (\<lambda>c. (c, blk_len m c)) ` C"

lemma block_writes:
  assumes l: "heap_layout m h" and t: "tiled m (heap_start m h) bs (heap_end m h)"
    and w: "writes_in (block_regions m C) m1 m2" and C: "C \<subseteq> set bs"
  shows "y \<in> set bs \<Longrightarrow> y \<notin> C \<Longrightarrow> keeps m1 m2 y (blk_len m y)"
    "bins_ok m1 (bin_at m h) fl \<Longrightarrow> free_set fl \<subseteq> set bs - C \<Longrightarrow> bins_ok m2 (bin_at m h) fl"
    "writes_in (op_regions m h C F) m1 m2"
proof -
  show k: "keeps m1 m2 y (blk_len m y)" if "y \<in> set bs" "y \<notin> C" for y
  proof (rule writes_in_keeps [OF w])
    fix r assume "r \<in> block_regions m C"
    then obtain c where c: "c \<in> C" "r = (c, blk_len m c)" by (auto simp: block_regions_def)
    then show "0 < snd r \<and> apart (fst r) (snd r) y (blk_len m y)"
      using tiled_apart [OF t, of c y] that C by auto
  qed
  show "writes_in (op_regions m h C F) m1 m2"
    by (rule writes_in_mono [OF w]) (simp add: op_regions_def block_regions_def)
  show "bins_ok m2 (bin_at m h) fl" if "bins_ok m1 (bin_at m h) fl" "free_set fl \<subseteq> set bs - C"
  proof (rule bins_ok_keeps [OF that(1)])
    show "keeps m1 m2 (bin_at m h i) 4" if "i < 9" for i
    proof (rule writes_in_keeps [OF w])
      fix r assume "r \<in> block_regions m C"
      then obtain c where c: "c \<in> set bs" "r = (c, blk_len m c)" using C by (auto simp: block_regions_def)
      then show "0 < snd r \<and> apart (fst r) (snd r) (bin_at m h i) 4"
        using bin_block_apart [OF l t c(1) that] by (simp add: apart_sym)
    qed
    show "keeps m1 m2 x 16" if "x \<in> free_set fl" for x
      using k [of x] that \<open>free_set fl \<subseteq> set bs - C\<close> keeps_mono [of m1 m2 x "blk_len m x" 16]
      by (auto simp: blk_len_def)
  qed
qed

lemma block_store:
  assumes "c \<in> C" "unat d + 4 \<le> blk_len m c"
  shows "writes_in (block_regions m C) m1 (store32 m1 (c + d) v)"
  by (rule writes_in_mono [OF store32_in [OF assms(2)]]) (use assms(1) in \<open>simp add: block_regions_def\<close>)

lemma block_byte: "c \<in> C \<Longrightarrow> writes_in (block_regions m C) m1 (m1(c := v))"
  by (rule writes_in_mono [OF upd_in [of "blk_len m c" c]]) (simp_all add: block_regions_def)

section \<open>The three steps\<close>

lemma take_out:
  assumes o: "heap_open (ram s) h bs fl b" and p: "p \<in> free_set fl"
  shows "\<exists>i m1. remove_block (get_bin (ram s) h (blk_size (ram s) p)) p s = Some (s\<lparr>ram := m1\<rparr>) \<and>
    i < 9 \<and> p \<in> set (fl i) \<and> bins_ok m1 (bin_at (ram s) h) (fl(i := remove1 p (fl i))) \<and>
    writes_in (link_regions (bin_at (ram s) h) (free_set fl)) (ram s) m1"
proof -
  note d = heap_openD [OF o]
  obtain i where i: "i < 9" "p \<in> set (fl i)" using p by (auto simp: free_set_def)
  then have "get_bin (ram s) h (blk_size (ram s) p) = bin_at (ram s) h i"
    using get_bin_at [OF keeps_refl] d(7) by blast
  moreover obtain m1 where "remove_block (bin_at (ram s) h i) p s = Some (s\<lparr>ram := m1\<rparr>)"
    "bins_ok m1 (bin_at (ram s) h) (fl(i := remove1 p (fl i)))"
    "writes_in (link_regions (bin_at (ram s) h) (free_set fl)) (ram s) m1"
    using bins_del [OF d(3) heap_bins_apart [OF d(1,2)] d(4) i] by blast
  ultimately show ?thesis using i by auto
qed

definition others :: "u32 list \<Rightarrow> (nat \<Rightarrow> u32 list) \<Rightarrow> u32 \<Rightarrow> u32 set" where
  "others bs fl b = used_set bs fl - {b}"

text \<open>
  \<open>p\<close> and \<open>q\<close> become one block at \<open>p\<close>: the heap was open at one of them, the other, \<open>d\<close>, has been
  taken out of its bin.
\<close>

lemma merged_open:
  assumes o: "heap_open m h (xs @ p # q # ys) fl c" and cd: "{c, d} = {p, q}"
    and i: "i < 9" "d \<in> set (fl i)" and fl': "fl' = fl(i := remove1 d (fl i))"
    and ok: "bins_ok m1 (bin_at m h) fl'"
    and w: "writes_in (link_regions (bin_at m h) (free_set fl)) m m1"
      "writes_in (block_regions m {p, q}) m1 m2"
    and sz: "blk_size m2 p = blk_size m p + (20 + blk_size m q)"
    and ft: "foot_header m2 (get_foot m q) = p"
  shows "heap_open m2 h (xs @ p # ys) fl' p \<and> get_foot m2 p = get_foot m q \<and>
    blk_len m2 p = blk_len m p + blk_len m q \<and> heap_change m h m2 (others (xs @ p # q # ys) fl c) \<and>
    others (xs @ p # ys) fl' p = others (xs @ p # q # ys) fl c \<and>
    (\<forall>y\<in>set ys. blk_size m2 y = blk_size m y \<and> blk_hole m2 y = blk_hole m y)"
proof -
  let ?bs = "xs @ p # q # ys" and ?F = "free_set fl"
  note d = heap_openD [OF o]
  have pq: "{p, q} \<subseteq> set ?bs" by auto
  have dist: "distinct ?bs" by (rule tiled_distinct [OF d(2)])
  have w1: "writes_in (op_regions m h {p, q} ?F) m m1"
    by (rule writes_in_mono [OF w(1)]) (auto simp: op_regions_def)
  have W: "writes_in (op_regions m h {p, q} ?F) m m2"
    by (rule writes_in_trans [OF w1 block_writes(3) [OF d(1,2) w(2) pq]])
  note f = op_frame [OF d(1,2) W pq d(4)]
  have fr: "free_set fl' = ?F - {d}" unfolding fl' by (rule free_set_remove [OF d(3) i])
  then have out: "p \<notin> free_set fl'" "q \<notin> free_set fl'" "free_set fl' \<subseteq> set ?bs - {p, q}"
    using cd d(4,6) by (auto simp: doubleton_eq_iff)
  have tl: "tiled m2 (heap_start m h) (xs @ p # ys) (heap_end m h) \<and> get_foot m2 p = get_foot m q \<and>
      blk_len m2 p = blk_len m p + blk_len m q"
  proof (rule tiled_merge [OF d(2) _ sz ft])
    show "blk_size m2 x = blk_size m x \<and> foot_header m2 (get_foot m x) = foot_header m (get_foot m x)"
      if "x \<in> set (xs @ ys)" for x
      using f(2,4) [of x] that dist by auto
  qed
  have "heap_open m2 h (xs @ p # ys) fl' p"
  proof (rule heap_openI [OF d(1) f(1)])
    show "bins_ok m2 (bin_at m h) fl'" by (rule block_writes(2) [OF d(1,2) w(2) pq ok out(3)])
    show "x \<in> set (xs @ p # ys) \<and> unat (get_bin_index (blk_size m2 x)) = k"
      if kx: "k < 9" "x \<in> set (fl' k)" for k x
    proof -
      have "x \<in> free_set fl'" using free_setI [of k x fl'] kx by blast
      then have x: "x \<in> set ?bs" "x \<noteq> p" "x \<noteq> q" using out by auto
      have "x \<in> set (fl k)" using kx(2) set_remove1_subset [of d "fl i"] by (auto simp: fl' split: if_splits)
      then show ?thesis using x f(2) [of x] d(7) [OF kx(1)] by auto
    qed
    show "x \<in> free_set fl'" if x: "x \<in> set (xs @ p # ys)" "x \<noteq> p" "blk_hole m2 x \<noteq> 0" for x
    proof -
      have "x \<in> set ?bs" "x \<noteq> q" using x dist by auto
      then have "x \<in> ?F" using x f(3) [of x] d(8) [of x] cd by (auto simp: doubleton_eq_iff)
      then show ?thesis using fr x \<open>x \<noteq> q\<close> cd by (auto simp: doubleton_eq_iff)
    qed
  qed (use tl out in auto)
  moreover have oth: "others ?bs fl c = set (xs @ ys) - ?F"
    using cd dist d(4,6) free_setI [of i d fl] i by (auto simp: others_def used_set_def doubleton_eq_iff)
  moreover have "others (xs @ p # ys) fl' p = set (xs @ ys) - ?F"
    using fr dist cd by (auto simp: others_def used_set_def doubleton_eq_iff)
  moreover have "heap_change m h m2 (others ?bs fl c)"
    unfolding oth using op_change [OF d(1,2) W pq d(4)] dist by (auto simp: heap_change_def)
  moreover have "blk_size m2 y = blk_size m y \<and> blk_hole m2 y = blk_hole m y" if "y \<in> set ys" for y
    using f(2,3) [of y] that dist by auto
  ultimately show ?thesis using tl by blast
qed

lemma put_back:
  assumes o: "heap_open m h bs fl b"
  shows "\<exists>m' fl'. add_block_sorted (get_bin (set_hole b 1 m) h (blk_size (set_hole b 1 m) b)) b
      (set_hole b 1 m) = Some m' \<and> heap_inv m' h bs fl' \<and> free_set fl' = insert b (free_set fl) \<and>
    blk_len m' b = blk_len m b \<and> heap_change m h m' (others bs fl b)"
proof -
  let ?m1 = "set_hole b 1 m" and ?F = "free_set fl"
  note d = heap_openD [OF o]
  have bC: "{b} \<subseteq> set bs" using d(5) by simp
  have w1: "writes_in (block_regions m {b}) m ?m1" unfolding set_hole_def by (rule block_byte) simp
  have op1: "writes_in (op_regions m h {b} ?F) m ?m1" by (rule block_writes(3) [OF d(1,2) w1 bC])
  have k1: "keeps m ?m1 h 52" by (rule op_frame(1) [OF d(1,2) op1 bC d(4)])
  define j where "j = unat (get_bin_index (blk_size m b))"
  have j: "j < 9" by (simp add: j_def)
  have bin: "get_bin ?m1 h (blk_size ?m1 b) = bin_at m h j"
    using get_bin_at [OF k1] by (simp add: j_def)
  have "bins_ok ?m1 (bin_at m h) fl"
    by (rule block_writes(2) [OF d(1,2) w1 bC d(3)]) (use d(4,6) in auto)
  from bins_add [OF this heap_bins_apart [OF d(1,2)] d(4,5,6) j] obtain m' where
    m': "add_block_sorted (bin_at m h j) b ?m1 = Some m'"
      "bins_ok m' (bin_at m h) (fl(j := bin_insert ?m1 b (fl j)))"
      "writes_in (link_regions (bin_at m h) (insert b ?F)) ?m1 m'" by blast
  let ?fl = "fl(j := bin_insert ?m1 b (fl j))"
  have fr: "free_set ?fl = insert b ?F" by (rule free_set_insert [OF j])
  have "writes_in (op_regions m h {b} (insert b ?F)) m m'"
  proof (rule writes_in_trans)
    show "writes_in (op_regions m h {b} (insert b ?F)) m ?m1"
      by (rule block_writes(3) [OF d(1,2) w1 bC])
    show "writes_in (op_regions m h {b} (insert b ?F)) ?m1 m'"
      by (rule writes_in_mono [OF m'(3)]) (auto simp: op_regions_def)
  qed
  note W = this and Fb = d(4) [THEN insert_subsetI [OF d(5)]]
  note f = op_frame [OF d(1,2) W bC Fb]
  have lk: "blk_size m' x = blk_size m x" "x \<noteq> b \<Longrightarrow> blk_hole m' x = blk_hole m x" if "x \<in> set bs" for x
    using links_keep(1,2) [OF m'(3) heap_bins_apart [OF d(1,2)] Fb that] f(2,3) [OF that] by (cases "x = b"; auto)+
  have "keeps m m' (get_foot m b) 4"
  proof (rule keeps_trans)
    have bd: "unat b + blk_len m b < 2 ^ 32" by (rule block_bound [OF d(1,2,5)])
    have u: "unat (16 + blk_size m b) = 16 + unat (blk_size m b)"
      using bd by (subst unat_add_lem [THEN iffD1]) (simp_all add: blk_len_def)
    have "apart 0 1 (16 + blk_size m b) 4" by (rule apart_bounds) (use u bd in \<open>simp_all add: blk_len_def\<close>)
    then show "keeps m ?m1 (get_foot m b) 4"
      unfolding set_hole_def get_foot_def add.assoc
      by (intro writes_in_keeps [OF writes_in_upd]) simp
    have "writes_in (link_regions (bin_at m h) ((+) b ` {} \<union> insert b ?F)) ?m1 m'" using m'(3) by simp
    from inner_links(2) [OF d(1,2,5) _ Fb this, of "16 + blk_size m b" 4]
    show "keeps ?m1 m' (get_foot m b) 4"
      using u by (simp add: get_foot_def blk_len_def add.assoc)
  qed
  then have ft: "foot_header m' (get_foot m b) = foot_header m (get_foot m b)"
    by (simp add: foot_header_def keeps_load32)
  have "heap_inv m' h bs ?fl"
  proof (rule heap_invI [OF d(1) f(1) _ m'(2)])
    show "tiled m' (heap_start m h) bs (heap_end m h)"
      using tiled_cong [of bs m' m] d(2) lk(1) f(4) ft by (metis singletonD)
    show "x \<in> set bs \<and> unat (get_bin_index (blk_size m' x)) = k" if kx: "k < 9" "x \<in> set (?fl k)" for k x
    proof -
      consider "x = b" "k = j" | "x \<in> set (fl k)" using kx(2) by (auto split: if_splits)
      then show ?thesis
      proof cases
        case 1
        then show ?thesis using lk(1) [OF d(5)] d(5) by (simp add: j_def)
      next
        case 2
        then show ?thesis using d(7) [OF kx(1) 2] lk(1) [of x] by simp
      qed
    qed
    show "x \<in> free_set ?fl" if "x \<in> set bs" "blk_hole m' x \<noteq> 0" for x
      unfolding fr using that lk(2) [of x] d(8) [of x] by (cases "x = b") simp_all
  qed
  moreover have "heap_change m h m' (others bs fl b)"
    unfolding others_def used_set_def using op_change [OF d(1,2) W bC Fb] by (auto simp: heap_change_def)
  moreover have "blk_len m' b = blk_len m b" using lk(1) [OF d(5)] by (simp add: blk_len_def)
  ultimately show ?thesis using m'(1) fr bin by auto
qed

section \<open>Neighbours\<close>

lemma tiled_neighbour:
  assumes "tiled m a (xs @ p # q # ys) e"
  shows "q = get_foot m p + 4"
  using assms by (auto simp: tiled_append get_foot_def)

lemma tiled_end:
  assumes "tiled m a (xs @ [p]) e"
  shows "e = get_foot m p + 4"
  using assms by (auto simp: tiled_append get_foot_def)

lemma has_neighbour:
  assumes "tiled m a bs e" "b \<in> set bs" "b \<noteq> a"
  shows "\<exists>xs p ys. bs = xs @ p # b # ys"
proof -
  obtain us ys where bs: "bs = us @ b # ys" using assms(2) by (meson split_list)
  show ?thesis
  proof (cases us rule: rev_cases)
    case Nil
    then show ?thesis using assms(1,3) bs by simp
  next
    case (snoc xs p)
    then show ?thesis using bs by auto
  qed
qed

lemma merge_prev:
  assumes o: "heap_open (ram s) h (xs @ p # b # ys) fl b"
  shows "\<exists>c us fl' m1.
    coalesce_prev h p b s = Some (c, s\<lparr>ram := m1\<rparr>) \<and>
    heap_open m1 h (us @ c # ys) fl' c \<and> get_foot m1 c = get_foot (ram s) b \<and>
    blk_len (ram s) b \<le> blk_len m1 c \<and>
    heap_change (ram s) h m1 (others (xs @ p # b # ys) fl b) \<and>
    others (us @ c # ys) fl' c = others (xs @ p # b # ys) fl b \<and>
    (\<forall>y\<in>set ys. blk_size m1 y = blk_size (ram s) y \<and> blk_hole m1 y = blk_hole (ram s) y)"
proof (cases "blk_hole (ram s) p = 0")
  case True
  then show ?thesis using o
    by (intro exI [of _ b] exI [of _ "xs @ [p]"] exI [of _ fl] exI [of _ "ram s"])
      (simp add: heap_change_def coalesce_prev_def)
next
  case False
  let ?m = "ram s" and ?bs = "xs @ p # b # ys"
  note d = heap_openD [OF o]
  have dist: "distinct ?bs" by (rule tiled_distinct [OF d(2)])
  have ne: "p \<noteq> b" "b \<noteq> p" using dist by auto
  have pF: "p \<in> free_set fl" by (rule d(8)) (use False dist in auto)
  from take_out [OF o pF] obtain i m1 where
    r: "remove_block (get_bin ?m h (blk_size ?m p)) p s = Some (s\<lparr>ram := m1\<rparr>)"
    and i: "i < 9" "p \<in> set (fl i)"
    and ok: "bins_ok m1 (bin_at ?m h) (fl(i := remove1 p (fl i)))"
    and w: "writes_in (link_regions (bin_at ?m h) (free_set fl)) ?m m1" by blast
  have sz: "blk_size m1 x = blk_size ?m x" if "x \<in> set ?bs" for x
    by (rule links_keep(1) [OF w heap_bins_apart [OF d(1,2)] d(4) that])
  have bp: "sep2 p b" by (rule separatedD [OF tiled_separated [OF d(2)]]) auto
  define mA where "mA = set_size p (blk_size ?m p + (20 + blk_size ?m b)) m1"
  have szb: "blk_size mA b = blk_size ?m b"
    using ne sz [of b] by (simp add: mA_def fields_if [OF bp])
  define m2 where "m2 = set_foot_header (get_foot mA b) p mA"
  have m2: "m2 = store32 (store32 m1 (p + 4) (blk_size ?m p + (20 + blk_size ?m b)))
      (b + (16 + blk_size ?m b)) p"
    by (simp add: m2_def set_foot_header_def get_foot_def szb add.assoc)
      (simp add: mA_def set_size_def)
  have u: "unat (16 + blk_size ?m b) = 16 + unat (blk_size ?m b)"
    using block_bound [OF d(1,2), of b]
    by (subst unat_add_lem [THEN iffD1]) (simp_all add: blk_len_def)
  have w2: "writes_in (block_regions ?m {p, b}) m1 m2"
    unfolding m2
    by (rule writes_in_trans; rule block_store) (use u in \<open>simp_all add: blk_len_def\<close>)
  have ap: "apart (b + (16 + blk_size ?m b)) 4 (p + 4) 4"
    by (rule apart_shift [OF tiled_apart [OF d(2) _ _ ne(2)]])
      (use u in \<open>simp_all add: blk_len_def\<close>)
  have szp: "blk_size m2 p = blk_size ?m p + (20 + blk_size ?m b)"
    unfolding m2 blk_size_def [of "store32 _ _ _"] using ap by (simp add: load32_store32_apart)
  have ft: "foot_header m2 (get_foot ?m b) = p"
    by (simp add: m2 foot_header_def get_foot_def add.assoc)
  have cd: "{b, p} = {p, b}" by auto
  from merged_open [OF o cd i refl ok w w2 szp ft]
  have mo: "heap_open m2 h (xs @ p # ys) (fl(i := remove1 p (fl i))) p"
    "get_foot m2 p = get_foot ?m b" "blk_len ?m b \<le> blk_len m2 p" "heap_change ?m h m2 (others ?bs fl b)"
    "others (xs @ p # ys) (fl(i := remove1 p (fl i))) p = others ?bs fl b"
    "\<forall>y\<in>set ys. blk_size m2 y = blk_size ?m y \<and> blk_hole m2 y = blk_hole ?m y"
    by auto
  have run: "set_foot_header (get_foot (set_size p (blk_size m1 p + (BLCK_OVERHEAD + blk_size m1 b)) m1) b) p
      (set_size p (blk_size m1 p + (BLCK_OVERHEAD + blk_size m1 b)) m1) = m2"
    by (simp add: m2_def mA_def sz BLCK_OVERHEAD_def)
  show ?thesis
    using mo r run False
    by (intro exI [of _ p] exI [of _ xs] exI [of _ "fl(i := remove1 p (fl i))"] exI [of _ m2])
      (simp add: Let_def coalesce_prev_def)
qed

lemma merge_next:
  assumes o: "heap_open (ram s) h (xs @ b # ys) fl b" and nx: "n = get_foot (ram s) b + 4"
    and last: "ys = [] \<Longrightarrow> blk_hole (ram s) n = 0"
  shows "\<exists>zs fl' m1.
    coalesce_next h n b s = Some (s\<lparr>ram := m1\<rparr>) \<and>
    heap_open m1 h (xs @ b # zs) fl' b \<and> blk_len (ram s) b \<le> blk_len m1 b \<and>
    heap_change (ram s) h m1 (others (xs @ b # ys) fl b) \<and>
    others (xs @ b # zs) fl' b = others (xs @ b # ys) fl b"
proof (cases "blk_hole (ram s) n = 0")
  case True
  then show ?thesis using o
    by (intro exI [of _ ys] exI [of _ fl] exI [of _ "ram s"])
      (simp add: heap_change_def coalesce_next_def)
next
  case False
  let ?m = "ram s"
  obtain n' zs where ys: "ys = n' # zs" using False last by (cases ys) auto
  note d = heap_openD [OF o [unfolded ys]]
  have n': "n' = n" using tiled_neighbour [OF d(2)] nx by simp
  let ?bs = "xs @ b # n # zs"
  note o' = o [unfolded ys n'] and d = d [unfolded n']
  have dist: "distinct ?bs" by (rule tiled_distinct [OF d(2)])
  have ne: "b \<noteq> n" "n \<noteq> b" using dist by auto
  have nF: "n \<in> free_set fl" by (rule d(8)) (use False dist in auto)
  from take_out [OF o' nF] obtain i m1 where
    r: "remove_block (get_bin ?m h (blk_size ?m n)) n s = Some (s\<lparr>ram := m1\<rparr>)"
    and i: "i < 9" "n \<in> set (fl i)"
    and ok: "bins_ok m1 (bin_at ?m h) (fl(i := remove1 n (fl i)))"
    and w: "writes_in (link_regions (bin_at ?m h) (free_set fl)) ?m m1" by blast
  have sz: "blk_size m1 x = blk_size ?m x" if "x \<in> set ?bs" for x
    by (rule links_keep(1) [OF w heap_bins_apart [OF d(1,2)] d(4) that])
  have bn: "sep2 b n" "sep2 n b" by (rule separatedD [OF tiled_separated [OF d(2)]]; auto)+
  let ?z = "blk_size ?m b + (20 + blk_size ?m n)"
  define f where "f = n + (16 + blk_size ?m n)"
  have u: "unat (16 + blk_size ?m n) = 16 + unat (blk_size ?m n)"
    using block_bound [OF d(1,2), of n]
    by (subst unat_add_lem [THEN iffD1]) (simp_all add: blk_len_def)
  have an: "apart 4 4 (16 + blk_size ?m n) 4"
    by (rule apart_bounds) (use u block_bound [OF d(1,2), of n] in \<open>simp_all add: blk_len_def\<close>)
  have ab: "apart f 4 (b + 4) 4" "apart (n + 4) 4 (b + 4) 4"
    unfolding f_def
    by (rule apart_shift [OF tiled_apart [OF d(2) _ _ ne(2)]]; use u in \<open>simp add: blk_len_def\<close>)+
  define m2 where "m2 = store32 (store32 (store32 (store32 m1 (b + 4) ?z) f 0) (n + 4) 0) f b"
  have w2: "writes_in (block_regions ?m {b, n}) m1 m2"
    unfolding m2_def f_def
    by (rule writes_in_trans [OF writes_in_trans [OF writes_in_trans]]; rule block_store)
      (use u in \<open>simp_all add: blk_len_def\<close>)
  have szb: "blk_size m2 b = ?z"
    unfolding m2_def blk_size_def [of "store32 _ _ _"] using ab by (simp add: load32_store32_apart)
  have fn: "get_foot ?m n = f" by (simp add: get_foot_def f_def add.assoc)
  have ft: "foot_header m2 (get_foot ?m n) = b"
    unfolding fn m2_def foot_header_def by simp
  have cd: "{b, n} = {b, n}" ..
  note mo = merged_open [OF o' cd i refl ok w w2 szb ft]
  define mA where "mA = set_size b ?z m1"
  have fA: "get_foot mA n = f"
    using ne sz [of n] by (simp add: mA_def get_foot_def fields_if [OF bn(1)] f_def)
  have fb: "get_foot (set_size n 0 (set_foot_header f 0 mA)) b = f"
  proof -
    have "blk_size (set_size n 0 (set_foot_header f 0 mA)) b = blk_size (set_foot_header f 0 mA) b"
      using ne by (simp add: fields_if [OF bn(2)])
    also have "\<dots> = ?z"
      using ab by (simp add: mA_def blk_size_def set_foot_header_def set_size_def load32_store32_apart)
    finally show ?thesis
      using tiled_neighbour [OF d(2)] by (simp add: get_foot_def f_def)
  qed
  have run: "set_foot_header (get_foot (set_size n 0 (set_foot_header f 0 mA)) b) b
      (set_size n 0 (set_foot_header f 0 mA)) = m2"
    unfolding fb by (simp add: m2_def mA_def set_foot_header_def set_size_def)
  show ?thesis
    unfolding ys n' using mo r run False fA
    by (intro exI [of _ zs] exI [of _ "fl(i := remove1 n (fl i))"] exI [of _ m2])
      (simp add: Let_def sz BLCK_OVERHEAD_def mA_def [symmetric] coalesce_next_def)
qed

section \<open>kheap\_free\<close>

text \<open>
  \<open>kheap_free\<close> looks at the byte behind the block, also behind the last block of the heap, where
  there is no block any more.  \<open>end_clear\<close>: that byte is zero and no bin head lies on it.
\<close>

definition end_clear :: "mem \<Rightarrow> u32 \<Rightarrow> bool" where
  "end_clear m h \<longleftrightarrow> m (heap_end m h) = 0 \<and> (\<forall>i<9. apart (bin_at m h i) 4 (heap_end m h) 1)"

lemma end_clear_change:
  assumes "heap_layout m h" "heap_change m h m' U" "end_clear m h"
  shows "m' (heap_end m h) = 0"
proof -
  let ?E = "heap_end m h"
  have "heap_start m h - ?E \<noteq> 0" using assms(1) by (auto simp: heap_layout_def)
  then have "0 < unat (heap_start m h - ?E)" by (simp add: unat_gt_0)
  then have "apart (heap_start m h) (heap_size m h) ?E 1"
    by (simp add: apart_def heap_size_def)
  then have "\<forall>r\<in>heap_regions m h. apart (fst r) (snd r) ?E 1"
    using assms(3) by (auto simp: heap_regions_def end_clear_def)
  then have "m' ?E = m ?E" using assms(2) by (simp add: heap_change_def writes_in_def)
  then show ?thesis using assms(3) by (simp add: end_clear_def)
qed

lemma free_inner:
  assumes inv: "heap_inv (ram s) (kheap s) bs fl" and b: "b \<in> used_set bs fl" "b \<noteq> heap_start (ram s) (kheap s)"
    and last: "get_foot (ram s) b + 4 = heap_end (ram s) (kheap s) \<Longrightarrow> end_clear (ram s) (kheap s)"
  shows "\<exists>m' bs' fl'. kheap_free (b + 8) s = Some (s\<lparr>ram := m'\<rparr>) \<and>
    heap_inv m' (kheap s) bs' fl' \<and> used_set bs' fl' = used_set bs fl - {b} \<and>
    (\<exists>c\<in>free_set fl'. blk_len (ram s) b \<le> blk_len m' c) \<and>
    heap_change (ram s) (kheap s) m' (used_set bs fl - {b})"
proof -
  let ?m = "ram s" and ?h = "kheap s"
  note o = heap_inv_open [OF inv b(1)]
  note d = heap_openD [OF o]
  obtain xs p ys where bs: "bs = xs @ p # b # ys" using has_neighbour [OF d(2,5) b(2)] by blast
  have "b = get_foot ?m p + 4" using tiled_neighbour d(2) bs by blast
  then have prev: "foot_header ?m (b - 4) = p" using tiled_mem [OF d(2), of p] bs by simp
  from merge_prev [OF o [unfolded bs]] obtain c us fl1 m1 where
    r1: "coalesce_prev ?h p b s = Some (c, s\<lparr>ram := m1\<rparr>)"
    and o1: "heap_open m1 ?h (us @ c # ys) fl1 c" and f1: "get_foot m1 c = get_foot ?m b"
    and c1: "heap_change ?m ?h m1 (others bs fl b)"
    and l1: "blk_len ?m b \<le> blk_len m1 c" and u1: "others (us @ c # ys) fl1 c = others bs fl b"
    unfolding bs by blast
  have last1: "blk_hole m1 (get_foot ?m b + 4) = 0" if "ys = []"
  proof -
    have "heap_end ?m ?h = get_foot ?m b + 4"
      using tiled_end [of ?m _ "xs @ [p]" b] d(2) that bs by simp
    then show ?thesis using end_clear_change [OF d(1) c1] last by (simp add: blk_hole_def)
  qed
  let ?n = "get_foot ?m b + 4" and ?s1 = "s\<lparr>ram := m1\<rparr>"
  have "heap_open (ram ?s1) ?h (us @ c # ys) fl1 c" "?n = get_foot (ram ?s1) c + 4"
    "ys = [] \<Longrightarrow> blk_hole (ram ?s1) ?n = 0"
    using o1 f1 last1 by simp_all
  from merge_next [OF this] obtain zs fl2 m2 where
    r2: "coalesce_next ?h ?n c ?s1 = Some (s\<lparr>ram := m2\<rparr>)"
    and o2: "heap_open m2 ?h (us @ c # zs) fl2 c"
    and c2: "heap_change m1 ?h m2 (others bs fl b)"
    and l2: "blk_len m1 c \<le> blk_len m2 c" and u2: "others (us @ c # zs) fl2 c = others bs fl b"
    using u1 by auto
  from put_back [OF o2] obtain m' fl' where
    r3: "add_block_sorted (get_bin (set_hole c 1 m2) ?h (blk_size (set_hole c 1 m2) c)) c
      (set_hole c 1 m2) = Some m'"
    and l3: "blk_len m' c = blk_len m2 c" and o3: "heap_inv m' ?h (us @ c # zs) fl'" and f3: "free_set fl' = insert c (free_set fl2)"
    and c3: "heap_change m2 ?h m' (others bs fl b)"
    using u2 by auto
  have "kheap_free (b + 8) s = Some (s\<lparr>ram := m'\<rparr>)"
    unfolding kheap_free_def OFFSET_def using b(2) r3
    by (simp add: Let_def prev r1 r2)
  moreover have "used_set (us @ c # zs) fl' = used_set bs fl - {b}"
    using u2 f3 by (auto simp: others_def used_set_def)
  moreover have "heap_change ?m ?h m' (used_set bs fl - {b})"
    using heap_change_trans [OF heap_change_trans [OF c1 c2 order_refl order_refl] c3 order_refl order_refl]
    by (simp add: others_def)
  moreover have "\<exists>c\<in>free_set fl'. blk_len ?m b \<le> blk_len m' c"
    using l1 l2 l3 f3 by (intro bexI [of _ c]) simp_all
  ultimately show ?thesis using o3 by blast
qed

lemma free_first:
  assumes inv: "heap_inv (ram s) (kheap s) bs fl" and b: "b \<in> used_set bs fl" "b = heap_start (ram s) (kheap s)"
  shows "\<exists>m' bs' fl'. kheap_free (b + 8) s = Some (s\<lparr>ram := m'\<rparr>) \<and>
    heap_inv m' (kheap s) bs' fl' \<and> used_set bs' fl' = used_set bs fl - {b} \<and>
    (\<exists>c\<in>free_set fl'. blk_len (ram s) b \<le> blk_len m' c) \<and>
    heap_change (ram s) (kheap s) m' (used_set bs fl - {b})"
proof -
  note o = heap_inv_open [OF inv b(1)]
  from put_back [OF o] obtain m' fl' where
    r: "add_block_sorted (get_bin (set_hole b 1 (ram s)) (kheap s) (blk_size (set_hole b 1 (ram s)) b)) b
      (set_hole b 1 (ram s)) = Some m'"
    and i: "heap_inv m' (kheap s) bs fl'" and len: "blk_len m' b = blk_len (ram s) b" and f: "free_set fl' = insert b (free_set fl)"
    and c: "heap_change (ram s) (kheap s) m' (others bs fl b)" by blast
  have "kheap_free (b + 8) s = Some (s\<lparr>ram := m'\<rparr>)"
    unfolding kheap_free_def OFFSET_def using r b(2) by (simp add: Let_def)
  moreover have "used_set bs fl' = used_set bs fl - {b}" using f by (auto simp: used_set_def)
  moreover have "\<exists>c\<in>free_set fl'. blk_len (ram s) b \<le> blk_len m' c"
    using f len by (intro bexI [of _ b]) simp_all
  ultimately show ?thesis using i c by (auto simp: others_def)
qed

lemma kheap_free_ok:
  assumes inv: "heap_inv (ram s) (kheap s) bs fl" and b: "b \<in> used_set bs fl"
    and last: "b = heap_start (ram s) (kheap s) \<or> get_foot (ram s) b + 4 \<noteq> heap_end (ram s) (kheap s) \<or>
      end_clear (ram s) (kheap s)"
  shows "\<exists>m' bs' fl'. kheap_free (b + 8) s = Some (s\<lparr>ram := m'\<rparr>) \<and>
    heap_inv m' (kheap s) bs' fl' \<and> used_set bs' fl' = used_set bs fl - {b} \<and>
    (\<exists>c\<in>free_set fl'. blk_len (ram s) b \<le> blk_len m' c) \<and>
    heap_change (ram s) (kheap s) m' (used_set bs fl - {b})"
  using free_first [OF inv b] free_inner [OF inv b] last by blast

end
