(* ===== verification/Kheap_Aligned.thy ===== *)
theory Kheap_Aligned
  imports Kheap_Free
begin

text \<open>
  \<open>kheap_alloc_a\<close>: the block at the end of the heap (the wilderness) is cut in three, a small block
  up to the next page boundary, the block handed out, whose address is that boundary, and the new
  wilderness.  With room for the three pieces the invariant is kept; the code checks neither that
  the wilderness is free nor that it is large enough, and the small piece needs 28 bytes.
\<close>

section \<open>The wilderness\<close>

lemma wilderness_last:
  assumes "heap_layout m h" "tiled m (heap_start m h) bs (heap_end m h)"
  shows "bs \<noteq> []" "get_wilderness m h = last bs"
proof -
  show "bs \<noteq> []" using assms by (auto simp: heap_layout_def)
  then obtain xs w where bs: "bs = xs @ [w]" by (cases bs rule: rev_cases) auto
  then have "heap_end m h = get_foot m w + 4" using tiled_end assms(2) by blast
  moreover have "foot_header m (get_foot m w) = w" using tiled_mem [OF assms(2), of w] bs by simp
  ultimately show "get_wilderness m h = last bs" using bs by (simp add: get_wilderness_def)
qed

definition page_rest :: "u32 \<Rightarrow> u32" where
  "page_rest w = PG_SZ - (w AND 0xFFF)"

lemma page_rest_bounds: "1 \<le> unat (page_rest w)" "unat (page_rest w) \<le> 4096"
proof -
  have w: "w AND 0xFFF = take_bit 12 w" by (simp add: and_masks)
  have "unat (take_bit 12 w) < 2 ^ 12" unfolding unsigned_take_bit_eq by (rule take_bit_nat_less_exp)
  then have "unat (page_rest w) = 4096 - unat (take_bit 12 w)" "unat (take_bit 12 w) < 4096"
    by (simp_all add: page_rest_def w PG_SZ_def unat_sub_if_size word_size)
  then show "1 \<le> unat (page_rest w)" "unat (page_rest w) \<le> 4096" by auto
qed

lemma page_rest_aligned: "(w + page_rest w) mod PG_SZ = 0"
proof -
  have w: "w AND 0xFFF = take_bit 12 w" by (simp add: and_masks)
  have "w = push_bit 12 (drop_bit 12 w) + take_bit 12 w" by (simp add: bits_ident)
  then have "w - take_bit 12 w = push_bit 12 (drop_bit 12 w)" by (metis add_diff_cancel_right')
  then have "w + page_rest w = push_bit 12 (drop_bit 12 w) + push_bit 12 1"
    by (simp add: page_rest_def w PG_SZ_def)
  also have "\<dots> = push_bit 12 (drop_bit 12 w + 1)" by (simp only: push_bit_add)
  finally have e: "w + page_rest w = push_bit 12 (drop_bit 12 w + 1)" .
  have "take_bit 12 (push_bit 12 y) = 0" for y :: u32 by (rule bit_word_eqI) (auto simp: bit_simps)
  moreover have "y mod PG_SZ = take_bit 12 y" for y :: u32 by (simp add: PG_SZ_def take_bit_eq_mod)
  ultimately show ?thesis unfolding e by simp
qed

section \<open>Cutting\<close>

text \<open>
  The offsets of the three pieces inside the old wilderness: \<open>x\<close> is the distance to the page
  boundary, \<open>e\<close> the size of the small piece and \<open>r\<close> the size of the new wilderness.
\<close>

definition cut_sizes :: "nat \<Rightarrow> u32 \<Rightarrow> u32 \<Rightarrow> u32 \<Rightarrow> nat \<Rightarrow> nat \<Rightarrow> bool" where
  "cut_sizes b x sz old e r \<longleftrightarrow> b + (20 + unat old) < 2 ^ 32 \<and> unat x = e + 28 \<and>
     unat old = e + 40 + unat sz + r"

lemma cut_sizes_ex:
  assumes "b + (20 + unat old) < 2 ^ 32" "28 \<le> unat x" "unat sz + unat x + 12 \<le> unat old"
  shows "\<exists>e r. cut_sizes b x sz old e r"
  unfolding cut_sizes_def
  by (intro exI [of _ "unat x - 28"] exI [of _ "unat old - (unat sz + unat x + 12)"]) (use assms in simp)

lemma cut_offsets:
  assumes "cut_sizes b x sz old e r"
  shows "unat (x - 28) = e" "unat (x - 12) = e + 16" "unat (x - 8) = e + 20"
    "unat (x - 4) = e + 24" "unat (x + 8 + sz) = e + 36 + unat sz"
    "unat (x + 12 + sz) = e + 40 + unat sz" "unat (x + 16 + sz) = e + 44 + unat sz"
    "unat (x + 20 + sz) = e + 48 + unat sz" "unat (16 + old) = e + 56 + unat sz + r"
    "unat (sz + 8) = unat sz + 8" "unat (old - x - sz - 12) = r"
proof -
  have b: "e + 60 + unat sz + r < 2 ^ 32" and ux: "unat x = e + 28" and uo: "unat old = e + 40 + unat sz + r"
    using assms by (auto simp: cut_sizes_def)
  have sub: "unat (x - c) = unat x - unat c" if "unat c \<le> 28" for c :: u32
    using that ux by (intro unat_sub) (simp add: word_le_nat_alt)
  show "unat (x - 28) = e" "unat (x - 12) = e + 16" "unat (x - 8) = e + 20" "unat (x - 4) = e + 24"
    using sub [of 28] sub [of 12] sub [of 8] sub [of 4] ux by simp_all
  have add: "unat (x + c + sz) = e + 28 + unat c + unat sz" if "unat c \<le> 32" for c :: u32
  proof -
    have "unat (x + c) = e + 28 + unat c" using that b ux by (subst unat_add_lem [THEN iffD1]) simp_all
    then show ?thesis using that b by (subst unat_add_lem [THEN iffD1]) simp_all
  qed
  show "unat (x + 8 + sz) = e + 36 + unat sz" "unat (x + 12 + sz) = e + 40 + unat sz"
    "unat (x + 16 + sz) = e + 44 + unat sz" "unat (x + 20 + sz) = e + 48 + unat sz"
    using add [of 8] add [of 12] add [of 16] add [of 20] by simp_all
  show "unat (16 + old) = e + 56 + unat sz + r" "unat (sz + 8) = unat sz + 8"
    using b uo by (subst unat_add_lem [THEN iffD1]; simp)+
  have "unat (x + 12 + sz) = e + 40 + unat sz" using add [of 12] by simp
  then have "unat (old - (x + 12 + sz)) = r"
    using uo by (subst unat_sub) (simp_all add: word_le_nat_alt)
  then show "unat (old - x - sz - 12) = r" by (simp add: algebra_simps)
qed

text \<open>The second and third piece, written into the memory \<open>m\<close>.\<close>

lemma cut_pieces:
  fixes m :: mem and w :: u32
  assumes cut: "cut_sizes b x sz old e r"
  defines "ret \<equiv> w + (x - 8)" and "new \<equiv> w + (x + 12 + sz)"
  defines "m5 \<equiv> set_hole ret 0 (create_foot ret (set_size ret sz m))"
  defines "m7 \<equiv> create_foot new (set_hole new 1 (set_size new (old - x - sz - 12) m5))"
  shows "writes_in {(w + (x - 8), 40 + unat sz + r)} m m7"
    "blk_size m5 ret = sz" "blk_size m7 ret = sz" "blk_hole m7 ret = 0" "load32 m7 (w + (x + 8 + sz)) = ret"
    "blk_size m7 new = old - x - sz - 12" "blk_hole m7 new = 1" "load32 m7 (w + (16 + old)) = new"
    "blk_size m5 w = blk_size m w"
proof -
  note u = cut_offsets [OF cut]
  have bd: "e + 60 + unat sz + r < 2 ^ 32" using cut by (simp add: cut_sizes_def)
  have a: "apart (x - 8) 1 (x - 4) 4" "apart (x - 4) 4 (x + 8 + sz) 4" "apart (x - 8) 1 (x + 8 + sz) 4"
    "apart (x - 4) 4 (x + 16 + sz) 4" "apart (x - 4) 4 (x + 12 + sz) 1" "apart (x - 4) 4 (16 + old) 4"
    "apart (x - 8) 1 (x + 16 + sz) 4" "apart (x - 8) 1 (x + 12 + sz) 1" "apart (x - 8) 1 (16 + old) 4"
    "apart (x + 8 + sz) 4 (x + 16 + sz) 4" "apart (x + 8 + sz) 4 (x + 12 + sz) 1"
    "apart (x + 8 + sz) 4 (16 + old) 4" "apart (x + 12 + sz) 1 (x + 16 + sz) 4"
    "apart (x + 16 + sz) 4 (16 + old) 4" "apart (x + 12 + sz) 1 (16 + old) 4"
    by (rule apart_bounds; insert bd, simp add: u)+
  have "unat (20 + sz) = 20 + unat sz" using bd by (subst unat_add_lem [THEN iffD1]) simp_all
  then have ne: "20 + sz \<noteq> 0" by (metis add_is_0 unsigned_0 zero_neq_numeral)
  note b = a [THEN apart_sym [THEN iffD1]]
  have o: "ret + 4 = w + (x - 4)" "ret + 16 + sz = w + (x + 8 + sz)" "new + 4 = w + (x + 16 + sz)"
    "new + 16 + (old - x - sz - 12) = w + (16 + old)"
    by (simp_all add: ret_def new_def)
  define m1 where "m1 = store32 m (w + (x - 4)) sz"
  define m2 where "m2 = store32 m1 (w + (x + 8 + sz)) ret"
  have m5: "m5 = m2(w + (x - 8) := 0)"
    unfolding m5_def m2_def m1_def create_foot_def get_foot_def set_foot_header_def
    by (simp only: fields_same_block o, simp only: blk_fields o, simp only: ret_def)
  have m7: "m7 = store32 ((store32 m5 (w + (x + 16 + sz)) (old - x - sz - 12))(w + (x + 12 + sz) := 1))
      (w + (16 + old)) new"
    unfolding m7_def create_foot_def get_foot_def set_foot_header_def
    by (simp only: fields_same_block o, simp only: blk_fields o, simp only: new_def)
  have st: "writes_in {(w + (x - 8), 40 + unat sz + r)} y (store32 y (w + d) v)"
    if "unat (x - 8) \<le> unat d" "unat d \<le> e + 56 + unat sz + r" for y d v
  proof -
    have "unat (d - (x - 8)) = unat d - unat (x - 8)" using that(1) by (simp add: unat_sub word_le_nat_alt)
    then have "writes_in {(w + (x - 8), 40 + unat sz + r)} y (store32 y (w + (x - 8) + (d - (x - 8))) v)"
      by (intro store32_in) (use that u in simp)
    then show ?thesis by simp
  qed
  have bt: "writes_in {(w + (x - 8), 40 + unat sz + r)} y (y(w + d := v))"
    if "unat (x - 8) \<le> unat d" "unat d \<le> e + 56 + unat sz + r" for y d v
  proof -
    have "unat (d - (x - 8)) = unat d - unat (x - 8)" using that(1) by (simp add: unat_sub word_le_nat_alt)
    then show ?thesis
      by (intro writes_in_cover [OF writes_in_upd])
        (use that u in \<open>auto intro!: exI [of _ "d - (x - 8)"]\<close>)
  qed
  have "apart 4 4 (x - 4) 4" "apart 4 4 (x + 8 + sz) 4" "apart 4 4 (x - 8) 1"
    by (rule apart_bounds; insert bd, simp add: u)+
  note c = this [THEN apart_sym [THEN iffD1]]
  show "blk_size m5 w = blk_size m w"
    unfolding m5 blk_size_def m2_def m1_def using c
    by (simp add: load32_upd_apart load32_store32_apart)
  show "blk_size m5 ret = sz"
    unfolding m5 blk_size_def o m2_def m1_def using a b
    by (simp add: load32_upd_apart load32_store32_apart)
  show "blk_size m7 ret = sz" "blk_hole m7 ret = 0" "load32 m7 (w + (x + 8 + sz)) = ret"
    "blk_size m7 new = old - x - sz - 12" "blk_hole m7 new = 1" "load32 m7 (w + (16 + old)) = new"
    unfolding m7 m5 blk_size_def blk_hole_def o m2_def m1_def
    using a b ne by (simp_all add: ret_def new_def load32_upd_apart load32_store32_apart store32_other)
  show "writes_in {(w + (x - 8), 40 + unat sz + r)} m m7"
    unfolding m7 m5 m2_def m1_def
    by (rule writes_in_trans [OF writes_in_trans [OF writes_in_trans [OF writes_in_trans
            [OF writes_in_trans]]]]; rule st bt) (use u in simp_all)
qed

section \<open>The small piece\<close>

lemma small_piece:
  fixes sz :: u32
  assumes inv: "heap_inv (ram s) h bs fl" and w: "w \<in> free_set fl"
    and cut: "cut_sizes (unat w) x sz (blk_size (ram s) w) e r"
  defines "mB \<equiv> set_hole w 1 (ram s)"
  shows "\<exists>m1 m4 fl2. remove_block (get_bin mB h (blk_size mB w)) w (s\<lparr>ram := mB\<rparr>) = Some (s\<lparr>ram := m1\<rparr>) \<and>
    (let m3 = set_hole w 1 (create_foot w (set_size w (x - 28) m1))
     in add_block_sorted (get_bin m3 h (blk_size m3 w)) w m3 = Some m4) \<and>
    bins_ok m4 (bin_at (ram s) h) fl2 \<and> free_set fl2 = free_set fl \<and>
    (\<forall>i<9. set (fl2 i) \<subseteq> (set (fl i) - {w}) \<union> (if i = unat (get_bin_index (x - 28)) then {w} else {})) \<and>
    blk_size m4 w = x - 28 \<and> load32 m4 (w + (x - 12)) = w \<and>
    writes_in (op_regions (ram s) h {w} (free_set fl)) (ram s) m4"
proof -
  let ?m = "ram s" and ?F = "free_set fl" and ?bin = "bin_at (ram s) h"
  note l = heap_invD(1) [OF inv] and t = heap_invD(2) [OF inv] and ok = heap_invD(3) [OF inv]
    and fr = heap_invD(4) [OF inv]
  have b: "w \<in> set bs" using w fr by blast
  have C: "{w} \<subseteq> set bs" using b by simp
  have len: "blk_len ?m w = 20 + unat (blk_size ?m w)" by (simp add: blk_len_def)
  note bd = block_bound [OF l t b, unfolded len]
  note u = cut_offsets [OF cut]
  have old: "unat (blk_size ?m w) = e + 40 + unat sz + r" using cut by (simp add: cut_sizes_def)
  obtain i where i: "i < 9" "w \<in> set (fl i)" using w by (auto simp: free_set_def)
  have s2: "sep2 w y" if "y \<in> set bs" for y by (rule separatedD [OF tiled_separated [OF t] b that])
  have wB: "writes_in (op_regions ?m h {w} ?F) ?m mB"
    unfolding mB_def set_hole_def by (rule block_writes(3) [OF l t block_byte C]) simp
  have kB: "keeps ?m mB h 52" by (rule op_frame(1) [OF l t wB C fr])
  have idx: "i = unat (get_bin_index (blk_size ?m w))" using heap_invD(5) [OF inv i] by simp
  then have gb: "get_bin mB h (blk_size mB w) = ?bin i" using get_bin_at [OF kB] by (simp add: mB_def)
  have hd: "bin_head mB (?bin k) = bin_head ?m (?bin k)" if "k < 9" for k
    using heap_bins_apart [OF l t] b that by (simp add: mB_def bins_apart_def bin_head_other)
  have fB: "blk_next mB y = blk_next ?m y \<and> blk_prev mB y = blk_prev ?m y"
    "blk_size mB y = blk_size ?m y" if "y \<in> ?F" for y
    using s2 [of y] that fr by (auto simp: mB_def fields_if)
  from bins_del [OF ok heap_bins_apart [OF l t] fr i, of "s\<lparr>ram := mB\<rparr>"] hd fB obtain m1 where
    m1: "remove_block (?bin i) w (s\<lparr>ram := mB\<rparr>) = Some (s\<lparr>ram := m1\<rparr>)"
      "bins_ok m1 ?bin (fl(i := remove1 w (fl i)))" "writes_in (link_regions ?bin ?F) mB m1" by auto
  let ?fl1 = "fl(i := remove1 w (fl i))"
  have fr1: "free_set ?fl1 = ?F - {w}" by (rule free_set_remove [OF ok i])
  define m3 where "m3 = set_hole w 1 (create_foot w (set_size w (x - 28) m1))"
  have m3: "m3 = (store32 (store32 m1 (w + 4) (x - 28)) (w + (x - 12)) w)(w := 1)"
    unfolding m3_def create_foot_def get_foot_def set_foot_header_def set_hole_def fields_same_block
    by (simp only: set_size_def, simp add: algebra_simps)
  have w3: "writes_in (block_regions ?m {w}) m1 m3"
    unfolding m3
    by (rule writes_in_trans [OF writes_in_trans]; rule block_store block_byte)
      (use u in \<open>simp_all add: len old\<close>)
  have ok3: "bins_ok m3 ?bin ?fl1" by (rule block_writes(2) [OF l t w3 C m1(2)]) (use fr1 fr in auto)
  have "apart (x - 12) 4 4 4" unfolding apart_sym [of "x - 12"] by (rule apart_bounds) (use u bd in \<open>simp_all add: old\<close>)
  then have sz3: "blk_size m3 w = x - 28"
    unfolding m3 blk_size_def by (simp add: load32_upd_apart load32_store32_apart)
  have op1: "writes_in (op_regions ?m h {w} ?F) mB m1"
    by (rule writes_in_mono [OF m1(3)]) (auto simp: op_regions_def)
  have op3: "writes_in (op_regions ?m h {w} ?F) ?m m3"
    by (rule writes_in_trans [OF writes_in_trans [OF wB op1] block_writes(3) [OF l t w3 C]])
  define j where "j = unat (get_bin_index (x - 28))"
  have j: "j < 9" by (simp add: j_def)
  have g3: "get_bin m3 h (blk_size m3 w) = ?bin j"
    using get_bin_at [OF op_frame(1) [OF l t op3 C fr]] sz3 by (simp add: j_def)
  have "free_set ?fl1 \<subseteq> set bs" "w \<notin> free_set ?fl1" using fr fr1 by auto
  from bins_add [OF ok3 heap_bins_apart [OF l t] this(1) b this(2) j] obtain m4 where
    m4: "add_block_sorted (?bin j) w m3 = Some m4"
      "bins_ok m4 ?bin (?fl1(j := bin_insert m3 w (?fl1 j)))"
      "writes_in (link_regions ?bin (insert w (free_set ?fl1))) m3 m4" by blast
  let ?fl2 = "?fl1(j := bin_insert m3 w (?fl1 j))"
  have Fw: "insert w (free_set ?fl1) = ?F" using fr1 w by auto
  have fr2: "free_set ?fl2 = ?F" using free_set_insert [OF j] Fw by metis
  have w4: "writes_in (link_regions ?bin ((+) w ` {} \<union> ?F)) m3 m4" using m4(3) Fw by simp
  have sz4: "blk_size m4 w = x - 28"
    using links_keep(1) [OF m4(3) heap_bins_apart [OF l t] _ b] Fw fr sz3 by simp
  have "keeps m3 m4 (w + (x - 12)) 4"
    by (rule inner_links(2) [OF l t b _ fr w4]) (use u in \<open>simp_all add: len old\<close>)
  moreover have "load32 m3 (w + (x - 12)) = w"
  proof -
    have "apart 0 1 (x - 12) 4" by (rule apart_bounds) (use u bd in \<open>simp_all add: old\<close>)
    then show ?thesis unfolding m3 by (simp add: load32_upd_apart)
  qed
  ultimately have ft: "load32 m4 (w + (x - 12)) = w" by (simp add: keeps_load32)
  have op4: "writes_in (op_regions ?m h {w} ?F) ?m m4"
    by (rule writes_in_trans [OF op3 inner_links(1) [OF l t b _ fr w4]]) simp
  have d: "distinct (fl k)" if "k < 9" for k
    using ok that bin_list_facts(3) by (auto simp: bins_ok_def)
  have "w \<notin> set (fl k)" if "k < 9" "k \<noteq> i" for k using ok i that by (auto simp: bins_ok_def)
  then have "\<forall>k<9. set (?fl2 k) \<subseteq> (set (fl k) - {w}) \<union> (if k = j then {w} else {})"
    using d i(1) by auto
  moreover have "let m3 = set_hole w 1 (create_foot w (set_size w (x - 28) m1))
     in add_block_sorted (get_bin m3 h (blk_size m3 w)) w m3 = Some m4"
    unfolding Let_def m3_def [symmetric] using m4(1) g3 by simp
  ultimately show ?thesis
    unfolding gb j_def [symmetric] using m1(1) m4(2) fr2 sz4 ft op4 by blast
qed

section \<open>The block and the new wilderness\<close>

lemma rest_piece:
  fixes w x sz :: u32
  assumes l: "heap_layout m h" and t: "tiled m (heap_start m h) bs (heap_end m h)" and w: "w \<in> F"
    and F: "F \<subseteq> set bs" and cut: "cut_sizes (unat w) x sz (blk_size m w) e r"
    and ok: "bins_ok m4 (bin_at m h) fl2" and fl2: "free_set fl2 = F"
    and op: "writes_in (op_regions m h {w} F) m m4"
  defines "ret \<equiv> w + (x - 8)" and "new \<equiv> w + (x + 12 + sz)" and "rest \<equiv> blk_size m w - x - sz - 12"
  defines "m5 \<equiv> set_hole ret 0 (create_foot ret (set_size ret sz m4))"
  defines "m7 \<equiv> create_foot new (set_hole new 1 (set_size new rest m5))"
  shows "\<exists>m8 m9 fl3. add_block_sorted (get_bin m7 h (blk_size m7 new)) new m7 = Some m8 \<and>
    m9 = memset (ret + 8) 0 (blk_size m8 ret + 8) m8 \<and> blk_size m8 ret = sz \<and>
    bins_ok m9 (bin_at m h) fl3 \<and> free_set fl3 = insert new F \<and>
    (\<forall>i<9. set (fl3 i) = set (fl2 i) \<union> (if i = unat (get_bin_index rest) then {new} else {})) \<and>
    blk_size m9 w = blk_size m4 w \<and> load32 m9 (w + (x - 12)) = load32 m4 (w + (x - 12)) \<and>
    blk_size m9 ret = sz \<and> blk_hole m9 ret = 0 \<and> load32 m9 (w + (x + 8 + sz)) = ret \<and>
    blk_size m9 new = rest \<and> blk_hole m9 new = 1 \<and> load32 m9 (w + (16 + blk_size m w)) = new \<and>
    (\<forall>c. unat c < 8 + unat sz \<longrightarrow> m9 (ret + 8 + c) = 0) \<and>
    writes_in (op_regions m h {w} F) m m9"
proof -
  let ?bin = "bin_at m h" and ?R = "op_regions m h {w} F"
  have b: "w \<in> set bs" using w F by blast
  have C: "{w} \<subseteq> set bs" using b by simp
  note u = cut_offsets [OF cut]
  have old: "unat (blk_size m w) = e + 40 + unat sz + r" using cut by (simp add: cut_sizes_def)
  have len: "blk_len m w = e + 60 + unat sz + r" by (simp add: blk_len_def old)
  have bd: "e + 60 + unat sz + r < 2 ^ 32" using cut by (simp add: cut_sizes_def)
  note p = cut_pieces [OF cut, of w m4, folded rest_def ret_def new_def, folded m5_def, folded m7_def]
  have w7: "writes_in {(w + 16, blk_len m w - 16)} m4 m7"
  proof (rule writes_in_cover [OF p(1)])
    have "unat (x - 24) = e + 4" using cut by (simp add: cut_sizes_def unat_sub_if_size word_size)
    then show "\<exists>q\<in>{(w + 16, blk_len m w - 16)}. \<exists>d. fst q' = fst q + d \<and> unat d + snd q' \<le> snd q \<and> 0 < snd q'"
      if "q' \<in> {(ret, 40 + unat sz + r)}" for q'
      using that by (auto simp: len ret_def intro!: exI [of _ "x - 24"])
  qed
  note i7 = inner_writes [OF l t b w7]
  have ok7: "bins_ok m7 ?bin fl2" by (rule i7(3) [OF ok]) (use fl2 F in simp)
  have nd: "16 \<le> unat (x + 12 + sz)" "unat (x + 12 + sz) + 16 \<le> blk_len m w"
    by (simp_all only: u len)
  have T: "bins_apart ?bin (insert new (set bs))"
    unfolding new_def by (rule inner_bins_apart [OF l t b nd])
  have ns: "new \<notin> set bs"
    unfolding new_def by (rule inner_not_block [OF l t b]) (use nd in simp_all)
  have op7: "writes_in ?R m m7" by (rule writes_in_trans [OF op i7(2)])
  define j where "j = unat (get_bin_index rest)"
  have j: "j < 9" by (simp add: j_def)
  have g7: "get_bin m7 h (blk_size m7 new) = ?bin j"
    using get_bin_at [OF op_frame(1) [OF l t op7 C F]] p(6) by (simp add: j_def)
  have "free_set fl2 \<subseteq> insert new (set bs)" "new \<in> insert new (set bs)" "new \<notin> free_set fl2"
    using fl2 F ns by auto
  from bins_add [OF ok7 T this j] obtain m8 where
    m8: "add_block_sorted (?bin j) new m7 = Some m8"
      "bins_ok m8 ?bin (fl2(j := bin_insert m7 new (fl2 j)))"
      "writes_in (link_regions ?bin (insert new F)) m7 m8" unfolding fl2 by blast
  let ?fl3 = "fl2(j := bin_insert m7 new (fl2 j))"
  have fr3: "free_set ?fl3 = insert new F" using free_set_insert [OF j, of fl2 m7 new] fl2 by simp
  have "writes_in (link_regions ?bin ((+) w ` {x + 12 + sz} \<union> F)) m7 m8" using m8(3) by (simp add: new_def)
  note il = inner_links [OF l t b _ F this]
  have nd': "16 \<le> unat d \<and> unat d + 16 \<le> blk_len m w" if "d \<in> {x + 12 + sz}" for d using nd that by simp
  have e20: "x + 12 + sz + 8 = x + 20 + sz" by simp
  have k8: "keeps m7 m8 (w + d) k"
    if "16 \<le> unat d" "unat d + k \<le> e + 60 + unat sz + r" "0 < k" "apart (x + 20 + sz) 8 d k" for d k
  proof (rule il(2) [OF nd'])
    show "apart (d' + 8) 8 d k" if "d' \<in> {x + 12 + sz}" for d'
      using \<open>apart (x + 20 + sz) 8 d k\<close> that by (simp only: e20 singleton_iff)
  qed (use that len in simp_all)
  have s8: "blk_size m8 y = blk_size m7 y" "blk_hole m8 y = blk_hole m7 y" if "y \<in> insert new (set bs)" for y
    using links_keep(1,2) [OF m8(3) T _ that] F by auto
  have ret8: "w + (x - 8) + 8 = w + x" by simp
  have ux: "unat x = e + 28" using cut by (simp add: cut_sizes_def)
  have a8: "apart (x + 20 + sz) 8 (16 + blk_size m w) 4" "apart x (8 + unat sz) (x + 8 + sz) 4"
    "apart x (8 + unat sz) (16 + blk_size m w) 4" "apart x (8 + unat sz) (x + 12 + sz) 16"
    by (rule apart_bounds; insert bd, simp add: u ux)+
  have "apart (x - 8) 8 (x + 20 + sz) 8" "apart (x + 8 + sz) 4 (x + 20 + sz) 8"
    "apart (x - 12) 4 (x + 20 + sz) 8" "apart (x - 8) 8 x (8 + unat sz)" "apart (x - 12) 4 x (8 + unat sz)"
    by (rule apart_bounds; insert bd, simp add: u ux)+
  note a8 = a8 this [THEN apart_sym [THEN iffD1]]
  have k8r: "keeps m7 m8 (w + (x - 8)) 8" "keeps m7 m8 (w + (x + 8 + sz)) 4" "keeps m7 m8 (w + (16 + blk_size m w)) 4"
    "keeps m7 m8 (w + (x - 12)) 4"
    by (rule k8; insert bd a8, simp add: u)+
  have sz8: "blk_size m8 ret = sz" "blk_hole m8 ret = 0"
    using keeps_size_hole [OF k8r(1)] p(3,4) by (simp_all add: ret_def)
  define m9 where "m9 = memset (ret + 8) 0 (blk_size m8 ret + 8) m8"
  have m9e: "m9 = memset (w + x) 0 (sz + 8) m8" unfolding m9_def sz8(1) by (simp add: ret_def)
  have w9: "writes_in {(w + x, 8 + unat sz)} m8 m9"
    using writes_in_memset [of "w + x" "sz + 8" m8 0] u(10) by (simp add: m9e add.commute)
  have k9: "keeps m8 m9 (w + d) k" if "apart x (8 + unat sz) d k" for d k
    by (rule writes_in_keeps [OF w9]) (use that in simp)
  have k9r: "keeps m8 m9 (w + (x - 8)) 8" "keeps m8 m9 (w + (x + 8 + sz)) 4"
    "keeps m8 m9 (w + (16 + blk_size m w)) 4" "keeps m8 m9 (w + (x - 12)) 4"
    "keeps m8 m9 (w + (x + 12 + sz)) 16"
    by (rule k9, rule a8)+
  have nin: "x' \<noteq> new" if "x' \<in> F" for x' using that F ns by auto
  have ok9: "bins_ok m9 ?bin ?fl3"
  proof (rule bins_ok_keeps [OF m8(2)])
    have aw: "keeps m8 m9 y n" if "apart w (blk_len m w) y n" "0 < n" for y n
    proof (rule writes_in_keeps [OF w9])
      have "apart (w + x) (8 + unat sz) y n"
        by (rule apart_shift_left [OF that(1)]) (use that(2) in \<open>simp_all add: len ux\<close>)
      then show "0 < snd r \<and> apart (fst r) (snd r) y n" if "r \<in> {(w + x, 8 + unat sz)}" for r
        using that by simp
    qed
    show "keeps m8 m9 (?bin k) 4" if "k < 9" for k
      using bin_block_apart [OF l t b that] by (intro aw) (simp_all add: apart_sym)
    show "keeps m8 m9 y 16" if y: "y \<in> free_set ?fl3" for y
    proof -
      consider "y = new" | "y = w" | "y \<in> set bs" "y \<noteq> w" using y unfolding fr3 using F by blast
      then show ?thesis
      proof cases
        case 1
        then show ?thesis using k9r(5) by (simp add: new_def)
      next
        case 2
        have "apart x (8 + unat sz) 0 16"
          unfolding apart_sym [of x] by (rule apart_bounds) (insert bd, simp_all add: ux)
        then show ?thesis using k9 [of 0 16] 2 by simp
      next
        case 3
        then have "keeps m8 m9 y (blk_len m y)" using tiled_apart [OF t b, of y] by (intro aw) auto
        then show ?thesis by (rule keeps_mono) (simp add: blk_len_def)
      qed
    qed
  qed
  have kw: "keeps m8 m9 w 16"
  proof -
    have "apart x (8 + unat sz) 0 16"
      unfolding apart_sym [of x] by (rule apart_bounds) (insert bd, simp_all add: ux)
    then show ?thesis using k9 [of 0 16] by simp
  qed
  have szw: "blk_size m9 w = blk_size m4 w"
    using keeps_blk(1) [OF kw] s8(1) [of w] keeps_blk(1) [OF i7(1)] b by simp
  have "apart (x - 12) 4 (x - 8) (40 + unat sz + r)" by (rule apart_bounds) (insert bd, simp_all add: u)
  then have "keeps m4 m7 (w + (x - 12)) 4"
    by (intro writes_in_keeps [OF p(1)]) (simp add: apart_sym ret_def)
  then have ftw: "load32 m9 (w + (x - 12)) = load32 m4 (w + (x - 12))"
    using keeps_load32 [OF k8r(4)] keeps_load32 [OF k9r(4)] keeps_load32 by simp
  have retf: "blk_size m9 ret = sz" "blk_hole m9 ret = 0"
    using keeps_size_hole [OF k9r(1)] sz8 by (simp_all add: ret_def)
  have newf: "blk_size m9 new = rest" "blk_hole m9 new = 1"
    using keeps_blk(1,2) [OF k9r(5)] s8 [of new] p(6,7) by (simp_all add: new_def)
  have feet: "load32 m9 (w + (x + 8 + sz)) = ret" "load32 m9 (w + (16 + blk_size m w)) = new"
    using keeps_load32 [OF k9r(2)] keeps_load32 [OF k8r(2)] keeps_load32 [OF k9r(3)]
      keeps_load32 [OF k8r(3)] p(5,8) by simp_all
  have z: "m9 (ret + 8 + c) = 0" if "unat c < 8 + unat sz" for c
    using that u(10) by (simp add: m9_def sz8 memset_eq word_less_nat_alt)
  have "writes_in ?R m8 m9"
    by (rule in_block_writes [OF _ _ _ w9]) (simp_all add: len ux)
  then have opm: "writes_in ?R m m9"
    using writes_in_trans [OF op7 writes_in_trans [OF il(1) [OF nd']]] by blast
  have sets: "set (?fl3 i) = set (fl2 i) \<union> (if i = unat (get_bin_index rest) then {new} else {})" for i
    unfolding j_def [symmetric] by simp
  have run: "add_block_sorted (get_bin m7 h (blk_size m7 new)) new m7 = Some m8" using m8(1) g7 by simp
  show ?thesis
    by (rule exI [of _ m8], rule exI [of _ m9], rule exI [of _ ?fl3], intro conjI allI impI)
      (rule run m9_def sz8(1) ok9 fr3 sets szw ftw retf feet newf z opm; assumption)+
qed

section \<open>kheap\_alloc\_a\<close>

text \<open>One block becomes several that fill the same place.\<close>

lemma tiled_replace:
  assumes t: "tiled m a (xs @ b # ys) e" and p: "tiled m' b ps (b + 20 + blk_size m b)"
    and o: "\<And>y. y \<in> set (xs @ ys) \<Longrightarrow> blk_size m' y = blk_size m y \<and>
      foot_header m' (get_foot m y) = foot_header m (get_foot m y)"
  shows "tiled m' a (xs @ ps @ ys) e"
proof -
  obtain r where r: "tiled m a xs r" "tiled m r (b # ys) e" using t tiled_append by blast
  have "tiled m' a xs r" using tiled_cong [of xs m' m a r] o r(1) by simp
  moreover have "r = b" "tiled m (b + 20 + blk_size m b) ys e" using r(2) by auto
  moreover from this have "tiled m' (b + 20 + blk_size m b) ys e"
    using tiled_cong [of ys m' m "b + 20 + blk_size m b" e] o by simp
  ultimately show ?thesis using p tiled_append by blast
qed

text \<open>What the code needs and does not check.\<close>

definition wild_room :: "u32 \<Rightarrow> 'a heap_state_scheme \<Rightarrow> u32 \<Rightarrow> bool" where
  "wild_room sz s w \<longleftrightarrow> 28 \<le> unat (page_rest w) \<and>
     unat sz + unat (page_rest w) + 12 \<le> unat (blk_size (ram s) w)"

lemma cut_tiles:
  assumes cut: "cut_sizes (unat w) x sz old e r" and old: "old = blk_size m w"
    and sz: "blk_size m' w = x - 28" "blk_size m' (w + (x - 8)) = sz"
      "blk_size m' (w + (x + 12 + sz)) = old - x - sz - 12"
    and ft: "load32 m' (w + (x - 12)) = w" "load32 m' (w + (x + 8 + sz)) = w + (x - 8)"
      "load32 m' (w + (16 + old)) = w + (x + 12 + sz)"
  shows "tiled m' w [w, w + (x - 8), w + (x + 12 + sz)] (w + 20 + blk_size m w)"
proof -
  note u = cut_offsets [OF cut]
  have bd: "unat w + (e + 60 + unat sz + r) < 2 ^ 32" and uo: "unat old = e + 40 + unat sz + r"
    using cut by (auto simp: cut_sizes_def)
  have au: "unat (w + d) = unat w + unat d" if "unat d \<le> e + 60 + unat sz + r" for d
    using bd that by (subst unat_add_lem [THEN iffD1]) simp_all
  have ux: "unat (w + (x - 8)) = unat w + e + 20" "unat (w + (x + 12 + sz)) = unat w + e + 40 + unat sz"
    using au [of "x - 8"] au [of "x + 12 + sz"] u by simp_all
  have "unat (20 + old) = e + 60 + unat sz + r"
    using bd uo by (subst unat_add_lem [THEN iffD1]) simp_all
  then have ue: "unat (w + 20 + old) = unat w + e + 60 + unat sz + r"
    using au [of "20 + old"] by (simp add: add.assoc)
  have nx: "w + 20 + (x - 28) = w + (x - 8)" "w + (x - 8) + 20 + sz = w + (x + 12 + sz)"
    "w + (x + 12 + sz) + 20 + (old - x - sz - 12) = w + 20 + old"
    by (simp_all add: algebra_simps)
  have gf: "get_foot m' w = w + (x - 12)" "get_foot m' (w + (x - 8)) = w + (x + 8 + sz)"
    "get_foot m' (w + (x + 12 + sz)) = w + (16 + old)"
    unfolding get_foot_def sz by (simp_all add: algebra_simps)
  show ?thesis
    unfolding tiled.simps blk_len_def foot_header_def gf sz ft old [symmetric] nx u ux ue
    by simp
qed

lemma kheap_alloc_a_run:
  fixes sz :: u32 and s :: "'a heap_state_scheme"
  assumes l: "heap_layout (ram s) (kheap s)"
    and t: "tiled (ram s) (heap_start (ram s) (kheap s)) bs (heap_end (ram s) (kheap s))"
  defines "w \<equiv> last bs" and "h \<equiv> kheap s" and "x \<equiv> page_rest (last bs)"
    and "old \<equiv> blk_size (ram s) (last bs)"
  assumes r1: "remove_block (get_bin (set_hole w 1 (ram s)) h (blk_size (set_hole w 1 (ram s)) w)) w
      (s\<lparr>ram := set_hole w 1 (ram s)\<rparr>) = Some (s\<lparr>ram := m1\<rparr>)"
    and r2: "let m3 = set_hole w 1 (create_foot w (set_size w (x - 28) m1))
      in add_block_sorted (get_bin m3 h (blk_size m3 w)) w m3 = Some m4"
    and sw: "blk_size m4 w = x - 28" and nz: "w + 8 \<noteq> 0"
  defines "ret \<equiv> w + (x - 8)" and "new \<equiv> w + (x + 12 + sz)" and "rest \<equiv> old - x - sz - 12"
  defines "m5 \<equiv> set_hole ret 0 (create_foot ret (set_size ret sz m4))"
  defines "m7 \<equiv> create_foot new (set_hole new 1 (set_size new rest m5))"
  assumes s5: "blk_size m5 ret = sz" "blk_size m5 w = x - 28"
    and r3: "add_block_sorted (get_bin m7 h (blk_size m7 new)) new m7 = Some m8"
    and s8: "blk_size m8 ret = blk_size m7 ret"
  shows "kheap_alloc_a sz s =
    Some (ret + 8, s\<lparr>ram := memset (ret + 8) 0 (blk_size m8 ret + 8) m8\<rparr>)"
proof -
  have gw: "get_wilderness (ram s) h = w" using wilderness_last(2) [OF l t] by (simp add: w_def h_def)
  have c: "PG_SZ - (w AND 0xFFF) - BLCK_OVERHEAD - 8 = x - 28" "w + (x - 28) + BLCK_OVERHEAD = ret"
    "ret + sz + BLCK_OVERHEAD = new" "old - (x - 28) - sz - 2 * BLCK_OVERHEAD = rest"
    by (simp_all add: x_def w_def page_rest_def BLCK_OVERHEAD_def ret_def new_def rest_def algebra_simps)
  have ol: "blk_size (ram s) w = old" by (simp add: old_def w_def)
  have "carve_aligned h w old sz m1 = Some (ret, m8)"
    unfolding carve_aligned_def Let_def c r2 [unfolded Let_def] bind.bind_lunit sw c m5_def [symmetric]
      s5 c m7_def [symmetric] r3
    by (rule refl)
  then show ?thesis
    unfolding kheap_alloc_a_def using r1 nz gw ol
    by (simp add: Let_def h_def)
qed

lemma kheap_alloc_a_ok:
  assumes inv: "heap_inv (ram s) (kheap s) bs fl" and w: "last bs \<in> free_set fl"
    and room: "wild_room sz s (last bs)"
  shows "\<exists>b m' bs' fl'. kheap_alloc_a sz s = Some (b + 8, s\<lparr>ram := m'\<rparr>) \<and>
    heap_inv m' (kheap s) bs' fl' \<and> b \<notin> set bs \<and> used_set bs' fl' = insert b (used_set bs fl) \<and>
    blk_size m' b = sz \<and> (\<forall>c. unat c < 8 + unat sz \<longrightarrow> m' (b + 8 + c) = 0) \<and>
    (b + 8) mod PG_SZ = 0 \<and> heap_change (ram s) (kheap s) m' (used_set bs fl)"
proof -
  let ?m = "ram s" and ?h = "kheap s" and ?F = "free_set fl"
  define w' where "w' = last bs"
  define x where "x = page_rest w'"
  define old where "old = blk_size ?m w'"
  note l = heap_invD(1) [OF inv] and t = heap_invD(2) [OF inv] and ok = heap_invD(3) [OF inv]
    and fr = heap_invD(4) [OF inv]
  have wF: "w' \<in> ?F" and wb: "w' \<in> set bs" and C: "{w'} \<subseteq> set bs" using w fr by (auto simp: w'_def)
  obtain xs where bs: "bs = xs @ [w']" using wb by (metis append_butlast_last_id empty_iff list.set(1) w'_def)
  have bd: "unat w' + (20 + unat old) < 2 ^ 32" using block_bound [OF l t wb] by (simp add: blk_len_def old_def)
  obtain e r where cut: "cut_sizes (unat w') x sz old e r"
    using cut_sizes_ex [OF bd, of x sz] room unfolding wild_room_def w'_def x_def old_def by blast
  note u = cut_offsets [OF cut]
  have ln: "blk_len ?m w' = e + 60 + unat sz + r"
    using cut by (simp add: blk_len_def cut_sizes_def old_def)
  define ret where "ret = w' + (x - 8)"
  define new where "new = w' + (x + 12 + sz)"
  define rest where "rest = old - x - sz - 12"
  from small_piece [OF inv wF cut [unfolded old_def]] obtain m1 m4 fl2 where
    r1: "remove_block (get_bin (set_hole w' 1 ?m) ?h (blk_size (set_hole w' 1 ?m) w')) w'
      (s\<lparr>ram := set_hole w' 1 ?m\<rparr>) = Some (s\<lparr>ram := m1\<rparr>)"
    and r2: "let m3 = set_hole w' 1 (create_foot w' (set_size w' (x - 28) m1))
      in add_block_sorted (get_bin m3 ?h (blk_size m3 w')) w' m3 = Some m4"
    and ok4: "bins_ok m4 (bin_at ?m ?h) fl2" "free_set fl2 = ?F"
    and idx2: "\<forall>i<9. set (fl2 i) \<subseteq> (set (fl i) - {w'}) \<union> (if i = unat (get_bin_index (x - 28)) then {w'} else {})"
    and s4: "blk_size m4 w' = x - 28" "load32 m4 (w' + (x - 12)) = w'"
    and op4: "writes_in (op_regions ?m ?h {w'} ?F) ?m m4" by blast
  define m5 where "m5 = set_hole ret 0 (create_foot ret (set_size ret sz m4))"
  define m7 where "m7 = create_foot new (set_hole new 1 (set_size new rest m5))"
  note p = cut_pieces [OF cut, of w' m4, folded rest_def ret_def new_def, folded m5_def, folded m7_def]
  from rest_piece [OF l t wF fr cut [unfolded old_def] ok4 op4, folded old_def, folded rest_def ret_def new_def,
      folded m5_def, folded m7_def]
  obtain m8 m9 fl3 where r3: "add_block_sorted (get_bin m7 ?h (blk_size m7 new)) new m7 = Some m8"
    and m9: "m9 = memset (ret + 8) 0 (blk_size m8 ret + 8) m8" and s8: "blk_size m8 ret = sz"
    and ok9: "bins_ok m9 (bin_at ?m ?h) fl3" "free_set fl3 = insert new ?F"
    and idx3: "\<forall>i<9. set (fl3 i) = set (fl2 i) \<union> (if i = unat (get_bin_index rest) then {new} else {})"
    and f9: "blk_size m9 w' = blk_size m4 w'" "load32 m9 (w' + (x - 12)) = load32 m4 (w' + (x - 12))"
      "blk_size m9 ret = sz" "blk_hole m9 ret = 0" "load32 m9 (w' + (x + 8 + sz)) = ret"
      "blk_size m9 new = rest" "blk_hole m9 new = 1" "load32 m9 (w' + (16 + old)) = new"
    and z: "\<forall>c. unat c < 8 + unat sz \<longrightarrow> m9 (ret + 8 + c) = 0"
    and op: "writes_in (op_regions ?m ?h {w'} ?F) ?m m9" by blast
  have "w' + 8 \<noteq> 0"
  proof
    assume "w' + 8 = 0"
    moreover have "unat (w' + 8) = unat w' + 8"
      using bd by (subst unat_add_lem [THEN iffD1]) (use cut in \<open>simp_all add: cut_sizes_def\<close>)
    ultimately show False by simp
  qed
  then have run: "kheap_alloc_a sz s = Some (ret + 8, s\<lparr>ram := m9\<rparr>)"
    unfolding m9
    by (rule kheap_alloc_a_run [OF l t, where sz = sz and ?m4.0 = m4, folded w'_def, folded x_def old_def, folded ret_def new_def rest_def,
          folded m5_def, folded m7_def, OF r1 r2 s4(1) _ p(2) _ r3])
      (use p(3,9) s4(1) s8 in simp_all)
  have inner: "0 < unat (x - 8)" "unat (x - 8) < blk_len ?m w'" "0 < unat (x + 12 + sz)"
    "unat (x + 12 + sz) < blk_len ?m w'"
    using u ln by simp_all
  have out: "ret \<notin> set bs" "new \<notin> set bs"
    unfolding ret_def new_def by (rule inner_not_block [OF l t wb]; rule inner)+
  have "unat (x - 8) \<noteq> unat (x + 12 + sz)" using u(3,6) by linarith
  then have "ret \<noteq> new" unfolding ret_def new_def by (metis add_left_cancel)
  note f = op_frame [OF l t op C fr]
  have dist: "w' \<notin> set xs" using tiled_distinct [OF t] bs by simp
  let ?bs = "xs @ [w', ret, new]"
  have tl: "tiled m9 (heap_start ?m ?h) (xs @ [w', ret, new] @ []) (heap_end ?m ?h)"
  proof (rule tiled_replace)
    show "tiled ?m (heap_start ?m ?h) (xs @ w' # []) (heap_end ?m ?h)" using t bs by simp
    show "tiled m9 w' [w', ret, new] (w' + 20 + blk_size ?m w')"
      unfolding ret_def new_def
      by (rule cut_tiles [OF cut old_def])
        (use f9 s4 in \<open>simp_all add: ret_def [symmetric] new_def [symmetric] rest_def\<close>)
    show "blk_size m9 y = blk_size ?m y \<and> foot_header m9 (get_foot ?m y) = foot_header ?m (get_foot ?m y)"
      if "y \<in> set (xs @ [])" for y
      using f(2,4) [of y] that dist bs by auto
  qed
  have inv': "heap_inv m9 ?h ?bs fl3"
  proof (rule heap_invI [OF l f(1) _ ok9(1)])
    show "tiled m9 (heap_start ?m ?h) ?bs (heap_end ?m ?h)" using tl by simp
    show "y \<in> set ?bs \<and> unat (get_bin_index (blk_size m9 y)) = k" if ky: "k < 9" "y \<in> set (fl3 k)" for k y
    proof -
      consider "y = new" "k = unat (get_bin_index rest)" | "y = w'" "k = unat (get_bin_index (x - 28))"
        | "y \<in> set (fl k)" "y \<noteq> w'"
        using ky(2) idx3 [rule_format, OF ky(1)] idx2 [rule_format, OF ky(1)] by (auto split: if_splits)
      then show ?thesis
      proof cases
        case 3
        then have "y \<in> set bs" using free_setI [of k y fl] ky(1) fr by blast
        then show ?thesis using 3 heap_invD(5) [OF inv ky(1) 3(1)] f(2) [of y] bs by auto
      qed (use f9 s4 in simp_all)
    qed
    show "y \<in> free_set fl3" if hy: "y \<in> set ?bs" "blk_hole m9 y \<noteq> 0" for y
    proof -
      consider "y = w'" | "y = new" | "y \<in> set xs" using hy f9(4) by auto
      then show ?thesis
      proof cases
        case 3
        then have "y \<in> set bs" "y \<noteq> w'" using bs dist by auto
        then show ?thesis using f(3) [of y] hy(2) heap_invD(6) [OF inv, of y] ok9(2) by simp
      qed (use wF ok9(2) in simp_all)
    qed
  qed
  have used: "used_set ?bs fl3 = insert ret (used_set bs fl)"
    using ok9(2) bs out \<open>ret \<noteq> new\<close> wF fr by (auto simp: used_set_def)
  have "set bs - {w'} - ?F = used_set bs fl" using wF by (auto simp: used_set_def)
  then have ch: "heap_change ?m ?h m9 (used_set bs fl)" using op_change [OF l t op C fr] by simp
  have al: "(ret + 8) mod PG_SZ = 0" using page_rest_aligned [of w'] by (simp add: ret_def x_def)
  show ?thesis
    by (rule exI [of _ ret], rule exI [of _ m9], rule exI [of _ ?bs], rule exI [of _ fl3], intro conjI)
      (rule run inv' out(1) used f9(3) z al ch)+
qed

end
