(* ===== verification/Kheap_Life.thy ===== *)
theory Kheap_Life
  imports Kheap_Aligned
begin

text \<open>
  The life of the kernel heap: \<open>kheap_init\<close> turns an empty heap structure into one free block, and
  every sequence of allocations, releases and writes of the owners into their blocks keeps the
  invariant (\<open>heap_run\<close>): blocks handed out never meet, and nobody's data changes behind his back.
\<close>

section \<open>kheap\_init\<close>

text \<open>What \<open>kheap_pre_init\<close> has to leave: the structure in place and the heads null.\<close>

definition empty_heap :: "mem \<Rightarrow> u32 \<Rightarrow> bool" where
  "empty_heap m h \<longleftrightarrow> heap_layout m h \<and> heap_start m h = KHEAP_START \<and> heap_end m h = KHEAP_END \<and>
     (\<forall>i<9. bin_head m (bin_at m h i) = 0)"

definition only_free :: "nat \<Rightarrow> u32 list" where
  "only_free = (\<lambda>i. if i = 8 then [KHEAP_START] else [])"

lemma init_index: "get_bin_index 0xFFFEC = 8"
proof -
  obtain k where k: "get_bin_index 0xFFFEC = word_of_nat (min (k - 2) 8)"
    "(0xFFFEC::nat) < 2 ^ Suc k"
    using get_bin_index_log [of "0xFFFEC"] by auto
  have "19 \<le> k"
  proof (rule ccontr)
    assume "\<not> 19 \<le> k"
    then have "(2::nat) ^ Suc k \<le> 2 ^ 19" by (intro power_increasing) auto
    then show False using k(2) by simp
  qed
  then show ?thesis using k(1) by (simp add: min_def)
qed

lemma kheap_init_ok:
  assumes e: "empty_heap (ram s) (kheap s)"
  shows "\<exists>m. kheap_init s = Some (s\<lparr>ram := m, kheap_initialized := 1\<rparr>) \<and>
    heap_inv m (kheap s) [KHEAP_START] only_free \<and> heap_end m (kheap s) = KHEAP_END \<and>
    (\<forall>a. apart KHEAP_START 0x100000 a 4 \<longrightarrow> (\<forall>i<9. apart (bin_at (ram s) (kheap s) i) 4 a 4) \<longrightarrow>
       load32 m a = load32 (ram s) a)"
proof -
  let ?m = "ram s" and ?h = "kheap s" and ?S = "0xD0000000 :: u32"
  have l: "heap_layout ?m ?h" and SE: "heap_start ?m ?h = ?S" "heap_end ?m ?h = 0xD0100000"
    and nil: "\<And>i. i < 9 \<Longrightarrow> bin_head ?m (bin_at ?m ?h i) = 0"
    using e by (auto simp: empty_heap_def heap_const)
  have n: "heap_size ?m ?h = 0x100000" by (simp add: heap_size_def SE)
  define m1 where "m1 = create_foot ?S (set_prev ?S 0 (set_next ?S 0 (set_size ?S 0xFFFEC ?m)))"
  have m1: "m1 = store32 (store32 (store32 (store32 ?m (?S + 4) 0xFFFEC) (?S + 8) 0) (?S + 12) 0)
      (?S + 0xFFFFC) ?S"
    by (simp add: m1_def create_foot_def get_foot_def set_foot_header_def set_prev_def set_next_def
        set_size_def blk_size_def load32_store32_apart)
  have w: "writes_in {(?S, 0x100000)} ?m m1"
    unfolding m1
    by (rule writes_in_trans [OF writes_in_trans [OF writes_in_trans]]; rule store32_in) simp_all
  have k: "keeps ?m m1 ?h 52"
    by (rule writes_in_keeps [OF w]) (use l n SE in \<open>auto simp: heap_layout_def apart_sym\<close>)
  note lk = layout_keeps [OF k]
  have l1: "heap_layout m1 ?h" using lk l by simp
  have sz: "blk_size m1 ?S = 0xFFFEC" and ft: "foot_header m1 (?S + 0xFFFFC) = ?S"
    unfolding m1 by (simp_all add: blk_size_def foot_header_def load32_store32_apart)
  have t: "tiled m1 (heap_start m1 ?h) [?S] (heap_end m1 ?h)"
    using sz ft by (simp add: lk SE blk_len_def get_foot_def)
  have "bin_list m1 (bin_at ?m ?h i) []" if "i < 9" for i
  proof -
    have "keeps ?m m1 (bin_at ?m ?h i) 4"
      by (rule writes_in_keeps [OF w]) (use l n SE that in \<open>auto simp: heap_layout_def apart_sym\<close>)
    then have "bin_head m1 (bin_at ?m ?h i) = 0"
      using nil [OF that] by (simp add: bin_head_def keeps_load32)
    then show ?thesis by (simp add: bin_list_def separated_def)
  qed
  then have ok: "bins_ok m1 (bin_at m1 ?h) (\<lambda>_. [])" by (simp add: bins_ok_def lk)
  have "free_set (\<lambda>_. []) \<subseteq> set [?S]" "?S \<in> set [?S]" "?S \<notin> free_set (\<lambda>_. [])" "(8::nat) < 9"
    by (simp_all add: free_set_def)
  from bins_add [OF ok heap_bins_apart [OF l1 t] this] obtain m2 where
    m2: "add_block_sorted (bin_at m1 ?h 8) ?S m1 = Some m2"
      "bins_ok m2 (bin_at m1 ?h) ((\<lambda>_. [])(8 := bin_insert m1 ?S []))"
      "writes_in (link_regions (bin_at m1 ?h) (insert ?S (free_set (\<lambda>_. [])))) m1 m2" by auto
  have fl: "(\<lambda>_. [])(8 := bin_insert m1 ?S []) = only_free"
    by (auto simp: only_free_def bin_insert_def heap_const)
  have fs: "free_set only_free = {?S}" by (auto simp: free_set_def only_free_def heap_const)
  have w2: "writes_in (op_regions m1 ?h {} {?S}) m1 m2"
    by (rule writes_in_mono [OF m2(3)]) (simp add: op_regions_def free_set_def)
  note f = op_frame [OF l1 t w2, simplified]
  have inv: "heap_inv m2 ?h [?S] only_free"
  proof (rule heap_invI [OF l1 f(1) _ m2(2) [unfolded fl]])
    show "tiled m2 (heap_start m1 ?h) [?S] (heap_end m1 ?h)"
      by (rule iffD2 [OF tiled_cong t]) (use f(2,4) in simp)
    show "x \<in> set [?S] \<and> unat (get_bin_index (blk_size m2 x)) = i"
      if "i < 9" "x \<in> set (only_free i)" for i x
      using that f(2) sz init_index by (auto simp: only_free_def heap_const split: if_splits)
  qed (simp add: fs)
  have "get_bin m1 ?h (blk_size m1 ?S) = bin_at m1 ?h 8"
    by (simp add: get_bin_def bin_at_def sz init_index)
  then have "kheap_init s = Some (s\<lparr>ram := m2, kheap_initialized := 1\<rparr>)"
    using m2(1) by (simp add: kheap_init_def heap_const Let_def m1_def [symmetric])
  moreover have "heap_end m2 ?h = 0xD0100000" using layout_keeps(2) [OF f(1)] lk(2) SE(2) by simp
  moreover have "load32 m2 a = load32 ?m a"
    if a: "apart ?S 0x100000 a 4" "\<forall>i<9. apart (bin_at ?m ?h i) 4 a 4" for a
  proof -
    have "keeps ?m m1 a 4" by (rule writes_in_keeps [OF w]) (use a in simp)
    moreover have "keeps m1 m2 a 4"
      by (rule writes_in_keeps [OF w2])
        (use a apart_shift_left [OF a(1), of 8 8] in \<open>auto simp: op_regions_def link_regions_def lk\<close>)
    ultimately show ?thesis using keeps_load32 [OF keeps_trans] by blast
  qed
  ultimately show ?thesis using inv by (auto simp: heap_const)
qed

section \<open>The clients of the heap\<close>

text \<open>The bytes behind an address that \<open>kheap_alloc\<close> returned: the two links and the block's size.\<close>

definition payload :: "mem \<Rightarrow> u32 \<Rightarrow> nat" where
  "payload m p = 8 + unat (blk_size m (p - 8))"

text \<open>Some bin, from the one of the size on, has a block that is large enough.\<close>

definition has_room :: "u32 \<Rightarrow> 'a heap_state_scheme \<Rightarrow> bool" where
  "has_room sz s \<longleftrightarrow>
     (\<exists>i\<in>set [unat (get_bin_index sz)..<9].
        case get_first_fit (ram s) (bin_at (ram s) (kheap s) i) sz of None \<Rightarrow> False | Some r \<Rightarrow> r \<noteq> 0)"

text \<open>The wilderness is in its bin and large enough for \<open>kheap_alloc_a\<close>.\<close>

definition has_page_room :: "u32 \<Rightarrow> 'a heap_state_scheme \<Rightarrow> bool" where
  "has_page_room sz s \<longleftrightarrow>
     (let w = get_wilderness (ram s) (kheap s);
          bin = get_bin (ram s) (kheap s) (blk_size (ram s) w)
      in find_block (ram s) (bin_head (ram s) bin) w = Some True \<and> wild_room sz s w)"

text \<open>What \<open>kheap_free\<close> needs of the block behind: see \<open>end_clear\<close>.\<close>

definition may_free :: "u32 \<Rightarrow> 'a heap_state_scheme \<Rightarrow> bool" where
  "may_free p s \<longleftrightarrow> p - 8 = heap_start (ram s) (kheap s) \<or>
     get_foot (ram s) (p - 8) + 4 \<noteq> heap_end (ram s) (kheap s) \<or> end_clear (ram s) (kheap s)"

text \<open>
  The states the heap can be in, with the set of the addresses that are handed out and not yet
  returned: initialisation, allocations that find room, plain or on a page boundary, releases,
  and writes of an owner.
\<close>

inductive heap_run :: "'a heap_state_scheme \<Rightarrow> u32 set \<Rightarrow> bool" where
  start: "empty_heap (ram s) (kheap s) \<Longrightarrow> kheap_init s = Some s' \<Longrightarrow> heap_run s' {}"
| alloc: "heap_run s L \<Longrightarrow> has_room sz s \<Longrightarrow> kheap_alloc sz s = Some (p, s') \<Longrightarrow>
    heap_run s' (insert p L)"
| aligned: "heap_run s L \<Longrightarrow> has_page_room sz s \<Longrightarrow> kheap_alloc_a sz s = Some (p, s') \<Longrightarrow>
    heap_run s' (insert p L)"
| release: "heap_run s L \<Longrightarrow> p \<in> L \<Longrightarrow> may_free p s \<Longrightarrow> kheap_free p s = Some s' \<Longrightarrow>
    heap_run s' (L - {p})"
| client: "heap_run s L \<Longrightarrow> p \<in> L \<Longrightarrow> unat c < payload (ram s) p \<Longrightarrow>
    heap_run (s\<lparr>ram := (ram s)(p + c := v)\<rparr>) L"

definition handed_out :: "u32 list \<Rightarrow> (nat \<Rightarrow> u32 list) \<Rightarrow> u32 set" where
  "handed_out bs fl = (\<lambda>b. b + 8) ` used_set bs fl"

lemma has_room_free:
  assumes "heap_inv (ram s) (kheap s) bs fl" "has_room sz s"
  shows "\<exists>x\<in>free_set fl. sz \<le> blk_size (ram s) x"
proof -
  obtain i r where i: "i < 9" "get_first_fit (ram s) (bin_at (ram s) (kheap s) i) sz = Some r" "r \<noteq> 0"
    using assms(2) by (auto simp: has_room_def split: option.splits)
  have "bin_list (ram s) (bin_at (ram s) (kheap s) i) (fl i)"
    using heap_invD(3) [OF assms(1)] i(1) by (simp add: bins_ok_def)
  from get_first_fit_best [OF this, of sz] i(2,3) have "r \<in> set (fl i)" "sz \<le> blk_size (ram s) r"
    by auto
  then show ?thesis using free_setI [OF i(1)] by blast
qed

lemma has_page_room_free:
  assumes inv: "heap_inv (ram s) (kheap s) bs fl" and r: "has_page_room sz s"
  shows "last bs \<in> free_set fl" "wild_room sz s (last bs)"
proof -
  let ?w = "last bs" and ?m = "ram s" and ?h = "kheap s"
  have w: "get_wilderness ?m ?h = ?w" by (rule wilderness_last(2) [OF heap_invD(1,2) [OF inv]])
  define i where "i = unat (get_bin_index (blk_size ?m ?w))"
  have i: "i < 9" by (simp add: i_def)
  have "get_bin ?m ?h (blk_size ?m ?w) = bin_at ?m ?h i" using get_bin_at [OF keeps_refl] by (simp add: i_def)
  moreover have "path ?m (bin_head ?m (bin_at ?m ?h i)) (fl i) 0"
    using heap_invD(3) [OF inv] i by (simp add: bins_ok_def bin_list_def)
  ultimately have "?w \<in> set (fl i)" using r find_block_path by (auto simp: has_page_room_def w Let_def)
  then show "?w \<in> free_set fl" by (rule free_setI [OF i])
  show "wild_room sz s ?w" using r by (simp add: has_page_room_def w Let_def)
qed

lemma free_has_room:
  assumes inv: "heap_inv (ram s) (kheap s) bs fl" and x: "x \<in> free_set fl" "sz \<le> blk_size (ram s) x"
  shows "has_room sz s"
proof -
  obtain i where i: "i < 9" "x \<in> set (fl i)" using x(1) by (auto simp: free_set_def)
  have "unat (get_bin_index sz) \<le> i"
    using get_bin_index_mono [OF x(2)] heap_invD(5) [OF inv i] by simp
  moreover have "bin_list (ram s) (bin_at (ram s) (kheap s) i) (fl i)"
    using heap_invD(3) [OF inv] i(1) by (simp add: bins_ok_def)
  from get_first_fit_best [OF this, of sz] obtain r where
    "get_first_fit (ram s) (bin_at (ram s) (kheap s) i) sz = Some r"
    "r = 0 \<longrightarrow> (\<forall>x\<in>set (fl i). blk_size (ram s) x < sz)" by blast
  moreover have "\<not> blk_size (ram s) x < sz" using x(2) by simp
  ultimately show ?thesis using i unfolding has_room_def by (intro bexI [of _ i]) auto
qed

text \<open>A write of the owner into his block.\<close>

lemma client_write:
  assumes inv: "heap_inv m h bs fl" and b: "b \<in> used_set bs fl" and c: "unat c < payload m (b + 8)"
  shows "heap_inv (m(b + 8 + c := v)) h bs fl"
    "u \<in> used_set bs fl \<Longrightarrow> blk_size (m(b + 8 + c := v)) u = blk_size m u"
    "u \<in> used_set bs fl \<Longrightarrow> u \<noteq> b \<Longrightarrow> keeps m (m(b + 8 + c := v)) u (blk_len m u)"
proof -
  let ?m' = "m(b + 8 + c := v)" and ?n = "8 + unat (blk_size m b)"
  note o = heap_inv_open [OF inv b]
  note d = heap_openD [OF o]
  have bC: "{b} \<subseteq> set bs" using d(5) by simp
  note bd = block_bound [OF d(1,2,5)]
  have w: "writes_in {(b + 8, ?n)} m ?m'"
    by (rule writes_in_cover [OF writes_in_upd]) (use c in \<open>auto simp: payload_def intro!: exI [of _ c]\<close>)
  have wb: "writes_in (block_regions m {b}) m ?m'"
    by (rule writes_in_cover [OF w]) (auto simp: block_regions_def blk_len_def intro!: exI [of _ 8])
  note bw = block_writes [OF d(1,2) wb bC]
  note f = op_frame [OF d(1,2) bw(3) [of "{}"] bC, simplified]
  have a: "apart 8 ?n 0 8"
    unfolding apart_sym [of 8] by (rule apart_bounds) (use bd in \<open>simp_all add: blk_len_def\<close>)
  have k: "keeps m ?m' b 8" by (rule writes_in_keeps [OF w]) (use a in simp)
  have u: "unat (16 + blk_size m b) = 16 + unat (blk_size m b)"
    using bd by (subst unat_add_lem [THEN iffD1]) (simp_all add: blk_len_def)
  have "apart 8 ?n (16 + blk_size m b) 4"
    by (rule apart_bounds) (use bd u in \<open>simp_all add: blk_len_def\<close>)
  then have "keeps m ?m' (b + (16 + blk_size m b)) 4" by (intro writes_in_keeps [OF w]) simp
  then have ft: "foot_header ?m' (get_foot m b) = foot_header m (get_foot m b)"
    by (simp add: foot_header_def get_foot_def keeps_load32 add.assoc)
  have all: "blk_size ?m' x = blk_size m x" "blk_hole ?m' x = blk_hole m x"
    "foot_header ?m' (get_foot m x) = foot_header m (get_foot m x)" if "x \<in> set bs" for x
    using f(2-4) [OF that] keeps_size_hole [OF k] ft by (cases "x = b"; simp)+
  show "heap_inv ?m' h bs fl"
  proof (rule heap_invI [OF d(1) f(1)])
    show "tiled ?m' (heap_start m h) bs (heap_end m h)"
      by (rule iffD2 [OF tiled_cong d(2)]) (use all in simp)
    show "bins_ok ?m' (bin_at m h) fl"
      by (rule bw(2) [OF d(3)]) (use d(4,6) in auto)
    show "x \<in> set bs \<and> unat (get_bin_index (blk_size ?m' x)) = i" if "i < 9" "x \<in> set (fl i)" for i x
      using d(7) [OF that] all(1) [of x] by simp
    show "x \<in> free_set fl" if "x \<in> set bs" "blk_hole ?m' x \<noteq> 0" for x
      using that all(2) heap_invD(6) [OF inv] by simp
  qed
  show "blk_size ?m' u = blk_size m u" if "u \<in> used_set bs fl"
    using all(1) that by (simp add: used_set_def)
  show "keeps m ?m' u (blk_len m u)" if "u \<in> used_set bs fl" "u \<noteq> b"
    using bw(1) that by (simp add: used_set_def)
qed

lemma alloc_result_change:
  assumes inv: "heap_inv m h bs fl" and r: "alloc_result m h bs fl sz b m' bs' fl'"
  shows "heap_change m h m' (used_set bs fl)"
proof -
  have b: "{b} \<subseteq> set bs" using r heap_invD(4) [OF inv] by (auto simp: alloc_result_def)
  have "heap_change m h m' (set bs - {b} - free_set fl)"
    using op_change [OF heap_invD(1,2) [OF inv] _ b heap_invD(4) [OF inv]] r by (simp add: alloc_result_def)
  moreover have "set bs - {b} - free_set fl = used_set bs fl"
    using r by (auto simp: alloc_result_def used_set_def)
  ultimately show ?thesis by simp
qed

lemma heap_run_inv:
  "heap_run s L \<Longrightarrow> \<exists>bs fl. heap_inv (ram s) (kheap s) bs fl \<and> L = handed_out bs fl"
proof (induction rule: heap_run.induct)
  case (start s s')
  from kheap_init_ok [OF start(1)] start(2) have "heap_inv (ram s') (kheap s') [KHEAP_START] only_free"
    by auto
  moreover have "handed_out [KHEAP_START] only_free = {}"
    by (auto simp: handed_out_def used_set_def free_set_def only_free_def)
  ultimately show ?case by blast
next
  case (alloc s L sz p s')
  then obtain bs fl where inv: "heap_inv (ram s) (kheap s) bs fl" and L: "L = handed_out bs fl" by blast
  obtain x where "x \<in> free_set fl" "sz \<le> blk_size (ram s) x" using has_room_free [OF inv alloc(2)] by blast
  from kheap_alloc_ok [OF inv this] alloc(3) obtain b bs' fl' where
    "p = b + 8" "kheap s' = kheap s" "alloc_result (ram s) (kheap s) bs fl sz b (ram s') bs' fl'" by auto
  then show ?case
    using L by (intro exI [of _ bs'] exI [of _ fl']) (simp add: alloc_result_def handed_out_def)
next
  case (aligned s L sz p s')
  then obtain bs fl where inv: "heap_inv (ram s) (kheap s) bs fl" and L: "L = handed_out bs fl" by blast
  from kheap_alloc_a_ok [OF inv has_page_room_free [OF inv aligned(2)]] aligned(3) obtain b bs' fl' where
    "p = b + 8" "heap_inv (ram s') (kheap s') bs' fl'" "used_set bs' fl' = insert b (used_set bs fl)" by auto
  then show ?case
    using L by (intro exI [of _ bs'] exI [of _ fl']) (simp add: handed_out_def)
next
  case (release s L p s')
  then obtain bs fl where inv: "heap_inv (ram s) (kheap s) bs fl" and L: "L = handed_out bs fl" by blast
  then obtain b where b: "b \<in> used_set bs fl" "p = b + 8" using release(2) by (auto simp: handed_out_def)
  have "b = heap_start (ram s) (kheap s) \<or> get_foot (ram s) b + 4 \<noteq> heap_end (ram s) (kheap s) \<or>
      end_clear (ram s) (kheap s)"
    using release(3) b(2) by (simp add: may_free_def)
  from kheap_free_ok [OF inv b(1) this] release(4) b(2) obtain bs' fl' where
    "heap_inv (ram s') (kheap s') bs' fl'" "used_set bs' fl' = used_set bs fl - {b}" by auto
  moreover have "(\<lambda>b. b + 8) ` (used_set bs fl - {b}) = (\<lambda>b. b + 8) ` used_set bs fl - {b + 8}"
    by auto
  ultimately show ?case
    using L b(2) by (intro exI [of _ bs'] exI [of _ fl']) (simp add: handed_out_def)
next
  case (client s L p c v)
  then obtain bs fl where inv: "heap_inv (ram s) (kheap s) bs fl" and L: "L = handed_out bs fl" by blast
  then obtain b where b: "b \<in> used_set bs fl" "p = b + 8" using client(2) by (auto simp: handed_out_def)
  then show ?case using client_write(1) [OF inv b(1), of c v] client(3) L
    by (intro exI [of _ bs] exI [of _ fl]) (simp add: fun_upd_def)
qed

lemma handed_out_apart:
  assumes inv: "heap_inv m h bs fl" and b: "b \<in> used_set bs fl" "c \<in> used_set bs fl" "b \<noteq> c"
  shows "apart (b + 8) (payload m (b + 8)) (c + 8) (payload m (c + 8))"
proof -
  have "apart b (blk_len m b) c (blk_len m c)"
    using tiled_apart [OF heap_invD(2) [OF inv]] b by (simp add: used_set_def)
  then show ?thesis by (rule apart_shift) (simp_all add: payload_def blk_len_def)
qed

lemma heap_change_payload:
  assumes "heap_change m h m' U" "b \<in> U"
  shows "payload m' (b + 8) = payload m (b + 8)" "keeps m m' (b + 8) (payload m (b + 8))"
proof -
  have k: "keeps m m' b (blk_len m b)" using assms by (simp add: heap_change_def)
  have "blk_len m' b = blk_len m b" by (rule blk_len_keeps [OF k]) (simp add: blk_len_def)
  then show "payload m' (b + 8) = payload m (b + 8)" by (simp add: payload_def blk_len_def)
  show "keeps m m' (b + 8) (payload m (b + 8))"
    by (rule keeps_sub [OF k]) (simp add: payload_def blk_len_def)
qed

section \<open>An example heap\<close>

definition heap0_mem :: mem where
  "heap0_mem = fold (\<lambda>i m. store32 m (0xC0200010 + 4 * i) (0xC0200034 + 4 * i))
     [0, 1, 2, 3, 4, 5, 6, 7, 8] (store32 (store32 (\<lambda>_. 0) 0xC0200000 KHEAP_START) 0xC0200004 KHEAP_END)"

definition heap0 :: heap_state where
  "heap0 = idt_state.extend idt0
     \<lparr>handlers = [], kheap_initialized = 0, kheap = 0xC0200000, alloc_ptr = 0xC0200058\<rparr>
     \<lparr>ram := heap0_mem\<rparr>"

lemma below_9: "(i::nat) < 9 \<longleftrightarrow> i \<in> {0, 1, 2, 3, 4, 5, 6, 7, 8}"
  by auto

lemma heap0_bins: "i < 9 \<Longrightarrow> bin_at heap0_mem 0xC0200000 i = 0xC0200034 + 4 * of_nat i"
  unfolding below_9 bin_at_def heap_bin_def heap0_mem_def
  by (elim insertE; simp add: load32_store32_apart)

lemma heap0_fields:
  "heap_start heap0_mem 0xC0200000 = KHEAP_START" "heap_end heap0_mem 0xC0200000 = KHEAP_END"
  by (simp_all add: heap_start_def heap_end_def heap0_mem_def load32_store32_apart)

lemma heap0_heads: "i < 9 \<Longrightarrow> bin_head heap0_mem (0xC0200034 + 4 * of_nat i) = 0"
  unfolding below_9 bin_head_def heap0_mem_def
  by (elim insertE; simp add: load32_store32_apart)

lemma heap0_sel: "kheap heap0 = 0xC0200000" "ram heap0 = heap0_mem"
  by (simp_all add: heap0_def idt_state.extend_def)

lemma heap0_empty: "empty_heap (ram heap0) (kheap heap0)"
proof -
  have "apart (0xC0200034 + 4 * of_nat i) 4 0xD0000000 0x100000 \<and>
      apart (0xC0200034 + 4 * of_nat i) 4 0xC0200000 52" if "i < 9" for i
    using that unfolding below_9 by (elim insertE; simp)
  moreover have "apart (0xC0200034 + 4 * of_nat i :: u32) 4 (0xC0200034 + 4 * of_nat j) 4"
    if "i < 9" "j < 9" "i \<noteq> j" for i j
  proof -
    have u: "unat (4 * of_nat k :: u32) = 4 * k" if "k < 9" for k :: nat
      using that by (simp add: unat_word_ariths unat_of_nat)
    have "unat (0xC0200034 + 4 * of_nat k :: u32) = 0xC0200034 + 4 * k" if "k < 9" for k :: nat
      using that u [OF that] by (simp add: unat_word_ariths)
    then show ?thesis using that by (intro apart_bounds2) auto
  qed
  ultimately have "heap_layout heap0_mem 0xC0200000"
    by (simp add: heap_layout_def heap_size_def heap0_fields heap0_bins heap_const)
  then show ?thesis
    by (simp add: empty_heap_def heap0_sel heap0_fields heap0_bins heap0_heads)
qed

section \<open>The operations on reachable states\<close>

text \<open>What \<open>kheap_alloc\<close> does to the reachable states.\<close>

lemma alloc_run:
  assumes "heap_run s L" and "has_room sz s"
  shows "\<exists>p s'. kheap_alloc sz s = Some (p, s') \<and> heap_run s' (insert p L) \<and> p \<notin> L \<and>
    unat sz + 8 \<le> payload (ram s') p \<and> (\<forall>c. unat c < payload (ram s') p \<longrightarrow> ram s' (p + c) = 0) \<and>
    (\<forall>q\<in>L. apart p (payload (ram s') p) q (payload (ram s') q) \<and>
       payload (ram s') q = payload (ram s) q \<and> keeps (ram s) (ram s') q (payload (ram s) q)) \<and>
    (\<forall>n. has_room n s \<longrightarrow> unat sz + 24 < unat n \<longrightarrow> has_room (n - sz - 20) s')"
proof -
  obtain bs fl where inv: "heap_inv (ram s) (kheap s) bs fl" and L: "L = handed_out bs fl"
    using heap_run_inv [OF assms(1)] by blast
  obtain x where "x \<in> free_set fl" "sz \<le> blk_size (ram s) x"
    using has_room_free [OF inv assms(2)] by blast
  from kheap_alloc_ok [OF inv this] obtain b m' bs' fl' where
    r: "kheap_alloc sz s = Some (b + 8, s\<lparr>ram := m'\<rparr>)"
    and ar: "alloc_result (ram s) (kheap s) bs fl sz b m' bs' fl'" by blast
  have inv': "heap_inv m' (kheap s) bs' fl'" and u: "used_set bs' fl' = insert b (used_set bs fl)"
    and b: "b \<in> free_set fl" and sz: "sz \<le> blk_size m' b" and fr: "free_set fl - {b} \<subseteq> free_set fl'"
    and z: "\<forall>c. unat c < 8 + unat (blk_size m' b) \<longrightarrow> m' (b + 8 + c) = 0"
    and rest: "unat sz + 24 < unat (blk_size (ram s) b) \<Longrightarrow>
        \<exists>x\<in>free_set fl'. blk_size m' x = blk_size (ram s) b - sz - 20"
    and w: "writes_in (op_regions (ram s) (kheap s) {b} (free_set fl)) (ram s) m'"
    using ar by (auto simp: alloc_result_def)
  have nb: "b \<notin> used_set bs fl" using b by (simp add: used_set_def)
  define s' where "s' = s\<lparr>ram := m'\<rparr>"
  have m': "m' = ram s'" by (simp add: s'_def)
  have "apart (b + 8) (payload m' (b + 8)) q (payload m' q) \<and> payload m' q = payload (ram s) q \<and>
      keeps (ram s) m' q (payload (ram s) q)" if q: "q \<in> L" for q
  proof -
    obtain c where c: "c \<in> used_set bs fl" "q = c + 8" using q L by (auto simp: handed_out_def)
    then have "b \<noteq> c" using nb by auto
    then show ?thesis
      using handed_out_apart [OF inv', of b c] c u
        heap_change_payload [OF alloc_result_change [OF inv ar] c(1)] by simp
  qed
  moreover have "has_room (n - sz - 20) (s\<lparr>ram := m'\<rparr>)"
    if n: "has_room n s" "unat sz + 24 < unat n" for n
  proof -
    obtain y where y: "y \<in> free_set fl" "n \<le> blk_size (ram s) y" using has_room_free [OF inv n(1)] by blast
    have un: "unat (n - sz - 20) = unat n - unat sz - 20"
      using n(2) by (simp add: unat_sub_if_size word_size)
    have inv2: "heap_inv (ram (s\<lparr>ram := m'\<rparr>)) (kheap (s\<lparr>ram := m'\<rparr>)) bs' fl'" using inv' by simp
    show ?thesis
    proof (cases "y = b")
      case True
      then have big: "unat sz + 24 < unat (blk_size (ram s) b)" using n(2) y(2) by (simp add: word_le_nat_alt)
      then obtain x where x: "x \<in> free_set fl'" "blk_size m' x = blk_size (ram s) b - sz - 20"
        using rest by blast
      have "unat (blk_size (ram s) b - sz - 20) = unat (blk_size (ram s) b) - unat sz - 20"
        using big by (simp add: unat_sub_if_size word_size)
      then have "n - sz - 20 \<le> blk_size m' x"
        using y(2) True x(2) un by (simp add: word_le_nat_alt)
      then show ?thesis using free_has_room [OF inv2 x(1)] by simp
    next
      case False
      have "{b} \<subseteq> set bs" "y \<in> set bs" using b y(1) heap_invD(4) [OF inv] by auto
      then have "blk_size m' y = blk_size (ram s) y"
        using op_frame(2) [OF heap_invD(1,2) [OF inv] w _ heap_invD(4) [OF inv]] False by simp
      then have "n - sz - 20 \<le> blk_size m' y" using y(2) un by (simp add: word_le_nat_alt)
      then show ?thesis using free_has_room [OF inv2, of y] False y(1) fr by auto
    qed
  qed
  moreover have "b + 8 \<notin> L" using nb L by (auto simp: handed_out_def)
  moreover have "heap_run (s\<lparr>ram := m'\<rparr>) (insert (b + 8) L)" by (rule heap_run.alloc [OF assms r])
  moreover have "unat sz + 8 \<le> payload m' (b + 8)"
    using sz by (simp add: payload_def word_le_nat_alt)
  moreover have "\<forall>c. unat c < payload m' (b + 8) \<longrightarrow> m' (b + 8 + c) = 0"
    using z by (simp add: payload_def)
  ultimately show ?thesis
    using r unfolding s'_def [symmetric] unfolding m' by blast
qed

text \<open>A reachable heap of one free block, and one with two blocks handed out.\<close>

lemma heap0_run:
  obtains s :: heap_state where "heap_run s {}" "heap_inv (ram s) (kheap s) [KHEAP_START] only_free"
    "heap_end (ram s) (kheap s) = KHEAP_END"
proof -
  obtain m where m: "kheap_init heap0 = Some (heap0\<lparr>ram := m, kheap_initialized := 1\<rparr>)"
    "heap_inv m (kheap heap0) [KHEAP_START] only_free" "heap_end m (kheap heap0) = KHEAP_END"
    using kheap_init_ok [OF heap0_empty] by blast
  have "heap_run (heap0\<lparr>ram := m, kheap_initialized := 1\<rparr>) {}"
    by (rule heap_run.start [OF heap0_empty m(1)])
  then show ?thesis
    by (rule that [of "heap0\<lparr>ram := m, kheap_initialized := 1\<rparr>"]) (use m in simp_all)
qed

lemma only_free_size:
  assumes "heap_inv (ram s) (kheap s) [KHEAP_START] only_free" "heap_end (ram s) (kheap s) = KHEAP_END"
  shows "blk_size (ram s) KHEAP_START = 0xFFFEC"
proof -
  have S: "heap_start (ram s) (kheap s) = KHEAP_START" using heap_invD(2) [OF assms(1)] by simp
  have "KHEAP_START + 20 + blk_size (ram s) KHEAP_START = KHEAP_END"
    using heap_invD(2) [OF assms(1), unfolded S assms(2)] by simp
  then have "blk_size (ram s) KHEAP_START = KHEAP_END - 20 - KHEAP_START"
    by (simp add: algebra_simps eq_diff_eq)
  then show ?thesis by (simp add: heap_const)
qed

lemma only_free_room:
  assumes "heap_inv (ram s) (kheap s) [KHEAP_START] only_free"
    "heap_end (ram s) (kheap s) = KHEAP_END" "unat sz \<le> 0xFFFEC"
  shows "has_room sz s"
proof (rule free_has_room [OF assms(1)])
  show "sz \<le> blk_size (ram s) KHEAP_START"
    using assms(3) only_free_size [OF assms(1,2)] by (simp add: word_le_nat_alt)
  show "KHEAP_START \<in> free_set only_free" by (auto simp: free_set_def only_free_def)
qed

lemma only_free_page_room:
  assumes inv: "heap_inv (ram s) (kheap s) [KHEAP_START] only_free"
    and e: "heap_end (ram s) (kheap s) = KHEAP_END" and sz: "unat sz \<le> 0xFE000"
  shows "has_page_room sz s"
proof -
  let ?m = "ram s" and ?h = "kheap s"
  note size = only_free_size [OF inv e]
  have w: "get_wilderness ?m ?h = KHEAP_START"
    using wilderness_last(2) [OF heap_invD(1,2) [OF inv]] by simp
  have "get_bin ?m ?h 0xFFFEC = bin_at ?m ?h 8" by (simp add: get_bin_def bin_at_def init_index)
  moreover have "find_block ?m (bin_head ?m (bin_at ?m ?h 8)) KHEAP_START = Some True"
  proof -
    have "bin_list ?m (bin_at ?m ?h 8) (only_free 8)" using heap_invD(3) [OF inv] by (simp add: bins_ok_def)
    moreover have "only_free 8 = [KHEAP_START]" by (simp add: only_free_def)
    ultimately have "path ?m (bin_head ?m (bin_at ?m ?h 8)) [KHEAP_START] 0" by (simp only: bin_list_def)
    from find_block_path [OF this, of KHEAP_START] show ?thesis by simp
  qed
  moreover have "page_rest KHEAP_START = 4096" by (simp add: page_rest_def heap_const)
  ultimately show ?thesis
    using sz by (simp add: has_page_room_def w size Let_def wild_room_def)
qed

lemma two_blocks:
  obtains s :: heap_state and p q where "heap_run s {q, p}" "q \<noteq> p"
proof -
  obtain s0 :: heap_state where s0: "heap_run s0 {}"
    "heap_inv (ram s0) (kheap s0) [KHEAP_START] only_free" "heap_end (ram s0) (kheap s0) = KHEAP_END"
    by (rule heap0_run)
  have r: "has_room 1000 s0" "has_room 100 s0" using only_free_room [OF s0(2,3)] by simp_all
  from alloc_run [OF s0(1) r(2)] obtain p and s1 :: heap_state where
    s1: "heap_run s1 {p}" and n: "\<forall>n. has_room n s0 \<longrightarrow> unat (100 :: u32) + 24 < unat n \<longrightarrow> has_room (n - 100 - 20) s1"
    by (elim exE conjE) (rule that; assumption)
  from n [rule_format, OF r(1)] have 1: "has_room 880 s1" by simp
  from alloc_run [OF s1 1] obtain q and s2 :: heap_state where "heap_run s2 {q, p}" "q \<notin> {p}"
    by (elim exE conjE) (rule that; assumption)
  then show ?thesis using that by blast
qed

text \<open>What \<open>kheap_free\<close> does to them.\<close>

lemma free_run:
  assumes "heap_run s L" and "p \<in> L" and "may_free p s"
  shows "\<exists>s'. kheap_free p s = Some s' \<and> heap_run s' (L - {p}) \<and>
    (\<forall>q\<in>L - {p}. payload (ram s') q = payload (ram s) q \<and> keeps (ram s) (ram s') q (payload (ram s) q)) \<and>
    (\<forall>sz. unat sz + 8 \<le> payload (ram s) p \<longrightarrow> has_room sz s')"
proof -
  obtain bs fl where inv: "heap_inv (ram s) (kheap s) bs fl" and L: "L = handed_out bs fl"
    using heap_run_inv [OF assms(1)] by blast
  obtain b where b: "b \<in> used_set bs fl" "p = b + 8" using assms(2) L by (auto simp: handed_out_def)
  have "b = heap_start (ram s) (kheap s) \<or> get_foot (ram s) b + 4 \<noteq> heap_end (ram s) (kheap s) \<or>
      end_clear (ram s) (kheap s)"
    using assms(3) b(2) by (simp add: may_free_def)
  from kheap_free_ok [OF inv b(1) this] obtain m' bs' fl' c where
    r: "kheap_free (b + 8) s = Some (s\<lparr>ram := m'\<rparr>)" and inv': "heap_inv m' (kheap s) bs' fl'"
    and c: "c \<in> free_set fl'" "blk_len (ram s) b \<le> blk_len m' c"
    and ch: "heap_change (ram s) (kheap s) m' (used_set bs fl - {b})" by blast
  define s' where "s' = s\<lparr>ram := m'\<rparr>"
  have m': "m' = ram s'" by (simp add: s'_def)
  have inv2: "heap_inv (ram s') (kheap s') bs' fl'" using inv' by (simp add: s'_def)
  have "payload m' q = payload (ram s) q \<and> keeps (ram s) m' q (payload (ram s) q)"
    if q: "q \<in> L - {p}" for q
  proof -
    obtain u where u: "u \<in> used_set bs fl" "q = u + 8" using q L by (auto simp: handed_out_def)
    then have "u \<in> used_set bs fl - {b}" using q b by auto
    then show ?thesis using heap_change_payload [OF ch] u(2) by simp
  qed
  moreover have "has_room sz s'" if "unat sz + 8 \<le> payload (ram s) p" for sz
    by (rule free_has_room [OF inv2 c(1)])
      (use that c(2) b(2) m' in \<open>simp add: payload_def blk_len_def word_le_nat_alt\<close>)
  moreover have "heap_run (s\<lparr>ram := m'\<rparr>) (L - {p})"
    by (rule heap_run.release [OF assms]) (use r b(2) in simp)
  ultimately show ?thesis
    using r b(2) unfolding s'_def [symmetric] unfolding m' by blast
qed

section \<open>Properties\<close>

text \<open>
  \<open>kheap_init\<close> on the empty structure that \<open>kheap_pre_init\<close> prepares always ends and leaves the heap as one
  free block in the last bin, with the invariant of the heap established.
\<close>

theorem kheap_init_one_block:
  assumes "empty_heap (ram s) (kheap s)"
  shows "\<exists>m. kheap_init s = Some (s\<lparr>ram := m, kheap_initialized := 1\<rparr>) \<and>
    heap_inv m (kheap s) [KHEAP_START] only_free"
  using kheap_init_ok [OF assms] by blast

theorem kheap_init_one_block_witness:
  "\<exists>m. kheap_init heap0 = Some (heap0\<lparr>ram := m, kheap_initialized := 1\<rparr>)"
  using kheap_init_one_block [OF heap0_empty] by blast

text \<open>
  C14. In every state the heap can reach by allocations, releases and writes of the owners, the blocks
  handed out lie inside the heap and do not meet, payload against payload.
\<close>

theorem heap_live_disjoint:
  assumes "heap_run s L" and "p \<in> L" and "q \<in> L" and "p \<noteq> q"
  shows "apart p (payload (ram s) p) q (payload (ram s) q) \<and>
    unat (heap_start (ram s) (kheap s)) + 8 \<le> unat p \<and>
    unat p + payload (ram s) p < unat (heap_end (ram s) (kheap s))"
proof -
  obtain bs fl where inv: "heap_inv (ram s) (kheap s) bs fl" and L: "L = handed_out bs fl"
    using heap_run_inv [OF assms(1)] by blast
  obtain b c where b: "b \<in> used_set bs fl" "p = b + 8" and c: "c \<in> used_set bs fl" "q = c + 8"
    using assms(2,3) L by (auto simp: handed_out_def)
  have "b \<noteq> c" using assms(4) b c by auto
  then have 1: "apart p (payload (ram s) p) q (payload (ram s) q)"
    using handed_out_apart [OF inv b(1) c(1)] b c by simp
  have "b \<in> set bs" using b by (simp add: used_set_def)
  from tiled_mem [OF heap_invD(2) [OF inv] this] have t:
    "unat (heap_start (ram s) (kheap s)) \<le> unat b"
    "unat b + blk_len (ram s) b \<le> unat (heap_end (ram s) (kheap s))" by auto
  have "unat p = unat b + 8"
    using t unat_bound32 [of "heap_end (ram s) (kheap s)"]
    by (subst b(2), subst unat_add_lem [THEN iffD1]) (simp_all add: blk_len_def)
  then show ?thesis using 1 t b(2) by (simp add: payload_def blk_len_def)
qed

theorem heap_live_disjoint_witness:
  "\<exists>(s :: heap_state) p q. heap_run s {q, p} \<and> apart q (payload (ram s) q) p (payload (ram s) p)"
proof -
  obtain s :: heap_state and p q where s: "heap_run s {q, p}" "q \<noteq> p" by (rule two_blocks)
  show ?thesis using heap_live_disjoint [OF s(1) _ _ s(2)] s(1) by blast
qed

text \<open>
  C12. \<open>kheap_alloc\<close> with room for the request ends and hands out a new block: cleared, at least as
  large as asked for, apart from every block in use, whose contents it leaves alone.  Besides the
  request it costs at most 20 bytes: where a larger one would have fitted, what is left of it does.
\<close>

theorem kheap_alloc_correct:
  assumes "heap_run s L" and "has_room sz s"
  shows "\<exists>p s'. kheap_alloc sz s = Some (p, s') \<and> heap_run s' (insert p L) \<and> p \<notin> L \<and>
    unat sz + 8 \<le> payload (ram s') p \<and> (\<forall>c. unat c < payload (ram s') p \<longrightarrow> ram s' (p + c) = 0) \<and>
    (\<forall>q\<in>L. apart p (payload (ram s') p) q (payload (ram s') q) \<and>
       payload (ram s') q = payload (ram s) q \<and> keeps (ram s) (ram s') q (payload (ram s) q)) \<and>
    (\<forall>n. has_room n s \<longrightarrow> unat sz + 24 < unat n \<longrightarrow> has_room (n - sz - 20) s')"
  using assms by (rule alloc_run)

theorem kheap_alloc_correct_witness:
  "\<exists>(s :: heap_state) p s'. kheap_alloc 100 s = Some (p, s') \<and> heap_run s' {p}"
proof -
  obtain s :: heap_state where s: "heap_run s {}"
    "heap_inv (ram s) (kheap s) [KHEAP_START] only_free" "heap_end (ram s) (kheap s) = KHEAP_END"
    by (rule heap0_run)
  have "has_room 100 s" using only_free_room [OF s(2,3)] by simp
  from kheap_alloc_correct [OF s(1) this] show ?thesis by blast
qed

text \<open>
  C15. \<open>kheap_alloc_a\<close> with room in the wilderness ends and hands out a new block that starts on a page
  boundary, of exactly the size asked for, cleared and apart from every block in use, whose contents
  it leaves alone.
\<close>

theorem kheap_alloc_a_correct:
  assumes "heap_run s L" and "has_page_room sz s"
  shows "\<exists>p s'. kheap_alloc_a sz s = Some (p, s') \<and> heap_run s' (insert p L) \<and> p \<notin> L \<and>
    p mod PG_SZ = 0 \<and> payload (ram s') p = 8 + unat sz \<and>
    (\<forall>c. unat c < payload (ram s') p \<longrightarrow> ram s' (p + c) = 0) \<and>
    (\<forall>q\<in>L. apart p (payload (ram s') p) q (payload (ram s') q) \<and>
       payload (ram s') q = payload (ram s) q \<and> keeps (ram s) (ram s') q (payload (ram s) q))"
proof -
  obtain bs fl where inv: "heap_inv (ram s) (kheap s) bs fl" and L: "L = handed_out bs fl"
    using heap_run_inv [OF assms(1)] by blast
  from kheap_alloc_a_ok [OF inv has_page_room_free [OF inv assms(2)]] obtain b m' bs' fl' where
    r: "kheap_alloc_a sz s = Some (b + 8, s\<lparr>ram := m'\<rparr>)"
    and inv': "heap_inv m' (kheap s) bs' fl'" and nb: "b \<notin> set bs"
    and u: "used_set bs' fl' = insert b (used_set bs fl)" and sz: "blk_size m' b = sz"
    and z: "\<forall>c. unat c < 8 + unat sz \<longrightarrow> m' (b + 8 + c) = 0" and al: "(b + 8) mod PG_SZ = 0"
    and ch: "heap_change (ram s) (kheap s) m' (used_set bs fl)"
    by (elim exE conjE) (rule that; assumption)
  define s' where "s' = s\<lparr>ram := m'\<rparr>"
  have m': "m' = ram s'" by (simp add: s'_def)
  have nu: "b \<notin> used_set bs fl" using nb by (simp add: used_set_def)
  have oth: "apart (b + 8) (payload (ram s') (b + 8)) q (payload (ram s') q) \<and>
      payload (ram s') q = payload (ram s) q \<and> keeps (ram s) (ram s') q (payload (ram s) q)"
    if q: "q \<in> L" for q
  proof -
    obtain c where c: "c \<in> used_set bs fl" "q = c + 8" using q L by (auto simp: handed_out_def)
    then have "b \<noteq> c" using nu by auto
    then show ?thesis unfolding m' [symmetric]
      using handed_out_apart [OF inv', of b c] c u heap_change_payload [OF ch c(1)] by simp
  qed
  have run: "heap_run s' (insert (b + 8) L)"
    using heap_run.aligned [OF assms r] by (simp only: s'_def)
  have pay: "payload (ram s') (b + 8) = 8 + unat sz"
    using sz by (simp add: payload_def m')
  show ?thesis
  proof (rule exI [of _ "b + 8"], rule exI [of _ s'], intro conjI ballI)
    show "kheap_alloc_a sz s = Some (b + 8, s')" using r by (simp only: s'_def)
    show "b + 8 \<notin> L" using nu L by (auto simp: handed_out_def)
    show "\<forall>c. unat c < payload (ram s') (b + 8) \<longrightarrow> ram s' (b + 8 + c) = 0"
      using z unfolding pay m' .
  qed (use oth run pay al in blast)+
qed

theorem kheap_alloc_a_correct_witness:
  "\<exists>(s :: heap_state) p s'. kheap_alloc_a 4096 s = Some (p, s') \<and> p mod PG_SZ = 0"
proof -
  obtain s :: heap_state where s: "heap_run s {}"
    "heap_inv (ram s) (kheap s) [KHEAP_START] only_free" "heap_end (ram s) (kheap s) = KHEAP_END"
    by (rule heap0_run)
  have "has_page_room 4096 s" by (rule only_free_page_room [OF s(2,3)]) simp
  from kheap_alloc_a_correct [OF s(1) this] show ?thesis by (elim exE conjE) (intro exI conjI)
qed

text \<open>
  C13. \<open>kheap_free\<close> of an address handed out ends, takes it out of use, leaves the contents of all other
  blocks in use alone, and afterwards every request that would fit into the block finds room.
\<close>

theorem kheap_free_correct:
  assumes "heap_run s L" and "p \<in> L" and "may_free p s"
  shows "\<exists>s'. kheap_free p s = Some s' \<and> heap_run s' (L - {p}) \<and>
    (\<forall>q\<in>L - {p}. payload (ram s') q = payload (ram s) q \<and> keeps (ram s) (ram s') q (payload (ram s) q)) \<and>
    (\<forall>sz. unat sz + 8 \<le> payload (ram s) p \<longrightarrow> has_room sz s')"
  using assms by (rule free_run)

text \<open>The first block handed out is the one at the start of the heap.\<close>

lemma first_block:
  obtains s :: heap_state where "heap_run s {KHEAP_START + 8}" "may_free (KHEAP_START + 8) s"
proof -
  obtain s :: heap_state where s: "heap_run s {}"
    "heap_inv (ram s) (kheap s) [KHEAP_START] only_free" "heap_end (ram s) (kheap s) = KHEAP_END"
    by (rule heap0_run)
  note r = only_free_room [OF s(2,3), of 100]
  have "KHEAP_START \<in> free_set only_free" by (auto simp: free_set_def only_free_def)
  have "has_room 100 s" using r by simp
  from has_room_free [OF s(2) this] obtain x where x: "x \<in> free_set only_free" "100 \<le> blk_size (ram s) x" by blast
  from kheap_alloc_ok [OF s(2) x] obtain b m' bs' fl' where
    a: "kheap_alloc 100 s = Some (b + 8, s\<lparr>ram := m'\<rparr>)"
      "alloc_result (ram s) (kheap s) [KHEAP_START] only_free 100 b m' bs' fl'" by blast
  have b: "b = KHEAP_START" using a(2) by (auto simp: alloc_result_def free_set_def only_free_def split: if_splits)
  have "keeps (ram s) m' (kheap s) 52"
    using alloc_result_change [OF s(2) a(2)] by (simp add: heap_change_def)
  then have "heap_start m' (kheap s) = KHEAP_START"
    using layout_keeps(1) heap_invD(2) [OF s(2)] by simp
  then show ?thesis
    using heap_run.alloc [OF s(1) \<open>has_room 100 s\<close> a(1)] b
    by (intro that [of "s\<lparr>ram := m'\<rparr>"]) (simp_all add: may_free_def)
qed

theorem kheap_free_correct_witness:
  "\<exists>(s :: heap_state) s'. kheap_free (KHEAP_START + 8) s = Some s' \<and> heap_run s' {}"
proof -
  obtain s :: heap_state where "heap_run s {KHEAP_START + 8}" "may_free (KHEAP_START + 8) s"
    by (rule first_block)
  from kheap_free_correct [OF this(1) _ this(2)] show ?thesis by auto
qed



end
