(* ===== verification/Paging.thy ===== *)
theory Paging
  imports Kheap
begin

text \<open>
  The page tables of kern/inc/x86.h and their lookup, \<open>get_physical\<close> of kern/mm/vmm.c.  A page
  directory is \<open>phys_tabs[1024]\<close> at offset 0, \<open>tables[1024]\<close> at 4096 and \<open>phys\<close> at 8192; a page
  table is 1024 entries of 32 bits.  The bit fields of an entry are allocated from the low end:
  \<open>present\<close> 0, \<open>rw\<close> 1, \<open>usr\<close> 2, \<open>access\<close> 3, \<open>dirty\<close> 4, \<open>unused\<close> 5 to 11, \<open>addr\<close> 12 to 31.
  Proved: the fields of an entry are independent of each other, and an address is put together
  again from its two indices and its offset.
\<close>

record paging_state = heap_state +
  kern_dir :: u32
  current_dir :: u32

definition KERN_OFFSET :: u32 where "KERN_OFFSET = 0xC0000000"
definition P2V :: "u32 \<Rightarrow> u32" where "P2V x = x + KERN_OFFSET"
definition V2P :: "u32 \<Rightarrow> u32" where "V2P x = x - KERN_OFFSET"
definition PG_ROUND_UP :: "u32 \<Rightarrow> u32" where "PG_ROUND_UP x = (x AND 0xfffff000) + 0x1000"
definition PD_IDX :: "u32 \<Rightarrow> u32" where "PD_IDX va = drop_bit 22 va AND 0x3FF"
definition PT_IDX :: "u32 \<Rightarrow> u32" where "PT_IDX va = drop_bit 12 va AND 0x3FF"
definition PDE_P :: u32 where "PDE_P = 1"
definition PDE_W :: u32 where "PDE_W = 2"
definition PDE_U :: u32 where "PDE_U = 4"
definition IDX2PG :: "u32 \<Rightarrow> u32 \<Rightarrow> u32" where "IDX2PG d t = push_bit 22 d OR push_bit 12 t"

section \<open>Page table entries\<close>

definition put_field :: "nat \<Rightarrow> nat \<Rightarrow> u32 \<Rightarrow> u32 \<Rightarrow> u32" where
  "put_field lo n v w = (w AND NOT (push_bit lo (mask n))) OR push_bit lo (take_bit n v)"

definition get_field :: "nat \<Rightarrow> nat \<Rightarrow> u32 \<Rightarrow> u32" where
  "get_field lo n w = take_bit n (drop_bit lo w)"

definition pg_present :: "mem \<Rightarrow> u32 \<Rightarrow> u32" where "pg_present m p = get_field 0 1 (load32 m p)"
definition pg_rw :: "mem \<Rightarrow> u32 \<Rightarrow> u32" where "pg_rw m p = get_field 1 1 (load32 m p)"
definition pg_usr :: "mem \<Rightarrow> u32 \<Rightarrow> u32" where "pg_usr m p = get_field 2 1 (load32 m p)"
definition pg_addr :: "mem \<Rightarrow> u32 \<Rightarrow> u32" where "pg_addr m p = get_field 12 20 (load32 m p)"

definition set_present :: "u32 \<Rightarrow> u32 \<Rightarrow> mem \<Rightarrow> mem" where
  "set_present p v m = store32 m p (put_field 0 1 v (load32 m p))"
definition set_rw :: "u32 \<Rightarrow> u32 \<Rightarrow> mem \<Rightarrow> mem" where
  "set_rw p v m = store32 m p (put_field 1 1 v (load32 m p))"
definition set_usr :: "u32 \<Rightarrow> u32 \<Rightarrow> mem \<Rightarrow> mem" where
  "set_usr p v m = store32 m p (put_field 2 1 v (load32 m p))"
definition set_addr :: "u32 \<Rightarrow> u32 \<Rightarrow> mem \<Rightarrow> mem" where
  "set_addr p v m = store32 m p (put_field 12 20 v (load32 m p))"

section \<open>Page directories\<close>

definition SIZEOF_PG_DIR :: u32 where "SIZEOF_PG_DIR = 8196"
definition SIZEOF_PG_TAB :: u32 where "SIZEOF_PG_TAB = 4096"

definition phys_tab_ref :: "u32 \<Rightarrow> u32 \<Rightarrow> u32" where "phys_tab_ref pd i = pd + 4 * i"
definition table_ref :: "u32 \<Rightarrow> u32 \<Rightarrow> u32" where "table_ref pd i = pd + 4096 + 4 * i"
definition dir_table :: "mem \<Rightarrow> u32 \<Rightarrow> u32 \<Rightarrow> u32" where
  "dir_table m pd i = load32 m (table_ref pd i)"
definition dir_phys :: "mem \<Rightarrow> u32 \<Rightarrow> u32" where "dir_phys m pd = load32 m (pd + 8192)"
definition page_ref :: "u32 \<Rightarrow> u32 \<Rightarrow> u32" where "page_ref tab i = tab + 4 * i"

text \<open>A null directory stands for the current one.\<close>

definition get_physical :: "u32 \<Rightarrow> u32 \<Rightarrow> 'a paging_state_scheme \<Rightarrow> u32" where
  "get_physical virt pd0 s =
     (let pd = (if pd0 = 0 then current_dir s else pd0);
          tab = dir_table (ram s) pd (PD_IDX virt);
          offset = virt mod PG_SZ
      in if tab \<noteq> 0 then pg_addr (ram s) (page_ref tab (PT_IDX virt)) * PG_SZ + offset else 0)"

section \<open>Facts about fields\<close>

lemma field_same: "lo + n \<le> 32 \<Longrightarrow> get_field lo n (put_field lo n v w) = take_bit n v"
  by (rule bit_word_eqI) (auto simp: get_field_def put_field_def bit_simps)

lemma field_other:
  "lo + n \<le> lo' \<or> lo' + n' \<le> lo \<Longrightarrow> get_field lo n (put_field lo' n' v w) = get_field lo n w"
  by (rule bit_word_eqI)
    (auto simp: get_field_def put_field_def bit_simps dest: bit_imp_le_length)

lemma pg_fields [simp]:
  "pg_present (set_present p v m) p = take_bit 1 v" "pg_rw (set_rw p v m) p = take_bit 1 v"
  "pg_usr (set_usr p v m) p = take_bit 1 v" "pg_addr (set_addr p v m) p = take_bit 20 v"
  "pg_present (set_rw p v m) p = pg_present m p" "pg_present (set_usr p v m) p = pg_present m p"
  "pg_present (set_addr p v m) p = pg_present m p" "pg_rw (set_present p v m) p = pg_rw m p"
  "pg_rw (set_usr p v m) p = pg_rw m p" "pg_rw (set_addr p v m) p = pg_rw m p"
  "pg_usr (set_present p v m) p = pg_usr m p" "pg_usr (set_rw p v m) p = pg_usr m p"
  "pg_usr (set_addr p v m) p = pg_usr m p" "pg_addr (set_present p v m) p = pg_addr m p"
  "pg_addr (set_rw p v m) p = pg_addr m p" "pg_addr (set_usr p v m) p = pg_addr m p"
  by (simp_all add: pg_present_def pg_rw_def pg_usr_def pg_addr_def set_present_def set_rw_def
      set_usr_def set_addr_def field_same field_other)

text \<open>A write to one entry leaves the words outside it alone.\<close>

lemma page_write_other [mem_simps]:
  assumes "apart p 4 a 4"
  shows "load32 (set_present p v m) a = load32 m a" "load32 (set_rw p v m) a = load32 m a"
    "load32 (set_usr p v m) a = load32 m a" "load32 (set_addr p v m) a = load32 m a"
  using assms by (simp_all add: set_present_def set_rw_def set_usr_def set_addr_def load32_store32_apart)

section \<open>Facts about addresses\<close>

lemma mod_page: "x mod PG_SZ = take_bit 12 x" for x :: u32
  by (simp add: PG_SZ_def take_bit_eq_mod)

text \<open>
  A virtual address is the page that \<open>IDX2PG\<close> computes from its directory and table index,
  plus its offset; and the indices of that page are the two indices again.
\<close>

theorem page_address_roundtrip:
  "IDX2PG (PD_IDX va) (PT_IDX va) + va mod PG_SZ = va \<and>
   (d < 1024 \<longrightarrow> t < 1024 \<longrightarrow>
      PD_IDX (IDX2PG d t) = d \<and> PT_IDX (IDX2PG d t) = t \<and> IDX2PG d t mod PG_SZ = 0)"
proof (intro conjI impI)
  let ?p = "IDX2PG (PD_IDX va) (PT_IDX va)"
  have "?p AND take_bit 12 va = 0"
    by (rule bit_word_eqI) (auto simp: IDX2PG_def bit_simps)
  then have "?p + take_bit 12 va = ?p OR take_bit 12 va"
    by (rule disjunctive_add_eq_or)
  also have "\<dots> = va"
  proof (rule bit_word_eqI)
    fix n :: nat assume "n < LENGTH(32)"
    then consider "n < 12" | "12 \<le> n" "n < 22" | "22 \<le> n" "n < 32" by force
    then show "bit (?p OR take_bit 12 va) n = bit va n"
      by cases (auto simp: IDX2PG_def PD_IDX_def PT_IDX_def and_masks bit_simps)
  qed
  finally show "?p + va mod PG_SZ = va" by (simp add: mod_page)
next
  assume "d < 1024" "t < 1024"
  then have d: "take_bit 10 d = d" and t: "take_bit 10 t = t"
    by (simp_all add: take_bit_small word_less_nat_alt)
  show "PD_IDX (IDX2PG d t) = d"
    by (subst d [symmetric], subst t [symmetric], rule bit_word_eqI)
       (auto simp: IDX2PG_def PD_IDX_def and_masks bit_simps)
  show "PT_IDX (IDX2PG d t) = t"
    by (subst d [symmetric], subst t [symmetric], rule bit_word_eqI)
       (auto simp: IDX2PG_def PT_IDX_def and_masks bit_simps)
  show "IDX2PG d t mod PG_SZ = 0"
    by (simp add: mod_page, rule bit_word_eqI) (auto simp: IDX2PG_def bit_simps)
qed

theorem page_address_roundtrip_witness:
  "PD_IDX (IDX2PG 832 5) = 832 \<and> PT_IDX (IDX2PG 832 5) = 5"
  using page_address_roundtrip [where d = 832 and t = 5] by simp

section \<open>The page walk of the processor\<close>

text \<open>Pages of 4 MB need bit 4 of \<open>cr4\<close>; without paging an address stands for itself.
  As everywhere in the model the memory is the address space of the kernel, so a physical address
  \<open>p\<close> is read at \<open>P2V p\<close>.\<close>

definition translate :: "u32 \<Rightarrow> 'a machine_scheme \<Rightarrow> u32 \<Rightarrow> u32 option" where
  "translate cr4 s va =
     (if \<not> bit (cr0 s) 31 then Some va
      else
        (let pde = load32 (ram s) (P2V (cr3 s AND 0xfffff000) + 4 * PD_IDX va) in
         if \<not> bit pde 0 then None
         else if bit pde 7 \<and> bit cr4 4 then Some ((pde AND 0xffc00000) + (va AND 0x3fffff))
         else
           (let pte = load32 (ram s) (P2V (pde AND 0xfffff000) + 4 * PT_IDX va) in
            if bit pte 0 then Some ((pte AND 0xfffff000) + va mod PG_SZ) else None)))"

lemma unat_PD_IDX: "unat (PD_IDX va) = unat va div 2 ^ 22"
proof -
  have "unat va div 2 ^ 22 < 1024" using unat_bound32 [of va] by (simp add: less_mult_imp_div_less)
  then show ?thesis
    by (simp add: PD_IDX_def and_masks drop_bit_eq_div unat_div unsigned_take_bit_eq take_bit_nat_eq_self)
qed

text \<open>A table is reached through the entry that holds its address and flags.\<close>

lemma directory_base:
  fixes pd :: u32
  assumes "pd mod PG_SZ = 0"
  shows "P2V ((pd - KERN_OFFSET) AND 0xfffff000) = pd"
proof -
  let ?y = "drop_bit 12 pd - 0xC0000"
  have "pd = push_bit 12 (drop_bit 12 pd)" using assms bits_ident [of 12 pd] by (simp add: mod_page)
  then have "pd - KERN_OFFSET = push_bit 12 ?y"
    by (simp add: KERN_OFFSET_def push_bit_eq_mult algebra_simps)
  moreover have "push_bit 12 ?y AND 0xfffff000 = push_bit 12 ?y"
    unfolding and_page_mask by (rule bit_word_eqI) (auto simp: bit_simps)
  ultimately have "(pd - KERN_OFFSET) AND 0xfffff000 = pd - KERN_OFFSET" by (simp only:)
  then show ?thesis by (simp add: P2V_def)
qed

end
