(* ===== verification/Kmalloc.thy ===== *)
theory Kmalloc
  imports Paging
begin

text \<open>
  kern/mm/kmalloc.c: the allocation entry points.  Until \<open>kheap_init\<close> has run they move a bump
  pointer that starts at the end of the kernel image; afterwards they call the kernel heap and
  look the physical address up in the page tables.  \<open>kheap_pre_init\<close> of kern/mm/kheap.c, which
  runs on the bump allocator, is here too.  Proved: early allocations never overlap and aligned
  ones start a page; the heap structure \<open>kheap_pre_init\<close> builds, and what it leaves uninitialised.
\<close>

section \<open>Operations\<close>

text \<open>
  The third argument tells whether the caller passes a pointer for the physical address; the
  result holds what is stored there.
\<close>

definition kmalloc_helper :: "u32 \<Rightarrow> bool \<Rightarrow> bool \<Rightarrow> 'a paging_state_scheme
    \<Rightarrow> (u32 \<times> u32 option \<times> 'a paging_state_scheme) option" where
  "kmalloc_helper sz aligned want_paddr s =
     (if kheap_initialized s \<noteq> 0 then
        do {
          (addr, s) \<leftarrow> (if aligned then kheap_alloc_a sz s else kheap_alloc sz s);
          Some (addr, if want_paddr then Some (get_physical addr 0 s) else None, s)
        }
      else
        (let s = (if aligned then s\<lparr>alloc_ptr := PG_ROUND_UP (alloc_ptr s)\<rparr> else s);
             paddr = (if want_paddr then Some (V2P (alloc_ptr s)) else None)
         in Some (alloc_ptr s, paddr, s\<lparr>alloc_ptr := alloc_ptr s + sz\<rparr>)))"

definition kfree :: "u32 \<Rightarrow> 'a paging_state_scheme \<Rightarrow> 'a paging_state_scheme option" where
  "kfree p s = kheap_free p s"

definition kmalloc :: "u32 \<Rightarrow> 'a paging_state_scheme \<Rightarrow> (u32 \<times> 'a paging_state_scheme) option" where
  "kmalloc sz s = do { (p, _, s) \<leftarrow> kmalloc_helper sz False False s; Some (p, s) }"

definition kmalloc_a :: "u32 \<Rightarrow> 'a paging_state_scheme \<Rightarrow> (u32 \<times> 'a paging_state_scheme) option" where
  "kmalloc_a sz s = do { (p, _, s) \<leftarrow> kmalloc_helper sz True False s; Some (p, s) }"

definition kmalloc_p ::
    "u32 \<Rightarrow> 'a paging_state_scheme \<Rightarrow> (u32 \<times> u32 \<times> 'a paging_state_scheme) option" where
  "kmalloc_p sz s = do { (p, ph, s) \<leftarrow> kmalloc_helper sz False True s; Some (p, the ph, s) }"

definition kmalloc_ap ::
    "u32 \<Rightarrow> 'a paging_state_scheme \<Rightarrow> (u32 \<times> u32 \<times> 'a paging_state_scheme) option" where
  "kmalloc_ap sz s = do { (p, ph, s) \<leftarrow> kmalloc_helper sz True True s; Some (p, the ph, s) }"

definition kmalloc_get_end :: "'a paging_state_scheme \<Rightarrow> u32" where
  "kmalloc_get_end s = alloc_ptr s"

text \<open>\<open>kheap_pre_init\<close>: the structure of 52 bytes, then one \<open>bin_t\<close> of 4 bytes per bin.\<close>

fun alloc_bins :: "nat list \<Rightarrow> 'a paging_state_scheme \<Rightarrow> 'a paging_state_scheme option" where
  "alloc_bins [] s = Some s"
| "alloc_bins (i # is) s =
     do {
       (p, s) \<leftarrow> kmalloc 4 s;
       alloc_bins is (s\<lparr>ram := store32 (ram s) (kheap s + 16 + 4 * word_of_nat i) p\<rparr>)
     }"

definition kheap_pre_init :: "'a paging_state_scheme \<Rightarrow> 'a paging_state_scheme option" where
  "kheap_pre_init s =
     do {
       (h, s) \<leftarrow> kmalloc 52 s;
       let s = s\<lparr>kheap := h, ram := store32 (store32 (ram s) h KHEAP_START) (h + 4) KHEAP_END\<rparr>;
       alloc_bins [0..<9] s
     }"

section \<open>The bump allocator\<close>

definition early :: "'a paging_state_scheme \<Rightarrow> bool" where
  "early s \<longleftrightarrow> kheap_initialized s = 0"

lemma kmalloc_early:
  "early s \<Longrightarrow> kmalloc sz s = Some (alloc_ptr s, s\<lparr>alloc_ptr := alloc_ptr s + sz\<rparr>)"
  by (simp add: kmalloc_def kmalloc_helper_def early_def)

lemma kmalloc_a_early:
  "early s \<Longrightarrow> kmalloc_a sz s = Some (PG_ROUND_UP (alloc_ptr s),
     s\<lparr>alloc_ptr := PG_ROUND_UP (alloc_ptr s) + sz\<rparr>)"
  by (simp add: kmalloc_a_def kmalloc_helper_def early_def Let_def)

lemma kmalloc_ap_early:
  "early s \<Longrightarrow> kmalloc_ap sz s = Some (PG_ROUND_UP (alloc_ptr s), V2P (PG_ROUND_UP (alloc_ptr s)),
     s\<lparr>alloc_ptr := PG_ROUND_UP (alloc_ptr s) + sz\<rparr>)"
  by (simp add: kmalloc_ap_def kmalloc_helper_def early_def Let_def)

lemma PG_ROUND_UP_unat:
  assumes "unat x + 4096 < 2 ^ 32"
  shows "unat (PG_ROUND_UP x) = unat x - unat x mod 4096 + 4096"
proof -
  have "unat (x AND 0xfffff000) = unat x - unat x mod 4096"
    using page_split [of x] by linarith
  moreover from this have "unat (x AND 0xfffff000) + unat (0x1000 :: u32) < 2 ^ LENGTH(32)"
    using assms by simp
  ultimately show ?thesis unfolding PG_ROUND_UP_def
    by (subst unat_add_lem [THEN iffD1]) simp_all
qed

lemma PG_ROUND_UP_page: "PG_ROUND_UP x mod PG_SZ = 0"
proof -
  have "PG_ROUND_UP x = push_bit 12 (drop_bit 12 x + 1)"
    by (simp add: PG_ROUND_UP_def and_page_mask push_bit_add)
  then show ?thesis by (simp add: mod_page take_bit_push_bit)
qed

text \<open>A sequence of requests, each with its alignment flag, and the regions they get.\<close>

fun kmallocs :: "(u32 \<times> bool) list \<Rightarrow> 'a paging_state_scheme
    \<Rightarrow> ((u32 \<times> u32) list \<times> 'a paging_state_scheme) option" where
  "kmallocs [] s = Some ([], s)"
| "kmallocs ((sz, al) # rs) s =
     do {
       (p, s) \<leftarrow> (if al then kmalloc_a sz s else kmalloc sz s);
       (ps, s) \<leftarrow> kmallocs rs s;
       Some ((p, sz) # ps, s)
     }"

definition need :: "(u32 \<times> bool) list \<Rightarrow> nat" where
  "need rs = (\<Sum>(sz, al)\<leftarrow>rs. unat sz + 4096)"

definition before :: "u32 \<times> u32 \<Rightarrow> u32 \<times> u32 \<Rightarrow> bool" where
  "before r r' \<longleftrightarrow> unat (fst r) + unat (snd r) \<le> unat (fst r')"

lemma kmallocs_early:
  assumes "early s" "unat (alloc_ptr s) + need rs < 2 ^ 32"
  shows "\<exists>ps s'. kmallocs rs s = Some (ps, s') \<and> map snd ps = map fst rs \<and>
    sorted_wrt before ps \<and> (\<forall>r\<in>set ps. unat (alloc_ptr s) \<le> unat (fst r)) \<and>
    (\<forall>i<length rs. snd (rs ! i) \<longrightarrow> fst (ps ! i) mod PG_SZ = 0) \<and>
    s' = s\<lparr>alloc_ptr := alloc_ptr s'\<rparr>"
  using assms
proof (induction rs arbitrary: s)
  case Nil
  then show ?case by simp
next
  case (Cons r rs)
  obtain sz al where r: "r = (sz, al)" by force
  let ?p = "if al then PG_ROUND_UP (alloc_ptr s) else alloc_ptr s"
  let ?s = "s\<lparr>alloc_ptr := ?p + sz\<rparr>"
  have bound: "unat (alloc_ptr s) + 4096 + unat sz + need rs < 2 ^ 32"
    using Cons.prems(2) r by (simp add: need_def)
  then have p: "unat (alloc_ptr s) \<le> unat ?p" "unat ?p \<le> unat (alloc_ptr s) + 4096"
    using PG_ROUND_UP_unat [of "alloc_ptr s"] by (auto simp: mod_less_eq_dividend)
  then have e: "unat (?p + sz) = unat ?p + unat sz"
    using bound by (subst unat_add_lem [THEN iffD1]) auto
  have "unat (alloc_ptr ?s) + need rs < 2 ^ 32" using e p bound by simp
  then obtain ps s' where ih: "kmallocs rs ?s = Some (ps, s')" "map snd ps = map fst rs"
    "sorted_wrt before ps" "\<forall>r\<in>set ps. unat (alloc_ptr ?s) \<le> unat (fst r)"
    "\<forall>i<length rs. snd (rs ! i) \<longrightarrow> fst (ps ! i) mod PG_SZ = 0" "s' = ?s\<lparr>alloc_ptr := alloc_ptr s'\<rparr>"
    using Cons.IH [of ?s] Cons.prems(1) by (auto simp: early_def)
  have k: "kmallocs (r # rs) s = Some ((?p, sz) # ps, s')"
    using ih(1) Cons.prems(1) r by (cases al) (simp_all add: kmalloc_early kmalloc_a_early)
  have "sorted_wrt before ((?p, sz) # ps)"
    using ih(3,4) e by (simp add: before_def)
  moreover have "\<forall>r\<in>set ((?p, sz) # ps). unat (alloc_ptr s) \<le> unat (fst r)"
    using ih(4) e p by (auto intro: order_trans)
  moreover have "\<forall>i<length (r # rs). snd ((r # rs) ! i) \<longrightarrow> fst (((?p, sz) # ps) ! i) mod PG_SZ = 0"
    using ih(5) r by (auto simp: nth_Cons PG_ROUND_UP_page split: nat.splits)
  ultimately show ?case using k ih(2,6) r by simp
qed

section \<open>The structure of the heap\<close>

lemma alloc_bins_early:
  assumes "early s"
  shows "\<exists>s'. alloc_bins is s = Some s' \<and> early s' \<and> kheap s' = kheap s \<and>
    alloc_ptr s' = alloc_ptr s + 4 * word_of_nat (length is) \<and>
    ram s' = fold (\<lambda>(k, i) m. store32 m (kheap s + 16 + 4 * word_of_nat i)
      (alloc_ptr s + 4 * word_of_nat k)) (enumerate 0 is) (ram s)"
  using assms
proof (induction "is" arbitrary: s)
  case Nil
  then show ?case by simp
next
  case (Cons i js)
  let ?s = "s\<lparr>alloc_ptr := alloc_ptr s + 4,
     ram := store32 (ram s) (kheap s + 16 + 4 * word_of_nat i) (alloc_ptr s)\<rparr>"
  have "early ?s" using Cons.prems by (simp add: early_def)
  from Cons.IH [OF this] obtain s' where s': "alloc_bins js ?s = Some s'" "early s'"
    "kheap s' = kheap s" "alloc_ptr s' = alloc_ptr s + 4 + 4 * word_of_nat (length js)"
    "ram s' = fold (\<lambda>(k, i) m. store32 m (kheap s + 16 + 4 * word_of_nat i)
      (alloc_ptr s + 4 + 4 * word_of_nat k)) (enumerate 0 js) (ram ?s)" by auto
  have "fold (\<lambda>(k, i) m. store32 m (kheap s + 16 + 4 * word_of_nat i)
      (alloc_ptr s + 4 + 4 * word_of_nat k)) (enumerate n js) m =
    fold (\<lambda>(k, i) m. store32 m (kheap s + 16 + 4 * word_of_nat i)
      (alloc_ptr s + 4 * word_of_nat k)) (enumerate (Suc n) js) m" for n m
    by (induction js arbitrary: n m) (auto simp: algebra_simps)
  then show ?case
    using s' Cons.prems by (simp add: kmalloc_early algebra_simps)
qed

lemma nine_stores:
  "fold (\<lambda>(k, i) m. store32 m (h + 16 + 4 * word_of_nat i) (p + 4 * word_of_nat k))
     (enumerate 0 [0..<9]) m =
   fold (\<lambda>k m. store32 m (h + 16 + 4 * word_of_nat k) (p + 4 * word_of_nat k)) [0..<9] m"
  by (simp add: upt_rec numeral_eq_Suc)

lemma bin_store_load:
  assumes "i < n" "n \<le> 9"
  shows "load32 (fold (\<lambda>k m. store32 m (h + 16 + 4 * word_of_nat k) (p + 4 * word_of_nat k)) [0..<n] m)
    (h + 16 + 4 * word_of_nat i) = p + 4 * (word_of_nat i :: u32)"
  using assms
proof (induction n)
  case 0
  then show ?case by simp
next
  case (Suc n)
  show ?case
  proof (cases "i = n")
    case True
    then show ?thesis by simp
  next
    case False
    then have i: "i < n" "n < 9" using Suc.prems by auto
    have "unat (4 * word_of_nat i :: u32) = 4 * i" "unat (4 * word_of_nat n :: u32) = 4 * n"
      using i by (simp_all add: unat_word_ariths unat_of_nat)
    then have "apart (4 * word_of_nat i) 4 (4 * word_of_nat n :: u32) 4"
      using i by (intro apart_bounds) auto
    then have "apart (h + 16 + 4 * word_of_nat n) 4 (h + 16 + 4 * word_of_nat i) 4"
      by (simp add: apart_sym)
    then show ?thesis using Suc i by (simp add: load32_store32_apart)
  qed
qed

lemma bin_store_other:
  assumes "apart h 52 a 4" "n \<le> 9"
  shows "load32 (fold (\<lambda>k m. store32 m (h + 16 + 4 * word_of_nat k) (p + 4 * word_of_nat k)) [0..<n] m)
    a = load32 m a"
  using assms(2)
proof (induction n)
  case (Suc n)
  have "unat (16 + 4 * word_of_nat n :: u32) = 16 + 4 * n"
    using Suc.prems by (simp add: unat_word_ariths unat_of_nat)
  then have "apart (h + (16 + 4 * word_of_nat n)) 4 a 4"
    using Suc.prems by (intro apart_shift_left [OF assms(1)]) auto
  then show ?case using Suc by (simp add: load32_store32_apart add.assoc)
qed simp

lemma kheap_pre_init_early:
  assumes "early s"
  shows "\<exists>s'. kheap_pre_init s = Some s' \<and> early s' \<and> kheap s' = alloc_ptr s \<and>
    alloc_ptr s' = alloc_ptr s + 88 \<and>
    heap_start (ram s') (alloc_ptr s) = KHEAP_START \<and> heap_end (ram s') (alloc_ptr s) = KHEAP_END \<and>
    (\<forall>i<9. heap_bin (ram s') (alloc_ptr s) (word_of_nat i) = alloc_ptr s + 52 + 4 * word_of_nat i) \<and>
    (\<forall>a. apart (alloc_ptr s) 52 a 4 \<longrightarrow> load32 (ram s') a = load32 (ram s) a)"
proof -
  let ?h = "alloc_ptr s"
  let ?m = "store32 (store32 (ram s) ?h KHEAP_START) (?h + 4) KHEAP_END"
  let ?s = "s\<lparr>alloc_ptr := ?h + 52, kheap := ?h, ram := ?m\<rparr>"
  let ?stores = "\<lambda>n. fold (\<lambda>k m. store32 m (?h + 16 + 4 * word_of_nat k)
    (?h + 52 + 4 * word_of_nat k)) [0..<n]"
  have "early ?s" using assms by (simp add: early_def)
  from alloc_bins_early [OF this, of "[0..<9]"] obtain s' where s': "alloc_bins [0..<9] ?s = Some s'"
    "early s'" "kheap s' = ?h" "alloc_ptr s' = ?h + 88" "ram s' = ?stores 9 ?m"
    using nine_stores [of ?h "?h + 52" ?m] by (auto simp del: upt_rec_numeral)
  have r: "kheap_pre_init s = Some s'"
    using s'(1) assms by (simp add: kheap_pre_init_def kmalloc_early Let_def del: upt_rec_numeral)
  have below: "load32 (?stores n m) (?h + d) = load32 m (?h + d)"
    if "unat d + 4 \<le> 16" "n \<le> 9" for n m d
    using that(2)
  proof (induction n)
    case (Suc n)
    have "unat (16 + 4 * word_of_nat n :: u32) = 16 + 4 * n"
      using Suc.prems by (simp add: unat_word_ariths unat_of_nat)
    then have "apart d 4 (16 + 4 * word_of_nat n :: u32) 4"
      using that(1) Suc.prems by (intro apart_bounds) auto
    then have "apart (?h + (16 + 4 * word_of_nat n)) 4 (?h + d) 4"
      by (simp only: apart_same_base) (simp add: apart_sym)
    then show ?case using Suc by (simp add: load32_store32_apart add.assoc)
  qed simp
  have "heap_start (ram s') ?h = KHEAP_START" "heap_end (ram s') ?h = KHEAP_END"
    using below [of 0 9 ?m] below [of 4 9 ?m] unfolding s'(5) heap_start_def heap_end_def
    by (simp_all add: load32_store32_apart del: upt_rec_numeral)
  moreover have "\<forall>i<9. heap_bin (ram s') ?h (word_of_nat i) = ?h + 52 + 4 * word_of_nat i"
    using bin_store_load [of _ 9 ?h "?h + 52"] unfolding s'(5) heap_bin_def by blast
  moreover have "load32 (ram s') a = load32 (ram s) a" if a: "apart ?h 52 a 4" for a
  proof -
    have "apart ?h 4 a 4" "apart (?h + 4) 4 a 4"
      using apart_mono [OF a, of 4 4] apart_shift_left [OF a, of 4 4] by simp_all
    then show ?thesis
      unfolding s'(5) using bin_store_other [OF a, of 9]
      by (simp add: load32_store32_apart del: upt_rec_numeral)
  qed
  ultimately show ?thesis using r s' by blast
qed

section \<open>Properties\<close>

definition paging0 :: paging_state where
  "paging0 = heap_state.extend (int_state.extend int0
     \<lparr>kheap_initialized = 0, kheap = 0, alloc_ptr = 0xC0108000\<rparr>) \<lparr>kern_dir = 0, current_dir = 0\<rparr>"

text \<open>
  C24. Before the heap exists, any sequence of requests that fits below the end of the address
  space succeeds; the regions lie one behind the other from the bump pointer on and never
  overlap, each as long as asked for; a request for alignment gets the start of a page; nothing
  but the bump pointer changes.
\<close>

theorem early_allocations_disjoint:
  assumes "early s" and "unat (alloc_ptr s) + need rs < 2 ^ 32"
  shows "\<exists>ps s'. kmallocs rs s = Some (ps, s') \<and> map snd ps = map fst rs \<and>
    sorted_wrt before ps \<and> (\<forall>r\<in>set ps. unat (alloc_ptr s) \<le> unat (fst r)) \<and>
    (\<forall>i<length rs. snd (rs ! i) \<longrightarrow> fst (ps ! i) mod PG_SZ = 0) \<and>
    s' = s\<lparr>alloc_ptr := alloc_ptr s'\<rparr>"
  using assms by (rule kmallocs_early)

theorem early_allocations_disjoint_witness:
  "\<exists>ps s'. kmallocs [(52, False), (4, False), (8196, True)] paging0 = Some (ps, s') \<and>
    sorted_wrt before ps"
  using early_allocations_disjoint [of paging0 "[(52, False), (4, False), (8196, True)]"]
  by (auto simp: early_def paging0_def heap_state.defs int_state.defs need_def)

text \<open>
  \<open>kheap_pre_init\<close> puts the heap structure at the bump pointer, with the bounds of the heap
  and nine bins right behind it, four bytes each; every word outside the 52 bytes of the
  structure keeps its value, so the heads of the bins are whatever the memory held.
\<close>

theorem kheap_pre_init_layout:
  assumes "early s"
  shows "\<exists>s'. kheap_pre_init s = Some s' \<and> kheap s' = alloc_ptr s \<and>
    alloc_ptr s' = alloc_ptr s + 88 \<and>
    heap_start (ram s') (kheap s') = KHEAP_START \<and> heap_end (ram s') (kheap s') = KHEAP_END \<and>
    (\<forall>i<9. heap_bin (ram s') (kheap s') (word_of_nat i) = kheap s' + 52 + 4 * word_of_nat i \<and>
       bin_head (ram s') (kheap s' + 52 + 4 * word_of_nat i) =
         load32 (ram s) (kheap s' + 52 + 4 * word_of_nat i))"
proof -
  obtain s' where s': "kheap_pre_init s = Some s'" "kheap s' = alloc_ptr s"
    "alloc_ptr s' = alloc_ptr s + 88" "heap_start (ram s') (alloc_ptr s) = KHEAP_START"
    "heap_end (ram s') (alloc_ptr s) = KHEAP_END"
    "\<forall>i<9. heap_bin (ram s') (alloc_ptr s) (word_of_nat i) = alloc_ptr s + 52 + 4 * word_of_nat i"
    "\<forall>a. apart (alloc_ptr s) 52 a 4 \<longrightarrow> load32 (ram s') a = load32 (ram s) a"
    using kheap_pre_init_early [OF assms] by blast
  have "apart (alloc_ptr s) 52 (alloc_ptr s + 52 + 4 * word_of_nat i) 4" if "i < 9" for i
  proof -
    have "unat (52 + 4 * word_of_nat i :: u32) = 52 + 4 * i"
      using that by (simp add: unat_word_ariths unat_of_nat)
    then have "apart 0 52 (52 + 4 * word_of_nat i :: u32) 4"
      using that by (intro apart_bounds) auto
    then show ?thesis by (simp only: apart_base_left add.assoc)
  qed
  then show ?thesis using s' by (auto simp: bin_head_def)
qed

theorem kheap_pre_init_layout_witness:
  "\<exists>s'. kheap_pre_init paging0 = Some s' \<and> kheap s' = 0xC0108000"
  using kheap_pre_init_layout [of paging0]
  by (auto simp: early_def paging0_def heap_state.defs int_state.defs)

end
