(* ===== verification/Bitset.thy ===== *)
theory Bitset
  imports Kmalloc
begin

text \<open>
  kern/ds/bitset.c: a bit set stored as an array of 32-bit words.  \<open>bs_t\<close> is the number of words
  at offset 0 and the pointer to the array at 4.  Proved: setting, clearing and testing a bit are
  those of a finite set of indices below the size, indices outside it change nothing and test as
  set, \<open>bs_first_clr\<close> is the least clear index or the size, and the number of words \<open>bs_init\<close>
  allocates.  The locale \<open>bitmap\<close> is the interface the frame allocator uses.
\<close>

section \<open>Operations\<close>

definition bs_sz :: "mem \<Rightarrow> u32 \<Rightarrow> u32" where "bs_sz m bs = load32 m bs"
definition bs_bits :: "mem \<Rightarrow> u32 \<Rightarrow> u32" where "bs_bits m bs = load32 m (bs + 4)"

definition bs_init :: "u32 \<Rightarrow> 'a paging_state_scheme \<Rightarrow> (u32 \<times> 'a paging_state_scheme) option" where
  "bs_init sz s =
     do {
       let rnd = sz mod 32;
       let bit_cnt = sz + (32 - rnd);
       let arr_sz = bit_cnt div 32;
       (bs, s) \<leftarrow> kmalloc 8 s;
       (bits, s) \<leftarrow> kmalloc (4 * arr_sz) s;
       Some (bs, s\<lparr>ram := store32 (store32 (ram s) (bs + 4) bits) bs arr_sz\<rparr>)
     }"

definition bs_get_size :: "mem \<Rightarrow> u32 \<Rightarrow> u32" where
  "bs_get_size m bs = bs_sz m bs * 32"

definition word_ref :: "mem \<Rightarrow> u32 \<Rightarrow> u32 \<Rightarrow> u32" where
  "word_ref m bs arr_idx = bs_bits m bs + 4 * arr_idx"

definition bs_set :: "u32 \<Rightarrow> u32 \<Rightarrow> mem \<Rightarrow> mem" where
  "bs_set bs idx m =
     (if idx < bs_get_size m bs then
        (let a = word_ref m bs (idx div 32); offset = unat (idx mod 32)
         in store32 m a (load32 m a OR push_bit offset 1))
      else m)"

definition bs_clr :: "u32 \<Rightarrow> u32 \<Rightarrow> mem \<Rightarrow> mem" where
  "bs_clr bs idx m =
     (if idx < bs_get_size m bs then
        (let a = word_ref m bs (idx div 32); offset = unat (idx mod 32);
             mask = 0xffffffff XOR push_bit offset 1
         in store32 m a (load32 m a AND mask))
      else m)"

definition bs_tst :: "mem \<Rightarrow> u32 \<Rightarrow> u32 \<Rightarrow> u8" where
  "bs_tst m bs idx =
     (if idx < bs_get_size m bs then
        (let a = word_ref m bs (idx div 32); offset = unat (idx mod 32);
             mask = push_bit offset 1
         in ucast (drop_bit offset (load32 m a AND mask)))
      else 1)"

definition offsets :: "u32 list" where "offsets = map word_of_nat [0..<32]"

function first_clr_from :: "mem \<Rightarrow> u32 \<Rightarrow> u32 \<Rightarrow> u32" where
  "first_clr_from m bs i =
     (if i < bs_sz m bs then
        (case find (\<lambda>n. bs_tst m bs (i * 32 + n) = 0) offsets of
           Some n \<Rightarrow> i * 32 + n
         | None \<Rightarrow> first_clr_from m bs (i + 1))
      else bs_get_size m bs)"
  by pat_completeness auto
termination
  by (relation "measure (\<lambda>(m, bs, i). unat (bs_sz m bs - i))") (auto simp: counter_decreases)

declare first_clr_from.simps [simp del]

definition bs_first_clr :: "mem \<Rightarrow> u32 \<Rightarrow> u32" where
  "bs_first_clr m bs = first_clr_from m bs 0"

definition BAD_RETURN :: "mem \<Rightarrow> u32 \<Rightarrow> u32 \<Rightarrow> bool" where
  "BAD_RETURN m a x \<longleftrightarrow> x = bs_get_size m a"

text \<open>\<open>bs_dmp\<close> prints the words bit by bit, one word per line.\<close>

fun bs_dmp_bits :: "u32 \<Rightarrow> nat list \<Rightarrow> 'a paging_state_scheme \<Rightarrow> 'a paging_state_scheme option" where
  "bs_dmp_bits w [] s = Some s"
| "bs_dmp_bits w (n # ns) s =
     do {
       s \<leftarrow> kprintf (str ''%d '') [KInt (drop_bit n (w AND push_bit n 1))] s;
       bs_dmp_bits w ns s
     }"

fun bs_dmp_words :: "u32 \<Rightarrow> nat list \<Rightarrow> 'a paging_state_scheme \<Rightarrow> 'a paging_state_scheme option" where
  "bs_dmp_words bs [] s = Some s"
| "bs_dmp_words bs (i # is) s =
     do {
       s \<leftarrow> bs_dmp_bits (load32 (ram s) (word_ref (ram s) bs (word_of_nat i))) [0..<32] s;
       s \<leftarrow> kprintf (str ''\<newline>'') [] s;
       bs_dmp_words bs is s
     }"

definition bs_dmp :: "u32 \<Rightarrow> 'a paging_state_scheme \<Rightarrow> 'a paging_state_scheme option" where
  "bs_dmp bs s = bs_dmp_words bs [0..<unat (bs_sz (ram s) bs)] s"

section \<open>Well-formed bit sets\<close>

text \<open>
  The size does not wrap around and the structure does not overlap its own array.  \<open>bs_bit\<close> is the
  abstract view: the set of the indices below the size whose bit is one.
\<close>

definition bs_ok :: "mem \<Rightarrow> u32 \<Rightarrow> bool" where
  "bs_ok m bs \<longleftrightarrow> unat (bs_sz m bs) < 2 ^ 27 \<and> apart bs 8 (bs_bits m bs) (4 * unat (bs_sz m bs))"

definition bs_bit :: "mem \<Rightarrow> u32 \<Rightarrow> u32 \<Rightarrow> bool" where
  "bs_bit m bs idx \<longleftrightarrow> bit (load32 m (word_ref m bs (idx div 32))) (unat (idx mod 32))"

lemma bs_get_size_unat: "bs_ok m bs \<Longrightarrow> unat (bs_get_size m bs) = 32 * unat (bs_sz m bs)"
  by (simp add: bs_ok_def bs_get_size_def unat_word_ariths mult.commute)

lemma idx_word:
  assumes "bs_ok m bs" "idx < bs_get_size m bs"
  shows "unat (idx div 32) < unat (bs_sz m bs)"
  using assms bs_get_size_unat [OF assms(1)] by (simp add: word_less_nat_alt unat_div)

lemma words_apart:
  assumes "bs_ok m bs" "unat i < unat (bs_sz m bs)" "unat j < unat (bs_sz m bs)" "i \<noteq> j"
  shows "apart (word_ref m bs i) 4 (word_ref m bs j) 4"
proof -
  have b: "unat i < 2 ^ 27" "unat j < 2 ^ 27" using assms by (auto simp: bs_ok_def)
  then have u: "unat (4 * i) = 4 * unat i" "unat (4 * j) = 4 * unat j"
    by (simp_all add: unat_word_ariths)
  from assms(4) consider "unat i < unat j" | "unat j < unat i"
    by (metis linorder_neqE_nat word_unat_eq_iff)
  then have "apart (4 * i) 4 (4 * j) 4"
  proof cases
    case 1
    then show ?thesis using u b by (intro apart_bounds) auto
  next
    case 2
    then have "apart (4 * j) 4 (4 * i) 4" using u b by (intro apart_bounds) auto
    then show ?thesis by (simp add: apart_sym)
  qed
  then show ?thesis by (simp add: word_ref_def)
qed

lemma struct_apart:
  assumes "bs_ok m bs" "unat i < unat (bs_sz m bs)"
  shows "apart (word_ref m bs i) 4 bs 4" "apart (word_ref m bs i) 4 (bs + 4) 4"
proof -
  have "unat i < 2 ^ 27" using assms by (auto simp: bs_ok_def)
  then have u: "unat (4 * i) = 4 * unat i" by (simp add: unat_word_ariths)
  have a: "apart bs 8 (bs_bits m bs) (4 * unat (bs_sz m bs))" using assms(1) by (simp add: bs_ok_def)
  have "apart bs 8 (word_ref m bs i) 4"
    unfolding word_ref_def by (rule apart_shift_right [OF a]) (use u assms(2) in auto)
  then have b: "apart (word_ref m bs i) 4 bs 8" by (simp add: apart_sym)
  show "apart (word_ref m bs i) 4 bs 4" by (rule apart_mono [OF b]) auto
  show "apart (word_ref m bs i) 4 (bs + 4) 4" by (rule apart_shift_right [OF b]) auto
qed

text \<open>A write to a word of the array.\<close>

lemma bs_write:
  assumes "bs_ok m bs" "unat i < unat (bs_sz m bs)"
    and m': "m' = store32 m (word_ref m bs i) v"
  shows "bs_sz m' bs = bs_sz m bs" "bs_bits m' bs = bs_bits m bs" "bs_ok m' bs"
    "word_ref m' bs j = word_ref m bs j"
    "unat j < unat (bs_sz m bs) \<Longrightarrow>
       load32 m' (word_ref m bs j) = (if j = i then v else load32 m (word_ref m bs j))"
proof -
  show s: "bs_sz m' bs = bs_sz m bs" and b: "bs_bits m' bs = bs_bits m bs"
    using struct_apart [OF assms(1,2)] by (simp_all add: m' bs_sz_def bs_bits_def load32_store32_apart)
  show "bs_ok m' bs" using assms(1) s b by (simp add: bs_ok_def)
  show "word_ref m' bs j = word_ref m bs j" by (simp add: word_ref_def b)
  show "load32 m' (word_ref m bs j) = (if j = i then v else load32 m (word_ref m bs j))"
    if "unat j < unat (bs_sz m bs)"
    using words_apart [OF assms(1,2) that] by (auto simp: m' load32_store32_apart)
qed

lemma idx_eq_iff: "i = j \<longleftrightarrow> i div 32 = j div 32 \<and> i mod 32 = j mod (32 :: u32)"
  by (metis div_mult_mod_eq)

lemma offset_lt: "unat (idx mod 32 :: u32) < 32"
  by (simp add: unat_mod)

lemma offset_eq_iff: "unat (i mod 32 :: u32) = unat (j mod 32) \<longleftrightarrow> i mod 32 = j mod 32"
  by (simp add: word_unat_eq_iff)

lemma bs_set_facts:
  assumes "bs_ok m bs"
  shows "bs_sz (bs_set bs idx m) bs = bs_sz m bs" "bs_bits (bs_set bs idx m) bs = bs_bits m bs"
    "bs_ok (bs_set bs idx m) bs" "bs_get_size (bs_set bs idx m) bs = bs_get_size m bs"
    "j < bs_get_size m bs \<Longrightarrow> bs_bit (bs_set bs idx m) bs j = (j = idx \<or> bs_bit m bs j)"
proof -
  have w: "unat (idx div 32) < unat (bs_sz m bs)" if "idx < bs_get_size m bs"
    using idx_word [OF assms that] .
  show s: "bs_sz (bs_set bs idx m) bs = bs_sz m bs" "bs_bits (bs_set bs idx m) bs = bs_bits m bs"
    "bs_ok (bs_set bs idx m) bs"
    using bs_write(1-3) [OF assms w refl] assms by (auto simp: bs_set_def Let_def)
  then show "bs_get_size (bs_set bs idx m) bs = bs_get_size m bs" by (simp add: bs_get_size_def)
  show "bs_bit (bs_set bs idx m) bs j = (j = idx \<or> bs_bit m bs j)" if j: "j < bs_get_size m bs"
  proof (cases "idx < bs_get_size m bs")
    case True
    have l: "load32 (bs_set bs idx m) (word_ref m bs (j div 32)) =
        (if j div 32 = idx div 32
         then load32 m (word_ref m bs (idx div 32)) OR push_bit (unat (idx mod 32)) 1
         else load32 m (word_ref m bs (j div 32)))"
      using bs_write(5) [OF assms w [OF True] refl idx_word [OF assms j]] True
      by (simp add: bs_set_def Let_def)
    have r: "word_ref (bs_set bs idx m) bs (j div 32) = word_ref m bs (j div 32)"
      using s(2) by (simp add: word_ref_def)
    show ?thesis
      unfolding bs_bit_def r l using offset_lt [of j] offset_eq_iff [of j idx]
      by (auto simp: bit_simps idx_eq_iff [of j idx])
  next
    case False
    then show ?thesis using j by (auto simp: bs_set_def)
  qed
qed

lemma bs_clr_facts:
  assumes "bs_ok m bs"
  shows "bs_sz (bs_clr bs idx m) bs = bs_sz m bs" "bs_bits (bs_clr bs idx m) bs = bs_bits m bs"
    "bs_ok (bs_clr bs idx m) bs" "bs_get_size (bs_clr bs idx m) bs = bs_get_size m bs"
    "j < bs_get_size m bs \<Longrightarrow> bs_bit (bs_clr bs idx m) bs j = (j \<noteq> idx \<and> bs_bit m bs j)"
proof -
  have w: "unat (idx div 32) < unat (bs_sz m bs)" if "idx < bs_get_size m bs"
    using idx_word [OF assms that] .
  show s: "bs_sz (bs_clr bs idx m) bs = bs_sz m bs" "bs_bits (bs_clr bs idx m) bs = bs_bits m bs"
    "bs_ok (bs_clr bs idx m) bs"
    using bs_write(1-3) [OF assms w refl] assms by (auto simp: bs_clr_def Let_def)
  then show "bs_get_size (bs_clr bs idx m) bs = bs_get_size m bs" by (simp add: bs_get_size_def)
  show "bs_bit (bs_clr bs idx m) bs j = (j \<noteq> idx \<and> bs_bit m bs j)" if j: "j < bs_get_size m bs"
  proof (cases "idx < bs_get_size m bs")
    case True
    have ones: "(0xffffffff :: u32) = mask 32" by (simp add: mask_numeral)
    have l: "load32 (bs_clr bs idx m) (word_ref m bs (j div 32)) =
        (if j div 32 = idx div 32
         then load32 m (word_ref m bs (idx div 32)) AND (0xffffffff XOR push_bit (unat (idx mod 32)) 1)
         else load32 m (word_ref m bs (j div 32)))"
      using bs_write(5) [OF assms w [OF True] refl idx_word [OF assms j]] True
      by (simp add: bs_clr_def Let_def)
    have r: "word_ref (bs_clr bs idx m) bs (j div 32) = word_ref m bs (j div 32)"
      using s(2) by (simp add: word_ref_def)
    show ?thesis
      unfolding bs_bit_def r l ones using offset_lt [of j] offset_eq_iff [of j idx]
      by (auto simp: bit_simps idx_eq_iff [of j idx])
  next
    case False
    then show ?thesis using j by (auto simp: bs_clr_def)
  qed
qed

lemma bs_tst_bit: "bs_tst m bs idx = (if idx < bs_get_size m bs then of_bool (bs_bit m bs idx) else 1)"
proof -
  let ?w = "load32 m (word_ref m bs (idx div 32))" and ?o = "unat (idx mod 32)"
  have "ucast (drop_bit ?o (?w AND push_bit ?o 1)) = (of_bool (bit ?w ?o) :: u8)"
    by (rule bit_word_eqI) (use offset_lt [of idx] in \<open>auto simp: bit_simps\<close>)
  then show ?thesis by (simp add: bs_tst_def bs_bit_def Let_def)
qed

section \<open>The first clear bit\<close>

lemma offsets_nth: "k < 32 \<Longrightarrow> offsets ! k = word_of_nat k"
  by (simp add: offsets_def)

lemma block_index:
  assumes "unat i < 2 ^ 27" "k < 32"
  shows "unat (i * 32 + word_of_nat k :: u32) = 32 * unat i + k"
  using assms by (simp add: unat_word_ariths unat_of_nat)

lemma first_clr_from_least:
  assumes ok: "bs_ok m bs" and "unat i \<le> unat (bs_sz m bs)"
    and "\<forall>j. unat j < 32 * unat i \<longrightarrow> bs_bit m bs j"
  shows "let f = first_clr_from m bs i in
    f \<le> bs_get_size m bs \<and> (\<forall>j<f. bs_bit m bs j) \<and> (f < bs_get_size m bs \<longrightarrow> \<not> bs_bit m bs f)"
  using assms
proof (induction m bs i rule: first_clr_from.induct)
  case (1 m bs i)
  show ?case
  proof (cases "i < bs_sz m bs")
    case False
    then have i: "i = bs_sz m bs" using "1.prems"(2) by (simp add: word_le_nat_alt word_less_nat_alt word_unat_eq_iff)
    show ?thesis using "1.prems"(3) bs_get_size_unat [OF "1.prems"(1)]
      by (subst first_clr_from.simps) (simp add: False i Let_def word_less_nat_alt)
  next
    case True
    then have b: "unat i < 2 ^ 27" "unat i < unat (bs_sz m bs)"
      using "1.prems"(1) by (auto simp: bs_ok_def word_less_nat_alt)
    have u: "unat (i * 32 + word_of_nat k) = 32 * unat i + k" if "k < 32" for k
      using block_index [OF b(1) that] .
    have inside: "i * 32 + word_of_nat k < bs_get_size m bs" if "k < 32" for k
      using u [OF that] that b(2) bs_get_size_unat [OF "1.prems"(1)] by (simp add: word_less_nat_alt)
    have tst: "bs_tst m bs (i * 32 + word_of_nat k) = 0 \<longleftrightarrow> \<not> bs_bit m bs (i * 32 + word_of_nat k)"
      if "k < 32" for k using inside [OF that] by (simp add: bs_tst_bit)
    have split: "\<exists>k. unat j = 32 * unat i + k \<and> j = i * 32 + word_of_nat k"
      if "\<not> unat j < 32 * unat i" for j
    proof -
      obtain k where k: "unat j = 32 * unat i + k" using \<open>\<not> _\<close> le_Suc_ex not_le by blast
      then have "j = word_of_nat (32 * unat i + k)" by (simp flip: k)
      then show ?thesis using k by (auto simp: mult.commute)
    qed
    show ?thesis
    proof (cases "find (\<lambda>n. bs_tst m bs (i * 32 + n) = 0) offsets")
      case (Some n)
      then obtain k where k: "k < 32" "n = word_of_nat k" "\<not> bs_bit m bs (i * 32 + n)"
        "\<forall>l<k. bs_bit m bs (i * 32 + word_of_nat l)"
        using tst by (auto simp: find_Some_iff offsets_def)
      have "bs_bit m bs j" if "j < i * 32 + n" for j
      proof (cases "unat j < 32 * unat i")
        case True
        then show ?thesis using "1.prems"(3) by blast
      next
        case False
        then obtain l where l: "unat j = 32 * unat i + l" "j = i * 32 + word_of_nat l"
          using split by blast
        with \<open>j < i * 32 + n\<close> u [OF k(1)] k(2) have "l < k" by (simp add: word_less_nat_alt)
        then show ?thesis using k(4) l(2) by blast
      qed
      then show ?thesis using k inside [OF k(1)]
        by (subst first_clr_from.simps) (simp add: True Some Let_def less_imp_le)
    next
      case None
      then have set: "bs_bit m bs (i * 32 + word_of_nat k)" if "k < 32" for k
        using tst [OF that] that by (auto simp: find_None_iff offsets_def)
      have "\<forall>j. unat j < 32 * unat (i + 1) \<longrightarrow> bs_bit m bs j"
      proof (intro allI impI)
        fix j :: u32 assume j: "unat j < 32 * unat (i + 1)"
        show "bs_bit m bs j"
        proof (cases "unat j < 32 * unat i")
          case False
          then obtain l where "unat j = 32 * unat i + l" "j = i * 32 + word_of_nat l"
            using split by blast
          then show ?thesis using j set [of l] unat_succ [OF True] by simp
        qed (use "1.prems"(3) in blast)
      qed
      moreover have "unat (i + 1) \<le> unat (bs_sz m bs)" using unat_succ [OF True] b(2) by simp
      ultimately have "let f = first_clr_from m bs (i + 1) in f \<le> bs_get_size m bs \<and>
          (\<forall>j<f. bs_bit m bs j) \<and> (f < bs_get_size m bs \<longrightarrow> \<not> bs_bit m bs f)"
        using "1.IH" [OF True None "1.prems"(1)] by blast
      then show ?thesis by (subst first_clr_from.simps) (simp add: True None)
    qed
  qed
qed

lemma bs_first_clr_facts:
  assumes "bs_ok m bs"
  shows "bs_first_clr m bs \<le> bs_get_size m bs" "j < bs_first_clr m bs \<Longrightarrow> bs_bit m bs j"
    "bs_first_clr m bs < bs_get_size m bs \<Longrightarrow> \<not> bs_bit m bs (bs_first_clr m bs)"
  using first_clr_from_least [OF assms, of 0] by (auto simp: bs_first_clr_def Let_def)

lemma bs_writes_other:
  assumes "bs_ok m bs" and a: "apart (bs_bits m bs) (4 * unat (bs_sz m bs)) a 4"
  shows "load32 (bs_set bs idx m) a = load32 m a" "load32 (bs_clr bs idx m) a = load32 m a"
proof -
  have "apart (word_ref m bs (idx div 32)) 4 a 4" if "idx < bs_get_size m bs"
  proof -
    have i: "unat (idx div 32) < unat (bs_sz m bs)" using idx_word [OF assms(1) that] .
    then have "unat (idx div 32) < 2 ^ 27" using assms(1) by (auto simp: bs_ok_def)
    then have "unat (4 * (idx div 32)) = 4 * unat (idx div 32)" by (simp add: unat_word_ariths)
    then show ?thesis
      unfolding word_ref_def using i by (intro apart_shift_left [OF a]) auto
  qed
  then show "load32 (bs_set bs idx m) a = load32 m a" "load32 (bs_clr bs idx m) a = load32 m a"
    by (auto simp: bs_set_def bs_clr_def Let_def load32_store32_apart)
qed

section \<open>The interface of a bit map\<close>

text \<open>
  What a client may rely on, and what follows for a client that takes the first clear index and
  marks it: the indices it gets are pairwise distinct and increasing, they were all clear, and it
  gets one as long as one is left.
\<close>

locale bitmap =
  fixes ok :: "'m \<Rightarrow> bool" and limit :: "'m \<Rightarrow> 'i :: {finite, linorder}"
    and used :: "'m \<Rightarrow> 'i \<Rightarrow> bool" and mark :: "'i \<Rightarrow> 'm \<Rightarrow> 'm" and release :: "'i \<Rightarrow> 'm \<Rightarrow> 'm"
    and first_clear :: "'m \<Rightarrow> 'i"
  assumes mark_ok: "ok m \<Longrightarrow> ok (mark i m)"
    and mark_limit: "ok m \<Longrightarrow> limit (mark i m) = limit m"
    and mark_used: "ok m \<Longrightarrow> j < limit m \<Longrightarrow> used (mark i m) j \<longleftrightarrow> j = i \<or> used m j"
    and release_ok: "ok m \<Longrightarrow> ok (release i m)"
    and release_limit: "ok m \<Longrightarrow> limit (release i m) = limit m"
    and release_used: "ok m \<Longrightarrow> j < limit m \<Longrightarrow> used (release i m) j \<longleftrightarrow> j \<noteq> i \<and> used m j"
    and first_le: "ok m \<Longrightarrow> first_clear m \<le> limit m"
    and first_below: "ok m \<Longrightarrow> j < first_clear m \<Longrightarrow> used m j"
    and first_free: "ok m \<Longrightarrow> first_clear m < limit m \<Longrightarrow> \<not> used m (first_clear m)"
begin

definition free_set :: "'m \<Rightarrow> 'i set" where
  "free_set m = {j. j < limit m \<and> \<not> used m j}"

definition take_first :: "'m \<Rightarrow> ('i \<times> 'm) option" where
  "take_first m = (if first_clear m = limit m then None
     else Some (first_clear m, mark (first_clear m) m))"

fun take_many :: "nat \<Rightarrow> 'm \<Rightarrow> 'i list \<times> 'm" where
  "take_many 0 m = ([], m)"
| "take_many (Suc n) m =
     (case take_first m of None \<Rightarrow> ([], m)
      | Some (i, m') \<Rightarrow> (let (is, m'') = take_many n m' in (i # is, m'')))"

lemma free_mark: "ok m \<Longrightarrow> free_set (mark i m) = free_set m - {i}"
  by (auto simp: free_set_def mark_limit mark_used)

lemma free_release: "ok m \<Longrightarrow> i < limit m \<Longrightarrow> free_set (release i m) = insert i (free_set m)"
  by (auto simp: free_set_def release_limit release_used)

lemma full_iff: "ok m \<Longrightarrow> first_clear m = limit m \<longleftrightarrow> free_set m = {}"
  using first_le [of m] first_below [of m] first_free [of m]
  by (auto simp: free_set_def order_le_less)

lemma first_is_Min: "ok m \<Longrightarrow> free_set m \<noteq> {} \<Longrightarrow> first_clear m \<in> free_set m \<and> first_clear m = Min (free_set m)"
proof -
  assume ok: "ok m" and ne: "free_set m \<noteq> {}"
  have f: "first_clear m \<in> free_set m"
    using full_iff [OF ok] ne first_le [OF ok] first_free [OF ok] by (auto simp: free_set_def order_le_less)
  have "first_clear m \<le> j" if "j \<in> free_set m" for j
    using first_below [OF ok, of j] that by (auto simp: free_set_def not_less [symmetric])
  then show "first_clear m \<in> free_set m \<and> first_clear m = Min (free_set m)"
    using f by (auto intro: Min_eqI [symmetric])
qed

lemma take_first_cases:
  assumes "ok m"
  shows "take_first m = (if free_set m = {} then None
    else Some (Min (free_set m), mark (Min (free_set m)) m))"
  using full_iff [OF assms] first_is_Min [OF assms] by (simp add: take_first_def)

lemma take_many_sorted:
  assumes "ok m"
  shows "fst (take_many n m) = take n (sorted_list_of_set (free_set m)) \<and>
    free_set (snd (take_many n m)) = free_set m - set (fst (take_many n m)) \<and> ok (snd (take_many n m))"
  using assms
proof (induction n arbitrary: m)
  case 0
  then show ?case by simp
next
  case (Suc n)
  show ?case
  proof (cases "free_set m = {}")
    case True
    then show ?thesis using take_first_cases [OF Suc.prems] Suc.prems by simp
  next
    case False
    have "finite (free_set m)" by simp
    then have l: "sorted_list_of_set (free_set m) =
        Min (free_set m) # sorted_list_of_set (free_set m - {Min (free_set m)})"
      using False sorted_list_of_set_nonempty by blast
    let ?i = "Min (free_set m)"
    have "take_many (Suc n) m = (?i # fst (take_many n (mark ?i m)), snd (take_many n (mark ?i m)))"
      using take_first_cases [OF Suc.prems] False by (simp add: split_def Let_def)
    then show ?thesis
      using Suc.IH [OF mark_ok [OF Suc.prems], of ?i] by (auto simp: free_mark [OF Suc.prems] l)
  qed
qed

lemma take_many_distinct:
  assumes "ok m"
  shows "sorted_wrt (<) (fst (take_many n m))" "set (fst (take_many n m)) \<subseteq> free_set m"
    "length (fst (take_many n m)) = min n (card (free_set m))"
proof -
  note t = take_many_sorted [OF assms, of n]
  show "sorted_wrt (<) (fst (take_many n m))"
    using t sorted_wrt_take [OF strict_sorted_list_of_set] by simp
  show "set (fst (take_many n m)) \<subseteq> free_set m"
    using t set_take_subset [of n "sorted_list_of_set (free_set m)"] by simp
  show "length (fst (take_many n m)) = min n (card (free_set m))"
    using t by (simp add: min.commute)
qed

lemma take_after_release:
  assumes "ok m" "i < limit m"
  shows "\<exists>j m'. take_first (release i m) = Some (j, m') \<and> j \<le> i"
proof -
  have "free_set (release i m) = insert i (free_set m)" using free_release [OF assms] .
  then have "i \<in> free_set (release i m)" by simp
  then show ?thesis using take_first_cases [OF release_ok [OF assms(1), of i]] by (auto intro: Min_le)
qed

end

interpretation bm: bitmap "\<lambda>m. bs_ok m bs" "\<lambda>m. bs_get_size m bs" "\<lambda>m. bs_bit m bs"
  "bs_set bs" "bs_clr bs" "\<lambda>m. bs_first_clr m bs" for bs
  by unfold_locales (simp_all add: bs_set_facts bs_clr_facts bs_first_clr_facts)

lemma words_needed: "(n + (32 - n mod 32)) div 32 = n div 32 + (1 :: nat)"
proof -
  define q r where "q = n div 32" and "r = n mod 32"
  then have "n = q * 32 + r" "r < 32" by simp_all
  then have "n + (32 - r) = (q + 1) * 32" by simp
  then show ?thesis by (simp add: q_def r_def)
qed

text \<open>A set of 64 bits at \<open>0x1000\<close> with its array at \<open>0x2000\<close>, all clear.\<close>

definition bs_example :: mem where
  "bs_example = store32 (store32 (\<lambda>_. 0) 0x1000 2) 0x1004 0x2000"

lemma bs_example_facts:
  "bs_ok bs_example 0x1000" "bs_get_size bs_example 0x1000 = 64"
  by (simp_all add: bs_example_def bs_ok_def bs_get_size_def bs_sz_def bs_bits_def load32_store32_apart)

lemma bs_init_early:
  assumes "early s" "unat sz < 2 ^ 27" "unat (alloc_ptr s) + 8 + 4 * (unat sz div 32 + 1) < 2 ^ 32"
  shows "\<exists>bs s'. bs_init sz s = Some (bs, s') \<and> bs = alloc_ptr s \<and> bs_ok (ram s') bs \<and>
    unat (bs_sz (ram s') bs) = unat sz div 32 + 1 \<and> sz < bs_get_size (ram s') bs \<and>
    (\<forall>j<bs_get_size (ram s') bs. bs_bit (ram s') bs j =
       bit (load32 (ram s) (bs + 8 + 4 * (j div 32))) (unat (j mod 32))) \<and>
    bs_bits (ram s') bs = bs + 8 \<and> s' = s\<lparr>alloc_ptr := alloc_ptr s', ram := ram s'\<rparr> \<and>
    unat (alloc_ptr s') = unat (alloc_ptr s) + 8 + 4 * (unat sz div 32 + 1) \<and>
    (\<forall>a. apart bs 8 a 4 \<longrightarrow> load32 (ram s') a = load32 (ram s) a)"
proof -
  let ?n = "(sz + (32 - sz mod 32)) div 32" and ?bs = "alloc_ptr s"
  let ?m = "store32 (store32 (ram s) (?bs + 4) (?bs + 8)) ?bs ?n"
  let ?s = "s\<lparr>alloc_ptr := ?bs + 8 + 4 * ?n, ram := ?m\<rparr>"
  have le: "sz mod 32 \<le> 32" by (simp add: word_le_nat_alt unat_mod less_imp_le)
  have "unat (sz + (32 - sz mod 32)) = unat sz + (32 - unat sz mod 32)"
    using assms(2) unat_sub [OF le] by (subst unat_add_lem [THEN iffD1]) (simp_all add: unat_mod)
  then have "unat ?n = (unat sz + (32 - unat sz mod 32)) div 32" by (simp add: unat_div)
  also have "\<dots> = unat sz div 32 + 1" by (rule words_needed)
  finally have n: "unat ?n = unat sz div 32 + 1" .
  have "early (s\<lparr>alloc_ptr := ?bs + 8\<rparr>)" using assms(1) by (simp add: early_def)
  then have r: "bs_init sz s = Some (?bs, ?s)"
    using assms(1) by (simp add: bs_init_def kmalloc_early Let_def)
  have sz: "bs_sz ?m ?bs = ?n" by (simp add: bs_sz_def)
  have bits: "bs_bits ?m ?bs = ?bs + 8" by (simp add: bs_bits_def load32_store32_apart)
  have "apart 0 8 8 (4 * unat ?n)" using n assms(3) by (simp add: apart_def)
  then have ok: "bs_ok ?m ?bs" using n assms(2) by (simp add: bs_ok_def sz bits)
  have lt: "sz < bs_get_size ?m ?bs"
    using bs_get_size_unat [OF ok] n div_mult_mod_eq [of "unat sz" 32] mod_less_divisor [of 32 "unat sz"]
    unfolding sz by (simp add: word_less_nat_alt)
  have "load32 ?m (?bs + 8 + 4 * (j div 32)) = load32 (ram s) (?bs + 8 + 4 * (j div 32))"
    if "j < bs_get_size ?m ?bs" for j
    using struct_apart [OF ok idx_word [OF ok that]] unfolding word_ref_def bits
    by (simp add: load32_store32_apart apart_sym)
  then have "\<forall>j<bs_get_size ?m ?bs. bs_bit ?m ?bs j =
      bit (load32 (ram s) (?bs + 8 + 4 * (j div 32))) (unat (j mod 32))"
    by (simp add: bs_bit_def word_ref_def bits)
  moreover have "load32 ?m a = load32 (ram s) a" if a: "apart ?bs 8 a 4" for a
    using apart_mono [OF a, of 4 4] apart_shift_left [OF a, of 4 4]
    by (simp add: load32_store32_apart)
  moreover have "unat (4 * ?n) = 4 * unat ?n" using n assms(2) by (simp add: unat_word_ariths)
  then have "unat (?bs + 8 + 4 * ?n) = unat ?bs + 8 + 4 * (unat sz div 32 + 1)"
    using assms(3) n by (simp add: unat_word_ariths)
  ultimately show ?thesis using r ok lt n sz bits by auto
qed

section \<open>Properties\<close>

text \<open>
  Setting and clearing a bit is what it is for a set of indices below the size: a set index
  tests as one, a cleared one as zero, every other index below the size keeps its value; the size
  does not change, and the words outside the array keep their values.
\<close>

theorem bs_set_clr_tst:
  assumes "bs_ok m bs" "j < bs_get_size m bs"
  shows "bs_tst (bs_set bs i m) bs j = (if j = i then 1 else bs_tst m bs j) \<and>
    bs_tst (bs_clr bs i m) bs j = (if j = i then 0 else bs_tst m bs j) \<and>
    bs_get_size (bs_set bs i m) bs = bs_get_size m bs \<and>
    bs_get_size (bs_clr bs i m) bs = bs_get_size m bs \<and>
    (apart (bs_bits m bs) (4 * unat (bs_sz m bs)) a 4 \<longrightarrow>
       load32 (bs_set bs i m) a = load32 m a \<and> load32 (bs_clr bs i m) a = load32 m a)"
  using assms
  by (simp add: bs_tst_bit bs_set_facts bs_clr_facts bs_writes_other)

theorem bs_set_clr_tst_witness:
  "bs_tst (bs_set 0x1000 37 bs_example) 0x1000 37 = 1 \<and> bs_tst (bs_clr 0x1000 37 bs_example) 0x1000 37 = 0"
  using bs_set_clr_tst [of bs_example "0x1000" 37 37] by (simp add: bs_example_facts)

text \<open>
  An index at or beyond the size is refused: setting or clearing it changes nothing, and it
  tests as set, whatever the memory holds.
\<close>

theorem bs_out_of_range:
  assumes "bs_get_size m bs \<le> i"
  shows "bs_set bs i m = m \<and> bs_clr bs i m = m \<and> bs_tst m bs i = 1"
  using assms by (simp add: bs_set_def bs_clr_def bs_tst_def)

theorem bs_out_of_range_witness:
  "bs_set 0x1000 64 bs_example = bs_example \<and> bs_tst bs_example 0x1000 64 = 1"
  using bs_out_of_range [of bs_example "0x1000" 64] by (simp add: bs_example_facts)

text \<open>
  \<open>bs_first_clr\<close> is the least index that tests as clear, and the size of the set exactly
  when every index tests as set.
\<close>

theorem bs_first_clr_least:
  assumes "bs_ok m bs"
  shows "(\<forall>j<bs_first_clr m bs. bs_tst m bs j = 1) \<and>
    (bs_tst m bs (bs_first_clr m bs) = 0 \<longleftrightarrow> \<not> BAD_RETURN m bs (bs_first_clr m bs)) \<and>
    (BAD_RETURN m bs (bs_first_clr m bs) \<longleftrightarrow> (\<forall>j. bs_tst m bs j = 1))"
proof -
  let ?f = "bs_first_clr m bs"
  have le: "?f \<le> bs_get_size m bs" using bs_first_clr_facts(1) [OF assms] .
  have 1: "bs_tst m bs j = 1" if "j < ?f" for j
    using bs_first_clr_facts(2) [OF assms that] by (simp add: bs_tst_bit)
  have 2: "bs_tst m bs ?f = 0 \<longleftrightarrow> ?f \<noteq> bs_get_size m bs"
    using bs_first_clr_facts(3) [OF assms] le by (auto simp: bs_tst_bit order_le_less)
  have 3: "bs_tst m bs j = 1" if "?f = bs_get_size m bs" for j
    using bs_first_clr_facts(2) [OF assms, of j] that by (simp add: bs_tst_bit)
  show ?thesis using 1 2 3 by (force simp: BAD_RETURN_def)
qed

theorem bs_first_clr_least_witness:
  "bs_tst bs_example 0x1000 (bs_first_clr bs_example 0x1000) = 0 \<longleftrightarrow>
     \<not> BAD_RETURN bs_example 0x1000 (bs_first_clr bs_example 0x1000)"
  using bs_first_clr_least [of bs_example "0x1000"] by (simp add: bs_example_facts)

text \<open>
  \<open>bs_init\<close> on the bump allocator: the number of words is \<open>sz div 32 + 1\<close>, one more than
  needed when \<open>sz\<close> is a multiple of 32, the set is well formed, so that every index below \<open>sz\<close>
  can be used, and the bits are whatever the memory held: nothing clears them.
\<close>

theorem bs_init_size:
  assumes "early s" "unat sz < 2 ^ 27" "unat (alloc_ptr s) + 8 + 4 * (unat sz div 32 + 1) < 2 ^ 32"
  shows "\<exists>bs s'. bs_init sz s = Some (bs, s') \<and> bs = alloc_ptr s \<and> bs_ok (ram s') bs \<and>
    unat (bs_sz (ram s') bs) = unat sz div 32 + 1 \<and> sz < bs_get_size (ram s') bs \<and>
    (\<forall>j<bs_get_size (ram s') bs. bs_bit (ram s') bs j =
       bit (load32 (ram s) (bs + 8 + 4 * (j div 32))) (unat (j mod 32)))"
  using bs_init_early [OF assms] by blast

theorem bs_init_size_witness:
  "\<exists>bs s'. bs_init 64 paging0 = Some (bs, s') \<and> unat (bs_sz (ram s') bs) = 3"
  using bs_init_size [of paging0 64]
  by (auto simp: early_def paging0_def heap_state.defs int_state.defs)

end
