(* ===== verification/Pmm.thy ===== *)
theory Pmm
  imports Bitset
begin

text \<open>
  kern/mm/pmm.c: the allocator of physical page frames, a bit set with one bit per frame, and the
  memory map of kern/inc/multiboot.h that \<open>pmm_init\<close> reads from memory.  Proved, through the
  locale \<open>bitmap\<close>: a frame that is handed out was free, every free frame is handed out once and in
  order, then the error value; \<open>set_frame\<close> reports whether the frame exists; \<open>free_frame\<close> undoes
  \<open>get_frame\<close>; and \<open>pmm_init\<close> marks the frames of the reserved regions and no other.
\<close>

section \<open>Operations\<close>

record pmm_state = paging_state +
  frames :: u32

definition mb_mem_lower :: "mem \<Rightarrow> u32 \<Rightarrow> u32" where "mb_mem_lower m mb = load32 m (mb + 4)"
definition mb_mem_upper :: "mem \<Rightarrow> u32 \<Rightarrow> u32" where "mb_mem_upper m mb = load32 m (mb + 8)"
definition mb_mmap_length :: "mem \<Rightarrow> u32 \<Rightarrow> u32" where "mb_mmap_length m mb = load32 m (mb + 44)"
definition mb_mmap_addr :: "mem \<Rightarrow> u32 \<Rightarrow> u32" where "mb_mmap_addr m mb = load32 m (mb + 48)"

definition mm_size :: "mem \<Rightarrow> u32 \<Rightarrow> u32" where "mm_size m e = load32 m e"
definition mm_base_addr :: "mem \<Rightarrow> u32 \<Rightarrow> u64" where "mm_base_addr m e = load64 m (e + 4)"
definition mm_length :: "mem \<Rightarrow> u32 \<Rightarrow> u64" where "mm_length m e = load64 m (e + 12)"
definition mm_type :: "mem \<Rightarrow> u32 \<Rightarrow> u32" where "mm_type m e = load32 m (e + 20)"

text \<open>
  The loop over one region, which reads the entry again at every step.  The test
  \<open>addr > 0xffffffff\<close> of the source compares a 32-bit value; it is written out and never true.
\<close>

partial_function (option) reserve_loop :: "u32 \<Rightarrow> u32 \<Rightarrow> u64 \<Rightarrow> mem \<Rightarrow> mem option" where
  "reserve_loop fr mmap i m =
     (if i < mm_length m mmap then
        (let addr = (ucast (mm_base_addr m mmap + i) :: u32)
         in if 0xffffffff < addr then Some m
            else reserve_loop fr mmap (i + 0x1000) (bs_set fr ((addr AND 0xfffff000) div PG_SZ) m))
      else Some m)"

partial_function (option) mmap_loop ::
    "u32 \<Rightarrow> u32 \<Rightarrow> 'a pmm_state_scheme \<Rightarrow> 'a pmm_state_scheme option" where
  "mmap_loop mb mmap s =
     (if mmap < P2V (mb_mmap_addr (ram s) mb) + mb_mmap_length (ram s) mb then
        do {
          s \<leftarrow> (if mm_type (ram s) mmap = 2 then
                 do {
                   s \<leftarrow> kprintf (str ''mmap type 2: 0x%x \<newline>'') [KInt (ucast (mm_length (ram s) mmap))] s;
                   m \<leftarrow> reserve_loop (frames s) mmap 0 (ram s);
                   Some (s\<lparr>ram := m\<rparr>)
                 }
               else Some s);
          mmap_loop mb (mmap + mm_size (ram s) mmap + 4) s
        }
      else Some s)"

definition pmm_init :: "u32 \<Rightarrow> 'a pmm_state_scheme \<Rightarrow> 'a pmm_state_scheme option" where
  "pmm_init mb s =
     (let sz = mb_mem_upper (ram s) mb + mb_mem_lower (ram s) mb in
      do {
        s \<leftarrow> kprintf (str ''allocating %d page frames \<newline>'') [KInt (sz div 4)] s;
        (bs, s) \<leftarrow> bs_init (sz div 4) s;
        let s = s\<lparr>frames := bs\<rparr>;
        mmap_loop mb (P2V (mb_mmap_addr (ram s) mb)) s
      })"

definition set_frame :: "u32 \<Rightarrow> 'a pmm_state_scheme \<Rightarrow> u32 \<times> 'a pmm_state_scheme" where
  "set_frame addr s =
     (let idx = addr div PG_SZ in
      if idx < bs_get_size (ram s) (frames s)
      then (1, s\<lparr>ram := bs_set (frames s) idx (ram s)\<rparr>)
      else (0, s))"

definition get_frame :: "'a pmm_state_scheme \<Rightarrow> (u32 \<times> 'a pmm_state_scheme) option" where
  "get_frame s =
     (let idx = bs_first_clr (ram s) (frames s) in
      if BAD_RETURN (ram s) (frames s) idx then
        do { s \<leftarrow> kprintf (str ''OUT OF PAGE FRAMES!?!\<newline>'') [] s; Some (0xffffffff, s) }
      else
        (let (_, s) = set_frame (idx * PG_SZ) s in Some (idx * PG_SZ, s)))"

definition free_frame :: "u32 \<Rightarrow> 'a pmm_state_scheme \<Rightarrow> 'a pmm_state_scheme" where
  "free_frame addr s = s\<lparr>ram := bs_clr (frames s) addr (ram s)\<rparr>"

section \<open>Frames\<close>

text \<open>The bit set is well formed and has a bit for at most every frame of the address space.\<close>

definition pmm_ok :: "'a pmm_state_scheme \<Rightarrow> bool" where
  "pmm_ok s \<longleftrightarrow> bs_ok (ram s) (frames s) \<and> unat (bs_sz (ram s) (frames s)) \<le> 2 ^ 15"

definition free_frames :: "'a pmm_state_scheme \<Rightarrow> u32 set" where
  "free_frames s = bm.free_set (frames s) (ram s)"

lemma free_frames_iff:
  "i \<in> free_frames s \<longleftrightarrow>
     i < bs_get_size (ram s) (frames s) \<and> \<not> bs_bit (ram s) (frames s) i"
  by (simp add: free_frames_def bm.free_set_def)

lemma pmm_ok_bs: "pmm_ok s \<Longrightarrow> bs_ok (ram s) (frames s)"
  by (simp add: pmm_ok_def)

lemma index_small: "pmm_ok s \<Longrightarrow> i < bs_get_size (ram s) (frames s) \<Longrightarrow> unat i < 2 ^ 20"
  using bs_get_size_unat [of "ram s" "frames s"] by (auto simp: pmm_ok_def word_less_nat_alt)

lemma frame_of_index:
  assumes "unat i < 2 ^ 20"
  shows "unat (i * PG_SZ) = unat i * 4096" "i * PG_SZ div PG_SZ = i" "i * PG_SZ mod PG_SZ = 0"
    "i * PG_SZ \<noteq> 0xffffffff"
proof -
  have "unat i * 4096 < 4294967296" using assms by simp
  then show u: "unat (i * PG_SZ) = unat i * 4096"
    by (simp only: PG_SZ_def unat_word_ariths) simp
  have p: "unat PG_SZ = 4096" by (simp add: PG_SZ_def)
  show "i * PG_SZ div PG_SZ = i"
    unfolding word_unat_eq_iff unat_div u p by (rule nonzero_mult_div_cancel_right) simp
  show "i * PG_SZ mod PG_SZ = 0"
    unfolding word_unat_eq_iff unat_mod u p by simp
  show "i * PG_SZ \<noteq> 0xffffffff"
  proof
    assume "i * PG_SZ = 0xffffffff"
    then have "unat i * 4096 = 4294967295" unfolding u [symmetric] by simp
    then have "(4294967295 :: nat) mod 4096 = 0" by (metis mod_mult_self2_is_0)
    then show False by simp
  qed
qed

lemma bs_set_pmm_ok: "pmm_ok s \<Longrightarrow> pmm_ok (s\<lparr>ram := bs_set (frames s) i (ram s)\<rparr>)"
  by (simp add: pmm_ok_def bs_set_facts)

lemma set_frame_state: "snd (set_frame a s) = s\<lparr>ram := bs_set (frames s) (a div PG_SZ) (ram s)\<rparr>"
  by (simp add: set_frame_def Let_def bs_set_def)

lemma get_frame_some:
  assumes "pmm_ok s" "free_frames s \<noteq> {}"
  shows "get_frame s = Some (Min (free_frames s) * PG_SZ,
    s\<lparr>ram := bs_set (frames s) (Min (free_frames s)) (ram s)\<rparr>)"
proof -
  note ok = pmm_ok_bs [OF assms(1)]
  let ?i = "bs_first_clr (ram s) (frames s)"
  have i: "?i = Min (free_frames s)" "?i \<in> free_frames s"
    using bm.first_is_Min [OF ok] assms(2) by (auto simp: free_frames_def)
  then have lt: "?i < bs_get_size (ram s) (frames s)" by (simp add: free_frames_iff)
  then have ne: "\<not> BAD_RETURN (ram s) (frames s) ?i" by (simp add: BAD_RETURN_def)
  show ?thesis
    using frame_of_index [OF index_small [OF assms(1) lt]] lt i(1) set_frame_state [of "?i * PG_SZ" s]
    by (simp add: get_frame_def ne [unfolded i(1)] Let_def split_def)
qed

lemma get_frame_none:
  assumes "pmm_ok s" "free_frames s = {}"
  shows "\<exists>s'. get_frame s = Some (0xffffffff, s') \<and> console_only s s'"
proof -
  have "bs_first_clr (ram s) (frames s) = bs_get_size (ram s) (frames s)"
    using bm.full_iff [OF pmm_ok_bs [OF assms(1)]] assms(2) by (simp add: free_frames_def)
  then show ?thesis
    by (simp add: get_frame_def BAD_RETURN_def kprintf_plain)
qed

lemma free_frames_mark:
  "pmm_ok s \<Longrightarrow> free_frames (s\<lparr>ram := bs_set (frames s) i (ram s)\<rparr>) = free_frames s - {i}"
  using bm.free_mark [OF pmm_ok_bs] by (simp add: free_frames_def)

lemma free_frames_release:
  "pmm_ok s \<Longrightarrow> i < bs_get_size (ram s) (frames s) \<Longrightarrow>
    free_frames (s\<lparr>ram := bs_clr (frames s) i (ram s)\<rparr>) = insert i (free_frames s)"
  using bm.free_release [OF pmm_ok_bs] by (simp add: free_frames_def)

lemma console_only_pmm:
  assumes "console_only s s'"
  shows "frames s' = frames s" "ram s' = ram s" "pmm_ok s' = pmm_ok s" "free_frames s' = free_frames s"
    "alloc_ptr s' = alloc_ptr s" "kheap_initialized s' = kheap_initialized s" "kheap s' = kheap s"
    "kern_dir s' = kern_dir s" "current_dir s' = current_dir s" "handlers s' = handlers s"
  by (rule console_onlyE [OF assms], simp add: pmm_ok_def free_frames_def)+

section \<open>Sequences of frames\<close>

fun get_frames :: "nat \<Rightarrow> 'a pmm_state_scheme \<Rightarrow> (u32 list \<times> 'a pmm_state_scheme) option" where
  "get_frames 0 s = Some ([], s)"
| "get_frames (Suc n) s =
     do { (f, s) \<leftarrow> get_frame s; (fs, s) \<leftarrow> get_frames n s; Some (f # fs, s) }"

lemma get_frames_take_many:
  assumes "pmm_ok s"
  shows "\<exists>is s'. bm.take_many (frames s) n (ram s) = (is, ram s') \<and> frames s' = frames s \<and>
    pmm_ok s' \<and> get_frames n s = Some (map (\<lambda>i. i * PG_SZ) is @ replicate (n - length is) 0xffffffff, s')"
  using assms
proof (induction n arbitrary: s)
  case 0
  then show ?case by (auto intro: exI [of _ s])
next
  case (Suc n)
  note ok = Suc.prems and bs = pmm_ok_bs [OF Suc.prems]
  show ?case
  proof (cases "free_frames s = {}")
    case True
    obtain t where t: "get_frame s = Some (0xffffffff, t)" "console_only s t"
      using get_frame_none [OF ok True] by blast
    note same = console_only_pmm [OF t(2)]
    obtain "is" s' where s': "bm.take_many (frames t) n (ram t) = (is, ram s')" "frames s' = frames t"
      "pmm_ok s'" "get_frames n t = Some (map (\<lambda>i. i * PG_SZ) is @ replicate (n - length is) 0xffffffff, s')"
      using Suc.IH [of t] same ok by auto
    have tf: "bm.take_first (frames s) (ram s) = None"
      using bm.take_first_cases [OF bs] True by (simp add: free_frames_def)
    have "bm.take_many (frames t) n (ram t) = ([], ram t)"
      unfolding same by (cases n) (simp_all add: tf)
    then show ?thesis using s' t(1) same tf by (auto intro!: exI [of _ s'])
  next
    case False
    let ?i = "Min (free_frames s)"
    let ?t = "s\<lparr>ram := bs_set (frames s) ?i (ram s)\<rparr>"
    obtain "is" s' where s': "bm.take_many (frames s) n (ram ?t) = (is, ram s')" "frames s' = frames s"
      "pmm_ok s'" "get_frames n ?t = Some (map (\<lambda>i. i * PG_SZ) is @ replicate (n - length is) 0xffffffff, s')"
      using Suc.IH [OF bs_set_pmm_ok [OF ok, of ?i]] by auto
    have tf: "bm.take_first (frames s) (ram s) = Some (?i, ram ?t)"
      using bm.take_first_cases [OF bs] False by (simp add: free_frames_def)
    show ?thesis
      using s' get_frame_some [OF ok False] tf
      by (intro exI [of _ "?i # is"] exI [of _ s']) simp
  qed
qed

section \<open>The memory map\<close>

text \<open>
  A memory map of the boot loader, as the list of its entries (size, base, length, type) from
  address \<open>p\<close> on; the size does not count the size field itself.
\<close>

fun mmap_entries :: "mem \<Rightarrow> u32 \<Rightarrow> (u32 \<times> u64 \<times> u64 \<times> u32) list \<Rightarrow> bool" where
  "mmap_entries m p [] = True"
| "mmap_entries m p ((sz, b, l, ty) # es) =
     (mm_size m p = sz \<and> mm_base_addr m p = b \<and> mm_length m p = l \<and> mm_type m p = ty \<and>
      mmap_entries m (p + sz + 4) es)"

definition page_frame :: "u64 \<Rightarrow> nat \<Rightarrow> u32" where
  "page_frame b k = (ucast (b + 4096 * word_of_nat k) AND 0xfffff000) div PG_SZ"

text \<open>The frames that the loop visits: one per page counted from the base, not from the page of the base.\<close>

definition reserved :: "(u32 \<times> u64 \<times> u64 \<times> u32) list \<Rightarrow> u32 \<Rightarrow> bool" where
  "reserved es j \<longleftrightarrow> (\<exists>(sz, b, l, ty)\<in>set es. ty = 2 \<and>
     (\<exists>k. 4096 * k < unat l \<and> j = page_frame b k))"

definition outside_bits :: "mem \<Rightarrow> u32 \<Rightarrow> u32 \<Rightarrow> nat \<Rightarrow> bool" where
  "outside_bits m bs a n \<longleftrightarrow> apart (bs_bits m bs) (4 * unat (bs_sz m bs)) a n"

definition bits_only :: "u32 \<Rightarrow> mem \<Rightarrow> mem \<Rightarrow> bool" where
  "bits_only bs m m' \<longleftrightarrow> bs_ok m' bs \<and> bs_sz m' bs = bs_sz m bs \<and> bs_bits m' bs = bs_bits m bs \<and>
     (\<forall>a. outside_bits m bs a 4 \<longrightarrow> load32 m' a = load32 m a)"

lemma bits_only_refl: "bs_ok m bs \<Longrightarrow> bits_only bs m m"
  by (simp add: bits_only_def)

lemma bits_only_trans: "bits_only bs m m' \<Longrightarrow> bits_only bs m' m'' \<Longrightarrow> bits_only bs m m''"
  by (simp add: bits_only_def outside_bits_def)

lemma bits_only_set: "bs_ok m bs \<Longrightarrow> bits_only bs m (bs_set bs i m)"
  by (simp add: bits_only_def outside_bits_def bs_set_facts bs_writes_other)

text \<open>Two memories that agree outside a region agree on the words of what is apart from it.\<close>

definition agree_off :: "u32 \<Rightarrow> nat \<Rightarrow> mem \<Rightarrow> mem \<Rightarrow> bool" where
  "agree_off a n m m' \<longleftrightarrow> (\<forall>x. apart a n x 4 \<longrightarrow> load32 m' x = load32 m x)"

lemma agree_field:
  assumes "agree_off a n m m'" "0 < n" "apart a n x k" "unat d + 4 \<le> k"
  shows "load32 m' (x + d) = load32 m (x + d)"
  using assms(1) apart_shift_right [OF assms(3,4)] assms(2) by (simp add: agree_off_def)

lemma agree_entry:
  assumes "agree_off a n m m'" "0 < n" "apart a n e 24"
  shows "mm_size m' e = mm_size m e" "mm_base_addr m' e = mm_base_addr m e"
    "mm_length m' e = mm_length m e" "mm_type m' e = mm_type m e"
proof -
  note l = agree_field [OF assms]
  from l [of 0] l [of 4] l [of 8] l [of 12] l [of 16] l [of 20]
  show "mm_size m' e = mm_size m e" "mm_base_addr m' e = mm_base_addr m e"
    "mm_length m' e = mm_length m e" "mm_type m' e = mm_type m e"
    by (simp_all add: mm_size_def mm_base_addr_def mm_length_def mm_type_def load64_def add.assoc)
qed

lemma bits_only_agree:
  "bits_only bs m m' \<Longrightarrow> agree_off (bs_bits m bs) (4 * unat (bs_sz m bs)) m m'"
  by (simp add: bits_only_def agree_off_def outside_bits_def)

lemma bits_only_entry:
  assumes "bits_only bs m m'" "outside_bits m bs e 24" "0 < unat (bs_sz m bs)"
  shows "mm_size m' e = mm_size m e" "mm_base_addr m' e = mm_base_addr m e"
    "mm_length m' e = mm_length m e" "mm_type m' e = mm_type m e"
  using agree_entry [OF bits_only_agree [OF assms(1)]] assms by (simp_all add: outside_bits_def)

lemma reserve_loop_marks:
  assumes "bs_ok m fr" "outside_bits m fr e 24" "0 < unat (bs_sz m fr)"
    "unat (mm_length m e) + 4096 \<le> 2 ^ 64" "unat i = 4096 * k0"
  shows "\<exists>m'. reserve_loop fr e i m = Some m' \<and> bits_only fr m m' \<and>
    (\<forall>j<bs_get_size m fr. bs_bit m' fr j \<longleftrightarrow> bs_bit m fr j \<or>
       (\<exists>k\<ge>k0. 4096 * k < unat (mm_length m e) \<and> j = page_frame (mm_base_addr m e) k))"
  using assms
proof (induction "unat (mm_length m e) - unat i" arbitrary: m i k0 rule: less_induct)
  case less
  note ok = less.prems(1)
  show ?case
  proof (cases "i < mm_length m e")
    case False
    then have "\<not> 4096 * k < unat (mm_length m e)" if "k0 \<le> k" for k
      using that less.prems(5) by (simp add: word_less_nat_alt)
    then show ?thesis
      using False bits_only_refl [OF ok] by (subst reserve_loop.simps) auto
  next
    case True
    let ?b = "mm_base_addr m e" and ?m = "bs_set fr (page_frame (mm_base_addr m e) k0) m"
    have "i = word_of_nat (4096 * k0)" by (simp flip: less.prems(5))
    then have i: "i = 4096 * word_of_nat k0" by simp
    have lt: "unat i < unat (mm_length m e)" using True by (simp add: word_less_nat_alt)
    have nxt: "unat (i + 0x1000) = 4096 * Suc k0"
      using lt less.prems(4,5) by (subst unat_add_lem [THEN iffD1]) simp_all
    have bo: "bits_only fr m ?m" using bits_only_set [OF ok] .
    note e = bits_only_entry [OF bo less.prems(2,3)]
    have "outside_bits ?m fr e 24" "0 < unat (bs_sz ?m fr)" "bs_ok ?m fr"
      using bo less.prems(2,3) by (simp_all add: bits_only_def outside_bits_def)
    moreover have "unat (mm_length ?m e) - unat (i + 0x1000) < unat (mm_length m e) - unat i"
      using lt nxt less.prems(5) e by simp
    ultimately obtain m' where m': "reserve_loop fr e (i + 0x1000) ?m = Some m'" "bits_only fr ?m m'"
      "\<forall>j<bs_get_size m fr. bs_bit m' fr j \<longleftrightarrow> bs_bit ?m fr j \<or>
         (\<exists>k\<ge>Suc k0. 4096 * k < unat (mm_length m e) \<and> j = page_frame ?b k)"
      using less.hyps [of ?m "i + 0x1000" "Suc k0"] nxt less.prems(4) e bs_set_facts(4) [OF ok]
      by auto
    have "\<not> 0xffffffff < (ucast (?b + i) :: u32)"
      using unat_bound32 [of "ucast (?b + i)"] by (simp add: word_less_nat_alt)
    then have r: "reserve_loop fr e i m = Some m'"
      using True m'(1) by (subst reserve_loop.simps) (simp add: Let_def page_frame_def i)
    have lt': "4096 * k0 < unat (mm_length m e)" using lt less.prems(5) by simp
    have split: "(\<exists>k\<ge>k0. 4096 * k < unat (mm_length m e) \<and> j = page_frame ?b k) \<longleftrightarrow>
        j = page_frame ?b k0 \<or> (\<exists>k\<ge>Suc k0. 4096 * k < unat (mm_length m e) \<and> j = page_frame ?b k)" for j
      using lt' by (auto simp: le_eq_less_or_eq [of k0] Suc_le_eq)
    have "bs_bit m' fr j \<longleftrightarrow> bs_bit m fr j \<or>
        (\<exists>k\<ge>k0. 4096 * k < unat (mm_length m e) \<and> j = page_frame ?b k)"
      if "j < bs_get_size m fr" for j
      unfolding split using m'(3) that bs_set_facts(5) [OF ok that, of "page_frame ?b k0"] by metis
    then show ?thesis
      using r bits_only_trans [OF bo m'(2)] by blast
  qed
qed

fun map_ok :: "u32 \<Rightarrow> nat \<Rightarrow> u32 \<Rightarrow> (u32 \<times> u64 \<times> u64 \<times> u32) list \<Rightarrow> bool" where
  "map_ok a n p [] = True"
| "map_ok a n p ((sz, b, l, ty) # es) =
     (apart a n p 24 \<and> (ty = 2 \<longrightarrow> unat l + 4096 \<le> 2 ^ 64) \<and> map_ok a n (p + sz + 4) es)"

definition map_outside :: "mem \<Rightarrow> u32 \<Rightarrow> u32 \<Rightarrow> (u32 \<times> u64 \<times> u64 \<times> u32) list \<Rightarrow> bool" where
  "map_outside m bs = map_ok (bs_bits m bs) (4 * unat (bs_sz m bs))"

definition span :: "(u32 \<times> u64 \<times> u64 \<times> u32) list \<Rightarrow> nat" where
  "span es = (\<Sum>(sz, b, l, ty)\<leftarrow>es. unat sz + 4)"

definition mmap_end :: "mem \<Rightarrow> u32 \<Rightarrow> u32" where
  "mmap_end m mb = P2V (mb_mmap_addr m mb) + mb_mmap_length m mb"

lemma map_ok_shift:
  "map_ok a n p es \<Longrightarrow> unat c + n' \<le> n \<Longrightarrow> 0 < n' \<Longrightarrow> map_ok (a + c) n' p es"
  by (induction a n p es rule: map_ok.induct) (auto intro: apart_shift_left)

lemma agree_entries:
  "agree_off a n m m' \<Longrightarrow> 0 < n \<Longrightarrow> map_ok a n p es \<Longrightarrow> mmap_entries m p es \<Longrightarrow> mmap_entries m' p es"
  by (induction m p es rule: mmap_entries.induct) (auto simp: agree_entry)

lemma agree_mmap:
  assumes "agree_off a n m m'" "0 < n" "apart a n mb 52"
  shows "mmap_end m' mb = mmap_end m mb" "mb_mmap_addr m' mb = mb_mmap_addr m mb"
  using agree_field [OF assms, of 44] agree_field [OF assms, of 48]
  by (simp_all add: mmap_end_def mb_mmap_addr_def mb_mmap_length_def)

lemma map_outside_bits_only: "bits_only bs m m' \<Longrightarrow> map_outside m' bs = map_outside m bs"
  by (simp add: map_outside_def bits_only_def)

lemma mmap_entries_bits_only:
  "bits_only bs m m' \<Longrightarrow> 0 < unat (bs_sz m bs) \<Longrightarrow> map_outside m bs p es \<Longrightarrow> mmap_entries m p es \<Longrightarrow>
    mmap_entries m' p es"
  using agree_entries [OF bits_only_agree] by (simp add: map_outside_def)

lemma mmap_end_bits_only:
  "bits_only bs m m' \<Longrightarrow> 0 < unat (bs_sz m bs) \<Longrightarrow> outside_bits m bs mb 52 \<Longrightarrow>
    mmap_end m' mb = mmap_end m mb"
  using agree_mmap [OF bits_only_agree] by (simp add: outside_bits_def)

text \<open>One entry of the map.\<close>

definition reserve_entry :: "u32 \<Rightarrow> 'a pmm_state_scheme \<Rightarrow> 'a pmm_state_scheme option" where
  "reserve_entry mmap s =
     (if mm_type (ram s) mmap = 2 then
        do {
          s \<leftarrow> kprintf (str ''mmap type 2: 0x%x \<newline>'') [KInt (ucast (mm_length (ram s) mmap))] s;
          m \<leftarrow> reserve_loop (frames s) mmap 0 (ram s);
          Some (s\<lparr>ram := m\<rparr>)
        }
      else Some s)"

lemma reserve_entry_marks:
  assumes "bs_ok (ram s) (frames s)" "0 < unat (bs_sz (ram s) (frames s))" "itoa_buf_ok (itoa_buf s)"
    "mmap_entries (ram s) p ((sz, b, l, ty) # es)" "map_outside (ram s) (frames s) p ((sz, b, l, ty) # es)"
  shows "\<exists>s'. reserve_entry p s = Some s' \<and> console_only (s\<lparr>ram := ram s'\<rparr>) s' \<and>
    itoa_buf_ok (itoa_buf s') \<and> bits_only (frames s) (ram s) (ram s') \<and>
    (\<forall>j<bs_get_size (ram s) (frames s). bs_bit (ram s') (frames s) j \<longleftrightarrow>
       bs_bit (ram s) (frames s) j \<or> reserved [(sz, b, l, ty)] j)"
proof (cases "ty = 2")
  case False
  then show ?thesis
    using assms bits_only_refl by (auto simp: reserve_entry_def reserved_def intro!: exI [of _ s])
next
  case True
  have e: "mm_length (ram s) p = l" "mm_base_addr (ram s) p = b" "mm_type (ram s) p = 2"
    "outside_bits (ram s) (frames s) p 24" "unat l + 4096 \<le> 2 ^ 64"
    using assms(4,5) True by (simp_all add: map_outside_def outside_bits_def)
  obtain t where t: "kprintf (str ''mmap type 2: 0x%x \<newline>'') [KInt (ucast l)] s = Some t"
      "itoa_buf_ok (itoa_buf t)"
    using kprintf_matches [OF _ assms(3), of "str ''mmap type 2: 0x%x \<newline>''" "[KInt (ucast l)]"] by auto
  note co = kprintf_console [OF t(1)]
  note same = console_only_pmm(1,2) [OF co]
  obtain m' where m': "reserve_loop (frames s) p 0 (ram s) = Some m'" "bits_only (frames s) (ram s) m'"
    "\<forall>j<bs_get_size (ram s) (frames s). bs_bit m' (frames s) j \<longleftrightarrow> bs_bit (ram s) (frames s) j \<or>
       (\<exists>k\<ge>0. 4096 * k < unat l \<and> j = page_frame b k)"
    using reserve_loop_marks [OF assms(1) e(4) assms(2), of 0 0] e by auto
  have "reserve_entry p s = Some (t\<lparr>ram := m'\<rparr>)"
    unfolding reserve_entry_def using t(1) m'(1) e same by simp
  moreover have "console_only (s\<lparr>ram := m'\<rparr>) (t\<lparr>ram := m'\<rparr>)"
    using co by (auto simp: console_only_def)
  ultimately show ?thesis
    using m' t(2) True by (auto simp: reserved_def)
qed

lemma mmap_loop_step:
  "mmap_loop mb p s = (if p < mmap_end (ram s) mb
     then do { s \<leftarrow> reserve_entry p s; mmap_loop mb (p + mm_size (ram s) p + 4) s } else Some s)"
  by (subst mmap_loop.simps) (simp add: mmap_end_def reserve_entry_def)

lemma mmap_loop_marks:
  assumes "bs_ok (ram s) (frames s)" "0 < unat (bs_sz (ram s) (frames s))" "itoa_buf_ok (itoa_buf s)"
    "mmap_entries (ram s) p es" "map_outside (ram s) (frames s) p es"
    "outside_bits (ram s) (frames s) mb 52" "unat p + span es = unat (mmap_end (ram s) mb)"
  shows "\<exists>s'. mmap_loop mb p s = Some s' \<and> console_only (s\<lparr>ram := ram s'\<rparr>) s' \<and>
    itoa_buf_ok (itoa_buf s') \<and> bits_only (frames s) (ram s) (ram s') \<and>
    (\<forall>j<bs_get_size (ram s) (frames s). bs_bit (ram s') (frames s) j \<longleftrightarrow>
       bs_bit (ram s) (frames s) j \<or> reserved es j)"
  using assms
proof (induction es arbitrary: p s)
  case Nil
  then have "\<not> p < mmap_end (ram s) mb" by (simp add: span_def word_less_nat_alt)
  then show ?case
    using Nil bits_only_refl by (subst mmap_loop_step) (auto simp: reserved_def)
next
  case (Cons e es)
  obtain sz b l ty where e: "e = (sz, b, l, ty)" by (cases e)
  note prems = Cons.prems [unfolded e]
  obtain t where t: "reserve_entry p s = Some t" "console_only (s\<lparr>ram := ram t\<rparr>) t"
    "itoa_buf_ok (itoa_buf t)" "bits_only (frames s) (ram s) (ram t)"
    "\<forall>j<bs_get_size (ram s) (frames s). bs_bit (ram t) (frames s) j \<longleftrightarrow>
       bs_bit (ram s) (frames s) j \<or> reserved [(sz, b, l, ty)] j"
    using reserve_entry_marks [OF prems(1-5)] by blast
  have fr: "frames t = frames s" using console_only_pmm(1) [OF t(2)] by simp
  have fin: "unat p + unat sz + 4 + span es = unat (mmap_end (ram s) mb)"
    using prems(7) by (simp add: span_def)
  then have lt: "p < mmap_end (ram s) mb" by (simp add: word_less_nat_alt)
  have nxt: "unat (p + sz + 4) = unat p + unat sz + 4"
    using fin unat_bound32 [of "mmap_end (ram s) mb"] by (simp add: unat_word_ariths)
  have pos: "0 < unat (bs_sz (ram t) (frames t))" "bs_ok (ram t) (frames t)"
    "bs_get_size (ram t) (frames t) = bs_get_size (ram s) (frames s)"
    using t(4) prems(2) fr by (simp_all add: bits_only_def bs_get_size_def)
  have rest: "mmap_entries (ram s) (p + sz + 4) es" "map_outside (ram s) (frames s) (p + sz + 4) es"
    using prems(4,5) by (simp_all add: map_outside_def)
  have size: "mm_size (ram t) p = sz"
    using bits_only_entry(1) [OF t(4) _ prems(2)] prems(4,5) by (simp add: map_outside_def outside_bits_def)
  have out: "outside_bits (ram t) (frames t) mb 52"
    using prems(6) t(4) fr by (simp add: bits_only_def outside_bits_def)
  obtain s' where s': "mmap_loop mb (p + sz + 4) t = Some s'" "console_only (t\<lparr>ram := ram s'\<rparr>) s'"
    "itoa_buf_ok (itoa_buf s')" "bits_only (frames s) (ram t) (ram s')"
    "\<forall>j<bs_get_size (ram s) (frames s). bs_bit (ram s') (frames s) j \<longleftrightarrow>
       bs_bit (ram t) (frames s) j \<or> reserved es j"
    using Cons.IH [OF pos(2,1) t(3) _ _ out, of "p + sz + 4"] mmap_entries_bits_only [OF t(4) prems(2) rest(2,1)]
      map_outside_bits_only [OF t(4)] rest(2) fin nxt mmap_end_bits_only [OF t(4) prems(2,6)] pos(3) fr
    by auto
  have "mmap_loop mb p s = Some s'"
    using lt t(1) s'(1) size by (subst mmap_loop_step) simp
  moreover have "console_only (s\<lparr>ram := ram s'\<rparr>) s'"
    using t(2) s'(2) by (simp add: console_only_def)
  moreover have "reserved ((sz, b, l, ty) # es) j \<longleftrightarrow> reserved [(sz, b, l, ty)] j \<or> reserved es j" for j
    by (auto simp: reserved_def)
  ultimately show ?case
    unfolding e using s'(3,5) bits_only_trans [OF t(4) s'(4)] t(5) by auto
qed

text \<open>
  What \<open>pmm_init\<close> expects of the boot loader: less than 4 GB of memory, and a memory map \<open>es\<close> and
  a multiboot structure that lie apart from the region the bit set is going to be allocated in.
\<close>

definition bitset_bytes :: "mem \<Rightarrow> u32 \<Rightarrow> nat" where
  "bitset_bytes m mb = 8 + 4 * (unat (mb_mem_upper m mb + mb_mem_lower m mb) div 128 + 1)"

definition boot_info :: "u32 \<Rightarrow> (u32 \<times> u64 \<times> u64 \<times> u32) list \<Rightarrow> 'a pmm_state_scheme \<Rightarrow> bool" where
  "boot_info mb es s \<longleftrightarrow>
     (let m = ram s; p = P2V (mb_mmap_addr m mb); a = alloc_ptr s; n = bitset_bytes m mb in
      unat (mb_mem_upper m mb + mb_mem_lower m mb) < 2 ^ 22 \<and> unat a + n < 2 ^ 32 \<and>
      apart a n mb 52 \<and> map_ok a n p es \<and> mmap_entries m p es \<and>
      unat p + span es = unat (mmap_end m mb))"

lemma pmm_init_effect:
  assumes early: "early s" and buf: "itoa_buf_ok (itoa_buf s)" and info: "boot_info mb es s"
  shows "\<exists>s'. pmm_init mb s = Some s' \<and> pmm_ok s' \<and> frames s' = alloc_ptr s \<and>
    itoa_buf_ok (itoa_buf s') \<and>
    unat (alloc_ptr s') = unat (alloc_ptr s) + bitset_bytes (ram s) mb \<and>
    console_only (s\<lparr>frames := frames s', alloc_ptr := alloc_ptr s', ram := ram s'\<rparr>) s' \<and>
    (\<forall>j<bs_get_size (ram s') (frames s'). j \<in> free_frames s' \<longleftrightarrow> \<not> reserved es j \<and>
       \<not> bit (load32 (ram s) (alloc_ptr s + 8 + 4 * (j div 32))) (unat (j mod 32))) \<and>
    8 + 4 * unat (bs_sz (ram s') (frames s')) = bitset_bytes (ram s) mb \<and>
    bs_bits (ram s') (frames s') = frames s' + 8 \<and>
    agree_off (alloc_ptr s) (bitset_bytes (ram s) mb) (ram s) (ram s')"
proof -
  let ?m = "ram s" and ?a = "alloc_ptr s" and ?n = "bitset_bytes (ram s) mb"
  let ?kb = "mb_mem_upper ?m mb + mb_mem_lower ?m mb" and ?p = "P2V (mb_mmap_addr ?m mb)"
  let ?w = "unat ?kb div 128 + 1"
  have i: "unat ?kb < 2 ^ 22" "unat ?a + ?n < 2 ^ 32" "apart ?a ?n mb 52" "map_ok ?a ?n ?p es"
    "mmap_entries ?m ?p es" "unat ?p + span es = unat (mmap_end ?m mb)"
    using info by (simp_all add: boot_info_def Let_def)
  have n: "?n = 8 + 4 * ?w" by (simp add: bitset_bytes_def)
  have w: "unat (?kb div 4) div 32 + 1 = ?w" by (simp add: unat_div div_mult2_eq [symmetric])
  have w15: "?w \<le> 2 ^ 15" using i(1) by simp
  obtain t where t: "kprintf (str ''allocating %d page frames \<newline>'') [KInt (?kb div 4)] s = Some t"
    "itoa_buf_ok (itoa_buf t)"
    using kprintf_matches [OF _ buf, of "str ''allocating %d page frames \<newline>''" "[KInt (?kb div 4)]"] by auto
  note co = kprintf_console [OF t(1)]
  have same: "ram t = ?m" "alloc_ptr t = ?a" "early t"
    by (rule console_onlyE [OF co], use early in \<open>simp add: early_def\<close>)+
  have "unat (?kb div 4) < 2 ^ 27" using i(1) by (simp add: unat_div)
  then obtain u where u: "bs_init (?kb div 4) t = Some (?a, u)" "bs_ok (ram u) ?a"
    "unat (bs_sz (ram u) ?a) = ?w" "bs_bits (ram u) ?a = ?a + 8"
    "\<forall>j<bs_get_size (ram u) ?a. bs_bit (ram u) ?a j =
       bit (load32 ?m (?a + 8 + 4 * (j div 32))) (unat (j mod 32))"
    "u = t\<lparr>alloc_ptr := alloc_ptr u, ram := ram u\<rparr>" "unat (alloc_ptr u) = unat ?a + ?n"
    "agree_off ?a 8 ?m (ram u)"
    using bs_init_early [OF same(3), of "?kb div 4"] i(2) n w unfolding same agree_off_def by auto
  let ?u = "u\<lparr>frames := ?a\<rparr>"
  have a8: "apart ?a 8 mb 52" "map_ok ?a 8 ?p es"
    using apart_mono [OF i(3), of 8 52] map_ok_shift [OF i(4), of 0 8] n by simp_all
  have out: "outside_bits (ram u) ?a mb 52" "map_outside (ram u) ?a ?p es"
    using apart_shift_left [OF i(3), of 8 "4 * ?w"] map_ok_shift [OF i(4), of 8 "4 * ?w"] n u(3,4)
    by (simp_all add: outside_bits_def map_outside_def)
  note mm = agree_mmap [OF u(8) _ a8(1)]
  have bufu: "itoa_buf_ok (itoa_buf ?u)" using t(2) by (subst u(6)) simp
  obtain s' where s': "mmap_loop mb ?p ?u = Some s'" "console_only (?u\<lparr>ram := ram s'\<rparr>) s'"
    "itoa_buf_ok (itoa_buf s')" "bits_only ?a (ram u) (ram s')"
    "\<forall>j<bs_get_size (ram u) ?a. bs_bit (ram s') ?a j \<longleftrightarrow> bs_bit (ram u) ?a j \<or> reserved es j"
    using mmap_loop_marks [of ?u ?p es mb] u(2,3) bufu agree_entries [OF u(8) _ a8(2) i(5)] out mm i(6)
    by auto
  have r: "pmm_init mb s = Some s'"
    using t(1) u(1) s'(1) mm same by (simp add: pmm_init_def Let_def)
  have fr: "frames s' = ?a" "alloc_ptr s' = alloc_ptr u"
    using console_only_pmm(1,5) [OF s'(2)] by simp_all
  have "console_only (s\<lparr>frames := frames s', alloc_ptr := alloc_ptr s', ram := ram s'\<rparr>) s'"
  proof -
    have "console_only (s\<lparr>frames := ?a, alloc_ptr := alloc_ptr u, ram := ram s'\<rparr>) (?u\<lparr>ram := ram s'\<rparr>)"
    proof -
      obtain q c v b where "t = s\<lparr>ports := q, cursor := c, vga_mem := v, itoa_buf := b\<rparr>"
        by (rule console_onlyE [OF co])
      then have "\<exists>A R. u = s\<lparr>ports := q, cursor := c, vga_mem := v, itoa_buf := b, alloc_ptr := A, ram := R\<rparr>"
        using u(6) by auto
      then show ?thesis by (cases s) (auto simp: console_only_def)
    qed
    then show ?thesis using s'(2) fr console_only_trans by simp
  qed
  moreover have sz: "bs_get_size (ram s') ?a = bs_get_size (ram u) ?a" "pmm_ok s'"
    using s'(4) u(3) w15 fr by (simp_all add: bits_only_def bs_get_size_def pmm_ok_def)
  moreover have "8 + 4 * unat (bs_sz (ram s') ?a) = ?n" "bs_bits (ram s') ?a = ?a + 8"
    using s'(4) u(3,4) n by (simp_all add: bits_only_def)
  moreover have "load32 (ram s') x = load32 ?m x" if x: "apart ?a ?n x 4" for x
  proof -
    have "apart ?a 8 x 4" "apart (?a + 8) (4 * ?w) x 4"
      using apart_mono [OF x, of 8 4] apart_shift_left [OF x, of 8 "4 * ?w"] n by simp_all
    then show ?thesis using s'(4) u(3,4,8) by (simp add: bits_only_def agree_off_def outside_bits_def)
  qed
  then have "agree_off ?a ?n ?m (ram s')" by (simp add: agree_off_def)
  ultimately show ?thesis
    using r fr s'(3,5) u(5,7) by (auto simp: free_frames_iff)
qed

section \<open>Properties\<close>

definition pmm0 :: pmm_state where
  "pmm0 = paging_state.extend paging0 \<lparr>frames = 0x1000\<rparr>"

definition pmm_example :: pmm_state where
  "pmm_example = pmm0\<lparr>ram := bs_example\<rparr>"

lemma pmm_example_facts:
  "pmm_ok pmm_example" "ram pmm_example = bs_example" "frames pmm_example = 0x1000"
  using bs_example_facts
  by (simp_all add: pmm_ok_def pmm_example_def pmm0_def paging0_def paging_state.defs bs_get_size_def)
    (simp add: bs_example_def bs_sz_def load32_store32_apart)

lemma pmm_example_free: "free_frames pmm_example \<noteq> {}"
proof -
  have "load32 bs_example 0x2000 = 0"
    unfolding bs_example_def by (simp add: load32_store32_apart) (simp add: load32_def)
  moreover have "bs_bits bs_example 0x1000 = 0x2000"
    by (simp add: bs_example_def bs_bits_def)
  ultimately have "0 \<in> free_frames pmm_example"
    using bs_example_facts(2)
    by (simp add: free_frames_iff pmm_example_facts bs_bit_def word_ref_def)
  then show ?thesis by auto
qed

text \<open>
  C9. While a frame is free, \<open>get_frame\<close> hands out the least free one: a page-aligned address
  whose frame was free and is marked afterwards, with the state of every other frame and every
  word outside the bit set unchanged.  Handing its index to \<open>free_frame\<close> restores the free frames.
\<close>

theorem get_frame_fresh:
  assumes "pmm_ok s" "free_frames s \<noteq> {}"
  shows "\<exists>f s'. get_frame s = Some (f, s') \<and> f mod PG_SZ = 0 \<and> f \<noteq> 0xffffffff \<and>
    f div PG_SZ \<in> free_frames s \<and> (\<forall>i\<in>free_frames s. f div PG_SZ \<le> i) \<and>
    pmm_ok s' \<and> free_frames s' = free_frames s - {f div PG_SZ} \<and>
    (\<forall>a. outside_bits (ram s) (frames s) a 4 \<longrightarrow> load32 (ram s') a = load32 (ram s) a) \<and>
    free_frames (free_frame (f div PG_SZ) s') = free_frames s"
proof -
  define i where "i = Min (free_frames s)"
  then have i: "i \<in> free_frames s" "\<forall>j\<in>free_frames s. i \<le> j"
    "get_frame s = Some (i * PG_SZ, s\<lparr>ram := bs_set (frames s) i (ram s)\<rparr>)"
    using get_frame_some [OF assms] assms(2) by simp_all
  let ?t = "s\<lparr>ram := bs_set (frames s) i (ram s)\<rparr>"
  have lt: "i < bs_get_size (ram s) (frames s)" using i(1) by (simp add: free_frames_iff)
  note f = frame_of_index [OF index_small [OF assms(1) lt]]
  have ok: "pmm_ok ?t" using bs_set_pmm_ok [OF assms(1)] .
  have mark: "free_frames ?t = free_frames s - {i}" using free_frames_mark [OF assms(1)] .
  have "bs_get_size (ram ?t) (frames ?t) = bs_get_size (ram s) (frames s)"
    using bs_set_facts(4) [OF pmm_ok_bs [OF assms(1)]] by simp
  then have "free_frames (free_frame i ?t) = free_frames s"
    using free_frames_release [OF ok, of i] mark lt i(1)
    by (auto simp: free_frame_def)
  then have restored: "free_frames (free_frame (i * PG_SZ div PG_SZ) ?t) = free_frames s"
    by (simp only: f(2))
  have off: "\<forall>a. outside_bits (ram s) (frames s) a 4 \<longrightarrow> load32 (ram ?t) a = load32 (ram s) a"
    using bits_only_set [OF pmm_ok_bs [OF assms(1)], of i] by (simp add: bits_only_def)
  show ?thesis
  proof (intro exI conjI)
    show "get_frame s = Some (i * PG_SZ, ?t)" by (rule i(3))
    show "i * PG_SZ mod PG_SZ = 0" "i * PG_SZ \<noteq> 0xffffffff" "pmm_ok ?t" by (rule f(3,4) ok)+
    show "i * PG_SZ div PG_SZ \<in> free_frames s" "\<forall>j\<in>free_frames s. i * PG_SZ div PG_SZ \<le> j"
      "free_frames ?t = free_frames s - {i * PG_SZ div PG_SZ}"
      unfolding f(2) by (rule i(1,2) mark)+
  qed (rule off restored)+
qed

theorem get_frame_fresh_witness:
  "\<exists>f s'. get_frame pmm_example = Some (f, s') \<and> f mod PG_SZ = 0 \<and>
    free_frames (free_frame (f div PG_SZ) s') = free_frames pmm_example"
  using get_frame_fresh [OF pmm_example_facts(1) pmm_example_free] by (elim exE conjE) (intro exI conjI)

text \<open>
  C8. A sequence of \<open>n\<close> requests hands out frames in increasing order, each free at the start and
  no two the same, as many as there are free frames but at most \<open>n\<close>; every further request gets
  the error value \<open>0xffffffff\<close>, and afterwards exactly the handed out frames are no longer free.
\<close>

theorem frames_handed_out_once:
  assumes "pmm_ok s"
  shows "\<exists>is s'. get_frames n s =
      Some (map (\<lambda>i. i * PG_SZ) is @ replicate (n - length is) 0xffffffff, s') \<and>
    sorted_wrt (<) is \<and> distinct (map (\<lambda>i. i * PG_SZ) is) \<and> set is \<subseteq> free_frames s \<and>
    length is = min n (card (free_frames s)) \<and> free_frames s' = free_frames s - set is"
proof -
  obtain "is" s' where s': "bm.take_many (frames s) n (ram s) = (is, ram s')" "frames s' = frames s"
    "get_frames n s = Some (map (\<lambda>i. i * PG_SZ) is @ replicate (n - length is) 0xffffffff, s')"
    using get_frames_take_many [OF assms, of n] by blast
  note t = bm.take_many_distinct [OF pmm_ok_bs [OF assms], of n]
    bm.take_many_sorted [OF pmm_ok_bs [OF assms], of n]
  have "inj_on (\<lambda>i. i * PG_SZ) (free_frames s)"
    by (rule inj_on_inverseI [of _ "\<lambda>a. a div PG_SZ"])
      (use index_small [OF assms] frame_of_index(2) in \<open>auto simp: free_frames_iff\<close>)
  moreover have "distinct is" using t(1) s'(1) by (simp add: strict_sorted_iff)
  moreover have "set is \<subseteq> free_frames s" using t(2) s'(1) by (simp add: free_frames_def)
  ultimately have "distinct (map (\<lambda>i. i * PG_SZ) is)" by (simp add: distinct_map inj_on_subset)
  then show ?thesis
    using s' t by (intro exI [of _ "is"] exI [of _ s']) (simp add: free_frames_def)
qed

theorem frames_handed_out_once_witness:
  "\<exists>is s'. get_frames 100 pmm_example =
      Some (map (\<lambda>i. i * PG_SZ) is @ replicate (100 - length is) 0xffffffff, s') \<and> distinct is"
  using frames_handed_out_once [OF pmm_example_facts(1), of 100] by (auto simp: distinct_map)

text \<open>
  \<open>set_frame\<close> answers 1 and marks the frame exactly when the bit set has a bit for it;
  otherwise it answers 0 and changes nothing.
\<close>

theorem set_frame_reports_range:
  assumes "pmm_ok s"
  shows "fst (set_frame a s) = of_bool (a div PG_SZ < bs_get_size (ram s) (frames s)) \<and>
    (fst (set_frame a s) = 0 \<longrightarrow> snd (set_frame a s) = s) \<and>
    pmm_ok (snd (set_frame a s)) \<and>
    free_frames (snd (set_frame a s)) = free_frames s - {a div PG_SZ}"
proof (cases "a div PG_SZ < bs_get_size (ram s) (frames s)")
  case True
  then show ?thesis
    using bs_set_pmm_ok [OF assms] free_frames_mark [OF assms] by (simp add: set_frame_def Let_def)
next
  case False
  then show ?thesis using assms by (auto simp: set_frame_def Let_def free_frames_iff)
qed

theorem set_frame_reports_range_witness:
  "set_frame 0x40000 pmm_example = (0, pmm_example)"
  using set_frame_reports_range [OF pmm_example_facts(1), of "0x40000"] bs_example_facts
  by (simp add: pmm_example_facts PG_SZ_def prod_eq_iff)

text \<open>
  The frames a region of memory covers: those that hold one of its bytes.  The loop of \<open>pmm_init\<close> steps by
  pages from the base of the region, so it misses the last one when the base is further into its page than
  the end is into the last page.
\<close>

definition covers :: "u64 \<Rightarrow> u64 \<Rightarrow> u32 \<Rightarrow> bool" where
  "covers b l f \<longleftrightarrow> (\<exists>a. unat b \<le> a \<and> a < unat b + unat l \<and> a div 4096 = unat f)"

definition missed :: "u64 \<Rightarrow> u64 \<Rightarrow> u32 \<Rightarrow> bool" where
  "missed b l f \<longleftrightarrow> unat f = (unat b + unat l - 1) div 4096 \<and> 4096 \<le> unat b mod 4096 + (unat l - 1) mod 4096"

lemma page_frame_nat:
  assumes "unat b + 4096 * k < 2 ^ 32"
  shows "unat (page_frame b k) = (unat b + 4096 * k) div 4096"
proof -
  have "unat (b + 4096 * word_of_nat k) = unat b + 4096 * k"
    using assms by (simp add: unat_word_ariths unat_of_nat)
  then have "unat (ucast (b + 4096 * word_of_nat k) :: u32) = unat b + 4096 * k"
    using assms by (simp add: unsigned_ucast_eq take_bit_nat_eq_self_iff)
  moreover have "unat ((x AND 0xfffff000) div PG_SZ) = unat x div 4096" for x :: u32
  proof -
    have "unat x = unat (x AND 0xfffff000) + unat x mod 4096" using page_split [of x] by blast
    then have "unat (x AND 0xfffff000) = unat x div 4096 * 4096" by (simp add: minus_mod_eq_div_mult [symmetric])
    then show ?thesis by (simp add: unat_div PG_SZ_def)
  qed
  ultimately show ?thesis by (simp add: page_frame_def)
qed

lemma covered_pages:
  "(\<exists>a. b \<le> a \<and> a < b + l \<and> a div 4096 = j) \<longleftrightarrow> 0 < l \<and> b div 4096 \<le> j \<and> j \<le> (b + l - 1) div 4096"
  for b l j :: nat
proof
  assume "\<exists>a. b \<le> a \<and> a < b + l \<and> a div 4096 = j"
  then obtain a where a: "b \<le> a" "a < b + l" "a div 4096 = j" by blast
  moreover have "a div 4096 \<le> (b + l - 1) div 4096" by (rule div_le_mono) (use a in simp)
  ultimately show "0 < l \<and> b div 4096 \<le> j \<and> j \<le> (b + l - 1) div 4096" using div_le_mono [of b a 4096] by auto
next
  assume h: "0 < l \<and> b div 4096 \<le> j \<and> j \<le> (b + l - 1) div 4096"
  show "\<exists>a. b \<le> a \<and> a < b + l \<and> a div 4096 = j"
    by (rule exI [of _ "max b (4096 * j)"]) (use h in \<open>auto simp: max_def\<close>)
qed

lemma stepped_pages:
  "b div 4096 \<le> j \<and> 4096 * (j - b div 4096) < l \<longleftrightarrow>
    (0 < l \<and> b div 4096 \<le> j \<and> j \<le> (b + l - 1) div 4096) \<and>
    \<not> (j = (b + l - 1) div 4096 \<and> 4096 \<le> b mod 4096 + (l - 1) mod 4096)" for b l j :: nat
proof (cases "0 < l \<and> b div 4096 \<le> j")
  case True
  define B m q r k where "B = b div 4096" and "m = b mod 4096" and "q = (l - 1) div 4096" and "r = (l - 1) mod 4096"
    and "k = j - B"
  have b: "b = 4096 * B + m" "l = 4096 * q + r + 1" "j = B + k" "m < 4096" "r < 4096"
    using True by (simp_all add: B_def m_def q_def r_def k_def)
  have "b + l - 1 = 4096 * (B + q) + (m + r)" using b by simp
  then have e: "(b + l - 1) div 4096 = B + q + (m + r) div 4096" by simp
  have "4096 * k < l \<longleftrightarrow> k \<le> q" using b by auto
  moreover have "(m + r) div 4096 = (if 4096 \<le> m + r then 1 else 0)" using b by (auto simp: div_nat_eqI)
  ultimately show ?thesis using True e b(3) unfolding B_def [symmetric] m_def [symmetric] r_def [symmetric] by auto
qed auto

lemma visited_covers:
  assumes "unat b + unat l \<le> 2 ^ 32"
  shows "(\<exists>k. 4096 * k < unat l \<and> j = page_frame b k) \<longleftrightarrow> covers b l j \<and> \<not> missed b l j"
proof -
  let ?b = "unat b" and ?l = "unat l" and ?j = "unat j"
  have "(\<exists>k. 4096 * k < ?l \<and> j = page_frame b k) \<longleftrightarrow> (\<exists>k. 4096 * k < ?l \<and> ?j = ?b div 4096 + k)"
    using assms page_frame_nat by (auto simp: word_unat_eq_iff)
  also have "\<dots> \<longleftrightarrow> ?b div 4096 \<le> ?j \<and> 4096 * (?j - ?b div 4096) < ?l"
    by (auto intro!: exI [of _ "?j - ?b div 4096"])
  also have "\<dots> \<longleftrightarrow> covers b l j \<and> \<not> missed b l j"
    unfolding covers_def missed_def covered_pages by (rule stepped_pages)
  finally show ?thesis .
qed

lemma reserved_covers:
  assumes "\<forall>(sz, b, l, ty)\<in>set es. ty = 2 \<longrightarrow> unat b + unat l \<le> 2 ^ 32"
  shows "reserved es j \<longleftrightarrow> (\<exists>(sz, b, l, ty)\<in>set es. ty = 2 \<and> covers b l j \<and> \<not> missed b l j)"
  unfolding reserved_def
  by (rule bex_cong [OF refl]) (use assms visited_covers in fastforce)

lemma not_missed: "unat b mod 4096 = 0 \<or> (unat b + unat l) mod 4096 = 0 \<Longrightarrow> \<not> missed b l j"
proof -
  have "b mod 4096 + (l - 1) mod 4096 < 4096" if "b mod 4096 = 0 \<or> (b + l) mod 4096 = 0" for b l :: nat
  proof (cases "b mod 4096 = 0 \<or> l = 0")
    case False
    define x y B q where "x = b mod 4096" and "y = (l - 1) mod 4096" and "B = b div 4096" and "q = (l - 1) div 4096"
    have e: "b = 4096 * B + x" "l - 1 = 4096 * q + y" "x < 4096" "y < 4096" by (simp_all add: x_def y_def B_def q_def)
    moreover have "0 < l" using False by simp
    moreover from this have "l = l - 1 + 1" by simp
    ultimately have "b + l = 4096 * (B + q) + (x + y + 1)" by (simp add: algebra_simps)
    then have "(b + l) mod 4096 = (x + y + 1) mod 4096" by (simp only: mod_mult_self4)
    moreover have "(b + l) mod 4096 = 0" using that False by simp
    ultimately have "(x + y + 1) mod 4096 = 0" by simp
    then obtain c where c: "x + y + 1 = 4096 * c" by (metis dvdE mod_eq_0_iff_dvd)
    then have "4096 * c < 4096 * 2" using e(3,4) by linarith
    then have "c \<le> 1" by simp
    then have "x + y < 4096" using c by linarith
    then show ?thesis by (simp add: x_def y_def)
  qed auto
  then show "unat b mod 4096 = 0 \<or> (unat b + unat l) mod 4096 = 0 \<Longrightarrow> \<not> missed b l j"
    by (simp add: missed_def not_le)
qed

text \<open>
  C25. \<open>pmm_init\<close>, given a memory map that the boot loader laid out apart from the new bit set and whose
  regions of type 2 end below 4 GB, returns; the allocator is well formed, its bit set lies at the bump
  pointer, and a frame is free exactly when the memory the bit set was put into held a zero bit for it
  and no region of type 2 covers it, but for the last page that the loop misses; it misses none of a region
  that starts or ends at a page boundary.  Nothing changes but the bit set, the bump pointer and the console.
\<close>

theorem pmm_init_reserves:
  assumes "early s" "itoa_buf_ok (itoa_buf s)" "boot_info mb es s"
    and "\<forall>(sz, b, l, ty)\<in>set es. ty = 2 \<longrightarrow> unat b + unat l \<le> 2 ^ 32"
  shows "\<exists>s'. pmm_init mb s = Some s' \<and> pmm_ok s' \<and> frames s' = alloc_ptr s \<and>
    unat (alloc_ptr s') = unat (alloc_ptr s) + bitset_bytes (ram s) mb \<and>
    console_only (s\<lparr>frames := frames s', alloc_ptr := alloc_ptr s', ram := ram s'\<rparr>) s' \<and>
    (\<forall>j<bs_get_size (ram s') (frames s'). j \<in> free_frames s' \<longleftrightarrow>
       \<not> (\<exists>(sz, b, l, ty)\<in>set es. ty = 2 \<and> covers b l j \<and> \<not> missed b l j) \<and>
       \<not> bit (load32 (ram s) (alloc_ptr s + 8 + 4 * (j div 32))) (unat (j mod 32))) \<and>
    (\<forall>b l j. (unat b mod 4096 = 0 \<or> (unat b + unat l) mod 4096 = 0) \<longrightarrow> \<not> missed b l j)"
  using pmm_init_effect [OF assms(1-3)] not_missed unfolding reserved_covers [OF assms(4)] by blast

text \<open>A boot with 32 MB: the last kilobyte of the low memory is reserved.\<close>

definition boot_words :: "(u32 \<times> u32) list" where
  "boot_words = [(0xC0009004, 0x27F), (0xC0009008, 0x7C00), (0xC000902C, 24), (0xC0009030, 0x9100),
     (0xC0009100, 20), (0xC0009104, 0x9FC00), (0xC0009108, 0), (0xC000910C, 0x400), (0xC0009110, 0),
     (0xC0009114, 2)]"

definition boot_example :: pmm_state where
  "boot_example = pmm0\<lparr>ram := fold (\<lambda>(a, v) m. store32 m a v) boot_words (\<lambda>_. 0)\<rparr>"

definition boot_entries :: "(u32 \<times> u64 \<times> u64 \<times> u32) list" where
  "boot_entries = [(20, 0x9FC00, 0x400, 2)]"

lemmas boot_example_defs = boot_example_def boot_words_def boot_entries_def pmm0_def paging0_def
  paging_state.defs heap_state.defs int_state.defs idt_state.defs gdt_state.defs klib.defs
  console.defs int0_def idt0_def gdt0_def klib0_def console0_def

lemma boot_example_ok:
  "early boot_example" "itoa_buf_ok (itoa_buf boot_example)" "boot_info 0xC0009000 boot_entries boot_example"
  by (simp_all add: boot_example_defs early_def itoa_buf_ok_def
      boot_info_def Let_def bitset_bytes_def mb_mem_upper_def mb_mem_lower_def mb_mmap_addr_def
      mb_mmap_length_def mmap_end_def P2V_def KERN_OFFSET_def span_def mm_size_def mm_base_addr_def
      mm_length_def mm_type_def load64_def load32_store32_apart apart_def)

theorem pmm_init_reserves_witness:
  "\<exists>s'. pmm_init 0xC0009000 boot_example = Some s' \<and> 0x9F \<notin> free_frames s'"
proof -
  have c: "covers 0x9FC00 0x400 0x9F" by (auto simp: covers_def intro!: exI [of _ "0x9FC00"])
  have n: "\<not> missed 0x9FC00 0x400 0x9F" by (rule not_missed) simp
  have "\<forall>(sz, b, l, ty)\<in>set boot_entries. ty = 2 \<longrightarrow> unat b + unat l \<le> 2 ^ 32" by (simp add: boot_entries_def)
  from pmm_init_reserves [OF boot_example_ok this] obtain s' where s': "pmm_init 0xC0009000 boot_example = Some s'"
    "\<forall>j<bs_get_size (ram s') (frames s'). j \<in> free_frames s' \<longleftrightarrow>
       \<not> (\<exists>(sz, b, l, ty)\<in>set boot_entries. ty = 2 \<and> covers b l j \<and> \<not> missed b l j) \<and>
       \<not> bit (load32 (ram boot_example) (alloc_ptr boot_example + 8 + 4 * (j div 32))) (unat (j mod 32))"
    by blast
  have "\<exists>(sz, b, l, ty)\<in>set boot_entries. ty = 2 \<and> covers b l 0x9F \<and> \<not> missed b l 0x9F"
    using c n by (simp add: boot_entries_def)
  then have "0x9F \<notin> free_frames s'" using s'(2) by (auto simp: free_frames_iff)
  then show ?thesis using s'(1) by blast
qed

end
