(* ===== verification/Vmm.thy ===== *)
theory Vmm
  imports Pmm
begin

text \<open>
  kern/mm/vmm.c: creating page tables, mapping and unmapping pages, the page directories of the
  kernel and of a forked task, and the stack of the idle task.  The address symbols
  \<open>stack_bottom\<close> and \<open>stack_top\<close> of kern/asm/boot.S are arguments.  A loop whose end depends on what
  the memory holds is a \<open>partial_function (option)\<close>.
\<close>

section \<open>Operations\<close>

definition get_page :: "u32 \<Rightarrow> u8 \<Rightarrow> u32 \<Rightarrow> 'a pmm_state_scheme \<Rightarrow> (u32 \<times> 'a pmm_state_scheme) option" where
  "get_page addr create pg_dir s =
     (let pd_idx = PD_IDX addr; pt_idx = PT_IDX addr in
      if dir_table (ram s) pg_dir pd_idx \<noteq> 0 then
        Some (page_ref (dir_table (ram s) pg_dir pd_idx) pt_idx, s)
      else if create \<noteq> 0 then
        do {
          (tab, phys, s) \<leftarrow> kmalloc_ap SIZEOF_PG_TAB s;
          let m = store32 (ram s) (table_ref pg_dir pd_idx) tab;
          let m = memset (dir_table m pg_dir pd_idx) 0 SIZEOF_PG_TAB m;
          let m = store32 m (phys_tab_ref pg_dir pd_idx) (phys OR PDE_P OR PDE_W OR PDE_U);
          s \<leftarrow> kprintf (str ''creating a new page table \<newline>'') [] (s\<lparr>ram := m\<rparr>);
          Some (page_ref (dir_table (ram s) pg_dir pd_idx) pt_idx, s)
        }
      else Some (0, s))"

text \<open>The user bit is the negation of the argument \<open>usr\<close>.\<close>

definition set_attributes :: "u32 \<Rightarrow> u8 \<Rightarrow> u8 \<Rightarrow> mem \<Rightarrow> mem" where
  "set_attributes pg usr write m =
     set_usr pg (of_bool (usr = 0)) (set_rw pg (ucast write) (set_present pg 1 m))"

definition map_page :: "u32 \<Rightarrow> u8 \<Rightarrow> u8 \<Rightarrow> u32 \<Rightarrow> 'a pmm_state_scheme \<Rightarrow> 'a pmm_state_scheme option" where
  "map_page pg usr write addr s =
     (let s = s\<lparr>ram := set_attributes pg usr write (ram s)\<rparr> in
      if pg_addr (ram s) pg = 0 then
        if addr \<noteq> 0 then
          (let (success, s) = set_frame addr s in
           if success \<noteq> 0 then Some (s\<lparr>ram := set_addr pg (addr div PG_SZ) (ram s)\<rparr>)
           else kprintf (str ''could not map 0x%x, out of physical range \<newline>'') [KInt addr]
                  (s\<lparr>ram := set_present pg 0 (ram s)\<rparr>))
        else
          do {
            (frame, s) \<leftarrow> get_frame s;
            if frame \<noteq> 0xffffffff then Some (s\<lparr>ram := set_addr pg (frame div PG_SZ) (ram s)\<rparr>)
            else kprintf (str ''WAIT WUT, there are no more frames?'') [] s
          }
      else Some s)"

definition unmap_page :: "u32 \<Rightarrow> 'a pmm_state_scheme \<Rightarrow> 'a pmm_state_scheme" where
  "unmap_page pg s =
     (let s = s\<lparr>ram := set_usr pg 0 (set_rw pg 0 (set_present pg 0 (ram s)))\<rparr> in
      if pg_addr (ram s) pg \<noteq> 0 then
        (let s = free_frame (pg_addr (ram s) pg) s in s\<lparr>ram := set_addr pg 0 (ram s)\<rparr>)
      else s)"

definition switch_page_directory :: "u32 \<Rightarrow> 'a paging_state_scheme \<Rightarrow> 'a paging_state_scheme" where
  "switch_page_directory dir s =
     s\<lparr>current_dir := dir, cr3 := dir_phys (ram s) dir, cr0 := cr0 s OR 0x80000000\<rparr>"

definition page_fault :: "regs_t \<Rightarrow> 'a klib_scheme \<Rightarrow> 'a klib_scheme flow option" where
  "page_fault r s =
     (let faulting_address = cr2 s;
          present = err_code r AND 0x1 = 0;
          rw = err_code r AND 0x2;
          us = err_code r AND 0x4;
          reserved = err_code r AND 0x8
      in do {
        s \<leftarrow> kprintf (str ''Page fault! ( '') [] s;
        s \<leftarrow> (if present then kprintf (str ''present '') [] s else Some s);
        s \<leftarrow> (if rw \<noteq> 0 then kprintf (str ''read-only '') [] s else Some s);
        s \<leftarrow> (if us \<noteq> 0 then kprintf (str ''user-mode '') [] s else Some s);
        s \<leftarrow> (if reserved \<noteq> 0 then kprintf (str ''reserved '') [] s else Some s);
        s \<leftarrow> kprintf (str '') at 0x%x'') [KInt faulting_address] s;
        s \<leftarrow> kprintf (str ''\<newline>'') [] s;
        Some (Stopped (s\<lparr>halted := True\<rparr>))
      })"

text \<open>The two loops of \<open>vmm_init\<close>; the first one asks for the end of the kernel at every step.\<close>

partial_function (option) map_kernel :: "u32 \<Rightarrow> 'a pmm_state_scheme \<Rightarrow> 'a pmm_state_scheme option" where
  "map_kernel vaddr s =
     (if vaddr \<le> kmalloc_get_end s + 0x1000 then
        do {
          (page, s) \<leftarrow> get_page vaddr 1 (kern_dir s) s;
          s \<leftarrow> map_page page 1 1 (V2P vaddr) s;
          map_kernel (vaddr + PG_SZ) s
        }
      else Some s)"

partial_function (option) map_heap :: "u32 \<Rightarrow> 'a pmm_state_scheme \<Rightarrow> 'a pmm_state_scheme option" where
  "map_heap vaddr s =
     (if vaddr \<le> KHEAP_END then
        do {
          (page, s) \<leftarrow> get_page vaddr 1 (kern_dir s) s;
          s \<leftarrow> map_page page 1 1 0 s;
          map_heap (vaddr + PG_SZ) s
        }
      else Some s)"

definition vmm_init :: "'a pmm_state_scheme \<Rightarrow> 'a pmm_state_scheme option" where
  "vmm_init s =
     do {
       (dir, phys, s) \<leftarrow> kmalloc_ap SIZEOF_PG_DIR s;
       let m = store32 (memset dir 0 SIZEOF_PG_DIR (ram s)) (dir + 8192) phys;
       let s = s\<lparr>kern_dir := dir, ram := m\<rparr>;
       let (_, s) = set_frame 0 s;
       s \<leftarrow> kheap_pre_init s;
       s \<leftarrow> map_kernel (P2V 0) s;
       s \<leftarrow> map_heap KHEAP_START s;
       let s = add_int_handler 14 Page_fault s;
       let s = switch_page_directory (kern_dir s) s;
       let s = s\<lparr>current_dir := kern_dir s\<rparr>;
       kheap_init s
     }"

partial_function (option) allocate_loop ::
    "u32 \<Rightarrow> u32 \<Rightarrow> u32 \<Rightarrow> 'a pmm_state_scheme \<Rightarrow> 'a pmm_state_scheme option" where
  "allocate_loop i limit pd s =
     (if i < limit then
        do {
          (page, s) \<leftarrow> get_page i 1 pd s;
          s \<leftarrow> map_page page 1 1 0 s;
          allocate_loop (i + PG_SZ) limit pd s
        }
      else Some s)"

definition allocate_stack ::
    "u32 \<Rightarrow> u32 \<Rightarrow> u32 \<Rightarrow> 'a pmm_state_scheme \<Rightarrow> (u32 \<times> 'a pmm_state_scheme) option" where
  "allocate_stack start sz pd s =
     do { s \<leftarrow> allocate_loop start (start + sz) pd s; Some (start, s) }"

text \<open>Pointers into the old stack are moved along, anything else is kept.\<close>

partial_function (option) relocate_loop :: "u32 \<Rightarrow> u32 \<Rightarrow> u32 \<Rightarrow> u32 \<Rightarrow> u32 \<Rightarrow> mem \<Rightarrow> mem option" where
  "relocate_loop stack_bottom stack_top offset i new_top m =
     (if i < new_top then
        relocate_loop stack_bottom stack_top offset (i + 4) new_top
          (if load32 m i < stack_top \<and> stack_bottom < load32 m i
           then store32 m i (load32 m i + offset) else m)
      else Some m)"

definition relocate_stack ::
    "u32 \<Rightarrow> u32 \<Rightarrow> u32 \<Rightarrow> u32 \<Rightarrow> 'a machine_scheme \<Rightarrow> 'a machine_scheme option" where
  "relocate_stack stack_bottom stack_top bottom sz s =
     (let stack_sz = stack_top - stack_bottom;
          offset = bottom - stack_bottom;
          m = memcpy stack_bottom bottom stack_sz (ram s);
          new_top = bottom + stack_sz
      in do {
        m \<leftarrow> relocate_loop stack_bottom stack_top offset bottom new_top m;
        Some (s\<lparr>ram := m, esp := esp s + offset, ebp := ebp s + offset\<rparr>)
      })"

section \<open>Copying a page directory\<close>

text \<open>
  One page of the source directory: its contents go through the window at \<open>0xE0000000\<close>, into which
  the new frame is mapped for the time of the copy, up to \<open>memcpy\<close> and behind it.  The memory of the model is
  the one the kernel addresses; which frame is behind the window is what the page tables of the state say in
  which \<open>memcpy\<close> runs, the last component of the result of \<open>copy_to_frame\<close>.
\<close>

definition copy_to_frame :: "nat \<Rightarrow> nat \<Rightarrow> 'a pmm_state_scheme \<Rightarrow> (u32 \<times> u32 \<times> 'a pmm_state_scheme) option" where
  "copy_to_frame i p s =
     (let pg_addr = IDX2PG (word_of_nat i) (word_of_nat p) in
      do {
        (frame, s) \<leftarrow> get_frame s;
        (page, s) \<leftarrow> get_page 0xE0000000 1 (current_dir s) s;
        s \<leftarrow> map_page page 1 1 frame s;
        let s = switch_page_directory (current_dir s) s;
        Some (frame, page, s\<lparr>ram := memcpy pg_addr 0xE0000000 PG_SZ (ram s)\<rparr>)
      })"

definition copy_page :: "u32 \<Rightarrow> nat \<Rightarrow> nat \<Rightarrow> 'a pmm_state_scheme \<Rightarrow> 'a pmm_state_scheme option" where
  "copy_page new i p s =
     (let pg_addr = IDX2PG (word_of_nat i) (word_of_nat p) in
      do {
        (frame, page, s) \<leftarrow> copy_to_frame i p s;
        let s = unmap_page page s;
        (page, s) \<leftarrow> get_page pg_addr 1 new s;
        s \<leftarrow> map_page page 1 1 frame s;
        Some (switch_page_directory (current_dir s) s)
      })"

fun copy_table :: "u32 \<Rightarrow> u32 \<Rightarrow> nat \<Rightarrow> nat list \<Rightarrow> 'a pmm_state_scheme \<Rightarrow> 'a pmm_state_scheme option" where
  "copy_table new table i [] s = Some s"
| "copy_table new table i (p # ps) s =
     do {
       s \<leftarrow> (if pg_addr (ram s) (page_ref table (word_of_nat p)) \<noteq> 0 then copy_page new i p s else Some s);
       copy_table new table i ps s
     }"

fun copy_low :: "u32 \<Rightarrow> u32 \<Rightarrow> nat list \<Rightarrow> 'a pmm_state_scheme \<Rightarrow> 'a pmm_state_scheme option" where
  "copy_low new dir [] s = Some s"
| "copy_low new dir (i # is) s =
     (let table = dir_table (ram s) dir (word_of_nat i) in
      do {
        s \<leftarrow> (if table \<noteq> 0 then copy_table new table i [0..<1024] s else Some s);
        copy_low new dir is s
      })"

definition share_table :: "u32 \<Rightarrow> u32 \<Rightarrow> nat \<Rightarrow> mem \<Rightarrow> mem" where
  "share_table new kern i m =
     (let table = dir_table m kern (word_of_nat i) in
      if table \<noteq> 0 then
        (let m = store32 m (table_ref new (word_of_nat i)) table
         in store32 m (phys_tab_ref new (word_of_nat i)) (load32 m (phys_tab_ref kern (word_of_nat i))))
      else m)"

definition copy_pg_dir :: "u32 \<Rightarrow> 'a pmm_state_scheme \<Rightarrow> (u32 \<times> 'a pmm_state_scheme) option" where
  "copy_pg_dir dir s =
     do {
       (new, phys, s) \<leftarrow> kmalloc_ap SIZEOF_PG_DIR s;
       let s = s\<lparr>ram := store32 (memset new 0 SIZEOF_PG_DIR (ram s)) (new + 8192) phys\<rparr>;
       s \<leftarrow> copy_low new dir [0..<768] s;
       Some (new, s\<lparr>ram := fold (share_table new (kern_dir s)) [768..<1024] (ram s)\<rparr>)
     }"

section \<open>Writing an entry\<close>

text \<open>The page table entry at \<open>pg\<close> lies apart from the bit set of the frames.\<close>

definition entry_free :: "u32 \<Rightarrow> 'a pmm_state_scheme \<Rightarrow> bool" where
  "entry_free pg s \<longleftrightarrow> apart (frames s) 8 pg 4 \<and> outside_bits (ram s) (frames s) pg 4"

lemma bs_store_other:
  assumes "bs_ok m bs" "apart bs 8 a 4" "outside_bits m bs a 4"
  shows "bs_sz (store32 m a v) bs = bs_sz m bs" "bs_bits (store32 m a v) bs = bs_bits m bs"
    "bs_ok (store32 m a v) bs" "bs_get_size (store32 m a v) bs = bs_get_size m bs"
    "j < bs_get_size m bs \<Longrightarrow> bs_bit (store32 m a v) bs j = bs_bit m bs j"
proof -
  show s: "bs_sz (store32 m a v) bs = bs_sz m bs" and b: "bs_bits (store32 m a v) bs = bs_bits m bs"
    using apart_mono [OF assms(2), of 4 4] apart_shift_left [OF assms(2), of 4 4]
    by (simp_all add: bs_sz_def bs_bits_def load32_store32_apart apart_sym)
  show "bs_ok (store32 m a v) bs" "bs_get_size (store32 m a v) bs = bs_get_size m bs"
    using assms(1) s b by (simp_all add: bs_ok_def bs_get_size_def)
  assume j: "j < bs_get_size m bs"
  have i: "unat (j div 32) < unat (bs_sz m bs)" using idx_word [OF assms(1) j] .
  then have "unat (j div 32) < 2 ^ 27" using assms(1) by (auto simp: bs_ok_def)
  then have "unat (4 * (j div 32)) = 4 * unat (j div 32)" by (simp add: unat_word_ariths)
  then have "apart (word_ref m bs (j div 32)) 4 a 4"
    using i assms(3) unfolding word_ref_def outside_bits_def by (intro apart_shift_left) auto
  then show "bs_bit (store32 m a v) bs j = bs_bit m bs j"
    using b by (simp add: bs_bit_def word_ref_def load32_store32_apart apart_sym)
qed

lemma entry_store:
  assumes "pmm_ok s" "entry_free pg s"
  shows "pmm_ok (s\<lparr>ram := store32 (ram s) pg v\<rparr>)" "entry_free pg (s\<lparr>ram := store32 (ram s) pg v\<rparr>)"
    "free_frames (s\<lparr>ram := store32 (ram s) pg v\<rparr>) = free_frames s"
    "bs_get_size (store32 (ram s) pg v) (frames s) = bs_get_size (ram s) (frames s)"
proof -
  note b = bs_store_other [OF pmm_ok_bs [OF assms(1)]] assms(2) [unfolded entry_free_def]
  show "pmm_ok (s\<lparr>ram := store32 (ram s) pg v\<rparr>)" "entry_free pg (s\<lparr>ram := store32 (ram s) pg v\<rparr>)"
    "bs_get_size (store32 (ram s) pg v) (frames s) = bs_get_size (ram s) (frames s)"
    using b assms(1) by (simp_all add: pmm_ok_def entry_free_def outside_bits_def)
  show "free_frames (s\<lparr>ram := store32 (ram s) pg v\<rparr>) = free_frames s"
    using b by (auto simp: free_frames_iff)
qed

lemma set_frame_entry:
  assumes "pmm_ok s" "entry_free pg s"
  shows "load32 (bs_set (frames s) i (ram s)) pg = load32 (ram s) pg"
    "entry_free pg (s\<lparr>ram := bs_set (frames s) i (ram s)\<rparr>)"
  using bits_only_set [OF pmm_ok_bs [OF assms(1)], of i] assms(2)
  by (auto simp: bits_only_def entry_free_def outside_bits_def)

definition attributes :: "u8 \<Rightarrow> u8 \<Rightarrow> u32 \<Rightarrow> u32" where
  "attributes usr write w =
     put_field 2 1 (of_bool (usr = 0)) (put_field 1 1 (ucast write) (put_field 0 1 1 w))"

lemma set_attributes_store:
  "set_attributes pg usr write m = store32 m pg (attributes usr write (load32 m pg))"
  by (simp add: set_attributes_def attributes_def set_usr_def set_rw_def set_present_def)

text \<open>The four fields of an entry that the kernel uses.\<close>

definition page_fields :: "mem \<Rightarrow> u32 \<Rightarrow> u32 \<times> u32 \<times> u32 \<times> u32" where
  "page_fields m pg = (pg_present m pg, pg_rw m pg, pg_usr m pg, pg_addr m pg)"

lemma entry_attributes:
  "page_fields (set_attributes pg usr write m) pg =
     (1, take_bit 1 (ucast write), of_bool (usr = 0), pg_addr m pg)"
  by (simp add: page_fields_def set_attributes_def)

lemma entry_set_addr:
  "page_fields (set_addr pg v m) pg = (pg_present m pg, pg_rw m pg, pg_usr m pg, take_bit 20 v)"
  by (simp add: page_fields_def)

lemma entry_cong: "load32 m pg = load32 m' pg \<Longrightarrow> page_fields m pg = page_fields m' pg"
  by (simp add: page_fields_def pg_present_def pg_rw_def pg_usr_def pg_addr_def)

lemma frame_index_20: "take_bit 20 (a div PG_SZ) = a div PG_SZ"
proof -
  have "unat (a div PG_SZ) < 2 ^ 20"
    using unat_bound32 [of a] by (simp add: unat_div PG_SZ_def less_mult_imp_div_less)
  then show ?thesis by (rule take_bit_small)
qed

section \<open>Mapping a page\<close>

text \<open>Every word apart from the entry and from the bit set of the frames keeps its value.\<close>

definition entry_only :: "u32 \<Rightarrow> 'a pmm_state_scheme \<Rightarrow> mem \<Rightarrow> bool" where
  "entry_only pg s m' \<longleftrightarrow> (\<forall>a. apart pg 4 a 4 \<longrightarrow> outside_bits (ram s) (frames s) a 4 \<longrightarrow>
     load32 m' a = load32 (ram s) a)"

lemma entry_only_store: "entry_only pg s m \<Longrightarrow> entry_only pg s (store32 m pg v)"
  by (simp add: entry_only_def load32_store32_apart)

lemma entry_only_refl: "entry_only pg s (ram s)"
  by (simp add: entry_only_def)

lemma entry_only_set:
  assumes "pmm_ok s" "entry_only pg s m" "bs_ok m (frames s)" "bs_bits m (frames s) = bs_bits (ram s) (frames s)"
    "bs_sz m (frames s) = bs_sz (ram s) (frames s)"
  shows "entry_only pg s (bs_set (frames s) i m)"
  using assms bs_writes_other(1) [OF assms(3), of _ i]
  by (simp add: entry_only_def outside_bits_def)

lemma attributes_step:
  assumes "pmm_ok s" "entry_free pg s" and t_def: "t = s\<lparr>ram := set_attributes pg usr write (ram s)\<rparr>"
  shows "pmm_ok t" "entry_free pg t" "free_frames t = free_frames s" "entry_only pg s (ram t)"
    "bs_get_size (ram t) (frames s) = bs_get_size (ram s) (frames s)" "pg_addr (ram t) pg = pg_addr (ram s) pg"
    "entry_only pg s (bs_set (frames s) i (ram t))"
    "page_fields (bs_set (frames s) i (ram t)) pg =
       (1, take_bit 1 (ucast write), of_bool (usr = 0), pg_addr (ram s) pg)"
proof -
  note e = entry_store [OF assms(1,2), of "attributes usr write (load32 (ram s) pg)"]
  show t: "pmm_ok t" "entry_free pg t" "free_frames t = free_frames s"
    "bs_get_size (ram t) (frames s) = bs_get_size (ram s) (frames s)"
    using e by (simp_all add: t_def set_attributes_store)
  show eo: "entry_only pg s (ram t)"
    by (simp add: t_def set_attributes_store entry_only_store entry_only_refl)
  have en: "page_fields (ram t) pg = (1, take_bit 1 (ucast write), of_bool (usr = 0), pg_addr (ram s) pg)"
    by (simp add: t_def entry_attributes)
  then show "pg_addr (ram t) pg = pg_addr (ram s) pg" by (simp add: page_fields_def)
  note b = bs_store_other [OF pmm_ok_bs [OF assms(1)]] assms(2) [unfolded entry_free_def]
  show "entry_only pg s (bs_set (frames s) i (ram t))"
    by (rule entry_only_set [OF assms(1) eo]) (use b in \<open>simp_all add: t_def set_attributes_store\<close>)
  show "page_fields (bs_set (frames s) i (ram t)) pg =
       (1, take_bit 1 (ucast write), of_bool (usr = 0), pg_addr (ram s) pg)"
    using entry_cong [OF set_frame_entry(1) [OF t(1,2), of i]] en by (simp add: t_def)
qed

lemma map_page_marks:
  assumes "pmm_ok s" "entry_free pg s" "pg_addr (ram s) pg = 0" "i < bs_get_size (ram s) (frames s)"
    and r: "map_page pg usr write addr s =
      Some (s\<lparr>ram := set_addr pg i (bs_set (frames s) i (set_attributes pg usr write (ram s)))\<rparr>)"
  shows "\<exists>s'. map_page pg usr write addr s = Some s' \<and> s' = s\<lparr>ram := ram s'\<rparr> \<and> pmm_ok s' \<and>
    page_fields (ram s') pg = (1, take_bit 1 (ucast write), of_bool (usr = 0), take_bit 20 i) \<and>
    free_frames s' = free_frames s - {i} \<and> entry_only pg s (ram s') \<and>
    entry_free pg s' \<and> bs_get_size (ram s') (frames s) = bs_get_size (ram s) (frames s)"
proof -
  note a = attributes_step [OF assms(1,2) refl]
  let ?t = "s\<lparr>ram := set_attributes pg usr write (ram s)\<rparr>"
  let ?u = "s\<lparr>ram := bs_set (frames s) i (ram ?t)\<rparr>"
  have u: "pmm_ok ?u" "entry_free pg ?u" "free_frames ?u = free_frames s - {i}"
    using bs_set_pmm_ok [OF a(1)] set_frame_entry(2) [OF a(1,2)] free_frames_mark [OF a(1)] a(3) by simp_all
  have "page_fields (set_addr pg i (ram ?u)) pg = (1, take_bit 1 (ucast write), of_bool (usr = 0), take_bit 20 i)"
    using a(8) [of i] by (simp add: entry_set_addr) (simp add: page_fields_def)
  moreover have "entry_only pg s (set_addr pg i (ram ?u))"
    using a(7) by (simp add: set_addr_def entry_only_store)
  ultimately show ?thesis
    using r entry_store [OF u(1,2)] u(3) a(5) bs_set_facts(4) [OF pmm_ok_bs [OF a(1)], where idx = i]
    by (auto simp: set_addr_def)
qed

lemma map_page_fixed_frame:
  assumes "pmm_ok s" "entry_free pg s" "pg_addr (ram s) pg = 0" "addr \<noteq> 0"
    "addr div PG_SZ < bs_get_size (ram s) (frames s)"
  shows "\<exists>s'. map_page pg usr write addr s = Some s' \<and> s' = s\<lparr>ram := ram s'\<rparr> \<and> pmm_ok s' \<and>
    page_fields (ram s') pg = (1, take_bit 1 (ucast write), of_bool (usr = 0), addr div PG_SZ) \<and>
    free_frames s' = free_frames s - {addr div PG_SZ} \<and> entry_only pg s (ram s') \<and>
    entry_free pg s' \<and> bs_get_size (ram s') (frames s) = bs_get_size (ram s) (frames s)"
  using map_page_marks [OF assms(1-3,5), of usr "write" addr] attributes_step(5,6) [OF assms(1,2) refl] assms(3-5)
  by (simp add: map_page_def set_frame_def Let_def frame_index_20)

lemma map_page_first_frame:
  assumes "pmm_ok s" "entry_free pg s" "pg_addr (ram s) pg = 0" "free_frames s \<noteq> {}"
  shows "\<exists>s'. map_page pg usr write 0 s = Some s' \<and> s' = s\<lparr>ram := ram s'\<rparr> \<and> pmm_ok s' \<and>
    page_fields (ram s') pg = (1, take_bit 1 (ucast write), of_bool (usr = 0), Min (free_frames s)) \<and>
    free_frames s' = free_frames s - {Min (free_frames s)} \<and> entry_only pg s (ram s') \<and>
    entry_free pg s' \<and> bs_get_size (ram s') (frames s) = bs_get_size (ram s) (frames s)"
proof -
  define i where "i = Min (free_frames s)"
  have "i \<in> free_frames s" using assms(4) by (simp add: i_def)
  then have lt: "i < bs_get_size (ram s) (frames s)" by (simp add: free_frames_iff)
  note f = frame_of_index [OF index_small [OF assms(1) lt]]
  note a = attributes_step [OF assms(1,2) refl]
  have "map_page pg usr write 0 s =
      Some (s\<lparr>ram := set_addr pg i (bs_set (frames s) i (set_attributes pg usr write (ram s)))\<rparr>)"
    using get_frame_some [OF a(1)] a(3,6) assms(3,4) f(2,4) by (simp add: map_page_def Let_def i_def)
  from map_page_marks [OF assms(1-3) lt this] show ?thesis
    using frame_index_20 [of "i * PG_SZ"] f(2) by (simp add: i_def)
qed

lemma map_page_no_frame:
  assumes "pmm_ok s" "entry_free pg s" "pg_addr (ram s) pg = 0" "free_frames s = {}"
  shows "\<exists>s'. map_page pg usr write 0 s = Some s' \<and> pmm_ok s' \<and> free_frames s' = {} \<and>
    page_fields (ram s') pg = (1, take_bit 1 (ucast write), of_bool (usr = 0), 0) \<and>
    entry_only pg s (ram s') \<and> console_only (s\<lparr>ram := ram s'\<rparr>) s'"
proof -
  let ?t = "s\<lparr>ram := set_attributes pg usr write (ram s)\<rparr>"
  note a = attributes_step [OF assms(1,2) refl]
  obtain t where t: "get_frame ?t = Some (0xffffffff, t)" "console_only ?t t"
    using get_frame_none [OF a(1)] a(3) assms(4) by metis
  let ?s = "vga_write (str ''WAIT WUT, there are no more frames?'') t"
  have "map_page pg usr write 0 s = Some ?s"
    using t(1) a(6) assms(3) by (simp add: map_page_def Let_def kprintf_plain)
  moreover have c: "console_only ?t ?s" using t(2) by simp
  moreover note console_only_pmm(2-4) [OF c] a(1,3,4)
  ultimately show ?thesis
    using assms(3,4) entry_attributes [of pg usr "write" "ram s"] by (intro exI [of _ ?s]) simp
qed

lemma map_page_out_of_range:
  assumes "pmm_ok s" "entry_free pg s" "pg_addr (ram s) pg = 0" "addr \<noteq> 0" "itoa_buf_ok (itoa_buf s)"
    "bs_get_size (ram s) (frames s) \<le> addr div PG_SZ"
  shows "\<exists>s'. map_page pg usr write addr s = Some s' \<and> pmm_ok s' \<and> free_frames s' = free_frames s \<and>
    page_fields (ram s') pg = (0, take_bit 1 (ucast write), of_bool (usr = 0), 0) \<and>
    entry_only pg s (ram s') \<and> console_only (s\<lparr>ram := ram s'\<rparr>) s'"
proof -
  let ?t = "s\<lparr>ram := set_attributes pg usr write (ram s)\<rparr>"
  let ?u = "?t\<lparr>ram := set_present pg 0 (ram ?t)\<rparr>"
  note a = attributes_step [OF assms(1,2) refl]
  obtain u where u: "kprintf (str ''could not map 0x%x, out of physical range \<newline>'') [KInt addr] ?u = Some u"
    using kprintf_matches [of "str ''could not map 0x%x, out of physical range \<newline>''" "[KInt addr]" ?u] assms(5)
    by auto
  note c = kprintf_console [OF u]
  have "map_page pg usr write addr s = Some u"
    using u a(5,6) assms(3,4,6) by (simp add: map_page_def set_frame_def Let_def not_less)
  moreover have "pmm_ok ?u" "free_frames ?u = free_frames s"
    using entry_store(1,3) [OF a(1,2)] a(3) by (simp_all add: set_present_def)
  moreover have "entry_only pg s (ram ?u)" using a(4) by (simp add: set_present_def entry_only_store)
  moreover have "page_fields (ram ?u) pg = (0, take_bit 1 (ucast write), of_bool (usr = 0), 0)"
    using entry_attributes [of pg usr "write" "ram s"] assms(3) by (simp add: page_fields_def)
  moreover note console_only_pmm(2-4) [OF c]
  ultimately show ?thesis using c by (intro exI [of _ u]) simp
qed

section \<open>Looking up and creating a table\<close>

lemma table_index_bound: "unat (PD_IDX va) < 1024" "unat (PT_IDX va) < 1024"
proof -
  have "take_bit 10 x < 1024" for x :: u32
    using take_bit_nat_less_exp [of 10 "unat x"] by (simp add: word_less_nat_alt unsigned_take_bit_eq)
  then show "unat (PD_IDX va) < 1024" "unat (PT_IDX va) < 1024"
    by (simp_all add: PD_IDX_def PT_IDX_def and_masks word_less_nat_alt)
qed

lemma times_4: "unat (i :: u32) < 1024 \<Longrightarrow> unat (4 * i) = 4 * unat i"
  by (simp add: unat_word_ariths)

lemma dir_fields_apart:
  assumes "unat i < 1024"
  shows "apart (table_ref pd i) 4 (phys_tab_ref pd i) 4" "apart pd 8196 a n \<Longrightarrow> 0 < n \<Longrightarrow> apart (table_ref pd i) 4 a n"
    "apart pd 8196 a n \<Longrightarrow> 0 < n \<Longrightarrow> apart (phys_tab_ref pd i) 4 a n"
proof -
  note t = times_4 [OF assms]
  have u: "unat (4096 + 4 * i) = 4096 + 4 * unat i" using t assms by (simp add: unat_word_ariths)
  have "apart (4 * i) 4 (4096 + 4 * i) 4" using t u assms by (intro apart_bounds) auto
  then show "apart (table_ref pd i) 4 (phys_tab_ref pd i) 4"
    unfolding table_ref_def phys_tab_ref_def add.assoc by (simp only: apart_same_base apart_sym)
  show "apart (table_ref pd i) 4 a n" if "apart pd 8196 a n" "0 < n"
    unfolding table_ref_def add.assoc using u assms by (intro apart_shift_left [OF that(1)] that(2)) auto
  show "apart (phys_tab_ref pd i) 4 a n" if "apart pd 8196 a n" "0 < n"
    unfolding phys_tab_ref_def using t assms by (intro apart_shift_left [OF that(1)] that(2)) auto
qed

lemma get_page_new_table:
  assumes early: "early s" and create: "create \<noteq> 0" and none: "dir_table (ram s) pd (PD_IDX va) = 0"
    and tab: "tab = PG_ROUND_UP (alloc_ptr s)" and ap: "apart pd 8196 tab 4096"
  shows "\<exists>s'. get_page va create pd s = Some (page_ref tab (PT_IDX va), s') \<and>
    alloc_ptr s' = tab + 4096 \<and> dir_table (ram s') pd (PD_IDX va) = tab \<and>
    load32 (ram s') (phys_tab_ref pd (PD_IDX va)) = V2P tab OR 7 \<and>
    (\<forall>i. unat i < 1024 \<longrightarrow> load32 (ram s') (page_ref tab i) = 0) \<and>
    (\<forall>a. apart tab 4096 a 4 \<longrightarrow> apart (table_ref pd (PD_IDX va)) 4 a 4 \<longrightarrow>
       apart (phys_tab_ref pd (PD_IDX va)) 4 a 4 \<longrightarrow> load32 (ram s') a = load32 (ram s) a) \<and>
    console_only (s\<lparr>alloc_ptr := alloc_ptr s', ram := ram s'\<rparr>) s'"
proof -
  let ?d = "PD_IDX va"
  let ?m1 = "store32 (ram s) (table_ref pd ?d) tab"
  let ?m2 = "memset tab 0 4096 ?m1"
  let ?m3 = "store32 ?m2 (phys_tab_ref pd ?d) (V2P tab OR 7)"
  let ?s = "s\<lparr>alloc_ptr := tab + 4096, ram := ?m3\<rparr>"
  let ?t = "vga_write (str ''creating a new page table \<newline>'') ?s"
  note d = dir_fields_apart [OF table_index_bound(1)]
  have t: "apart tab 4096 (table_ref pd ?d) 4" "apart (phys_tab_ref pd ?d) 4 tab 4096"
    using d(2,3) [OF ap] by (simp_all add: apart_sym)
  have flags: "V2P tab OR PDE_P OR PDE_W OR PDE_U = V2P tab OR 7"
    by (simp add: PDE_P_def PDE_W_def PDE_U_def flip: or.assoc)
  have dt: "dir_table ?m1 pd ?d = tab" "dir_table ?m3 pd ?d = tab"
    using d(1) t(1) by (simp_all add: dir_table_def load32_store32_apart load32_memset_apart apart_sym)
  have c: "console_only ?s ?t" by simp
  have k: "ram ?t = ?m3" "alloc_ptr ?t = tab + 4096" using console_only_pmm(2,5) [OF c] by simp_all
  have g: "get_page va create pd s = Some (page_ref tab (PT_IDX va), ?t)"
    using none create kmalloc_ap_early [OF early, of SIZEOF_PG_TAB] dt flags k(1)
    by (simp add: get_page_def Let_def tab SIZEOF_PG_TAB_def kprintf_plain)
  have z: "load32 ?m3 (page_ref tab i) = 0" if "unat i < 1024" for i
  proof -
    have "apart (phys_tab_ref pd ?d) 4 (tab + 4 * i) 4"
      using times_4 [OF that] that by (intro apart_shift_right [OF t(2)]) auto
    then show ?thesis
      using times_4 [OF that] that by (simp add: page_ref_def load32_store32_apart load32_memset_zero)
  qed
  have o: "load32 ?m3 a = load32 (ram s) a" if "apart tab 4096 a 4" "apart (table_ref pd ?d) 4 a 4"
    "apart (phys_tab_ref pd ?d) 4 a 4" for a
    using that by (simp add: load32_store32_apart load32_memset_apart)
  show ?thesis using g dt(2) z o k c by (intro exI [of _ ?t]) simp
qed

lemma get_page_present:
  "dir_table (ram s) pd (PD_IDX va) \<noteq> 0 \<Longrightarrow>
    get_page va create pd s = Some (page_ref (dir_table (ram s) pd (PD_IDX va)) (PT_IDX va), s)"
  by (simp add: get_page_def Let_def)

section \<open>Unmapping\<close>

lemma unmap_page_effect:
  assumes "pmm_ok s" "entry_free pg s" "pg_addr (ram s) pg = i" "i < bs_get_size (ram s) (frames s)" "i \<noteq> 0"
  shows "pmm_ok (unmap_page pg s)" "page_fields (ram (unmap_page pg s)) pg = (0, 0, 0, 0)"
    "free_frames (unmap_page pg s) = insert i (free_frames s)"
proof -
  let ?v = "put_field 2 1 0 (put_field 1 1 0 (put_field 0 1 0 (load32 (ram s) pg)))"
  let ?t = "s\<lparr>ram := store32 (ram s) pg ?v\<rparr>"
  let ?u = "?t\<lparr>ram := bs_clr (frames s) i (ram ?t)\<rparr>"
  have m: "ram ?t = set_usr pg 0 (set_rw pg 0 (set_present pg 0 (ram s)))"
    by (simp add: set_usr_def set_rw_def set_present_def)
  note e = entry_store [OF assms(1,2), of ?v]
  have en: "page_fields (ram ?t) pg = (0, 0, 0, i)" unfolding m by (simp add: page_fields_def assms(3))
  have r: "unmap_page pg s = ?u\<lparr>ram := set_addr pg 0 (ram ?u)\<rparr>"
    using en assms(5) by (simp add: unmap_page_def Let_def free_frame_def m [symmetric] page_fields_def)
  note c = bs_clr_facts [OF pmm_ok_bs [OF e(1)], of i] bs_writes_other(2) [OF pmm_ok_bs [OF e(1)], of pg i]
  have u: "pmm_ok ?u" "entry_free pg ?u" "load32 (ram ?u) pg = load32 (ram ?t) pg"
    using c e(1,2) by (simp_all add: pmm_ok_def entry_free_def outside_bits_def)
  have f: "free_frames ?u = insert i (free_frames s)"
    using free_frames_release [OF e(1), of i] assms(4) e(3,4) by simp
  have "page_fields (ram ?u) pg = (0, 0, 0, i)" using entry_cong [OF u(3)] en by simp
  then have z: "page_fields (set_addr pg 0 (ram ?u)) pg = (0, 0, 0, 0)"
    by (simp only: entry_set_addr) (simp add: page_fields_def)
  show "pmm_ok (unmap_page pg s)" "page_fields (ram (unmap_page pg s)) pg = (0, 0, 0, 0)"
    "free_frames (unmap_page pg s) = insert i (free_frames s)"
    unfolding r using entry_store(1,3) [OF u(1,2)] z f by (simp_all add: set_addr_def)
qed

section \<open>Relocating the stack\<close>

definition relocate_word :: "u32 \<Rightarrow> u32 \<Rightarrow> u32 \<Rightarrow> u32 \<Rightarrow> u32" where
  "relocate_word stack_bottom stack_top offset w =
     (if stack_bottom < w \<and> w < stack_top then w + offset else w)"

lemma relocate_loop_words:
  assumes "unat i + 4 * n = unat new_top"
  shows "\<exists>m'. relocate_loop sb st off i new_top m = Some m' \<and>
    (\<forall>k<n. load32 m' (i + 4 * word_of_nat k) = relocate_word sb st off (load32 m (i + 4 * word_of_nat k))) \<and>
    (\<forall>a. n = 0 \<or> apart i (4 * n) a 4 \<longrightarrow> load32 m' a = load32 m a)"
  using assms
proof (induction n arbitrary: i m)
  case 0
  then have "\<not> i < new_top" by (simp add: word_less_nat_alt)
  then show ?case by (subst relocate_loop.simps) simp
next
  case (Suc n)
  have lt: "i < new_top" using Suc.prems by (simp add: word_less_nat_alt)
  have nxt: "unat (i + 4) = unat i + 4"
    using Suc.prems unat_bound32 [of new_top] by (subst unat_add_lem [THEN iffD1]) simp_all
  let ?m = "if load32 m i < st \<and> sb < load32 m i then store32 m i (load32 m i + off) else m"
  obtain m' where m': "relocate_loop sb st off (i + 4) new_top ?m = Some m'"
    "\<forall>k<n. load32 m' (i + 4 + 4 * word_of_nat k) = relocate_word sb st off (load32 ?m (i + 4 + 4 * word_of_nat k))"
    "\<forall>a. n = 0 \<or> apart (i + 4) (4 * n) a 4 \<longrightarrow> load32 m' a = load32 ?m a"
    using Suc.IH [of "i + 4" ?m] Suc.prems nxt by auto
  have r: "relocate_loop sb st off i new_top m = Some m'"
    using lt m'(1) by (subst relocate_loop.simps) simp
  have bound: "4 * Suc n < 2 ^ 32" using Suc.prems unat_bound32 [of new_top] by simp
  have here: "load32 ?m i = relocate_word sb st off (load32 m i)" by (auto simp: relocate_word_def)
  have "apart 4 (4 * n) (0 :: u32) 4" using bound by (simp add: apart_def)
  then have "apart (i + 4) (4 * n) i 4" by simp
  then have first: "load32 m' i = relocate_word sb st off (load32 m i)" using m'(3) here by simp
  have later: "load32 ?m (i + 4 + 4 * word_of_nat k) = load32 m (i + 4 + 4 * word_of_nat k)" if "k < n" for k
  proof -
    have "unat (4 + 4 * word_of_nat k :: u32) = 4 + 4 * k"
      using that bound by (simp add: unat_word_ariths unat_of_nat)
    then have "apart 0 4 (4 + 4 * word_of_nat k :: u32) 4" using that bound by (intro apart_bounds) auto
    then have "apart i 4 (i + 4 + 4 * word_of_nat k) 4" by (simp add: add.assoc)
    then show ?thesis by (simp add: load32_store32_apart)
  qed
  have "load32 m' (i + 4 * word_of_nat k) = relocate_word sb st off (load32 m (i + 4 * word_of_nat k))"
    if "k < Suc n" for k
  proof (cases k)
    case 0
    then show ?thesis using first by simp
  next
    case (Suc j)
    then show ?thesis using m'(2) later [of j] that by (simp add: add.assoc algebra_simps)
  qed
  moreover have "load32 m' a = load32 m a" if a: "apart i (4 * Suc n) a 4" for a
  proof -
    have "n = 0 \<or> apart (i + 4) (4 * n) a 4"
      using apart_shift_left [OF a, of 4 "4 * n"] by auto
    then have "load32 m' a = load32 ?m a" using m'(3) by blast
    moreover have "apart i 4 a 4" using apart_mono [OF a, of 4 4] by simp
    ultimately show ?thesis by (simp add: load32_store32_apart)
  qed
  ultimately show ?case using r by blast
qed

section \<open>Properties\<close>

text \<open>
  A state of the early boot: the frame bit set at \<open>0x1000\<close> with its words at \<open>0x2000\<close>, an empty
  page directory at \<open>0xC0010000\<close>, the bump pointer at \<open>0xC0108000\<close>.
\<close>

lemma pmm_example_more:
  "early pmm_example" "alloc_ptr pmm_example = 0xC0108000" "itoa_buf_ok (itoa_buf pmm_example)"
  "bs_bits bs_example 0x1000 = 0x2000" "bs_sz bs_example 0x1000 = 2"
  "PG_ROUND_UP 0xC0108000 = 0xC0109000"
  using boot_example_ok(2)
  by (simp_all add: pmm_example_def boot_example_def pmm0_def paging0_def paging_state.defs heap_state.defs
      int_state.defs early_def bs_example_def bs_bits_def bs_sz_def load32_store32_apart PG_ROUND_UP_def)

lemma bs_example_zero: "apart 0x1000 8 a 4 \<Longrightarrow> load32 bs_example a = 0"
  using apart_mono [of "0x1000" 8 a 4 4 4] apart_shift_left [of "0x1000" 8 a 4 4 4]
  by (simp add: bs_example_def load32_store32_apart) (simp add: load32_def)

lemma pmm_example_entry:
  "entry_free 0xC0109000 pmm_example" "pg_addr bs_example 0xC0109000 = 0"
proof -
  show "entry_free 0xC0109000 pmm_example"
    by (simp add: entry_free_def pmm_example_facts outside_bits_def pmm_example_more)
  have "load32 bs_example 0xC0109000 = 0" by (rule bs_example_zero) simp
  then show "pg_addr bs_example 0xC0109000 = 0" by (simp add: pg_addr_def get_field_def)
qed

text \<open>
  C10. Before the heap exists, asking for the page of an address without table creates the table:
  it starts at the next page boundary of the bump pointer, all its 1024 entries are zero, the
  directory holds its address and, for the processor, its physical address with the flags present,
  writeable and user; a second request returns the same entry and changes nothing; and every
  word outside the table and the two slots of the directory keeps its value.
\<close>

theorem get_page_creates_table:
  assumes "early s" "create \<noteq> 0" "dir_table (ram s) pd (PD_IDX va) = 0"
    "tab = PG_ROUND_UP (alloc_ptr s)" "apart pd 8196 tab 4096" "tab \<noteq> 0"
  shows "\<exists>s'. get_page va create pd s = Some (page_ref tab (PT_IDX va), s') \<and>
    alloc_ptr s' = tab + 4096 \<and> dir_table (ram s') pd (PD_IDX va) = tab \<and>
    load32 (ram s') (phys_tab_ref pd (PD_IDX va)) = V2P tab OR 7 \<and>
    (\<forall>i. unat i < 1024 \<longrightarrow> load32 (ram s') (page_ref tab i) = 0) \<and>
    (\<forall>a. apart tab 4096 a 4 \<longrightarrow> apart (table_ref pd (PD_IDX va)) 4 a 4 \<longrightarrow>
       apart (phys_tab_ref pd (PD_IDX va)) 4 a 4 \<longrightarrow> load32 (ram s') a = load32 (ram s) a) \<and>
    get_page va c pd s' = Some (page_ref tab (PT_IDX va), s')"
  using get_page_new_table [OF assms(1-5)] get_page_present [of _ pd va c] assms(6) by metis

theorem get_page_creates_table_witness:
  "\<exists>s'. get_page 0xD0003000 1 0xC0010000 pmm_example = Some (page_ref 0xC0109000 (PT_IDX 0xD0003000), s') \<and>
    get_page 0xD0003000 0 0xC0010000 s' = Some (page_ref 0xC0109000 (PT_IDX 0xD0003000), s')"
proof -
  have "dir_table bs_example 0xC0010000 (PD_IDX 0xD0003000) = 0"
    unfolding dir_table_def by (rule bs_example_zero) (simp add: table_ref_def PD_IDX_def)
  then show ?thesis
    using get_page_creates_table [of pmm_example 1 "0xC0010000" "0xD0003000" "0xC0109000" 0]
    by (auto simp: pmm_example_more pmm_example_facts)
qed

text \<open>
  C11. Mapping an unmapped page to a given address that physical memory has: the entry becomes
  present, with the write flag and the negated user argument, and holds the frame of the address;
  the frame is no longer free, and every word outside the entry and the bit set keeps its value.
\<close>

theorem map_page_fixed:
  assumes "pmm_ok s" "entry_free pg s" "pg_addr (ram s) pg = 0" "addr \<noteq> 0"
    "addr div PG_SZ < bs_get_size (ram s) (frames s)"
  shows "\<exists>s'. map_page pg usr write addr s = Some s' \<and> s' = s\<lparr>ram := ram s'\<rparr> \<and> pmm_ok s' \<and>
    page_fields (ram s') pg = (1, take_bit 1 (ucast write), of_bool (usr = 0), addr div PG_SZ) \<and>
    free_frames s' = free_frames s - {addr div PG_SZ} \<and> entry_only pg s (ram s')"
  using map_page_fixed_frame [OF assms] by blast

theorem map_page_fixed_witness:
  "\<exists>s'. map_page 0xC0109000 1 1 0x5678 pmm_example = Some s' \<and> page_fields (ram s') 0xC0109000 = (1, 1, 0, 5)"
  using map_page_fixed [OF pmm_example_facts(1) pmm_example_entry(1), of "0x5678" 1 1] pmm_example_entry(2)
  by (auto simp: pmm_example_facts bs_example_facts PG_SZ_def)

text \<open>
  Mapping an unmapped page without an address takes the least free frame, when there is one.
\<close>

theorem map_page_any:
  assumes "pmm_ok s" "entry_free pg s" "pg_addr (ram s) pg = 0" "free_frames s \<noteq> {}"
  shows "\<exists>s'. map_page pg usr write 0 s = Some s' \<and> s' = s\<lparr>ram := ram s'\<rparr> \<and> pmm_ok s' \<and>
    page_fields (ram s') pg = (1, take_bit 1 (ucast write), of_bool (usr = 0), Min (free_frames s)) \<and>
    free_frames s' = free_frames s - {Min (free_frames s)} \<and> entry_only pg s (ram s')"
  using map_page_first_frame [OF assms] by blast

theorem map_page_any_witness:
  "\<exists>s'. map_page 0xC0109000 0 0 0 pmm_example = Some s' \<and>
    page_fields (ram s') 0xC0109000 = (1, 0, 1, Min (free_frames pmm_example))"
  using map_page_any [OF pmm_example_facts(1) pmm_example_entry(1) _ pmm_example_free, of 0 0] pmm_example_entry(2)
  by (auto simp: pmm_example_facts)

text \<open>
  C27. The failures: an address beyond physical memory leaves the page not present; but when no
  frame is free the page is left present with frame 0.
\<close>

theorem map_page_failures:
  assumes "pmm_ok s" "entry_free pg s" "pg_addr (ram s) pg = 0" "itoa_buf_ok (itoa_buf s)"
  shows "(addr \<noteq> 0 \<and> bs_get_size (ram s) (frames s) \<le> addr div PG_SZ \<longrightarrow>
      (\<exists>s'. map_page pg usr write addr s = Some s' \<and> free_frames s' = free_frames s \<and>
         page_fields (ram s') pg = (0, take_bit 1 (ucast write), of_bool (usr = 0), 0) \<and> entry_only pg s (ram s'))) \<and>
    (free_frames s = {} \<longrightarrow>
      (\<exists>s'. map_page pg usr write 0 s = Some s' \<and> free_frames s' = {} \<and>
         page_fields (ram s') pg = (1, take_bit 1 (ucast write), of_bool (usr = 0), 0) \<and> entry_only pg s (ram s')))"
proof (intro conjI impI)
  assume "addr \<noteq> 0 \<and> bs_get_size (ram s) (frames s) \<le> addr div PG_SZ"
  then show "\<exists>s'. map_page pg usr write addr s = Some s' \<and> free_frames s' = free_frames s \<and>
      page_fields (ram s') pg = (0, take_bit 1 (ucast write), of_bool (usr = 0), 0) \<and> entry_only pg s (ram s')"
    using map_page_out_of_range [OF assms(1-3) _ assms(4), of addr usr "write"] by blast
next
  assume "free_frames s = {}"
  from map_page_no_frame [OF assms(1-3) this, of usr "write"]
  show "\<exists>s'. map_page pg usr write 0 s = Some s' \<and> free_frames s' = {} \<and>
      page_fields (ram s') pg = (1, take_bit 1 (ucast write), of_bool (usr = 0), 0) \<and> entry_only pg s (ram s')"
    by blast
qed

theorem map_page_failures_witness:
  "\<exists>s'. map_page 0xC0109000 1 1 0x40000 pmm_example = Some s' \<and> page_fields (ram s') 0xC0109000 = (0, 1, 0, 0)"
  using map_page_failures [OF pmm_example_facts(1) pmm_example_entry(1), of "0x40000" 1 1] pmm_example_entry(2)
  by (auto simp: pmm_example_facts bs_example_facts pmm_example_more PG_SZ_def)

text \<open>
  Unmapping a page that was mapped to a frame of physical memory clears the entry and gives the
  frame back: mapping a free frame other than frame 0 and unmapping it restores the free frames.
\<close>

theorem unmap_page_returns_frame:
  assumes "pmm_ok s" "entry_free pg s" "pg_addr (ram s) pg = 0" "addr div PG_SZ \<noteq> 0"
    "addr div PG_SZ \<in> free_frames s"
  shows "\<exists>s'. map_page pg usr write addr s = Some s' \<and>
    page_fields (ram (unmap_page pg s')) pg = (0, 0, 0, 0) \<and> pmm_ok (unmap_page pg s') \<and>
    free_frames (unmap_page pg s') = free_frames s"
proof -
  have lt: "addr div PG_SZ < bs_get_size (ram s) (frames s)" using assms(5) by (simp add: free_frames_iff)
  have "addr \<noteq> 0" using assms(4) by auto
  then obtain s' where s': "map_page pg usr write addr s = Some s'" "s' = s\<lparr>ram := ram s'\<rparr>" "pmm_ok s'"
    "page_fields (ram s') pg = (1, take_bit 1 (ucast write), of_bool (usr = 0), addr div PG_SZ)"
    "free_frames s' = free_frames s - {addr div PG_SZ}" "entry_free pg s'"
    "bs_get_size (ram s') (frames s) = bs_get_size (ram s) (frames s)"
    using map_page_fixed_frame [OF assms(1-3) _ lt, of usr "write"] by blast
  have fr: "frames s' = frames s" by (subst s'(2)) simp
  have "pg_addr (ram s') pg = addr div PG_SZ" using s'(4) by (simp add: page_fields_def)
  note u = unmap_page_effect [OF s'(3,6) this _ assms(4)]
  have "free_frames (unmap_page pg s') = free_frames s"
    using u(3) lt fr s'(5,7) assms(5) by auto
  then show ?thesis using u lt fr s'(1,7) by auto
qed

theorem unmap_page_returns_frame_witness:
  "\<exists>s'. map_page 0xC0109000 1 1 0x5000 pmm_example = Some s' \<and>
    free_frames (unmap_page 0xC0109000 s') = free_frames pmm_example"
proof -
  have "load32 bs_example 0x2000 = 0" by (rule bs_example_zero) simp
  then have "5 \<in> free_frames pmm_example"
    using bs_example_facts(2)
    by (simp add: free_frames_iff pmm_example_facts bs_bit_def word_ref_def pmm_example_more)
  then show ?thesis
    using unmap_page_returns_frame [OF pmm_example_facts(1) pmm_example_entry(1), of "0x5000" 1 1] pmm_example_entry(2)
    by (auto simp: pmm_example_facts PG_SZ_def)
qed

text \<open>
  C26. \<open>relocate_stack\<close> puts a copy of the stack at its new place, in which every word that points
  into the old stack points to the same offset in the new one, moves the stack and frame pointer
  by the same distance, and leaves the old stack and everything else outside the new one as it was.
\<close>

theorem relocate_stack_moves_pointers:
  assumes "unat (stack_top - stack_bottom) = 4 * n" "0 < n" "unat bottom + 4 * n < 2 ^ 32"
    "apart stack_bottom (4 * n) bottom (4 * n)"
  shows "\<exists>s'. relocate_stack stack_bottom stack_top bottom sz s = Some s' \<and>
    (\<forall>k<n. load32 (ram s') (bottom + 4 * word_of_nat k) =
       relocate_word stack_bottom stack_top (bottom - stack_bottom)
         (load32 (ram s) (stack_bottom + 4 * word_of_nat k))) \<and>
    esp s' - bottom = esp s - stack_bottom \<and> ebp s' - bottom = ebp s - stack_bottom \<and>
    (\<forall>a. apart bottom (4 * n) a 4 \<longrightarrow> load32 (ram s') a = load32 (ram s) a)"
proof -
  let ?sz = "stack_top - stack_bottom"
  let ?m = "memcpy stack_bottom bottom ?sz (ram s)"
  have "unat bottom + 4 * n = unat (bottom + ?sz)"
    using assms(1,3) by (subst unat_add_lem [THEN iffD1]) simp_all
  from relocate_loop_words [OF this, of stack_bottom stack_top "bottom - stack_bottom" ?m]
  obtain m' where m': "relocate_loop stack_bottom stack_top (bottom - stack_bottom) bottom (bottom + ?sz) ?m = Some m'"
    "\<forall>k<n. load32 m' (bottom + 4 * word_of_nat k) =
       relocate_word stack_bottom stack_top (bottom - stack_bottom) (load32 ?m (bottom + 4 * word_of_nat k))"
    "\<forall>a. n = 0 \<or> apart bottom (4 * n) a 4 \<longrightarrow> load32 m' a = load32 ?m a" by blast
  have copy: "load32 ?m (bottom + 4 * word_of_nat k) = load32 (ram s) (stack_bottom + 4 * word_of_nat k)"
    if "k < n" for k
  proof (rule load32_memcpy)
    show "apart stack_bottom (unat ?sz) bottom (unat ?sz)" using assms(1,4) by simp
    show "unat (4 * word_of_nat k :: u32) + 4 \<le> unat ?sz"
      using that assms(1) unat_bound32 [of ?sz] by (simp add: unat_word_ariths unat_of_nat)
  qed
  have "load32 ?m a = load32 (ram s) a" if "apart bottom (4 * n) a 4" for a
    using load32_memcpy_apart [of stack_bottom ?sz bottom a "ram s"] that assms(1,2,4)
    by (simp add: word_less_nat_alt)
  then show ?thesis
    using m' copy by (simp add: relocate_stack_def Let_def algebra_simps)
qed

theorem relocate_stack_moves_pointers_witness:
  "\<exists>s'. relocate_stack 0x1000 0x1008 0x2000 0x4000 (console0\<lparr>ram := store32 (\<lambda>_. 0) 0x1004 0x1002, esp := 0x1004\<rparr>)
     = Some s' \<and> load32 (ram s') 0x2004 = 0x2002 \<and> esp s' = 0x2004"
proof -
  have "apart 0x1000 (4 * 2) (0x2000 :: u32) (4 * 2)" by simp
  from relocate_stack_moves_pointers [of "0x1008" "0x1000" 2 "0x2000" "0x4000"
      "console0\<lparr>ram := store32 (\<lambda>_. 0) 0x1004 0x1002, esp := 0x1004\<rparr>", OF _ _ _ this]
  obtain s' where s': "relocate_stack 0x1000 0x1008 0x2000 0x4000
      (console0\<lparr>ram := store32 (\<lambda>_. 0) 0x1004 0x1002, esp := 0x1004\<rparr>) = Some s'"
    "\<forall>k<2. load32 (ram s') (0x2000 + 4 * word_of_nat k) = relocate_word 0x1000 0x1008 0x1000
       (load32 (store32 (\<lambda>_. 0) 0x1004 0x1002) (0x1000 + 4 * word_of_nat k))"
    "esp s' - 0x2000 = 4"
    by auto
  have "load32 (ram s') 0x2004 = 0x2002" using s'(2) [rule_format, of 1] by (simp add: relocate_word_def)
  moreover have "esp s' = 0x2004" using s'(3) by (simp add: diff_eq_eq)
  ultimately show ?thesis using s'(1) by blast
qed

text \<open>
  A page fault never returns: it always ends with the processor halted, and on the way only the
  console changes (so interrupts are still off).
\<close>

theorem page_fault_halts:
  assumes "itoa_buf_ok (itoa_buf s)"
  shows "\<exists>s'. page_fault r s = Some (Stopped s') \<and> halted s' \<and> console_only (s\<lparr>halted := True\<rparr>) s'"
proof -
  have if_some: "(if c then Some x else Some y) = Some (if c then x else y)" for c and x y :: "'a klib_scheme"
    by simp
  let ?w = "\<lambda>c f t. if c then vga_write (str f) t else t"
  let ?t = "?w (err_code r AND 0x8 \<noteq> 0) ''reserved '' (?w (err_code r AND 0x4 \<noteq> 0) ''user-mode ''
    (?w (err_code r AND 0x2 \<noteq> 0) ''read-only '' (?w (err_code r AND 0x1 = 0) ''present ''
      (vga_write (str ''Page fault! ( '') s))))"
  have t: "console_only s ?t" "itoa_buf ?t = itoa_buf s" by auto
  obtain u where u: "kprintf (str '') at 0x%x'') [KInt (cr2 s)] ?t = Some u"
    using kprintf_matches [of "str '') at 0x%x''" "[KInt (cr2 s)]" ?t] assms t(2) by auto
  let ?u = "(vga_write (str ''\<newline>'') u)\<lparr>halted := True\<rparr>"
  have "console_only s u" using kprintf_console_from [OF u t(1)] .
  then have "console_only (s\<lparr>halted := True\<rparr>) ?u"
    using vga_write_console [of s "str ''\<newline>''" u] by (simp add: console_only_def)
  moreover have "page_fault r s = Some (Stopped ?u)"
    using u by (simp add: page_fault_def Let_def kprintf_plain if_some cong: if_cong)
  ultimately show ?thesis by simp
qed

theorem page_fault_halts_witness:
  "\<exists>s'. page_fault (regs_of 14 6) klib0 = Some (Stopped s') \<and> halted s'"
  using page_fault_halts [of klib0 "regs_of 14 6"]
  by (auto simp: itoa_buf_ok_def klib0_def console.defs)

end
