(* ===== verification/Sched.thy ===== *)
theory Sched
  imports Vmm
begin

text \<open>
  kern/proc/task.c, kern/proc/sched.c and kern/asm/switch.S: tasks, the ready list, the switch
  between two stacks, \<open>schedule\<close> and \<open>fork\<close>.  A \<open>task_t\<close> holds its \<open>tid\<close> at offset 0, \<open>entry\<close> at 4,
  \<open>ctx\<close> at 8, \<open>mem\<close> at 12, \<open>parent\<close> at 16, \<open>next\<close> at 20 and \<open>prev\<close> at 24; a \<open>context_t\<close> holds
  \<open>esp\<close>, \<open>edi\<close>, \<open>esi\<close>, \<open>ebx\<close> and \<open>ebp\<close>.  The ready list is related to an abstract queue, a list and the
  cycle it ends in (locale \<open>task_queue\<close>), which also describes a list that holds the current task.  A switch of stacks does not return to its caller: the
  result of \<open>schedule\<close> tells whether it returned, or at which address the processor goes on.
\<close>

record sched_state = pmm_state +
  ready :: u32
  current :: u32
  next_tid :: u32

section \<open>Tasks\<close>

definition tsk_tid :: "mem \<Rightarrow> u32 \<Rightarrow> u32" where "tsk_tid m t = load32 m t"
definition tsk_entry :: "mem \<Rightarrow> u32 \<Rightarrow> u32" where "tsk_entry m t = load32 m (t + 4)"
definition tsk_ctx :: "mem \<Rightarrow> u32 \<Rightarrow> u32" where "tsk_ctx m t = load32 m (t + 8)"
definition tsk_mem :: "mem \<Rightarrow> u32 \<Rightarrow> u32" where "tsk_mem m t = load32 m (t + 12)"
definition tsk_parent :: "mem \<Rightarrow> u32 \<Rightarrow> u32" where "tsk_parent m t = load32 m (t + 16)"
definition tsk_next :: "mem \<Rightarrow> u32 \<Rightarrow> u32" where "tsk_next m t = load32 m (t + 20)"
definition tsk_prev :: "mem \<Rightarrow> u32 \<Rightarrow> u32" where "tsk_prev m t = load32 m (t + 24)"

definition create_task :: "u32 \<Rightarrow> 'a sched_state_scheme \<Rightarrow> (u32 \<times> 'a sched_state_scheme) option" where
  "create_task entry s =
     do {
       (tsk, s) \<leftarrow> kmalloc 28 s;
       let s = s\<lparr>ram := store32 (ram s) tsk (next_tid s), next_tid := next_tid s + 1\<rparr>;
       let s = s\<lparr>ram := store32 (ram s) (tsk + 4) entry\<rparr>;
       (c, s) \<leftarrow> kmalloc 20 s;
       Some (tsk, s\<lparr>ram := store32 (ram s) (tsk + 8) c\<rparr>)
     }"

section \<open>The ready list\<close>

partial_function (option) last_task :: "mem \<Rightarrow> u32 \<Rightarrow> u32 option" where
  "last_task m tmp = (if tsk_next m tmp = 0 then Some tmp else last_task m (tsk_next m tmp))"

definition add_task :: "u32 \<Rightarrow> u32 \<Rightarrow> mem \<Rightarrow> mem option" where
  "add_task rdy tsk m =
     (if load32 m rdy = 0 then Some (store32 m rdy tsk)
      else do { tmp \<leftarrow> last_task m (load32 m rdy); Some (store32 m (tmp + 20) tsk) })"

definition pop_task :: "u32 \<Rightarrow> mem \<Rightarrow> u32 \<times> mem" where
  "pop_task rdy m =
     (if load32 m rdy = 0 then (0, m)
      else
        (let ret = load32 m rdy;
             m = store32 m rdy (tsk_next m ret);
             m = store32 m (ret + 20) 0;
             m = store32 m (ret + 24) 0
         in (ret, m)))"

section \<open>The switch of stacks\<close>

definition push :: "u32 \<Rightarrow> 'a machine_scheme \<Rightarrow> 'a machine_scheme" where
  "push v s = s\<lparr>esp := esp s - 4, ram := store32 (ram s) (esp s - 4) v\<rparr>"

definition pop :: "'a machine_scheme \<Rightarrow> u32 \<times> 'a machine_scheme" where
  "pop s = (load32 (ram s) (esp s), s\<lparr>esp := esp s + 4\<rparr>)"

text \<open>
  On entry the return address is on top of the stack, then the two arguments.  The result is the
  address \<open>ret\<close> jumps to.
\<close>

definition ctx_swtch :: "'a machine_scheme \<Rightarrow> u32 \<times> 'a machine_scheme" where
  "ctx_swtch s =
     (let eax = load32 (ram s) (esp s + 4);
          edx = load32 (ram s) (esp s + 8);
          s = s\<lparr>ram := store32 (ram s) (eax + 16) (ebp s)\<rparr>;
          s = s\<lparr>ram := store32 (ram s) (eax + 12) (ebx s)\<rparr>;
          s = s\<lparr>ram := store32 (ram s) (eax + 8) (esi s)\<rparr>;
          s = s\<lparr>ram := store32 (ram s) (eax + 4) (edi s)\<rparr>;
          s = push (load32 (ram s) (eax + 16)) s;
          s = push (load32 (ram s) (eax + 12)) s;
          s = push (load32 (ram s) (eax + 8)) s;
          s = push (load32 (ram s) (eax + 4)) s;
          s = s\<lparr>ram := store32 (ram s) eax (esp s)\<rparr>;
          s = s\<lparr>esp := load32 (ram s) edx\<rparr>;
          (v, s) = pop s; s = s\<lparr>edi := v\<rparr>;
          (v, s) = pop s; s = s\<lparr>esi := v\<rparr>;
          (v, s) = pop s; s = s\<lparr>ebx := v\<rparr>;
          (v, s) = pop s; s = s\<lparr>ebp := v\<rparr>
      in pop s)"

section \<open>The scheduler\<close>

definition tasking_init ::
    "u32 \<Rightarrow> u32 \<Rightarrow> u32 \<Rightarrow> 'a sched_state_scheme \<Rightarrow> 'a sched_state_scheme option" where
  "tasking_init kidle stack_bottom stack_top s =
     (let bottom = 0xC0000000 - 0x4000 in
      do {
        (_, s) \<leftarrow> allocate_stack bottom 0x4000 (kern_dir s) s;
        (r, s) \<leftarrow> kmalloc 4 s;
        let s = s\<lparr>ready := r, ram := store32 (ram s) r 0\<rparr>;
        (init, s) \<leftarrow> create_task kidle s;
        (dir, s) \<leftarrow> copy_pg_dir (kern_dir s) s;
        let s = s\<lparr>ram := store32 (ram s) (init + 12) dir\<rparr>;
        let s = switch_page_directory (tsk_mem (ram s) init) s;
        s \<leftarrow> relocate_stack stack_bottom stack_top bottom 0x4000 s;
        let s = s\<lparr>ram := store32 (ram s) (tsk_ctx (ram s) init) (esp s)\<rparr>;
        let s = s\<lparr>ram := store32 (ram s) (tsk_ctx (ram s) init + 16) (ebp s)\<rparr>;
        let s = s\<lparr>current := init\<rparr>;
        m \<leftarrow> add_task (ready s) init (ram s);
        Some (s\<lparr>ram := m\<rparr>)
      })"

text \<open>
  \<open>schedule\<close> up to the switch; \<open>ret\<close> is the return address that the call of \<open>ctx_swtch\<close> pushes.
  What follows the call runs when the old task is resumed, with the value its own \<open>new\<close> had.
\<close>

definition call_ctx_swtch ::
    "u32 \<Rightarrow> u32 \<Rightarrow> u32 \<Rightarrow> 'a machine_scheme \<Rightarrow> u32 \<times> 'a machine_scheme" where
  "call_ctx_swtch ret old new s = ctx_swtch (push ret (push old (push new s)))"

definition schedule :: "u32 \<Rightarrow> 'a sched_state_scheme \<Rightarrow> 'a sched_state_scheme flow option" where
  "schedule ret s =
     (if current s = 0 then Some (Returned s)
      else
        do {
          s \<leftarrow> kprintf (str ''schedulin' \<newline>'') [] s;
          let (new, m) = pop_task (ready s) (ram s);
          let old = current s;
          m \<leftarrow> add_task (ready s) old m;
          let s = s\<lparr>ram := m, current := new\<rparr>;
          let (eip, s) = call_ctx_swtch ret (tsk_ctx (ram s) old) (tsk_ctx (ram s) new) s;
          Some (Switched eip new s)
        })"

definition schedule_resumed :: "u32 \<Rightarrow> 'a sched_state_scheme \<Rightarrow> 'a sched_state_scheme" where
  "schedule_resumed new s = switch_page_directory (tsk_mem (ram s) new) s"

definition switch_to :: "u32 \<Rightarrow> 'a sched_state_scheme \<Rightarrow> 'a sched_state_scheme" where
  "switch_to tsk s = s"

definition fork :: "'a sched_state_scheme \<Rightarrow> (u32 \<times> 'a sched_state_scheme) option" where
  "fork s =
     do {
       (child, s) \<leftarrow> create_task 0 s;
       let s = s\<lparr>ram := store32 (ram s) (child + 16) (current s)\<rparr>;
       (dir, s) \<leftarrow> copy_pg_dir (tsk_mem (ram s) (current s)) s;
       let s = s\<lparr>ram := store32 (ram s) (child + 12) dir\<rparr>;
       let s = s\<lparr>ram := store32 (ram s) (tsk_ctx (ram s) child) (esp s)\<rparr>;
       let s = s\<lparr>ram := store32 (ram s) (tsk_ctx (ram s) child + 16) (ebp s)\<rparr>;
       m \<leftarrow> add_task (ready s) child (ram s);
       let s = s\<lparr>ram := m\<rparr>;
       Some (if tsk_tid (ram s) (current s) = tsk_tid (ram s) child then 0 else tsk_tid (ram s) child, s)
     }"

text \<open>The bodies of the endless loops of the idle task and of the test task.\<close>

definition kidle_step :: "'a klib_scheme \<Rightarrow> 'a klib_scheme option" where
  "kidle_step s = do { s \<leftarrow> kprintf (str ''idling! '') [] s; Some (s\<lparr>halted := True\<rparr>) }"

definition test_task_step :: "u32 \<Rightarrow> 'a klib_scheme \<Rightarrow> (u32 \<times> 'a klib_scheme) option" where
  "test_task_step i s =
     do {
       (i, s) \<leftarrow> (if i = 100000000 then do { s \<leftarrow> kprintf (str '':-) '') [] s; Some (0, s) } else Some (i, s));
       Some (i + 1, s)
     }"

section \<open>The interface of a queue\<close>

text \<open>
  \<open>rep s q\<close>: the store \<open>s\<close> holds the queue \<open>q\<close>; \<open>elem x\<close>: the queue may be asked to hold \<open>x\<close>.  The operations
  on the store simulate \<open>aenq\<close> and \<open>adeq\<close>, where \<open>None\<close> is an operation that does not end: the store's does
  not end either.  A client takes the next element and puts the one back that had its turn.
\<close>

locale task_queue =
  fixes rep :: "'s \<Rightarrow> 'q \<Rightarrow> bool" and elem :: "'e \<Rightarrow> bool"
    and enq :: "'e \<Rightarrow> 's \<Rightarrow> 's option" and deq :: "'s \<Rightarrow> 'e \<times> 's"
    and aenq :: "'e \<Rightarrow> 'q \<Rightarrow> 'q option" and adeq :: "'q \<Rightarrow> 'e \<times> 'q" and has :: "'q \<Rightarrow> bool"
  assumes enq: "rep s q \<Longrightarrow> elem x \<Longrightarrow>
      (case aenq x q of None \<Rightarrow> enq x s = None | Some q' \<Rightarrow> \<exists>s'. enq x s = Some s' \<and> rep s' q')"
    and deq: "rep s q \<Longrightarrow> \<exists>s'. deq s = (fst (adeq q), s') \<and> rep s' (snd (adeq q))"
    and deq_elem: "rep s q \<Longrightarrow> has q \<Longrightarrow> elem (fst (adeq q))"
    and enq_has: "aenq x q = Some q' \<Longrightarrow> has q'"
begin

definition turn :: "'e \<Rightarrow> 's \<Rightarrow> ('e \<times> 's) option" where
  "turn cur s = (let (x, s) = deq s in do { s \<leftarrow> enq cur s; Some (x, s) })"

definition aturn :: "'e \<Rightarrow> 'q \<Rightarrow> ('e \<times> 'q) option" where
  "aturn cur q = (let (x, q) = adeq q in do { q \<leftarrow> aenq cur q; Some (x, q) })"

fun turns :: "nat \<Rightarrow> 'e \<Rightarrow> 's \<Rightarrow> ('e \<times> 's) option" where
  "turns 0 cur s = Some (cur, s)"
| "turns (Suc n) cur s = do { (x, s) \<leftarrow> turn cur s; turns n x s }"

fun aturns :: "nat \<Rightarrow> 'e \<Rightarrow> 'q \<Rightarrow> ('e \<times> 'q) option" where
  "aturns 0 cur q = Some (cur, q)"
| "aturns (Suc n) cur q = do { (x, q) \<leftarrow> aturn cur q; aturns n x q }"

lemma turn_sim:
  assumes "rep s q" "elem cur" "has q"
  shows "(case aturn cur q of None \<Rightarrow> turn cur s = None
    | Some (x, q') \<Rightarrow> \<exists>s'. turn cur s = Some (x, s') \<and> rep s' q' \<and> elem x \<and> has q')"
proof -
  obtain t where t: "deq s = (fst (adeq q), t)" "rep t (snd (adeq q))" using deq [OF assms(1)] by blast
  show ?thesis
    using enq [OF t(2) assms(2)] t(1) deq_elem [OF assms(1,3)] enq_has [of cur "snd (adeq q)"]
    by (cases "aenq cur (snd (adeq q))") (auto simp: turn_def aturn_def split_beta)
qed

lemma turns_sim:
  "rep s q \<Longrightarrow> elem cur \<Longrightarrow> has q \<Longrightarrow>
    (case aturns n cur q of None \<Rightarrow> turns n cur s = None
     | Some (x, q') \<Rightarrow> \<exists>s'. turns n cur s = Some (x, s') \<and> rep s' q' \<and> elem x \<and> has q')"
proof (induction n arbitrary: s q cur)
  case (Suc n)
  show ?case
  proof (cases "aturn cur q")
    case None
    then show ?thesis using turn_sim [OF Suc.prems] by simp
  next
    case (Some a)
    obtain x q' where a: "a = (x, q')" by (cases a)
    obtain s' where s': "turn cur s = Some (x, s')" "rep s' q'" "elem x" "has q'"
      using turn_sim [OF Suc.prems] Some a by auto
    show ?thesis using Suc.IH [OF s'(2-4)] Some a s'(1) by (cases "aturns n x q'") auto
  qed
qed simp

end

section \<open>The ready list without a task in it twice\<close>

fun task_list :: "mem \<Rightarrow> u32 \<Rightarrow> u32 list \<Rightarrow> bool" where
  "task_list m p [] = (p = 0)"
| "task_list m p (t # ts) = (p = t \<and> t \<noteq> 0 \<and> task_list m (tsk_next m t) ts)"

definition task_objects :: "u32 \<Rightarrow> u32 list \<Rightarrow> bool" where
  "task_objects rdy ts \<longleftrightarrow> distinct ts \<and> (\<forall>t\<in>set ts. apart t 28 rdy 4) \<and>
     (\<forall>t\<in>set ts. \<forall>u\<in>set ts. t \<noteq> u \<longrightarrow> apart t 28 u 28)"

definition ready_list :: "u32 \<Rightarrow> mem \<Rightarrow> u32 list \<Rightarrow> bool" where
  "ready_list rdy m ts \<longleftrightarrow> task_list m (load32 m rdy) ts \<and> task_objects rdy ts"

definition enqueueable :: "u32 \<Rightarrow> mem \<Rightarrow> u32 list \<Rightarrow> u32 \<Rightarrow> bool" where
  "enqueueable rdy m ts t \<longleftrightarrow> t \<noteq> 0 \<and> tsk_next m t = 0 \<and> task_objects rdy (t # ts)"

lemma task_list_cong:
  "(\<And>t. t \<in> set ts \<Longrightarrow> tsk_next m' t = tsk_next m t) \<Longrightarrow> task_list m' p ts = task_list m p ts"
  by (induction ts arbitrary: p) auto

lemma task_list_snoc:
  assumes "task_list m p ts" "ts \<noteq> []" "distinct ts" "x \<noteq> 0"
    "\<And>t. t \<in> set ts \<Longrightarrow> t \<noteq> last ts \<Longrightarrow> tsk_next m' t = tsk_next m t"
    "tsk_next m' (last ts) = x" "tsk_next m' x = 0"
  shows "task_list m' p (ts @ [x])"
  using assms
proof (induction ts arbitrary: p)
  case (Cons t ts)
  show ?case
  proof (cases "ts = []")
    case False
    then have "t \<noteq> last ts" using Cons.prems(3) by auto
    then show ?thesis using Cons False by auto
  qed (use Cons.prems in auto)
qed simp

lemma last_task_last:
  "task_list m p ts \<Longrightarrow> ts \<noteq> [] \<Longrightarrow> last_task m p = Some (last ts)"
proof (induction ts arbitrary: p)
  case (Cons t ts)
  then show ?case
    by (cases "ts = []"; subst last_task.simps) (auto, cases ts, auto)
qed simp

lemma next_store:
  assumes "apart t 28 u 28"
  shows "tsk_next (store32 m (t + 20) v) u = tsk_next m u" "tsk_next (store32 m (t + 24) v) u = tsk_next m u"
  using apart_shift [OF assms, of 20 4 20 4] apart_shift [OF assms, of 24 4 20 4]
  by (simp_all add: tsk_next_def load32_store32_apart)

lemma next_store_head:
  assumes "apart t 28 rdy 4"
  shows "tsk_next (store32 m rdy v) t = tsk_next m t" "load32 (store32 m (t + 20) v) rdy = load32 m rdy"
    "load32 (store32 m (t + 24) v) rdy = load32 m rdy"
  using apart_shift_left [OF assms, of 20 4] apart_shift_left [OF assms, of 24 4]
  by (simp_all add: tsk_next_def load32_store32_apart apart_sym)

lemma next_store_own [simp]:
  "tsk_next (store32 m (t + 20) v) t = v" "tsk_next (store32 m (t + 24) v) t = tsk_next m t"
  by (simp_all add: tsk_next_def load32_store32_apart)

lemma add_task_appends:
  assumes r: "ready_list rdy m ts" and e: "enqueueable rdy m ts x"
  shows "\<exists>m'. add_task rdy x m = Some m' \<and> ready_list rdy m' (ts @ [x]) \<and>
    (\<forall>u. u \<notin> set (x # ts) \<longrightarrow> task_objects rdy (u # x # ts) \<longrightarrow> tsk_next m' u = tsk_next m u)"
proof (cases "ts = []")
  case True
  then have h: "load32 m rdy = 0" using r by (simp add: ready_list_def)
  have "tsk_next (store32 m rdy x) u = tsk_next m u" if "apart u 28 rdy 4" for u
    using that by (simp add: next_store_head)
  then show ?thesis
    using True e h by (simp add: add_task_def ready_list_def enqueueable_def task_objects_def)
next
  case False
  let ?l = "last ts" and ?m = "store32 m (last ts + 20) x"
  have h: "task_list m (load32 m rdy) ts" "load32 m rdy \<noteq> 0"
    using r False by (cases ts; simp add: ready_list_def)+
  have l: "?l \<in> set ts" using False by simp
  have obj: "task_objects rdy (x # ts)" using e by (simp add: enqueueable_def)
  have keep: "tsk_next ?m u = tsk_next m u" if "u \<noteq> ?l" "task_objects rdy (u # us)" "?l \<in> set us" for u us
    using that by (auto simp: task_objects_def next_store)
  have "add_task rdy x m = Some ?m"
    using h last_task_last [OF h(1) False] by (simp add: add_task_def)
  moreover have "load32 ?m rdy = load32 m rdy"
    using obj l by (simp add: task_objects_def next_store_head)
  moreover have "task_list ?m (load32 m rdy) (ts @ [x])"
  proof (rule task_list_snoc [OF h(1) False])
    show "distinct ts" "x \<noteq> 0" using obj e by (auto simp: task_objects_def enqueueable_def)
    show "tsk_next ?m t = tsk_next m t" if "t \<in> set ts" "t \<noteq> ?l" for t
      using that l obj by (simp add: task_objects_def next_store)
    have "x \<noteq> ?l" using obj l by (auto simp: task_objects_def)
    then show "tsk_next ?m x = 0" using keep [OF _ obj l] e by (simp add: enqueueable_def)
  qed simp
  moreover have "task_objects rdy (ts @ [x])" using obj by (auto simp: task_objects_def)
  moreover have "tsk_next ?m u = tsk_next m u"
    if "u \<notin> set (x # ts)" "task_objects rdy (u # x # ts)" for u
    using that l keep [of u "x # ts"] by auto
  ultimately show ?thesis by (auto simp: ready_list_def)
qed

lemma pop_task_takes_head:
  assumes "ready_list rdy m (t # ts)"
  shows "\<exists>m'. pop_task rdy m = (t, m') \<and> ready_list rdy m' ts \<and> tsk_next m' t = 0 \<and> tsk_prev m' t = 0 \<and>
    (\<forall>u. task_objects rdy (u # t # ts) \<longrightarrow> tsk_next m' u = tsk_next m u)"
proof -
  let ?m = "store32 (store32 (store32 m rdy (tsk_next m t)) (t + 20) 0) (t + 24) 0"
  have h: "load32 m rdy = t" "t \<noteq> 0" "task_list m (tsk_next m t) ts" "task_objects rdy (t # ts)"
    using assms by (simp_all add: ready_list_def)
  have t: "apart t 28 rdy 4" using h(4) by (simp add: task_objects_def)
  have keep: "tsk_next ?m u = tsk_next m u" if "apart t 28 u 28" "apart u 28 rdy 4" for u
    using that by (simp add: next_store next_store_head)
  have "pop_task rdy m = (t, ?m)" using h by (simp add: pop_task_def Let_def)
  moreover have "load32 ?m rdy = tsk_next m t" using t by (simp add: next_store_head)
  moreover have "task_list ?m p ts = task_list m p ts" for p
    using h(4) by (intro task_list_cong keep) (auto simp: task_objects_def)
  moreover have "task_objects rdy ts" using h(4) by (simp add: task_objects_def)
  moreover have "tsk_next ?m t = 0" "tsk_prev ?m t = 0"
    by (simp, simp add: tsk_prev_def)
  moreover have "tsk_next ?m u = tsk_next m u" if "task_objects rdy (u # t # ts)" for u
    using that by (intro keep) (auto simp: task_objects_def apart_sym)
  ultimately show ?thesis using h(3) by (auto simp: ready_list_def)
qed

section \<open>A task that is queued twice\<close>

lemma last_task_Some_False:
  assumes "last_task m p = Some r" "p \<in> C" "\<forall>t\<in>C. tsk_next m t \<in> C \<and> tsk_next m t \<noteq> 0"
  shows False
proof -
  let ?P = "\<lambda>m p (r :: u32). p \<in> C \<longrightarrow> \<not> (\<forall>t\<in>C. tsk_next m t \<in> C \<and> tsk_next m t \<noteq> 0)"
  have "?P m p r"
  proof (rule last_task.raw_induct [where P = ?P, OF _ assms(1)])
    fix f m p r
    assume "\<And>m p r. f m p = Some r \<Longrightarrow> ?P m p r"
      and "(if tsk_next m p = 0 then Some p else f m (tsk_next m p)) = Some r"
    then show "?P m p r" by (cases "tsk_next m p = 0") auto
  qed
  then show False using assms by blast
qed

lemma last_task_closed:
  assumes "p \<in> C" "\<And>t. t \<in> C \<Longrightarrow> tsk_next m t \<in> C \<and> tsk_next m t \<noteq> 0"
  shows "last_task m p = None"
  using last_task_Some_False [of m p _ C] assms by (cases "last_task m p") auto

lemma task_list_successor:
  "task_list m p ts \<Longrightarrow> t \<in> set ts \<Longrightarrow> t \<noteq> last ts \<Longrightarrow> tsk_next m t \<in> set ts \<and> tsk_next m t \<noteq> 0"
proof (induction ts arbitrary: p)
  case (Cons u us)
  then show ?case by (cases us) auto
qed simp

lemma task_list_nonzero: "task_list m p ts \<Longrightarrow> t \<in> set ts \<Longrightarrow> t \<noteq> 0"
  by (induction ts arbitrary: p) auto

lemma add_last_again:
  assumes "ready_list rdy m ts" "ts \<noteq> []"
  shows "\<exists>m'. add_task rdy (last ts) m = Some m' \<and> tsk_next m' (last ts) = last ts \<and>
    load32 m' rdy = load32 m rdy \<and> (\<forall>t\<in>set ts. t \<noteq> last ts \<longrightarrow> tsk_next m' t = tsk_next m t) \<and>
    (\<forall>u. add_task rdy u m' = None)"
proof -
  let ?l = "last ts" and ?m = "store32 m (last ts + 20) (last ts)"
  have h: "task_list m (load32 m rdy) ts" "load32 m rdy \<noteq> 0" "load32 m rdy \<in> set ts"
    "task_objects rdy ts"
    using assms by (cases ts; simp add: ready_list_def)+
  have l: "?l \<in> set ts" using assms(2) by simp
  then have ne: "?l \<noteq> 0" using task_list_nonzero [OF h(1)] by blast
  have add: "add_task rdy ?l m = Some ?m"
    using h(2) last_task_last [OF h(1) assms(2)] by (simp add: add_task_def)
  have head: "load32 ?m rdy = load32 m rdy"
    using h(4) l by (simp add: task_objects_def next_store_head)
  have keep: "tsk_next ?m t = tsk_next m t" if "t \<in> set ts" "t \<noteq> ?l" for t
    using that l h(4) by (simp add: task_objects_def next_store)
  have "tsk_next ?m t \<in> set ts \<and> tsk_next ?m t \<noteq> 0" if "t \<in> set ts" for t
    using task_list_successor [OF h(1) that] keep [OF that] l ne by (cases "t = ?l") auto
  then have "last_task ?m (load32 m rdy) = None" using h(3) by (rule last_task_closed [rotated])
  then have "add_task rdy u ?m = None" for u using h(2) head by (simp add: add_task_def)
  then show ?thesis using add head keep by auto
qed

text \<open>
  One turn of \<open>schedule\<close>: the next task is taken off the list and the current one put back.
\<close>

definition next_turn :: "u32 \<Rightarrow> u32 \<Rightarrow> mem \<Rightarrow> (u32 \<times> mem) option" where
  "next_turn rdy cur m = (let (new, m) = pop_task rdy m in do { m \<leftarrow> add_task rdy cur m; Some (new, m) })"

fun next_turns :: "nat \<Rightarrow> u32 \<Rightarrow> u32 \<Rightarrow> mem \<Rightarrow> (u32 \<times> mem) option" where
  "next_turns 0 rdy cur m = Some (cur, m)"
| "next_turns (Suc n) rdy cur m = do { (x, m) \<leftarrow> next_turn rdy cur m; next_turns n rdy x m }"

section \<open>The ready list is such a queue\<close>

text \<open>
  The tasks from the head of the list on, and behind them those that are gone round for ever when
  the last link points back into the list.  A task of the list that is added again is linked from the
  last one, so that the list closes at it; adding anything to a closed list never ends; taking the head off
  a list that is a mere cycle opens it just before the task taken, which so stays in it.
\<close>

type_synonym queue = "u32 list \<times> u32 list"

fun q_pop :: "queue \<Rightarrow> u32 \<times> queue" where
  "q_pop ([], []) = (0, ([], []))"
| "q_pop (t # ts, ls) = (t, (ts, ls))"
| "q_pop ([], t # ls) = (t, (ls @ [t], []))"

fun q_add :: "u32 \<Rightarrow> queue \<Rightarrow> queue option" where
  "q_add t (xs, ls) =
     (if ls \<noteq> [] then None
      else if t \<in> set xs then Some (takeWhile (\<lambda>u. u \<noteq> t) xs, dropWhile (\<lambda>u. u \<noteq> t) xs)
      else Some (xs @ [t], []))"

fun task_path :: "mem \<Rightarrow> u32 \<Rightarrow> u32 list \<Rightarrow> u32 \<Rightarrow> bool" where
  "task_path m p [] e = (p = e)"
| "task_path m p (t # ts) e = (p = t \<and> task_path m (tsk_next m t) ts e)"

definition first :: "u32 list \<Rightarrow> u32" where
  "first ts = (case ts of [] \<Rightarrow> 0 | t # _ \<Rightarrow> t)"

text \<open>
  \<open>ts\<close> are all the tasks there are; those outside of the list have no successor.
\<close>

definition ready_queue :: "u32 \<Rightarrow> u32 list \<Rightarrow> mem \<Rightarrow> queue \<Rightarrow> bool" where
  "ready_queue rdy ts m = (\<lambda>(xs, ls). task_objects rdy ts \<and> 0 \<notin> set ts \<and> distinct (xs @ ls) \<and>
     set (xs @ ls) \<subseteq> set ts \<and> task_path m (load32 m rdy) xs (first ls) \<and> task_path m (first ls) ls (first ls) \<and>
     (\<forall>t\<in>set ts - set (xs @ ls). tsk_next m t = 0))"

lemma task_path_append: "task_path m p (xs @ ys) e \<longleftrightarrow> (\<exists>q. task_path m p xs q \<and> task_path m q ys e)"
  by (induction xs arbitrary: p) auto

lemma task_path_cong: "(\<And>t. t \<in> set xs \<Longrightarrow> tsk_next m' t = tsk_next m t) \<Longrightarrow> task_path m' p xs e = task_path m p xs e"
  by (induction xs arbitrary: p) auto

lemma task_path_end: "task_path m p xs e \<Longrightarrow> xs \<noteq> [] \<Longrightarrow> p = hd xs \<and> tsk_next m (last xs) = e"
  by (induction xs arbitrary: p) auto

text \<open>Redirecting the last link.\<close>

lemma task_path_redirect:
  assumes "task_path m p xs e" "xs \<noteq> []" "\<And>t. t \<in> set (butlast xs) \<Longrightarrow> tsk_next m' t = tsk_next m t" "tsk_next m' (last xs) = e'"
  shows "task_path m' p xs e'"
proof -
  obtain ys l where xs: "xs = ys @ [l]" using assms(2) by (cases xs rule: rev_cases) auto
  have "task_path m' p ys q = task_path m p ys q" for q using assms(3) xs by (intro task_path_cong) auto
  then show ?thesis using assms(1,4) xs by (auto simp: task_path_append)
qed

lemma task_path_task_list: "task_path m p xs 0 \<Longrightarrow> 0 \<notin> set xs \<Longrightarrow> task_list m p xs"
  by (induction xs arbitrary: p) auto

lemma task_path_successor:
  "task_path m p xs e \<Longrightarrow> t \<in> set xs \<Longrightarrow> tsk_next m t \<in> insert e (set xs)"
proof (induction xs arbitrary: p)
  case (Cons u us)
  then show ?case by (cases us) auto
qed simp

text \<open>The writes to links keep every other link.\<close>

lemma task_next_store:
  assumes "task_objects rdy ts" "t \<in> set ts" "u \<in> set ts"
  shows "tsk_next (store32 m (t + 20) v) u = (if u = t then v else tsk_next m u)"
    "tsk_next (store32 m (t + 24) v) u = tsk_next m u" "tsk_next (store32 m rdy v) u = tsk_next m u"
    "load32 (store32 m (t + 20) v) rdy = load32 m rdy" "load32 (store32 m (t + 24) v) rdy = load32 m rdy"
  using assms by (cases "u = t"; simp add: task_objects_def next_store next_store_head)+

lemma pop_task_sim:
  assumes "ready_queue rdy ts m q"
  shows "\<exists>m'. pop_task rdy m = (fst (q_pop q), m') \<and> ready_queue rdy ts m' (snd (q_pop q))"
proof -
  have obj: "task_objects rdy ts" "0 \<notin> set ts" using assms by (auto simp: ready_queue_def)
  consider (empty) "q = ([], [])" | (listed) x xs ls where "q = (x # xs, ls)" | (loop) x ls where "q = ([], x # ls)"
    by (metis list.exhaust surj_pair)
  then show ?thesis
  proof cases
    case empty
    then show ?thesis using assms by (auto simp: ready_queue_def pop_task_def first_def)
  next
    case (listed x xs ls)
    let ?m = "store32 (store32 (store32 m rdy (tsk_next m x)) (x + 20) 0) (x + 24) 0"
    have h: "load32 m rdy = x" "x \<in> set ts" "x \<noteq> 0" "x \<notin> set (xs @ ls)" "task_path m (tsk_next m x) xs (first ls)"
      using assms obj(2) listed by (auto simp: ready_queue_def)
    have n: "tsk_next ?m u = (if u = x then 0 else tsk_next m u)" if "u \<in> set ts" for u
      using task_next_store [OF obj(1) h(2) that] by simp
    have "load32 ?m rdy = tsk_next m x" using task_next_store [OF obj(1) h(2,2)] by simp
    moreover have "task_path ?m p us e = task_path m p us e" if us: "set us \<subseteq> set (xs @ ls)" for p us e
    proof (rule task_path_cong)
      fix u assume "u \<in> set us"
      then have "u \<in> set ts" "u \<noteq> x" using us h(4) assms listed by (auto simp: ready_queue_def)
      then show "tsk_next ?m u = tsk_next m u" using n by simp
    qed
    moreover have "task_path m (first ls) ls (first ls)" using assms listed by (auto simp: ready_queue_def)
    ultimately have "task_path ?m (load32 ?m rdy) xs (first ls)" "task_path ?m (first ls) ls (first ls)"
      using h(5) by auto
    then have "ready_queue rdy ts ?m (xs, ls)"
      using assms listed n by (simp add: ready_queue_def)
    then show ?thesis using h listed by (simp add: pop_task_def Let_def)
  next
    case (loop x ls)
    let ?m = "store32 (store32 (store32 m rdy (tsk_next m x)) (x + 20) 0) (x + 24) 0"
    have h: "load32 m rdy = x" "x \<in> set ts" "x \<noteq> 0" "x \<notin> set ls" "task_path m (tsk_next m x) ls x" "distinct ls" "set ls \<subseteq> set ts"
      using assms obj(2) loop by (auto simp: ready_queue_def first_def)
    have n: "tsk_next ?m u = (if u = x then 0 else tsk_next m u)" if "u \<in> set ts" for u
      using task_next_store [OF obj(1) h(2) that] by simp
    have "task_path ?m (tsk_next m x) ls x = task_path m (tsk_next m x) ls x"
      by (rule task_path_cong) (use n h(4,7) in auto)
    then have "task_path ?m (tsk_next m x) (ls @ [x]) 0" using h(2,5) n by (auto simp: task_path_append)
    moreover have "load32 ?m rdy = tsk_next m x" using task_next_store [OF obj(1) h(2,2)] by simp
    ultimately have "ready_queue rdy ts ?m (ls @ [x], [])"
      using assms loop h n by (auto simp: ready_queue_def first_def)
    then show ?thesis using h loop by (simp add: pop_task_def Let_def)
  qed
qed

lemma add_task_sim:
  assumes "ready_queue rdy ts m q" "t \<in> set ts"
  shows "case q_add t q of None \<Rightarrow> add_task rdy t m = None
    | Some q' \<Rightarrow> \<exists>m'. add_task rdy t m = Some m' \<and> ready_queue rdy ts m' q'"
proof -
  obtain xs ls where q: "q = (xs, ls)" by (cases q)
  have obj: "task_objects rdy ts" "0 \<notin> set ts" "distinct (xs @ ls)" "set (xs @ ls) \<subseteq> set ts"
    and p: "task_path m (load32 m rdy) xs (first ls)" "task_path m (first ls) ls (first ls)"
    and off: "\<And>u. u \<in> set ts \<Longrightarrow> u \<notin> set (xs @ ls) \<Longrightarrow> tsk_next m u = 0"
    using assms q by (auto simp: ready_queue_def)
  consider (loop) "ls \<noteq> []" | (empty) "ls = []" "xs = []" | (ends) "ls = []" "xs \<noteq> []" by blast
  then show ?thesis
  proof cases
    case loop
    then have f: "first ls \<in> set ls" by (cases ls) (simp_all add: first_def)
    have hd: "load32 m rdy \<in> set (xs @ ls)" using p(1) f by (cases xs) auto
    have "tsk_next m u \<in> set (xs @ ls)" if "u \<in> set (xs @ ls)" for u
      using task_path_successor [OF p(1), of u] task_path_successor [OF p(2), of u] that f by auto
    then have "tsk_next m u \<in> set (xs @ ls) \<and> tsk_next m u \<noteq> 0" if "u \<in> set (xs @ ls)" for u
      using that obj(2,4) by (metis subsetD)
    with hd have "last_task m (load32 m rdy) = None" by (rule last_task_closed)
    moreover have "load32 m rdy \<noteq> 0" using hd obj(2,4) by (metis subsetD)
    ultimately show ?thesis using loop q by (simp add: add_task_def)
  next
    case empty
    have "tsk_next (store32 m rdy t) u = tsk_next m u" if "u \<in> set ts" for u
      using task_next_store(3) [OF obj(1) assms(2) that] .
    then have "ready_queue rdy ts (store32 m rdy t) ([t], [])"
      using obj off assms(2) empty by (auto simp: ready_queue_def first_def)
    then show ?thesis using p empty q by (simp add: add_task_def first_def)
  next
    case ends
    let ?l = "last xs" and ?m = "store32 m (last xs + 20) t"
    have l: "?l \<in> set ts" "?l \<in> set xs" using ends obj(4) by auto
    have h: "load32 m rdy = hd xs" "hd xs \<noteq> 0"
      using task_path_end [OF p(1)] ends obj(2,4) hd_in_set [of xs] by (auto, metis subsetD)
    have "task_list m (load32 m rdy) xs"
      by (rule task_path_task_list) (use p ends obj(2,4) in \<open>auto simp: first_def\<close>)
    from last_task_last [OF this] have add: "add_task rdy t m = Some ?m"
      using h ends by (simp add: add_task_def)
    have n: "tsk_next ?m u = (if u = ?l then t else tsk_next m u)" if "u \<in> set ts" for u
      using task_next_store(1) [OF obj(1) l(1) that] .
    have r: "load32 ?m rdy = load32 m rdy" using task_next_store(4) [OF obj(1) l(1,1)] .
    have bl: "set (butlast xs) \<subseteq> set ts" "?l \<notin> set (butlast xs)"
      using ends obj(3,4) by (auto dest: in_set_butlastD) (metis append_butlast_last_id disjoint_insert(1) distinct_append list.set_intros(1) list.simps(15))
    have pt: "task_path ?m (load32 ?m rdy) xs t"
      unfolding r by (rule task_path_redirect [OF p(1)]) (use ends n l bl in auto)
    show ?thesis
    proof (cases "t \<in> set xs")
      case False
      then have "tsk_next ?m t = 0" using n off assms(2) ends l by auto
      then have "task_path ?m (load32 ?m rdy) (xs @ [t]) 0" using pt by (auto simp: task_path_append)
      then have "ready_queue rdy ts ?m (xs @ [t], [])"
        using obj off ends False assms(2) n by (auto simp: ready_queue_def first_def)
      then show ?thesis using add q ends False by simp
    next
      case True
      obtain ys zs where xs: "xs = ys @ t # zs" "t \<notin> set ys" using split_list_first [OF True] by blast
      have s: "takeWhile (\<lambda>u. u \<noteq> t) xs = ys" "dropWhile (\<lambda>u. u \<noteq> t) xs = t # zs"
        using xs by (simp_all add: takeWhile_append dropWhile_append)
      have "task_path ?m (load32 ?m rdy) ys t" "task_path ?m t (t # zs) t" using pt unfolding xs(1) task_path_append by auto
      moreover have "tsk_next ?m u = 0" if "u \<in> set ts" "u \<notin> set xs" for u
        using that n off ends l by auto
      ultimately have "ready_queue rdy ts ?m (ys, t # zs)"
        using obj ends unfolding ready_queue_def xs(1) by (simp add: first_def)
      then show ?thesis using add q ends True s by simp
    qed
  qed
qed

interpretation rq: task_queue "ready_queue rdy ts" "\<lambda>t. t \<in> set ts" "add_task rdy" "pop_task rdy" q_add q_pop
    "\<lambda>q. q \<noteq> ([], [])" for rdy ts
proof unfold_locales
  fix m q t
  show "ready_queue rdy ts m q \<Longrightarrow> t \<in> set ts \<Longrightarrow> case q_add t q of None \<Rightarrow> add_task rdy t m = None
    | Some q' \<Rightarrow> \<exists>m'. add_task rdy t m = Some m' \<and> ready_queue rdy ts m' q'"
    by (rule add_task_sim)
  show "ready_queue rdy ts m q \<Longrightarrow> \<exists>m'. pop_task rdy m = (fst (q_pop q), m') \<and> ready_queue rdy ts m' (snd (q_pop q))"
    by (rule pop_task_sim)
  show "ready_queue rdy ts m q \<Longrightarrow> q \<noteq> ([], []) \<Longrightarrow> fst (q_pop q) \<in> set ts"
    by (cases q rule: q_pop.cases) (auto simp: ready_queue_def)
next
  fix x q q'
  show "q_add x q = Some q' \<Longrightarrow> q' \<noteq> ([], [])"
    by (cases q) (auto split: if_splits)
qed

definition q_turn :: "u32 \<Rightarrow> queue \<Rightarrow> (u32 \<times> queue) option" where
  "q_turn cur q = (let (new, q) = q_pop q in do { q \<leftarrow> q_add cur q; Some (new, q) })"

lemma q_turn_eq: "q_turn = rq.aturn"
  by (intro ext) (simp add: q_turn_def rq.aturn_def)

lemma next_turn_rq: "next_turn rdy = rq.turn rdy"
  by (intro ext) (simp add: next_turn_def rq.turn_def)

lemma next_turns_rq: "next_turns n rdy cur m = rq.turns rdy n cur m"
  by (induction n arbitrary: cur m) (auto simp: next_turn_rq split: Option.bind_splits)

definition links_apart :: "u32 \<Rightarrow> u32 list \<Rightarrow> u32 \<Rightarrow> bool" where
  "links_apart rdy ts a \<longleftrightarrow> apart rdy 4 a 4 \<and> (\<forall>t\<in>set ts. apart (t + 20) 8 a 4)"

lemma link_words:
  assumes "apart (u + 20) 8 a 4"
  shows "apart (u + 20) 4 a 4" "apart (u + 24) 4 a 4"
proof -
  show "apart (u + 20) 4 a 4" by (rule apart_mono [OF assms]) simp_all
  have "apart (u + 20 + 4) 4 a 4" by (rule apart_shift_left [OF assms]) simp_all
  moreover have "u + 20 + 4 = u + 24" by simp
  ultimately show "apart (u + 24) 4 a 4" by simp
qed

text \<open>A turn writes only the head of the list and links of the tasks.\<close>

lemma queue_links:
  assumes "ready_queue rdy ts m q"
  shows "t \<in> set ts \<Longrightarrow> tsk_next m t \<in> insert 0 (set ts)" "load32 m rdy \<in> insert 0 (set ts)"
proof -
  obtain xs ls where q: "q = (xs, ls)" by (cases q)
  have p: "task_path m (load32 m rdy) xs (first ls)" "task_path m (first ls) ls (first ls)" "set (xs @ ls) \<subseteq> set ts"
    "\<forall>t\<in>set ts - set (xs @ ls). tsk_next m t = 0"
    using assms q by (auto simp: ready_queue_def)
  have f: "first ls \<in> insert 0 (set ts)" using p(3) by (cases ls) (auto simp: first_def)
  show "tsk_next m t \<in> insert 0 (set ts)" if "t \<in> set ts"
  proof (cases "t \<in> set (xs @ ls)")
    case True
    then have "tsk_next m t \<in> insert (first ls) (set (xs @ ls))"
      using task_path_successor [OF p(1), of t] task_path_successor [OF p(2), of t] by auto
    then show ?thesis using f p(3) by (metis insert_iff subsetD)
  qed (use p(4) that in simp)
  show "load32 m rdy \<in> insert 0 (set ts)"
    using p(1,3) f by (cases xs) auto
qed

lemma last_task_in:
  assumes "last_task m p = Some r" "p \<in> C" "\<forall>t\<in>C. tsk_next m t \<in> insert 0 C"
  shows "r \<in> C"
proof -
  let ?P = "\<lambda>m p r. p \<in> C \<longrightarrow> (\<forall>t\<in>C. tsk_next m t \<in> insert 0 C) \<longrightarrow> r \<in> C"
  have "?P m p r"
  proof (rule last_task.raw_induct [where P = ?P, OF _ assms(1)])
    fix f m p r
    assume "\<And>m p r. f m p = Some r \<Longrightarrow> ?P m p r"
      and "(if tsk_next m p = 0 then Some p else f m (tsk_next m p)) = Some r"
    then show "?P m p r" by (cases "tsk_next m p = 0") auto
  qed
  then show ?thesis using assms by blast
qed

lemma next_turn_keeps:
  assumes r: "ready_queue rdy ts m q" "q \<noteq> ([], [])" and t: "next_turn rdy cur m = Some (y, m')"
    and a: "links_apart rdy ts a"
  shows "load32 m' a = load32 m a"
proof -
  obtain m1 where m1: "pop_task rdy m = (y, m1)" "ready_queue rdy ts m1 (snd (q_pop q))" "add_task rdy cur m1 = Some m'"
    using pop_task_sim [OF r(1)] t by (auto simp: next_turn_def bind_eq_Some_conv)
  have w: "apart rdy 4 a 4" "\<And>u. u \<in> set ts \<Longrightarrow> apart (u + 20) 4 a 4" "\<And>u. u \<in> set ts \<Longrightarrow> apart (u + 24) 4 a 4"
    using a link_words by (auto simp: links_apart_def)
  have 1: "load32 m1 a = load32 m a"
  proof (cases "load32 m rdy = 0")
    case True
    then show ?thesis using m1(1) by (simp add: pop_task_def)
  next
    case False
    then have "load32 m rdy \<in> set ts" using queue_links(2) [OF r(1)] by simp
    moreover have "m1 = store32 (store32 (store32 m rdy (tsk_next m (load32 m rdy))) (load32 m rdy + 20) 0) (load32 m rdy + 24) 0"
      using m1(1) False by (auto simp: pop_task_def Let_def)
    ultimately show ?thesis using w by (simp add: load32_store32_apart)
  qed
  show ?thesis
  proof (cases "load32 m1 rdy = 0")
    case True
    then show ?thesis using m1(3) 1 w(1) by (auto simp: add_task_def load32_store32_apart)
  next
    case False
    then obtain r where l: "last_task m1 (load32 m1 rdy) = Some r" "m' = store32 m1 (r + 20) cur"
      using m1(3) by (auto simp: add_task_def bind_eq_Some_conv)
    have "load32 m1 rdy \<in> set ts" using queue_links(2) [OF m1(2)] False by simp
    from last_task_in [OF l(1) this] queue_links(1) [OF m1(2)] have "r \<in> set ts" by blast
    then show ?thesis using l(2) 1 w(2) by (simp add: load32_store32_apart)
  qed
qed

section \<open>The stack after a switch\<close>

text \<open>All words of one region are apart from all words of another one.\<close>

lemma apart_words:
  assumes "apart a n b k"
  shows "unat c + 4 \<le> n \<Longrightarrow> unat d + 4 \<le> k \<Longrightarrow> apart (a + c) 4 (b + d) 4"
    "unat c + 4 \<le> n \<Longrightarrow> 4 \<le> k \<Longrightarrow> apart (a + c) 4 b 4"
    "4 \<le> n \<Longrightarrow> unat d + 4 \<le> k \<Longrightarrow> apart a 4 (b + d) 4"
    "4 \<le> n \<Longrightarrow> 4 \<le> k \<Longrightarrow> apart a 4 b 4"
  using apart_shift [OF assms, of c 4 d 4] apart_shift [OF assms, of c 4 0 4]
    apart_shift [OF assms, of 0 4 d 4] apart_shift [OF assms, of 0 4 0 4] by simp_all

lemma ctx_swtch_effect:
  assumes f: "esp s = f + 16" and old: "load32 (ram s) (f + 20) = old" and new: "load32 (ram s) (f + 24) = new"
    and sp: "load32 (ram s) new = sp"
    and ap: "apart old 20 f 28" "apart old 20 new 4" "apart old 20 sp 20" "apart f 16 new 4" "apart f 16 sp 20"
  shows "\<exists>m'. ctx_swtch s = (load32 (ram s) (sp + 16),
      s\<lparr>ram := m', esp := sp + 20, edi := load32 (ram s) sp, esi := load32 (ram s) (sp + 4),
        ebx := load32 (ram s) (sp + 8), ebp := load32 (ram s) (sp + 12)\<rparr>) \<and>
    load32 m' old = f \<and> load32 m' f = edi s \<and> load32 m' (f + 4) = esi s \<and>
    load32 m' (f + 8) = ebx s \<and> load32 m' (f + 12) = ebp s \<and>
    load32 m' (f + 16) = load32 (ram s) (f + 16) \<and>
    (\<forall>a. apart old 20 a 4 \<longrightarrow> apart f 16 a 4 \<longrightarrow> load32 m' a = load32 (ram s) a)"
proof -
  note w = apart_words [OF ap(1)] apart_words [OF ap(2)] apart_words [OF ap(3)] apart_words [OF ap(4)]
    apart_words [OF ap(5)]
  note w' = w w [unfolded apart_sym [of _ 4 _ 4]]
  let ?m1 = "store32 (store32 (store32 (store32 (ram s) (old + 16) (ebp s)) (old + 12) (ebx s))
    (old + 8) (esi s)) (old + 4) (edi s)"
  let ?m2 = "store32 (store32 (store32 (store32 ?m1 (f + 12) (ebp s)) (f + 8) (ebx s)) (f + 4) (esi s)) f (edi s)"
  let ?m = "store32 ?m2 old f"
  have p: "esp s - 4 = f + 12" "esp s - 8 = f + 8" "esp s - 12 = f + 4" "esp s - 16 = f"
    "esp s + 4 = f + 20" "esp s + 8 = f + 24"
    "8 + sp = sp + 8" "12 + sp = sp + 12" "16 + sp = sp + 16" "20 + sp = sp + 20"
    using f by simp_all
  have c: "ctx_swtch s = (load32 ?m (sp + 16),
      s\<lparr>ram := ?m, esp := sp + 20, edi := load32 ?m sp, esi := load32 ?m (sp + 4),
        ebx := load32 ?m (sp + 8), ebp := load32 ?m (sp + 12)\<rparr>)"
    using old new sp by (simp add: ctx_swtch_def Let_def push_def pop_def p load32_store32_apart w')
  have o: "load32 ?m a = load32 (ram s) a" if "apart old 20 a 4" "apart f 16 a 4" for a
    by (simp add: load32_store32_apart apart_words [OF that(1)] apart_words [OF that(2)])
  have l: "load32 ?m old = f" "load32 ?m f = edi s" "load32 ?m (f + 4) = esi s"
    "load32 ?m (f + 8) = ebx s" "load32 ?m (f + 12) = ebp s" "load32 ?m (f + 16) = load32 (ram s) (f + 16)"
    "load32 ?m sp = load32 (ram s) sp" "load32 ?m (sp + 4) = load32 (ram s) (sp + 4)"
    "load32 ?m (sp + 8) = load32 (ram s) (sp + 8)" "load32 ?m (sp + 12) = load32 (ram s) (sp + 12)"
    "load32 ?m (sp + 16) = load32 (ram s) (sp + 16)"
    by (simp_all add: load32_store32_apart w')
  show ?thesis
    unfolding c l using l o by blast
qed

text \<open>The same for a call from C, which puts the arguments and the return address on the stack.\<close>

definition can_switch :: "u32 \<Rightarrow> u32 \<Rightarrow> 'a machine_scheme \<Rightarrow> bool" where
  "can_switch old new s \<longleftrightarrow>
     (let f = esp s - 28; sp = load32 (ram s) new in
      apart old 20 f 28 \<and> apart old 20 new 4 \<and> apart old 20 sp 20 \<and> apart f 28 new 4 \<and> apart f 28 sp 20)"

definition resumed :: "u32 \<Rightarrow> 'a machine_scheme \<Rightarrow> mem \<Rightarrow> 'a machine_scheme" where
  "resumed sp s m = s\<lparr>ram := m, esp := sp + 20, edi := load32 (ram s) sp, esi := load32 (ram s) (sp + 4),
     ebx := load32 (ram s) (sp + 8), ebp := load32 (ram s) (sp + 12)\<rparr>"

definition saved :: "u32 \<Rightarrow> u32 \<Rightarrow> 'a machine_scheme \<Rightarrow> mem \<Rightarrow> bool" where
  "saved ret old s m \<longleftrightarrow> (let f = esp s - 28 in
     load32 m old = f \<and> load32 m f = edi s \<and> load32 m (f + 4) = esi s \<and> load32 m (f + 8) = ebx s \<and>
     load32 m (f + 12) = ebp s \<and> load32 m (f + 16) = ret)"

lemma call_ctx_swtch_effect:
  assumes "can_switch old new s"
  defines "sp \<equiv> load32 (ram s) new"
  shows "\<exists>m. call_ctx_swtch ret old new s = (load32 (ram s) (sp + 16), resumed sp s m) \<and> saved ret old s m \<and>
    (\<forall>a. apart old 20 a 4 \<longrightarrow> apart (esp s - 28) 28 a 4 \<longrightarrow> load32 m a = load32 (ram s) a)"
proof -
  define f where "f = esp s - 28"
  let ?m = "store32 (store32 (store32 (ram s) (f + 24) new) (f + 20) old) (f + 16) ret"
  let ?s = "s\<lparr>esp := f + 16, ram := ?m\<rparr>"
  have ap: "apart old 20 f 28" "apart old 20 new 4" "apart old 20 sp 20" "apart f 28 new 4" "apart f 28 sp 20"
    using assms(1) by (simp_all add: can_switch_def Let_def sp_def f_def)
  have p: "push ret (push old (push new s)) = ?s" by (simp add: push_def f_def)
  have f16: "apart f 16 new 4" "apart f 16 sp 20"
    using apart_mono [OF ap(4), of 16 4] apart_mono [OF ap(5), of 16 20] by simp_all
  have l: "load32 ?m (f + 20) = old" "load32 ?m (f + 24) = new" "load32 ?m (f + 16) = ret"
    by (simp_all add: load32_store32_apart)
  have keep: "load32 ?m a = load32 (ram s) a" if "apart f 28 a 4" for a
    by (simp add: load32_store32_apart apart_words [OF that])
  have spw: "load32 ?m (sp + d) = load32 (ram s) (sp + d)" if "unat d + 4 \<le> 20" for d
    using that by (intro keep apart_shift_right [OF ap(5)]) auto
  have new: "load32 ?m new = sp" using keep [OF ap(4)] by (simp add: sp_def)
  obtain m' where m': "ctx_swtch ?s = (load32 ?m (sp + 16), ?s\<lparr>ram := m', esp := sp + 20,
      edi := load32 ?m sp, esi := load32 ?m (sp + 4), ebx := load32 ?m (sp + 8), ebp := load32 ?m (sp + 12)\<rparr>)"
    "load32 m' old = f" "load32 m' f = edi s" "load32 m' (f + 4) = esi s" "load32 m' (f + 8) = ebx s"
    "load32 m' (f + 12) = ebp s" "load32 m' (f + 16) = ret"
    "\<forall>a. apart old 20 a 4 \<longrightarrow> apart f 16 a 4 \<longrightarrow> load32 m' a = load32 ?m a"
    using ctx_swtch_effect [of ?s f old new sp] l new ap(1-3) f16 by auto
  have "call_ctx_swtch ret old new s = (load32 (ram s) (sp + 16), resumed sp s m')"
    unfolding call_ctx_swtch_def p m'(1)
    using spw [of 0] spw [of 4] spw [of 8] spw [of 12] spw [of 16] by (simp add: resumed_def)
  moreover have "saved ret old s m'" using m'(2-7) by (simp add: saved_def Let_def f_def)
  moreover have "load32 m' a = load32 (ram s) a" if "apart old 20 a 4" "apart f 28 a 4" for a
    using m'(8) keep [OF that(2)] that apart_mono [OF that(2), of 16 4] by simp
  ultimately show ?thesis unfolding f_def by blast
qed

section \<open>The switch of a task to itself\<close>

lemma ctx_swtch_self:
  assumes f: "esp s = f + 16" and old: "load32 (ram s) (f + 20) = c" and new: "load32 (ram s) (f + 24) = c"
    and ap: "apart c 20 f 28"
  shows "\<exists>m'. ctx_swtch s = (load32 (ram s) (f + 16), s\<lparr>ram := m', esp := f + 20\<rparr>) \<and>
    load32 m' c = f \<and> load32 m' f = edi s \<and> load32 m' (f + 4) = esi s \<and>
    load32 m' (f + 8) = ebx s \<and> load32 m' (f + 12) = ebp s \<and> load32 m' (f + 16) = load32 (ram s) (f + 16) \<and>
    (\<forall>a. apart c 20 a 4 \<longrightarrow> apart f 16 a 4 \<longrightarrow> load32 m' a = load32 (ram s) a)"
proof -
  have ap': "apart f 28 c 20" using ap by (simp add: apart_sym)
  note w = apart_words [OF ap] apart_words [OF ap']
  let ?m1 = "store32 (store32 (store32 (store32 (ram s) (c + 16) (ebp s)) (c + 12) (ebx s))
    (c + 8) (esi s)) (c + 4) (edi s)"
  let ?m2 = "store32 (store32 (store32 (store32 ?m1 (f + 12) (ebp s)) (f + 8) (ebx s)) (f + 4) (esi s)) f (edi s)"
  let ?m = "store32 ?m2 c f"
  have p: "esp s - 4 = f + 12" "esp s - 8 = f + 8" "esp s - 12 = f + 4" "esp s - 16 = f"
    "esp s + 4 = f + 20" "esp s + 8 = f + 24" "8 + f = f + 8" "12 + f = f + 12" "16 + f = f + 16" "20 + f = f + 20"
    using f by simp_all
  have l: "load32 ?m c = f" "load32 ?m f = edi s" "load32 ?m (f + 4) = esi s"
    "load32 ?m (f + 8) = ebx s" "load32 ?m (f + 12) = ebp s" "load32 ?m (f + 16) = load32 (ram s) (f + 16)"
    by (simp_all add: load32_store32_apart w)
  have "ctx_swtch s = (load32 (ram s) (f + 16), s\<lparr>ram := ?m, esp := f + 20\<rparr>)"
    using old new by (simp add: ctx_swtch_def Let_def push_def pop_def p load32_store32_apart w)
  moreover have "load32 ?m a = load32 (ram s) a" if "apart c 20 a 4" "apart f 16 a 4" for a
    by (simp add: load32_store32_apart apart_words [OF that(1)] apart_words [OF that(2)])
  ultimately show ?thesis using l by blast
qed

lemma call_ctx_swtch_self:
  assumes "apart c 20 (esp s - 28) 28"
  shows "\<exists>m. call_ctx_swtch ret c c s = (ret, s\<lparr>ram := m, esp := esp s - 8\<rparr>) \<and> saved ret c s m \<and>
    (\<forall>a. apart c 20 a 4 \<longrightarrow> apart (esp s - 28) 28 a 4 \<longrightarrow> load32 m a = load32 (ram s) a)"
proof -
  define f where "f = esp s - 28"
  let ?m = "store32 (store32 (store32 (ram s) (f + 24) c) (f + 20) c) (f + 16) ret"
  let ?s = "s\<lparr>esp := f + 16, ram := ?m\<rparr>"
  have p: "push ret (push c (push c s)) = ?s" "f + 20 = esp s - 8" by (simp_all add: push_def f_def)
  have l: "load32 ?m (f + 20) = c" "load32 ?m (f + 24) = c" "load32 ?m (f + 16) = ret"
    by (simp_all add: load32_store32_apart)
  have keep: "load32 ?m a = load32 (ram s) a" if "apart f 28 a 4" for a
    by (simp add: load32_store32_apart apart_words [OF that])
  obtain m' where m': "ctx_swtch ?s = (load32 ?m (f + 16), ?s\<lparr>ram := m', esp := f + 20\<rparr>)"
    "load32 m' c = f" "load32 m' f = edi s" "load32 m' (f + 4) = esi s" "load32 m' (f + 8) = ebx s"
    "load32 m' (f + 12) = ebp s" "load32 m' (f + 16) = ret"
    "\<forall>a. apart c 20 a 4 \<longrightarrow> apart f 16 a 4 \<longrightarrow> load32 m' a = load32 ?m a"
    using ctx_swtch_self [of ?s f c] l assms by (auto simp: f_def)
  have "call_ctx_swtch ret c c s = (ret, s\<lparr>ram := m', esp := esp s - 8\<rparr>)"
    unfolding call_ctx_swtch_def p(1) m'(1) using l(3) by (simp add: p(2))
  moreover have "saved ret c s m'" using m'(2-7) by (simp add: saved_def Let_def f_def)
  moreover have "load32 m' a = load32 (ram s) a" if "apart c 20 a 4" "apart f 28 a 4" for a
    using m'(8) keep [OF that(2)] that apart_mono [OF that(2), of 16 4] by simp
  ultimately show ?thesis unfolding f_def by blast
qed

section \<open>One call of schedule\<close>

text \<open>A region apart from the ready list and from the tasks of \<open>ts\<close>.\<close>

definition off_tasks :: "u32 \<Rightarrow> u32 list \<Rightarrow> u32 \<Rightarrow> nat \<Rightarrow> bool" where
  "off_tasks rdy ts a n \<longleftrightarrow> apart rdy 4 a n \<and> (\<forall>t\<in>set ts. apart t 28 a n)"

lemma off_tasks_word:
  assumes "off_tasks rdy ts a n" "unat d + 4 \<le> n"
  shows "links_apart rdy ts (a + d)"
proof -
  have "apart (t + 20) 8 (a + d) 4" if "t \<in> set ts" for t
    using assms that by (intro apart_shift [of t 28 a n]) (auto simp: off_tasks_def)
  moreover have "apart rdy 4 (a + d) 4"
    using assms by (intro apart_shift_right [of rdy 4 a n]) (auto simp: off_tasks_def)
  ultimately show ?thesis by (simp add: links_apart_def)
qed

lemma own_ctx_apart:
  assumes "task_objects rdy (cur # ts)" "u \<in> set (cur # ts)" "unat d + 4 \<le> 20"
  shows "links_apart rdy ts (u + d)"
proof -
  have "apart (t + 20) 8 (u + d) 4" if t: "t \<in> set ts" for t
  proof (cases "t = u")
    case True
    have "apart 20 8 d 4 " using assms(3) by (simp add: apart_sym [of 20] apart_bounds)
    then show ?thesis using True by simp
  next
    case False
    then have "apart t 28 u 28" using assms(1,2) t by (auto simp: task_objects_def)
    then show ?thesis using assms(3) by (intro apart_shift [of t 28 u 28]) auto
  qed
  moreover have "apart rdy 4 (u + d) 4"
    using assms by (intro apart_shift_right [of rdy 4 u 28]) (auto simp: task_objects_def apart_sym)
  ultimately show ?thesis by (simp add: links_apart_def)
qed

lemma schedule_turn:
  "schedule ret s = (if current s = 0 then Some (Returned s)
     else do {
       s \<leftarrow> kprintf (str ''schedulin' \<newline>'') [] s;
       (new, m) \<leftarrow> next_turn (ready s) (current s) (ram s);
       let (eip, t) = call_ctx_swtch ret (tsk_ctx m (current s)) (tsk_ctx m new) (s\<lparr>ram := m, current := new\<rparr>);
       Some (Switched eip new t)
     })"
  by (simp add: schedule_def next_turn_def Let_def split_def)

lemma console_only_sched:
  assumes "console_only s s'"
  shows "ready s' = ready s" "current s' = current s" "next_tid s' = next_tid s"
    "esp s' = esp s" "ebp s' = ebp s" "ebx s' = ebx s" "esi s' = esi s" "edi s' = edi s"
  by (rule console_onlyE [OF assms], simp)+

lemma links_apart_mono: "links_apart rdy ts a \<Longrightarrow> set us \<subseteq> set ts \<Longrightarrow> links_apart rdy us a"
  by (auto simp: links_apart_def)

lemma queue_keep:
  assumes "ready_queue rdy ts m q" "off_tasks rdy ts a n" "off_tasks rdy ts b k" "0 < n" "0 < k"
    and m': "\<And>c. apart a n c 4 \<Longrightarrow> apart b k c 4 \<Longrightarrow> load32 m' c = load32 m c"
  shows "ready_queue rdy ts m' q"
proof -
  obtain xs ls where q: "q = (xs, ls)" by (cases q)
  have n: "tsk_next m' t = tsk_next m t" if "t \<in> set ts" for t
    unfolding tsk_next_def
  proof (rule m')
    have "apart t 28 a n" "apart t 28 b k" using assms(2,3) that by (auto simp: off_tasks_def)
    then have "apart (t + 20) 4 a n" "apart (t + 20) 4 b k"
      using assms(4,5) by (auto intro: apart_shift_left)
    then show "apart a n (t + 20) 4" "apart b k (t + 20) 4" by (simp_all add: apart_sym)
  qed
  have "load32 m' rdy = load32 m rdy"
    using assms(2,3) by (intro m') (simp_all add: off_tasks_def apart_sym)
  moreover have "task_path m' p us e = task_path m p us e" if "set us \<subseteq> set ts" for p us e
    by (rule task_path_cong) (use n that in auto)
  ultimately show ?thesis using assms(1) n by (auto simp: ready_queue_def q)
qed

text \<open>
  What \<open>schedule\<close> needs: the stack below \<open>esp\<close>, the two contexts and, for another task, its saved frame
  do not overlap each other, the tasks or the head of the ready list.
\<close>

definition switch_room :: "u32 list \<Rightarrow> u32 \<Rightarrow> 'a sched_state_scheme \<Rightarrow> bool" where
  "switch_room ts new s \<longleftrightarrow>
     (let old = tsk_ctx (ram s) (current s); ctx = tsk_ctx (ram s) new; rdy = ready s in
      apart old 20 (esp s - 28) 28 \<and> off_tasks rdy ts old 20 \<and> off_tasks rdy ts (esp s - 28) 28 \<and>
      (new \<noteq> current s \<longrightarrow> can_switch old ctx s \<and> off_tasks rdy ts ctx 4 \<and> off_tasks rdy ts (load32 (ram s) ctx) 20))"

text \<open>Where the processor goes on: behind the call of \<open>ctx_swtch\<close>, or where the new task was left.\<close>

definition goes_on :: "u32 \<Rightarrow> u32 \<Rightarrow> 'a sched_state_scheme \<Rightarrow> u32 \<Rightarrow> 'a sched_state_scheme \<Rightarrow> bool" where
  "goes_on ret new s eip s' \<longleftrightarrow>
     (if new = current s then eip = ret \<and> esp s' = esp s - 8 \<and> edi s' = edi s \<and> esi s' = esi s \<and>
        ebx s' = ebx s \<and> ebp s' = ebp s
      else let sp = load32 (ram s) (tsk_ctx (ram s) new) in
        eip = load32 (ram s) (sp + 16) \<and> esp s' = sp + 20 \<and> edi s' = load32 (ram s) sp \<and>
        esi s' = load32 (ram s) (sp + 4) \<and> ebx s' = load32 (ram s) (sp + 8) \<and> ebp s' = load32 (ram s) (sp + 12))"

lemma task_ctx_apart:
  assumes "task_objects rdy ts" "u \<in> set ts"
  shows "links_apart rdy ts (u + 8)"
proof -
  have "apart (t + 20) 8 (u + 8) 4" if t: "t \<in> set ts" for t
  proof (cases "t = u")
    case False
    then have "apart t 28 u 28" using assms t by (auto simp: task_objects_def)
    then show ?thesis by (intro apart_shift [of t 28 u 28]) auto
  qed simp
  moreover have "apart rdy 4 (u + 8) 4"
    using assms by (intro apart_shift_right [of rdy 4 u 28]) (auto simp: task_objects_def apart_sym)
  ultimately show ?thesis by (simp add: links_apart_def)
qed

lemma schedule_turn_effect:
  assumes cur: "current s \<in> set ts" and q: "ready_queue (ready s) ts (ram s) q" "q \<noteq> ([], [])"
    and turn: "q_turn (current s) q = Some (new, q')" and room: "switch_room ts new s"
  shows "\<exists>eip s'. schedule ret s = Some (Switched eip new s') \<and> current s' = new \<and> ready s' = ready s \<and>
    ready_queue (ready s) ts (ram s') q' \<and> saved ret (tsk_ctx (ram s) (current s)) s (ram s') \<and>
    goes_on ret new s eip s' \<and> ports s' = ports (vga_write (str ''schedulin' \<newline>'') s)"
proof -
  let ?rdy = "ready s" and ?old = "tsk_ctx (ram s) (current s)" and ?nc = "tsk_ctx (ram s) new" and ?f = "esp s - 28"
  have rm: "apart ?old 20 ?f 28" "off_tasks ?rdy ts ?old 20" "off_tasks ?rdy ts ?f 28"
    "new \<noteq> current s \<longrightarrow> can_switch ?old ?nc s \<and> off_tasks ?rdy ts ?nc 4 \<and> off_tasks ?rdy ts (load32 (ram s) ?nc) 20"
    using room by (simp_all add: switch_room_def Let_def)
  have obj: "task_objects ?rdy ts" "0 \<notin> set ts" using q(1) by (cases q, simp add: ready_queue_def)+
  let ?s1 = "vga_write (str ''schedulin' \<newline>'') s"
  have co: "console_only s ?s1" by simp
  note same = console_only_pmm(2) [OF co] console_only_sched [OF co]
  obtain m where m: "next_turn ?rdy (current s) (ram s) = Some (new, m)" "ready_queue ?rdy ts m q'" "new \<in> set ts"
    using rq.turn_sim [OF q(1) cur q(2)] turn by (auto simp: next_turn_rq q_turn_eq)
  note other = next_turn_keeps [OF q m(1)]
  have keep: "load32 m (a + d) = load32 (ram s) (a + d)" if "off_tasks ?rdy ts a n" "unat d + 4 \<le> n" for a n d
    using other off_tasks_word [OF that] by auto
  have ctx: "tsk_ctx m (current s) = ?old" "tsk_ctx m new = ?nc"
    using other task_ctx_apart [OF obj(1)] cur m(3) by (simp_all add: tsk_ctx_def)
  let ?s2 = "?s1\<lparr>ram := m, current := new\<rparr>"
  have sched: "schedule ret s = (let (eip, t) = call_ctx_swtch ret ?old ?nc ?s2 in Some (Switched eip new t))"
    using cur obj(2) m(1) ctx same by (auto simp: schedule_turn kprintf_plain)
  have "\<exists>eip s'. call_ctx_swtch ret ?old ?nc ?s2 = (eip, s') \<and> s' = ?s2\<lparr>ram := ram s', esp := esp s', edi := edi s',
      esi := esi s', ebx := ebx s', ebp := ebp s'\<rparr> \<and> saved ret ?old s (ram s') \<and> goes_on ret new s eip s' \<and>
      (\<forall>a. apart ?old 20 a 4 \<longrightarrow> apart ?f 28 a 4 \<longrightarrow> load32 (ram s') a = load32 m a)"
  proof (cases "new = current s")
    case True
    obtain m' where m': "call_ctx_swtch ret ?old ?old ?s2 = (ret, ?s2\<lparr>ram := m', esp := esp ?s2 - 8\<rparr>)" "saved ret ?old ?s2 m'"
      "\<forall>a. apart ?old 20 a 4 \<longrightarrow> apart ?f 28 a 4 \<longrightarrow> load32 m' a = load32 m a"
      using call_ctx_swtch_self [of ?old ?s2 ret] rm(1) same by auto
    then show ?thesis using True same by (simp add: goes_on_def saved_def)
  next
    case False
    let ?sp = "load32 (ram s) ?nc"
    have rm': "can_switch ?old ?nc s" "off_tasks ?rdy ts ?nc 4" "off_tasks ?rdy ts ?sp 20" using rm(4) False by simp_all
    have nc: "load32 m ?nc = ?sp" using keep [OF rm'(2), of 0] by simp
    have spw: "load32 m (?sp + d) = load32 (ram s) (?sp + d)" if "unat d + 4 \<le> 20" for d
      using keep [OF rm'(3) that] .
    have can: "can_switch ?old ?nc ?s2" using rm'(1) nc same by (simp add: can_switch_def)
    obtain m' where m': "call_ctx_swtch ret ?old ?nc ?s2 = (load32 m (?sp + 16), resumed ?sp ?s2 m')"
      "saved ret ?old ?s2 m'" "\<forall>a. apart ?old 20 a 4 \<longrightarrow> apart ?f 28 a 4 \<longrightarrow> load32 m' a = load32 m a"
      using call_ctx_swtch_effect [OF can, of ret] nc same by auto
    have "goes_on ret new s (load32 m (?sp + 16)) (resumed ?sp ?s2 m')"
      using False spw [of 0] spw [of 4] spw [of 8] spw [of 12] spw [of 16] by (simp add: goes_on_def resumed_def Let_def)
    moreover have "saved ret ?old s (ram (resumed ?sp ?s2 m'))" using m'(2) same by (simp add: saved_def resumed_def)
    moreover have "load32 (ram (resumed ?sp ?s2 m')) a = load32 m a" if "apart ?old 20 a 4" "apart ?f 28 a 4" for a
      using m'(3) that by (simp add: resumed_def)
    moreover have "resumed ?sp ?s2 m' = ?s2\<lparr>ram := ram (resumed ?sp ?s2 m'), esp := esp (resumed ?sp ?s2 m'),
        edi := edi (resumed ?sp ?s2 m'), esi := esi (resumed ?sp ?s2 m'), ebx := ebx (resumed ?sp ?s2 m'),
        ebp := ebp (resumed ?sp ?s2 m')\<rparr>" by (simp add: resumed_def)
    ultimately show ?thesis using m'(1) by blast
  qed
  then obtain eip s' where s': "call_ctx_swtch ret ?old ?nc ?s2 = (eip, s')"
    "s' = ?s2\<lparr>ram := ram s', esp := esp s', edi := edi s', esi := esi s', ebx := ebx s', ebp := ebp s'\<rparr>"
    "saved ret ?old s (ram s')" "goes_on ret new s eip s'"
    "\<forall>a. apart ?old 20 a 4 \<longrightarrow> apart ?f 28 a 4 \<longrightarrow> load32 (ram s') a = load32 m a"
    by blast
  have "ready_queue ?rdy ts (ram s') q'"
    by (rule queue_keep [OF m(2) rm(2,3)]) (use s'(5) in auto)
  moreover have "current s' = new" "ready s' = ready ?s1" "ports s' = ports ?s1"
    using arg_cong [OF s'(2), of current] arg_cong [OF s'(2), of ready] arg_cong [OF s'(2), of ports] by simp_all
  ultimately show ?thesis using sched s'(1,3,4) same by simp
qed

section \<open>The two tasks of kmain\<close>

text \<open>
  \<open>tasking_init\<close> puts the idle task \<open>i\<close> into the list and makes it the current one as well; \<open>kmain\<close> then forks
  the task \<open>c\<close>.  The current task and the list after \<open>0\<close>, \<open>1\<close> and \<open>2\<close> further turns:
\<close>

definition two_tasks :: "u32 \<Rightarrow> u32 \<Rightarrow> (u32 \<times> queue) list" where
  "two_tasks i c = [(i, ([i, c], [])), (i, ([c, i], [])), (c, ([], [i]))]"

lemma two_tasks_turn:
  assumes "i \<noteq> c"
  shows "q_turn (fst (two_tasks i c ! (k mod 3))) (snd (two_tasks i c ! (k mod 3))) = Some (two_tasks i c ! (Suc k mod 3))"
proof -
  have "k mod 3 = 0 \<or> k mod 3 = 1 \<or> k mod 3 = 2" by auto
  then show ?thesis using assms
    by (elim disjE) (simp_all add: two_tasks_def q_turn_def mod_Suc)
qed

lemma two_tasks_turns:
  assumes "i \<noteq> c"
  shows "rq.aturns n (fst (two_tasks i c ! (k mod 3))) (snd (two_tasks i c ! (k mod 3))) = Some (two_tasks i c ! ((n + k) mod 3))"
proof (induction n arbitrary: k)
  case (Suc n)
  show ?case using Suc [of "Suc k"] two_tasks_turn [OF assms, of k] by (simp add: q_turn_eq split_beta)
qed simp

lemma alone_turns: "rq.aturns n i ([i], []) = Some (i, ([i], []))"
  by (induction n) (simp_all add: rq.aturn_def)

text \<open>
  The last thing \<open>tasking_init\<close> does is to add the task that it has made the current one.
\<close>

lemma tasking_init_adds:
  "tasking_init kidle sb st s = Some s' \<Longrightarrow> \<exists>m. add_task (ready s') (current s') m = Some (ram s')"
  by (auto simp: tasking_init_def Let_def bind_eq_Some_conv)

section \<open>Properties\<close>

text \<open>
  Three tasks at \<open>0x1000\<close>, \<open>0x2000\<close> and \<open>0x3000\<close>, linked from the head at \<open>0x100\<close>.
\<close>

definition tasks_example :: mem where
  "tasks_example = store32 (store32 (store32 (\<lambda>_. 0) 0x100 0x1000) 0x1014 0x2000) 0x2014 0x3000"

lemma tasks_example_facts: "ready_list 0x100 tasks_example [0x1000, 0x2000, 0x3000]"
proof -
  have z: "load32 (\<lambda>_. 0) a = 0" for a by (simp add: load32_def)
  show ?thesis
    by (simp add: tasks_example_def ready_list_def task_objects_def tsk_next_def load32_store32_apart z)
qed




text \<open>
  C22. The turns of \<open>kmain\<close>'s two tasks.  From the empty list \<open>tasking_init\<close> adds \<open>i\<close>, which is the current task
  already; any number of turns later \<open>fork\<close> adds \<open>c\<close>.  From then on every turn ends, every third one leads to the
  same state, and among three turns in a row two give the processor to \<open>i\<close> and one to \<open>c\<close>.
\<close>

theorem two_tasks_alternate:
  assumes "ready_queue rdy ts m ([], [])" "i \<in> set ts" "c \<in> set ts" "i \<noteq> c"
  shows "\<exists>m0 m1 m2 m3. add_task rdy i m = Some m0 \<and> next_turns a rdy i m0 = Some (i, m1) \<and>
    add_task rdy c m1 = Some m2 \<and> next_turns n rdy i m2 = Some (fst (two_tasks i c ! (n mod 3)), m3) \<and>
    ready_queue rdy ts m3 (snd (two_tasks i c ! (n mod 3)))"
proof -
  obtain m0 where m0: "add_task rdy i m = Some m0" "ready_queue rdy ts m0 ([i], [])"
    using rq.enq [OF assms(1,2)] by auto
  obtain m1 where m1: "next_turns a rdy i m0 = Some (i, m1)" "ready_queue rdy ts m1 ([i], [])"
    using rq.turns_sim [OF m0(2) assms(2), of a] by (auto simp: next_turns_rq alone_turns)
  obtain m2 where m2: "add_task rdy c m1 = Some m2" "ready_queue rdy ts m2 ([i, c], [])"
    using rq.enq [OF m1(2) assms(3)] assms(4) by auto
  obtain m3 where "next_turns n rdy i m2 = Some (fst (two_tasks i c ! (n mod 3)), m3)"
    "ready_queue rdy ts m3 (snd (two_tasks i c ! (n mod 3)))"
    using rq.turns_sim [OF m2(2) assms(2), of n] two_tasks_turns [OF assms(4), of n 0]
    by (auto simp: next_turns_rq two_tasks_def split: prod.splits)
  then show ?thesis using m0(1) m1(1) m2(1) by blast
qed

theorem two_tasks_alternate_witness:
  "\<exists>m0 m2 m3. add_task 0x100 0x1000 (\<lambda>_. 0) = Some m0 \<and> add_task 0x100 0x2000 m0 = Some m2 \<and>
    next_turns 5 0x100 0x1000 m2 = Some (0x2000, m3) \<and> ready_queue 0x100 [0x1000, 0x2000] m3 ([], [0x1000])"
proof -
  have "load32 (\<lambda>_. 0) a = 0" for a by (simp add: load32_def)
  then have "ready_queue 0x100 [0x1000, 0x2000] (\<lambda>_. 0) ([], [])"
    by (simp add: ready_queue_def task_objects_def first_def tsk_next_def)
  from two_tasks_alternate [OF this, of "0x1000" "0x2000" 0 5] show ?thesis by (auto simp: two_tasks_def)
qed

text \<open>
  C19. \<open>schedule\<close>, with room for the switch: the head of the list becomes the current task and the old one is
  added to the list as C20 says; the registers and the return address of the old task are saved where its
  context points to.  If the new task is another one the processor goes on at the address saved by the new
  task, with the registers saved there; if it is the same one, as in two of three turns of \<open>kmain\<close>'s tasks,
  it goes on behind the call with all its registers.
\<close>

theorem schedule_switches:
  assumes "current s \<in> set ts" "ready_queue (ready s) ts (ram s) q" "q \<noteq> ([], [])"
    and "q_turn (current s) q = Some (new, q')" and "switch_room ts new s"
  shows "\<exists>eip s'. schedule ret s = Some (Switched eip new s') \<and> current s' = new \<and>
    ready_queue (ready s') ts (ram s') q' \<and> saved ret (tsk_ctx (ram s) (current s)) s (ram s') \<and>
    (if new = current s then eip = ret \<and> esp s' = esp s - 8 \<and> edi s' = edi s \<and> esi s' = esi s \<and>
       ebx s' = ebx s \<and> ebp s' = ebp s
     else let sp = load32 (ram s) (tsk_ctx (ram s) new) in
       eip = load32 (ram s) (sp + 16) \<and> esp s' = sp + 20 \<and> edi s' = load32 (ram s) sp \<and>
       esi s' = load32 (ram s) (sp + 4) \<and> ebx s' = load32 (ram s) (sp + 8) \<and> ebp s' = load32 (ram s) (sp + 12))"
proof -
  obtain eip s' where s': "schedule ret s = Some (Switched eip new s')" "current s' = new" "ready s' = ready s"
    "ready_queue (ready s) ts (ram s') q'" "saved ret (tsk_ctx (ram s) (current s)) s (ram s')" "goes_on ret new s eip s'"
    using schedule_turn_effect [OF assms, of ret] by blast
  have "ready_queue (ready s') ts (ram s') q'" using s'(3,4) by simp
  with s'(1,2,5) s'(6) [unfolded goes_on_def] show ?thesis by blast
qed

text \<open>
  The task at \<open>0x1000\<close> runs, with its context at \<open>0x7000\<close>; the one at \<open>0x2000\<close> is next, with its context at
  \<open>0x5000\<close> and its saved frame at \<open>0x6000\<close>.  A turn earlier the first one is next.
\<close>

definition pair_example :: "u32 \<Rightarrow> u32 \<Rightarrow> mem" where
  "pair_example a b = store32 (store32 (store32 (store32 (store32 (store32 (\<lambda>_. 0) 0x100 a) (a + 20) b)
     0x2008 0x5000) 0x1008 0x7000) 0x5000 0x6000) 0x6010 0xC0100ABC"

definition sched_example :: sched_state where
  "sched_example = pmm_state.extend (pmm0\<lparr>esp := 0x9000, ram := pair_example 0x2000 0x1000\<rparr>)
     \<lparr>ready = 0x100, current = 0x1000, next_tid = 2\<rparr>"

definition sched_earlier :: sched_state where
  "sched_earlier = sched_example\<lparr>ram := pair_example 0x1000 0x2000\<rparr>"

lemma sched_example_facts:
  "current sched_example = 0x1000" "ready sched_example = 0x100" "esp sched_example = 0x9000"
  "ram sched_example = pair_example 0x2000 0x1000"
  by (simp_all add: sched_example_def pmm_state.defs)

lemma pair_example_facts:
  assumes "(a, b) \<in> {(0x1000, 0x2000), (0x2000, 0x1000)}"
  shows "ready_queue 0x100 [0x1000, 0x2000] (pair_example a b) ([a, b], [])"
    "tsk_ctx (pair_example a b) 0x2000 = 0x5000" "tsk_ctx (pair_example a b) 0x1000 = 0x7000"
    "load32 (pair_example a b) 0x5000 = 0x6000" "load32 (pair_example a b) 0x6010 = 0xC0100ABC"
proof -
  have z: "load32 (\<lambda>_. 0) a = 0" for a by (simp add: load32_def)
  show "ready_queue 0x100 [0x1000, 0x2000] (pair_example a b) ([a, b], [])"
    "tsk_ctx (pair_example a b) 0x2000 = 0x5000" "tsk_ctx (pair_example a b) 0x1000 = 0x7000"
    "load32 (pair_example a b) 0x5000 = 0x6000" "load32 (pair_example a b) 0x6010 = 0xC0100ABC"
    using assms by (auto simp: pair_example_def ready_queue_def task_objects_def first_def tsk_next_def tsk_ctx_def
        load32_store32_apart z)
qed

lemmas sched_example_list = pair_example_facts [of "0x2000" "0x1000", simplified, folded sched_example_facts(4)]

theorem schedule_switches_witness:
  "(\<exists>s'. schedule 0xC0100123 sched_earlier = Some (Switched 0xC0100123 0x1000 s') \<and> esp s' = 0x8FF8 \<and>
      ready_queue (ready s') [0x1000, 0x2000] (ram s') ([0x2000, 0x1000], [])) \<and>
    (\<exists>s'. schedule 0xC0100123 sched_example = Some (Switched 0xC0100ABC 0x2000 s') \<and> esp s' = 0x6014 \<and>
      ready_queue (ready s') [0x1000, 0x2000] (ram s') ([], [0x1000]))"
proof -
  note f = sched_example_facts(1-3) pair_example_facts [of "0x1000" "0x2000", simplified]
  have e: "current sched_earlier = 0x1000" "ready sched_earlier = 0x100" "esp sched_earlier = 0x9000"
    "ram sched_earlier = pair_example 0x1000 0x2000"
    by (simp_all add: sched_earlier_def f)
  have "switch_room [0x1000, 0x2000] 0x1000 sched_earlier" "switch_room [0x1000, 0x2000] 0x2000 sched_example"
    by (simp_all add: switch_room_def can_switch_def Let_def off_tasks_def f e sched_example_list)
  then show ?thesis
    using schedule_switches [of sched_earlier "[0x1000, 0x2000]" "([0x1000, 0x2000], [])" "0x1000" "([0x2000, 0x1000], [])" "0xC0100123"]
      schedule_switches [of sched_example "[0x1000, 0x2000]" "([0x2000, 0x1000], [])" "0x2000" "([], [0x1000])" "0xC0100123"]
    by (auto simp: f e sched_example_list q_turn_def)
qed

text \<open>
  C21. A task that is switched away from and later switched back to goes on right after its call:
  whatever happened in between, if its context and its saved stack frame still hold what was put
  there, the second switch restores its registers, its stack pointer and its return address.
\<close>

theorem switch_back:
  assumes "can_switch a b s" "call_ctx_swtch ret a b s = (eip, s1)"
    and "can_switch c a t" "\<And>d. unat d + 4 \<le> 20 \<Longrightarrow> load32 (ram t) (esp s - 28 + d) = load32 (ram s1) (esp s - 28 + d)"
    and "load32 (ram t) a = load32 (ram s1) a"
  shows "\<exists>t'. call_ctx_swtch ret' c a t = (ret, t') \<and> esp t' = esp s - 8 \<and>
    edi t' = edi s \<and> esi t' = esi s \<and> ebx t' = ebx s \<and> ebp t' = ebp s"
proof -
  have "saved ret a s (ram s1)"
    using call_ctx_swtch_effect [OF assms(1), of ret] assms(2) by (auto simp: resumed_def)
  then have sv: "load32 (ram t) a = esp s - 28" "load32 (ram t) (esp s - 28 + 0) = edi s"
    "load32 (ram t) (esp s - 28 + 4) = esi s" "load32 (ram t) (esp s - 28 + 8) = ebx s"
    "load32 (ram t) (esp s - 28 + 12) = ebp s" "load32 (ram t) (esp s - 28 + 16) = ret"
    using assms(4) [of 0] assms(4) [of 4] assms(4) [of 8] assms(4) [of 12] assms(4) [of 16] assms(5)
    by (simp_all only: saved_def Let_def) simp_all
  obtain m where m: "call_ctx_swtch ret' c a t =
      (load32 (ram t) (esp s - 28 + 16), resumed (esp s - 28) t m)"
    using call_ctx_swtch_effect [OF assms(3), of ret'] sv(1) by auto
  have "resumed (esp s - 28) t m = t\<lparr>ram := m, esp := esp s - 28 + 20, edi := edi s, esi := esi s,
      ebx := ebx s, ebp := ebp s\<rparr>"
    unfolding resumed_def using sv(2-5) by (simp only: add_0_right)
  then show ?thesis using m sv(6) by (intro exI [of _ "resumed (esp s - 28) t m"]) simp
qed

theorem switch_back_witness:
  "\<exists>t'. call_ctx_swtch 7 0x5000 0x7000 (snd (call_ctx_swtch 0xC0100123 0x7000 0x5000 sched_example)\<lparr>esp := 0xA000\<rparr>)
     = (0xC0100123, t') \<and> esp t' = 0x8FF8"
proof -
  let ?s1 = "snd (call_ctx_swtch 0xC0100123 0x7000 0x5000 sched_example)"
  have 1: "can_switch 0x7000 0x5000 sched_example"
    by (simp add: can_switch_def Let_def sched_example_list sched_example_facts(3))
  have "load32 (ram ?s1) 0x7000 = 0x8FE4"
    using call_ctx_swtch_effect [OF 1, of "0xC0100123"]
    by (auto simp: saved_def Let_def resumed_def sched_example_facts(3))
  then have 2: "can_switch 0x5000 0x7000 (?s1\<lparr>esp := 0xA000\<rparr>)"
    by (simp add: can_switch_def Let_def)
  show ?thesis
    using switch_back [OF 1, of "0xC0100123" _ ?s1 "0x5000" "?s1\<lparr>esp := 0xA000\<rparr>" 7] 2
    by (auto simp: prod_eq_iff sched_example_facts(3))
qed

text \<open>
  C23. Two tasks more than the idle one, which \<open>tasking_init\<close> leaves both current and in the list, are too
  many: the second turn appends the task that is already last, which makes
  it its own successor, and the third turn never ends; so does adding a task after the second turn.
\<close>

theorem current_task_queued_twice:
  assumes "ready_list rdy m [i, a, b]"
  shows "\<exists>m1 m2. next_turn rdy i m = Some (i, m1) \<and> next_turn rdy i m1 = Some (a, m2) \<and>
    tsk_next m2 i = i \<and> add_task rdy child m2 = None \<and> next_turn rdy a m2 = None"
proof -
  obtain n1 where n1: "pop_task rdy m = (i, n1)" "ready_list rdy n1 [a, b]" "tsk_next n1 i = 0"
    using pop_task_takes_head [OF assms] by blast
  have obj: "task_objects rdy [i, a, b]" and ne: "i \<noteq> 0" using assms by (simp_all add: ready_list_def)
  then have "enqueueable rdy n1 [a, b] i" using n1(3) by (simp add: enqueueable_def)
  then obtain m1 where m1: "add_task rdy i n1 = Some m1" "ready_list rdy m1 [a, b, i]"
    using add_task_appends [OF n1(2)] by auto
  obtain n2 where n2: "pop_task rdy m1 = (a, n2)" "ready_list rdy n2 [b, i]"
    using pop_task_takes_head [OF m1(2)] by blast
  obtain m2 where m2: "add_task rdy i n2 = Some m2" "tsk_next m2 i = i" "load32 m2 rdy = load32 n2 rdy"
    "tsk_next m2 b = tsk_next n2 b" "\<forall>u. add_task rdy u m2 = None"
    using add_last_again [OF n2(2)] obj by (auto simp: task_objects_def)
  have b: "load32 m2 rdy = b" "b \<noteq> 0" "tsk_next m2 b = i" using n2(2) m2(3,4) by (simp_all add: ready_list_def)
  let ?n3 = "store32 (store32 (store32 m2 rdy i) (b + 20) 0) (b + 24) 0"
  have "pop_task rdy m2 = (b, ?n3)" using b by (simp add: pop_task_def Let_def)
  moreover have "apart b 28 i 28" "apart i 28 rdy 4" "apart b 28 rdy 4" using obj by (auto simp: task_objects_def)
  then have "tsk_next ?n3 i = i" "load32 ?n3 rdy = i"
    using m2(2) by (simp_all add: next_store next_store_head)
  then have "last_task ?n3 i = None" using ne by (intro last_task_closed [of i "{i}"]) auto
  then have "add_task rdy a ?n3 = None"
    using \<open>load32 ?n3 rdy = i\<close> ne by (simp add: add_task_def)
  ultimately have "next_turn rdy a m2 = None" by (simp add: next_turn_def)
  moreover have "next_turn rdy i m = Some (i, m1)" "next_turn rdy i m1 = Some (a, m2)"
    using n1(1) m1(1) n2(1) m2(1) by (simp_all add: next_turn_def)
  ultimately show ?thesis using m2(2,5) by blast
qed

theorem current_task_queued_twice_witness:
  "\<exists>m1 m2. next_turn 0x100 0x1000 tasks_example = Some (0x1000, m1) \<and>
    next_turn 0x100 0x1000 m1 = Some (0x2000, m2) \<and> next_turn 0x100 0x2000 m2 = None"
  using current_task_queued_twice [OF tasks_example_facts, of 0] by blast

end
