(* ===== verification/Timer.thy ===== *)
theory Timer
  imports Sched
begin

text \<open>
  kern/misc/timer.c: the programmable interval timer and its interrupt handler, which calls
  \<open>schedule\<close> once every \<open>FREQ\<close> ticks.  Here the argument \<open>run\<close> of the interrupt entry points gets its
  value: what the two handlers of the kernel do.
\<close>

record timer_state = sched_state +
  ticks :: u32

definition FREQ :: u32 where "FREQ = 10000"
definition CLOCK_FREQ :: u32 where "CLOCK_FREQ = 1193180"

definition timer_handler :: "u32 \<Rightarrow> 'a timer_state_scheme \<Rightarrow> 'a timer_state_scheme flow option" where
  "timer_handler ret s =
     (let s = s\<lparr>ticks := ticks s + 1\<rparr> in
      if ticks s mod FREQ = 0 then schedule ret (s\<lparr>ticks := 0\<rparr>) else Some (Returned s))"

definition timer_init :: "'a int_state_scheme \<Rightarrow> 'a int_state_scheme" where
  "timer_init s =
     (let s = add_int_handler 32 Timer_handler s;
          div0 = CLOCK_FREQ div FREQ;
          s = outport 0x43 0x36 s;
          s = outport 0x40 (ucast (div0 AND 0xFF)) s
      in outport 0x40 (ucast (drop_bit 8 div0 AND 0xFF)) s)"

text \<open>
  A handler that switches stacks or stops the processor does not return to the interrupt entry point:
  \<open>None\<close>.
\<close>

definition run_handler ::
    "u32 \<Rightarrow> handler \<Rightarrow> regs_t \<Rightarrow> 'a timer_state_scheme \<Rightarrow> 'a timer_state_scheme option" where
  "run_handler ret h r s =
     (case h of
        Page_fault \<Rightarrow>
          (case page_fault r s of Some (Returned s) \<Rightarrow> Some s | _ \<Rightarrow> None)
      | Timer_handler \<Rightarrow>
          (case timer_handler ret s of Some (Returned s) \<Rightarrow> Some s | _ \<Rightarrow> None))"

section \<open>Ticks\<close>

fun timer_ticks :: "nat \<Rightarrow> u32 \<Rightarrow> 'a timer_state_scheme \<Rightarrow> 'a timer_state_scheme flow option" where
  "timer_ticks 0 ret s = Some (Returned s)"
| "timer_ticks (Suc n) ret s =
     do {
       f \<leftarrow> timer_handler ret s;
       (case f of Returned s \<Rightarrow> timer_ticks n ret s | Switched eip new s \<Rightarrow> Some (Switched eip new s)
        | Stopped s \<Rightarrow> Some (Stopped s))
     }"

lemma tick_counts:
  assumes "unat (ticks s) + 1 < 10000"
  shows "timer_handler ret s = Some (Returned (s\<lparr>ticks := ticks s + 1\<rparr>))"
proof -
  have u: "unat (ticks s + 1) = unat (ticks s) + 1"
    using assms by (subst unat_add_lem [THEN iffD1]) simp_all
  have "unat ((ticks s + 1) mod FREQ) = unat (ticks s) + 1"
    using assms by (simp add: unat_mod u FREQ_def)
  then have "(ticks s + 1) mod FREQ \<noteq> 0" by (metis Suc_eq_plus1 nat.simps(3) unat_0)
  then show ?thesis by (simp add: timer_handler_def Let_def)
qed

lemma ticks_count:
  "unat (ticks s) + n < 10000 \<Longrightarrow> timer_ticks (n + k) ret s = timer_ticks k ret (s\<lparr>ticks := ticks s + word_of_nat n\<rparr>)"
proof (induction n arbitrary: s)
  case (Suc n)
  have u: "unat (ticks s + 1) = unat (ticks s) + 1"
    using Suc.prems by (subst unat_add_lem [THEN iffD1]) simp_all
  have "timer_ticks (Suc n + k) ret s = timer_ticks (n + k) ret (s\<lparr>ticks := ticks s + 1\<rparr>)"
    using tick_counts [of s ret] Suc.prems by simp
  also have "\<dots> = timer_ticks k ret (s\<lparr>ticks := ticks s + 1 + word_of_nat n\<rparr>)"
    using Suc.IH [of "s\<lparr>ticks := ticks s + 1\<rparr>"] Suc.prems u by simp
  finally show ?case by (simp add: add.assoc)
qed simp

section \<open>Ports\<close>

lemma vga_write_char_ports:
  "\<exists>ps. ports (vga_write_char c s) = ports s @ ps \<and> fst ` set ps \<subseteq> {0x3D4, 0x3D5}"
  by (auto simp: vga_write_char_def Let_def vga_update_csr_def outports_ports vga_scroll_def)

lemma vga_write_ports:
  "\<exists>ps. ports (vga_write cs s) = ports s @ ps \<and> fst ` set ps \<subseteq> {0x3D4, 0x3D5}"
proof (induction cs s rule: vga_write.induct)
  case (2 c cs s)
  show ?case
  proof (cases "c = 0")
    case False
    obtain ps where ps: "ports (vga_write_char c s) = ports s @ ps" "fst ` set ps \<subseteq> {0x3D4, 0x3D5}"
      using vga_write_char_ports by blast
    obtain qs where "ports (vga_write cs (vga_write_char c s)) = ports (vga_write_char c s) @ qs"
      "fst ` set qs \<subseteq> {0x3D4, 0x3D5}"
      using 2 False by blast
    then have "ports (vga_write (c # cs) s) = ports s @ (ps @ qs)" "fst ` set (ps @ qs) \<subseteq> {0x3D4, 0x3D5}"
      using ps False by auto
    then show ?thesis by blast
  qed simp
qed simp

section \<open>Properties\<close>

text \<open>
  \<open>timer_init\<close> registers the handler for vector 32 and programs channel 0 of the timer for the
  divisor of the clock that gives \<open>FREQ\<close> interrupts a second: the mode byte, then the low and the
  high byte of the divisor.
\<close>

theorem timer_init_programs:
  "\<exists>lo hi. ports (timer_init s) = ports s @ [(0x43, 0x36), (0x40, lo), (0x40, hi)] \<and>
    ucast hi * 256 + ucast lo = CLOCK_FREQ div FREQ \<and>
    handlers (timer_init s) = (handlers s)[32 := Some Timer_handler]"
  by (simp add: timer_init_def Let_def outport_def add_int_handler_def CLOCK_FREQ_def FREQ_def)

text \<open>
  Starting from a counter of zero the first 9999 interrupts only count, and the next one resets
  the counter and calls \<open>schedule\<close>.
\<close>

theorem timer_schedules_every_FREQ:
  assumes "ticks s = 0"
  shows "(\<forall>n<10000. timer_ticks n ret s = Some (Returned (s\<lparr>ticks := word_of_nat n\<rparr>))) \<and>
    timer_ticks 10000 ret s = schedule ret s"
proof (intro conjI allI impI)
  show "timer_ticks n ret s = Some (Returned (s\<lparr>ticks := word_of_nat n\<rparr>))" if "n < 10000" for n
    using ticks_count [of s n 0 ret] that assms by simp
  have "timer_ticks (9999 + 1) ret s = timer_ticks 1 ret (s\<lparr>ticks := 9999\<rparr>)"
    using ticks_count [of s 9999 1 ret] assms by simp
  also have "\<dots> = schedule ret s"
  proof -
    have "s\<lparr>ticks := 0\<rparr> = s" using assms by simp
    then show ?thesis
      by (cases "schedule ret s") (simp_all add: timer_handler_def Let_def FREQ_def split: flow.splits)
  qed
  finally show "timer_ticks 10000 ret s = schedule ret s" by simp
qed

theorem timer_schedules_every_FREQ_witness:
  "timer_ticks 9999 0 (sched_state.extend sched_example \<lparr>ticks = 0\<rparr>) =
     Some (Returned (sched_state.extend sched_example \<lparr>ticks = 9999\<rparr>))"
  using timer_schedules_every_FREQ [of "sched_state.extend sched_example \<lparr>ticks = 0\<rparr>" 0]
  by (simp add: sched_state.defs)

text \<open>
  An interrupt of the timer that only counts is acknowledged and leaves everything but the
  counter as it was.  One that switches to another task leaves \<open>irq_handler\<close> without the
  acknowledgement: the new task runs with nothing sent to the interrupt controller.
\<close>

theorem timer_interrupt_acknowledged:
  assumes "int_no r = 32" "length (handlers s) = 256" "handlers s ! 32 = Some Timer_handler"
  shows "(unat (ticks s) < 9999 \<longrightarrow> irq_handler (run_handler ret) r s =
      Some (s\<lparr>ticks := ticks s + 1, ports := ports s @ [(0x20, 0x20)]\<rparr>)) \<and>
    (ticks s = 9999 \<and> current s \<in> set ts \<and> ready_queue (ready s) ts (ram s) q \<and> q \<noteq> ([], []) \<and>
     q_turn (current s) q = Some (new, q') \<and> switch_room ts new s \<longrightarrow>
      (\<exists>eip s' ps. timer_handler ret s = Some (Switched eip new s') \<and> current s' = new \<and>
         ports s' = ports s @ ps \<and> 0x20 \<notin> fst ` set ps))"
proof (intro conjI impI)
  assume "unat (ticks s) < 9999"
  then show "irq_handler (run_handler ret) r s =
      Some (s\<lparr>ticks := ticks s + 1, ports := ports s @ [(0x20, 0x20)]\<rparr>)"
    using assms tick_counts [of s ret] by (simp add: irq_handler_def Let_def run_handler_def outport_def)
next
  let ?s = "s\<lparr>ticks := 0\<rparr>"
  assume h: "ticks s = 9999 \<and> current s \<in> set ts \<and> ready_queue (ready s) ts (ram s) q \<and> q \<noteq> ([], []) \<and>
     q_turn (current s) q = Some (new, q') \<and> switch_room ts new s"
  then have "switch_room ts new ?s" by (simp add: switch_room_def can_switch_def)
  from schedule_turn_effect [OF _ _ _ _ this, of q q' ret] h
  obtain eip s' where s': "schedule ret ?s = Some (Switched eip new s')" "current s' = new"
    "ports s' = ports (vga_write (str ''schedulin' \<newline>'') ?s)"
    by auto
  have "timer_handler ret s = schedule ret ?s"
    using h by (simp add: timer_handler_def Let_def FREQ_def)
  moreover obtain ps where "ports s' = ports s @ ps" "fst ` set ps \<subseteq> {0x3D4, 0x3D5}"
    using vga_write_ports [of "str ''schedulin' \<newline>''" ?s] s'(3) by auto
  moreover from this(2) have "0x20 \<notin> fst ` set ps" by auto
  ultimately show "\<exists>eip s' ps. timer_handler ret s = Some (Switched eip new s') \<and> current s' = new \<and>
      ports s' = ports s @ ps \<and> 0x20 \<notin> fst ` set ps"
    using s' by auto
qed

text \<open>The state of \<open>sched_example\<close> with the handler registered, about to schedule.\<close>

definition timer_example :: timer_state where
  "timer_example = timer_init (sched_state.extend sched_example \<lparr>ticks = 9999\<rparr>)"

lemma timer_example_facts:
  "length (handlers timer_example) = 256" "handlers timer_example ! 32 = Some Timer_handler"
  "ticks timer_example = 9999" "current timer_example = 0x1000" "ready timer_example = 0x100"
  "esp timer_example = 0x9000" "ram timer_example = ram sched_example"
  by (simp_all add: timer_example_def timer_init_def Let_def outport_def add_int_handler_def sched_example_def
      sched_state.defs pmm_state.defs boot_example_defs)

theorem timer_interrupt_acknowledged_witness:
  "\<exists>eip s' ps. timer_handler 0xC0100123 timer_example = Some (Switched eip 0x2000 s') \<and> current s' = 0x2000 \<and>
    ports s' = ports timer_example @ ps \<and> 0x20 \<notin> fst ` set ps"
proof -
  have "switch_room [0x1000, 0x2000] 0x2000 timer_example"
    by (simp add: switch_room_def can_switch_def Let_def off_tasks_def sched_example_list timer_example_facts)
  then show ?thesis
    using timer_interrupt_acknowledged [of "regs_of 32 0" timer_example "0xC0100123" "[0x1000, 0x2000]"
        "([0x2000, 0x1000], [])" "0x2000" "([], [0x1000])"]
    by (simp add: sched_example_list timer_example_facts regs_of_def q_turn_def)
qed

end
