(* ===== verification/Kmain.thy ===== *)
theory Kmain
  imports Timer
begin

text \<open>
  kern/kmain.c: the order in which the kernel brings itself up, and the bodies of the endless loops
  of parent and child.  The addresses of the linker and assembly symbols are the fields of
  \<open>symbols\<close>.  kern/sys/system.c's \<open>inport\<close>, \<open>interrupt\<close> and \<open>bochs_break\<close> change nothing the model
  holds.
\<close>

record symbols =
  sym_end :: u32
  sym_gdt :: u32
  sym_idt :: u32
  sym_isr :: "nat \<Rightarrow> u32"
  sym_irq :: "nat \<Rightarrow> u32"
  sym_kidle :: u32
  sym_stack_bottom :: u32
  sym_stack_top :: u32

text \<open>The console, the descriptor tables and the banner.\<close>

definition kmain_early :: "symbols \<Rightarrow> 'a timer_state_scheme \<Rightarrow> 'a timer_state_scheme option" where
  "kmain_early y s =
     (let s = vga_init s; s = vga_set_color 3 0 s in
      do {
        s \<leftarrow> gdt_init (sym_gdt y) s;
        let s = idt_init (sym_idt y) (sym_isr y) (sym_irq y) s;
        s \<leftarrow> kprintf (of_char CHR '' '' # 1 # str '' TOE-S '' @ 1 # str '' \<newline>'') [] s;
        kprintf (str ''end: 0x%x \<newline>'') [KInt (sym_end y)] s
      })"

definition kmain :: "symbols \<Rightarrow> u32 \<Rightarrow> 'a timer_state_scheme \<Rightarrow> (u32 \<times> 'a timer_state_scheme) option" where
  "kmain y mboot s =
     do {
       s \<leftarrow> kmain_early y s;
       s \<leftarrow> pmm_init mboot s;
       s \<leftarrow> vmm_init s;
       s \<leftarrow> kprintf (str ''paging and heap initialized \<newline>\<newline>'') [] s;
       let s = timer_init s;
       s \<leftarrow> tasking_init (sym_kidle y) (sym_stack_bottom y) (sym_stack_top y) s;
       fork s
     }"

text \<open>One round of the loop of the child or of the parent, with the text it prints.\<close>

definition kmain_loop_step :: "u32 \<Rightarrow> u32 \<Rightarrow> 'a klib_scheme \<Rightarrow> (u32 \<times> 'a klib_scheme) option" where
  "kmain_loop_step pid i s =
     do {
       (i, s) \<leftarrow> (if i = 10000000 then
                   do { s \<leftarrow> kprintf (if pid = 0 then str ''child'' else str ''parent'') [] s; Some (0, s) }
                 else Some (i, s));
       Some (i + 1, s)
     }"

section \<open>The state the boot loader leaves\<close>

text \<open>
  The static variables are zero, except for the bump pointer, which starts at the end of the
  kernel, and the tables have their sizes.
\<close>

definition booted :: "symbols \<Rightarrow> 'a timer_state_scheme \<Rightarrow> bool" where
  "booted y s \<longleftrightarrow> kheap_initialized s = 0 \<and> alloc_ptr s = sym_end y \<and> current s = 0 \<and> ready s = 0 \<and>
     next_tid s = 0 \<and> ticks s = 0 \<and> length (gdt s) = 5 \<and> length (idt_entries s) = 256 \<and>
     length (handlers s) = 256 \<and> itoa_buf_ok (itoa_buf s) \<and> cursor s = 0"

section \<open>The early part\<close>

lemma vga_write_char_iterate: "console_only s t \<Longrightarrow> console_only s ((vga_write_char c ^^ n) t)"
  by (induction n) simp_all

lemma vga_init_console: "console_only (vga_set_color 0xF 0 s) (vga_init s)"
proof -
  let ?s = "vga_set_color 0xF 0 s"
  have "console_only ?s ((vga_write_char 32 ^^ nat (WIDTH * HEIGHT)) ?s)"
    by (rule vga_write_char_iterate) simp
  then show ?thesis
    by (simp add: vga_init_def vga_clear_def vga_update_csr_def outports_ports console_only_def)
qed

lemma vga_start:
  "\<exists>p c v b a. vga_set_color 3 0 (vga_init s) =
     s\<lparr>ports := p, cursor := c, vga_mem := v, itoa_buf := b, attribute := a\<rparr>" for s :: "'a klib_scheme"
proof (rule console_onlyE [OF vga_init_console [of s]])
  fix p c v b
  assume "vga_init s = (vga_set_color 0xF 0 s)\<lparr>ports := p, cursor := c, vga_mem := v, itoa_buf := b\<rparr>"
  then have "vga_set_color 3 0 (vga_init s) =
      s\<lparr>ports := p, cursor := c, vga_mem := v, itoa_buf := b, attribute := attribute (vga_set_color 3 0 (vga_init s))\<rparr>"
    by (simp add: vga_set_color_def)
  then show ?thesis by blast
qed

lemma vga_init_buf [simp]: "itoa_buf (vga_init s) = itoa_buf s" for s :: "'a klib_scheme"
proof -
  have "itoa_buf ((vga_write_char 32 ^^ n) t) = itoa_buf t" for n and t :: "'a klib_scheme"
    by (induction n) simp_all
  then show ?thesis
    by (simp add: vga_init_def vga_clear_def vga_update_csr_def outports_ports vga_set_color_def)
qed

definition flat_table :: "gdt_e list" where
  "flat_table = [zero_gdt_e, gdt_entry 0 0xFFFFFFFF 0x9A 0xCF, gdt_entry 0 0xFFFFFFFF 0x92 0xCF,
     gdt_entry 0 0xFFFFFFFF 0xFA 0xCF, gdt_entry 0 0xFFFFFFFF 0xF2 0xCF]"

lemma flat_table_flat: "list_all2 flat_segment [0x9A, 0x92, 0xFA, 0xF2] (tl flat_table)"
  by (simp add: flat_table_def flat_segment_def gdt_entry_base gdt_entry_access seg_top_def
      gdt_entry_limit gdt_entry_flags) (simp add: gdt_entry_def seg_flags_def)

lemma gdt_init_state:
  assumes "length (gdt s) = 5"
  shows "gdt_init a s = Some (s\<lparr>gdt := flat_table, gdt_ptr := \<lparr>lim = 39, base = a\<rparr>,
    gdtr := \<lparr>lim = 39, base = a\<rparr>\<rparr>)"
proof -
  obtain g0 g1 g2 g3 g4 where g: "gdt s = [g0, g1, g2, g3, g4]"
    using assms by (auto simp: numeral_eq_Suc length_Suc_conv)
  have z: "gdt_entry 0 0 0 0 = zero_gdt_e" by (simp add: gdt_entry_def zero_gdt_e_def)
  show ?thesis
    by (simp add: gdt_init_def gdt_set_entry_def gdt_install_def g flat_table_def z)
qed

lemma fold_add_entry_state:
  "fold (\<lambda>v. idt_add_entry (word_of_nat v) (f v) sl fl) vs s =
     s\<lparr>idt_entries := idt_entries (fold (\<lambda>v. idt_add_entry (word_of_nat v) (f v) sl fl) vs s)\<rparr>"
proof (induction vs arbitrary: s)
  case (Cons v vs)
  let ?F = "fold (\<lambda>v. idt_add_entry (word_of_nat v) (f v) sl fl) vs"
  let ?t = "idt_add_entry (word_of_nat v) (f v) sl fl s"
  have "?F ?t = ?t\<lparr>idt_entries := idt_entries (?F ?t)\<rparr>" by (rule Cons.IH)
  also have "\<dots> = s\<lparr>idt_entries := idt_entries (?F ?t)\<rparr>" unfolding idt_add_entry_def by simp
  finally show ?case by simp
qed simp

lemma idt_init_state:
  "\<exists>es p. idt_init a isr irq s = s\<lparr>ports := p, idt_entries := es, idt_ptr := \<lparr>lim = 2047, base = a\<rparr>,
     idtr := \<lparr>lim = 2047, base = a\<rparr>, interrupts_on := True\<rparr>"
proof -
  let ?s1 = "pic_remap (s\<lparr>idt_ptr := \<lparr>lim = 8 * 256 - 1, base = a\<rparr>\<rparr>)"
  let ?s2 = "fold (\<lambda>v. idt_add_entry (word_of_nat v) (isr v) 0x08 0x8E) [0..<32] ?s1"
  let ?s3 = "fold (\<lambda>v. idt_add_entry (word_of_nat v) (irq (v - 32)) 0x08 0x8E) [32..<48] ?s2"
  have 1: "?s1 = s\<lparr>ports := ports ?s1, idt_ptr := \<lparr>lim = 2047, base = a\<rparr>\<rparr>"
    by (simp add: pic_remap_def outports_ports)
  have 2: "?s2 = ?s1\<lparr>idt_entries := idt_entries ?s2\<rparr>" by (rule fold_add_entry_state)
  have 3: "?s3 = ?s2\<lparr>idt_entries := idt_entries ?s3\<rparr>" by (rule fold_add_entry_state)
  define p1 e2 e3 where "p1 = ports ?s1" and "e2 = idt_entries ?s2" and "e3 = idt_entries ?s3"
  have "?s3 = s\<lparr>ports := p1, idt_ptr := \<lparr>lim = 2047, base = a\<rparr>, idt_entries := e3\<rparr>"
    using 3 2 1 unfolding p1_def [symmetric] e2_def [symmetric] e3_def [symmetric] by simp
  moreover have "idt_init a isr irq s = idt_install ?s3" by (simp only: idt_init_def Let_def)
  ultimately have "idt_init a isr irq s = s\<lparr>ports := p1, idt_entries := e3, idt_ptr := \<lparr>lim = 2047, base = a\<rparr>,
     idtr := \<lparr>lim = 2047, base = a\<rparr>, interrupts_on := True\<rparr>"
    by (simp add: idt_install_def)
  then show ?thesis by blast
qed

lemma console_only_tables:
  assumes "console_only s s'"
  shows "gdt s' = gdt s" "gdtr s' = gdtr s" "idt_entries s' = idt_entries s" "idtr s' = idtr s"
    "interrupts_on s' = interrupts_on s"
  by (rule console_onlyE [OF assms], simp)+

lemma kmain_early_effect:
  assumes "booted y s"
  shows "\<exists>s'. kmain_early y s = Some s' \<and> ram s' = ram s \<and> early s' \<and> alloc_ptr s' = alloc_ptr s \<and>
    itoa_buf_ok (itoa_buf s') \<and> gdt s' = flat_table \<and> gdtr s' = \<lparr>lim = 39, base = sym_gdt y\<rparr> \<and>
    idtr s' = \<lparr>lim = 2047, base = sym_idt y\<rparr> \<and> interrupts_on s' \<and> handlers s' = handlers s \<and>
    current s' = 0 \<and>
    (\<forall>v<256. idt_entries s' ! v =
       (if v < 32 then idt_entry (sym_isr y v) 8 0x8E
        else if v < 48 then idt_entry (sym_irq y (v - 32)) 8 0x8E else idt_entries s ! v))"
proof -
  have b: "length (gdt s) = 5" "length (idt_entries s) = 256" "itoa_buf_ok (itoa_buf s)" "early s" "current s = 0"
    using assms by (simp_all add: booted_def early_def)
  let ?s1 = "vga_set_color 3 0 (vga_init s)"
  have buf1: "itoa_buf ?s1 = itoa_buf s" by (simp add: vga_set_color_def)
  obtain p c v i a where s1: "?s1 = s\<lparr>ports := p, cursor := c, vga_mem := v, itoa_buf := i, attribute := a\<rparr>"
    using vga_start [of s] by blast
  let ?s2 = "?s1\<lparr>gdt := flat_table, gdt_ptr := \<lparr>lim = 39, base = sym_gdt y\<rparr>,
    gdtr := \<lparr>lim = 39, base = sym_gdt y\<rparr>\<rparr>"
  have g: "gdt_init (sym_gdt y) ?s1 = Some ?s2" using b(1) by (intro gdt_init_state) (simp add: s1)
  let ?s3 = "idt_init (sym_idt y) (sym_isr y) (sym_irq y) ?s2"
  have e: "idt_entries ?s3 ! v = (if v < 32 then idt_entry (sym_isr y v) 8 0x8E
      else if v < 48 then idt_entry (sym_irq y (v - 32)) 8 0x8E else idt_entries s ! v)" if "v < 256" for v
    using idt_init_entries [of ?s2 v "sym_idt y" "sym_isr y" "sym_irq y"] b(2) that by (simp add: s1)
  obtain es q where s3: "?s3 = ?s2\<lparr>ports := q, idt_entries := es, idt_ptr := \<lparr>lim = 2047, base = sym_idt y\<rparr>,
      idtr := \<lparr>lim = 2047, base = sym_idt y\<rparr>, interrupts_on := True\<rparr>"
    using idt_init_state by blast
  let ?s4 = "vga_write (of_char CHR '' '' # 1 # str '' TOE-S '' @ 1 # str '' \<newline>'') ?s3"
  have buf: "itoa_buf_ok (itoa_buf ?s4)" using b(3) buf1 by (simp add: s3)
  obtain s' where s': "kprintf (str ''end: 0x%x \<newline>'') [KInt (sym_end y)] ?s4 = Some s'" "itoa_buf_ok (itoa_buf s')"
    using kprintf_matches [OF _ buf, of "str ''end: 0x%x \<newline>''" "[KInt (sym_end y)]"] by auto
  have co: "console_only ?s3 s'" by (rule kprintf_console_from [OF s'(1)]) simp
  have r: "kmain_early y s = Some s'"
    using g s'(1) by (simp add: kmain_early_def Let_def kprintf_plain)
  have f3: "ram ?s3 = ram s" "alloc_ptr ?s3 = alloc_ptr s" "early ?s3" "gdt ?s3 = flat_table"
    "gdtr ?s3 = \<lparr>lim = 39, base = sym_gdt y\<rparr>" "idtr ?s3 = \<lparr>lim = 2047, base = sym_idt y\<rparr>" "interrupts_on ?s3"
    "handlers ?s3 = handlers s" "current ?s3 = 0"
    using b(4,5) by (simp_all add: s3 early_def) (simp_all add: s1)
  show ?thesis
    using r s'(2) e f3 console_only_tables [OF co] console_only_pmm [OF co] console_only_sched(2) [OF co]
    by (intro exI [of _ s']) (simp add: early_def)
qed

text \<open>A kernel that ends at \<open>0xC0108000\<close>, with the memory map of \<open>boot_example\<close>.\<close>

definition symbols_example :: symbols where
  "symbols_example = \<lparr>sym_end = 0xC0108000, sym_gdt = 0xC0105000, sym_idt = 0xC0106000,
     sym_isr = (\<lambda>v. 0xC0100000 + 8 * word_of_nat v), sym_irq = (\<lambda>v. 0xC0100100 + 8 * word_of_nat v),
     sym_kidle = 0xC0101000, sym_stack_bottom = 0xC0102000, sym_stack_top = 0xC0106000\<rparr>"

definition kmain_example :: timer_state where
  "kmain_example = sched_state.extend (pmm_state.extend boot_example \<lparr>ready = 0, current = 0, next_tid = 0\<rparr>)
     \<lparr>ticks = 0\<rparr>"

lemma kmain_example_facts:
  "booted symbols_example kmain_example" "boot_info 0xC0009000 boot_entries kmain_example"
  "idt_entries kmain_example = replicate 256 zero_idt_e"
  using boot_example_ok
  by (simp_all add: booted_def kmain_example_def symbols_example_def sched_state.defs pmm_state.defs
      boot_info_def boot_example_defs)

lemma kmain_example_zero:
  assumes "unat d < bitset_bytes (ram kmain_example) 0xC0009000"
  shows "ram kmain_example (sym_end symbols_example + d) = 0"
proof -
  have m: "ram kmain_example = fold (\<lambda>(a, v) m. store32 m a v) boot_words (\<lambda>_. 0)"
    by (simp add: kmain_example_def sched_state.defs pmm_state.defs boot_example_def pmm0_def paging_state.defs)
  have "bitset_bytes (ram kmain_example) 0xC0009000 = 1020"
    unfolding m boot_words_def
    by (simp add: bitset_bytes_def mb_mem_upper_def mb_mem_lower_def load32_store32_apart)
  then have d: "apart a 4 (0xC0108000 + d) 1" if "apart a 4 0xC0108000 1020" for a
    using assms that by (intro apart_shift_right [OF that]) auto
  show ?thesis
    unfolding m boot_words_def by (simp add: symbols_example_def) (simp add: store32_other [OF d])
qed

section \<open>Properties\<close>

text \<open>
  C28. The first part of \<open>kmain\<close> always gets through: the four segments are flat, every exception
  and every remapped request line has a present gate to its assembly stub, interrupts are on,
  no handler is registered yet and no task is current, so that an interrupt at this point only
  prints; the memory is as the boot loader left it and the bump pointer at the end of the kernel.
\<close>

theorem kmain_early_sets_up:
  assumes "booted y s" "idt_entries s = replicate 256 zero_idt_e"
  shows "\<exists>s'. kmain_early y s = Some s' \<and> ram s' = ram s \<and> alloc_ptr s' = sym_end y \<and>
    list_all2 flat_segment [0x9A, 0x92, 0xFA, 0xF2] (tl (gdt s')) \<and> interrupts_on s' \<and>
    handlers s' = handlers s \<and> current s' = 0 \<and>
    (\<forall>v<256. gate_present (idt_entries s' ! v) = (v < 48)) \<and>
    (\<forall>v<32. gate_target (idt_entries s' ! v) = sym_isr y v) \<and>
    (\<forall>v<16. gate_target (idt_entries s' ! (v + 32)) = sym_irq y v)"
proof -
  obtain s' where s': "kmain_early y s = Some s'" "ram s' = ram s" "alloc_ptr s' = alloc_ptr s" "gdt s' = flat_table"
    "interrupts_on s'" "handlers s' = handlers s" "current s' = 0"
    "\<forall>v<256. idt_entries s' ! v =
       (if v < 32 then idt_entry (sym_isr y v) 8 0x8E
        else if v < 48 then idt_entry (sym_irq y (v - 32)) 8 0x8E else idt_entries s ! v)"
    using kmain_early_effect [OF assms(1)] by blast
  have "gate_present (idt_entries s' ! v) = (v < 48)" if "v < 256" for v
    using s'(8) that assms(2) by (simp add: gate_present_def zero_idt_e_def)
  moreover have "gate_target (idt_entries s' ! v) = sym_isr y v" if "v < 32" for v
    using s'(8) that by (simp add: idt_entry_target)
  moreover have "gate_target (idt_entries s' ! (v + 32)) = sym_irq y v" if "v < 16" for v
    using s'(8) that by (simp add: idt_entry_target)
  moreover have "alloc_ptr s' = sym_end y" using s'(3) assms(1) by (simp add: booted_def)
  ultimately show ?thesis using s' flat_table_flat by simp
qed

theorem kmain_early_sets_up_witness:
  "\<exists>s'. kmain_early symbols_example kmain_example = Some s' \<and> gate_target (idt_entries s' ! 32) = 0xC0100100"
proof -
  obtain s' where "kmain_early symbols_example kmain_example = Some s'"
    "\<forall>v<16. gate_target (idt_entries s' ! (v + 32)) = sym_irq symbols_example v"
    using kmain_early_sets_up [OF kmain_example_facts(1,3)] by blast
  then show ?thesis by (auto simp: symbols_example_def dest: spec [of _ 0])
qed

text \<open>
  From the state the boot loader leaves, \<open>kmain\<close> reaches the frame allocator: the banner is
  printed, \<open>pmm_init\<close> puts its bit set right behind the kernel, and a frame of memory that was
  zero is free exactly when no region of the memory map reserves it.
\<close>

theorem boot_reaches_frames:
  assumes "booted y s" "boot_info mb es s"
    "\<And>d. unat d < bitset_bytes (ram s) mb \<Longrightarrow> ram s (sym_end y + d) = 0"
  shows "\<exists>s1 s2. kmain_early y s = Some s1 \<and> pmm_init mb s1 = Some s2 \<and> pmm_ok s2 \<and> frames s2 = sym_end y \<and>
    unat (alloc_ptr s2) = unat (sym_end y) + bitset_bytes (ram s) mb \<and>
    (\<forall>j<bs_get_size (ram s2) (frames s2). j \<in> free_frames s2 \<longleftrightarrow> \<not> reserved es j)"
proof -
  obtain s1 where s1: "kmain_early y s = Some s1" "ram s1 = ram s" "early s1" "alloc_ptr s1 = alloc_ptr s"
    "itoa_buf_ok (itoa_buf s1)"
    using kmain_early_effect [OF assms(1)] by blast
  have a: "alloc_ptr s = sym_end y" using assms(1) by (simp add: booted_def)
  have "boot_info mb es s1" using assms(2) s1(2,4) by (simp add: boot_info_def)
  from pmm_init_effect [OF s1(3,5) this] obtain s2 where s2: "pmm_init mb s1 = Some s2" "pmm_ok s2"
    "frames s2 = sym_end y" "unat (alloc_ptr s2) = unat (sym_end y) + bitset_bytes (ram s) mb"
    "\<forall>j<bs_get_size (ram s2) (frames s2). j \<in> free_frames s2 \<longleftrightarrow> \<not> reserved es j \<and>
       \<not> bit (load32 (ram s) (sym_end y + 8 + 4 * (j div 32))) (unat (j mod 32))"
    "8 + 4 * unat (bs_sz (ram s2) (frames s2)) = bitset_bytes (ram s) mb"
    using s1(2,4) a by auto
  have "load32 (ram s) (sym_end y + 8 + 4 * (j div 32)) = 0" if "j < bs_get_size (ram s2) (frames s2)" for j
  proof -
    have ok: "bs_ok (ram s2) (frames s2)" using s2(2) by (rule pmm_ok_bs)
    have w: "unat (j div 32) < unat (bs_sz (ram s2) (frames s2))" using idx_word [OF ok that] .
    then have b: "unat (j div 32) < 2 ^ 27" using ok by (auto simp: bs_ok_def)
    have z: "ram s (sym_end y + (8 + 4 * (j div 32) + c)) = 0" if c: "unat c < 4" for c
    proof (rule assms(3))
      show "unat (8 + 4 * (j div 32) + c) < bitset_bytes (ram s) mb"
        using w b c s2(6) by (simp add: unat_word_ariths)
    qed
    show ?thesis
      using z [of 0] z [of 1] z [of 2] z [of 3] by (simp add: load32_def add.assoc)
  qed
  then show ?thesis using s1(1) s2 by auto
qed

theorem boot_reaches_frames_witness:
  "\<exists>s1 s2. kmain_early symbols_example kmain_example = Some s1 \<and> pmm_init 0xC0009000 s1 = Some s2 \<and>
    frames s2 = 0xC0108000 \<and> 0x9F \<notin> free_frames s2"
proof -
  have "reserved boot_entries 0x9F"
    by (auto simp: boot_entries_def reserved_def page_frame_def PG_SZ_def intro!: exI [of _ 0])
  with boot_reaches_frames [OF kmain_example_facts(1,2) kmain_example_zero] show ?thesis
    by (auto simp: free_frames_iff symbols_example_def)
qed

end
