(* ===== verification/Stubs.thy ===== *)
theory Stubs
  imports Timer
begin

text \<open>
  kern/asm/int.S: what happens between an interrupt and the C code.  The registers that the C model
  does not mention are a record of their own; a stub acts on them and on the state of the kernel.
  \<open>accept\<close> is what the processor does at an interrupt gate; a stub pushes the vector, saves the
  registers, calls the C function and returns with \<open>iret\<close>.  The C function is the argument \<open>f\<close>, which
  also gets what it sees of the processor (\<open>c_view\<close>); what the compiled function leaves in the registers it may use freely is \<open>clob\<close>, and \<open>ret\<close> is the
  return address of the call.  Proved: a device interrupt is invisible to the interrupted program
  except for \<open>%fs\<close>, which comes back as \<open>%es\<close>; an exception is invisible altogether, but the stub of
  vector 17 drops no error code and returns to it.
\<close>

record regs =
  eax :: u32
  ecx :: u32
  edx :: u32
  seg_cs :: u16
  seg_ds :: u16
  seg_es :: u16
  seg_fs :: u16
  seg_gs :: u16
  eflags :: u32
  eip :: u32

section \<open>The processor\<close>

text \<open>The interrupt flag of the model is a field of the kernel state; it is bit 9 of the flags.\<close>

definition flags_word :: "regs \<Rightarrow> 'a idt_state_scheme \<Rightarrow> u32" where
  "flags_word c s = (if interrupts_on s then eflags c OR 0x200 else eflags c AND NOT 0x200)"

text \<open>
  An interrupt through gate \<open>n\<close>, without a change of privilege: the kernel never leaves ring 0.
  \<open>err\<close> is the error code the processor pushes for some exceptions.
\<close>

definition accept :: "nat \<Rightarrow> u32 option \<Rightarrow> regs \<times> 'a idt_state_scheme \<Rightarrow> regs \<times> 'a idt_state_scheme" where
  "accept n err = (\<lambda>(c, s).
     let s = push (flags_word c s) s;
         s = push (ucast (seg_cs c)) s;
         s = push (eip c) s;
         s = (case err of Some e \<Rightarrow> push e s | None \<Rightarrow> s);
         gate = idt_entries s ! n
     in (c\<lparr>eip := gate_target gate, seg_cs := sel gate, eflags := eflags c AND NOT 0x34100\<rparr>,
         s\<lparr>interrupts_on := False\<rparr>))"

definition iret :: "regs \<times> 'a idt_state_scheme \<Rightarrow> regs \<times> 'a idt_state_scheme" where
  "iret = (\<lambda>(c, s).
     let (v, s) = pop s; c = c\<lparr>eip := v\<rparr>;
         (v, s) = pop s; c = c\<lparr>seg_cs := ucast v\<rparr>;
         (v, s) = pop s; c = c\<lparr>eflags := v\<rparr>
     in (c, s\<lparr>interrupts_on := bit v 9\<rparr>))"

definition pusha :: "regs \<Rightarrow> 'a machine_scheme \<Rightarrow> 'a machine_scheme" where
  "pusha c s = fold push [eax c, ecx c, edx c, ebx s, esp s, ebp s, esi s, edi s] s"

definition popa :: "regs \<times> 'a machine_scheme \<Rightarrow> regs \<times> 'a machine_scheme" where
  "popa = (\<lambda>(c, s).
     let (v, s) = pop s; s = s\<lparr>edi := v\<rparr>;
         (v, s) = pop s; s = s\<lparr>esi := v\<rparr>;
         (v, s) = pop s; s = s\<lparr>ebp := v\<rparr>;
         (_, s) = pop s;
         (v, s) = pop s; s = s\<lparr>ebx := v\<rparr>;
         (v, s) = pop s; c = c\<lparr>edx := v\<rparr>;
         (v, s) = pop s; c = c\<lparr>ecx := v\<rparr>;
         (v, s) = pop s; c = c\<lparr>eax := v\<rparr>
     in (c, s))"

text \<open>The \<open>regs_t\<close> at an address.\<close>

definition read_regs :: "mem \<Rightarrow> u32 \<Rightarrow> regs_t" where
  "read_regs m p = \<lparr>r_gs = load32 m p, r_fs = load32 m (p + 4), r_es = load32 m (p + 8),
     r_ds = load32 m (p + 12), r_edi = load32 m (p + 16), r_esi = load32 m (p + 20),
     r_ebp = load32 m (p + 24), r_esp = load32 m (p + 28), r_ebx = load32 m (p + 32),
     r_edx = load32 m (p + 36), r_ecx = load32 m (p + 40), r_eax = load32 m (p + 44),
     int_no = load32 m (p + 48), err_code = load32 m (p + 52), r_eip = load32 m (p + 56),
     r_cs = load32 m (p + 60), r_eflags = load32 m (p + 64), r_useresp = load32 m (p + 68),
     r_ss = load32 m (p + 72)\<rparr>"

section \<open>The stubs\<close>

text \<open>The data segments of the kernel, loaded through \<open>%ax\<close>, and the direction flag cleared.\<close>

definition kernel_segments :: "regs \<Rightarrow> regs" where
  "kernel_segments c =
     (let c = c\<lparr>eax := (eax c AND 0xffff0000) OR 0x10\<rparr>;
          c = c\<lparr>seg_ds := 0x10, seg_es := 0x10, seg_fs := 0x10, seg_gs := 0x10\<rparr>
      in c\<lparr>eflags := eflags c AND NOT 0x400\<rparr>)"

text \<open>
  What a C function sees of the processor beside its arguments: the direction flag, which decides the
  order of its string instructions, and the data segments.  Code as the compiler makes it is only
  defined when the flag is clear and the segments are those of the kernel: \<open>c_code\<close>.
\<close>

record c_view =
  view_df :: bool
  view_ds :: u16
  view_es :: u16
  view_fs :: u16
  view_gs :: u16

definition seen_by_c :: "regs \<Rightarrow> c_view" where
  "seen_by_c c = \<lparr>view_df = bit (eflags c) 10, view_ds = seg_ds c, view_es = seg_es c,
     view_fs = seg_fs c, view_gs = seg_gs c\<rparr>"

definition kernel_view :: "bool \<Rightarrow> c_view" where
  "kernel_view df = \<lparr>view_df = df, view_ds = 0x10, view_es = 0x10, view_fs = 0x10, view_gs = 0x10\<rparr>"

definition c_code :: "(regs_t \<Rightarrow> 's \<Rightarrow> 's option) \<Rightarrow> c_view \<Rightarrow> regs_t \<Rightarrow> 's \<Rightarrow> 's option" where
  "c_code f v r s = (if v = kernel_view False then f r s else None)"

lemma c_code_kernel [simp]: "c_code f (kernel_view False) = f"
  by (simp add: c_code_def fun_eq_iff)

lemma seen_kernel_segments [simp]: "seen_by_c (kernel_segments c) = kernel_view False"
  by (simp add: seen_by_c_def kernel_view_def kernel_segments_def Let_def bit_simps)

text \<open>\<open>push %esp\<close>, the call and \<open>add $4, %esp\<close>: the argument points to the stub_frame registers.\<close>

definition call_handler ::
    "('a idt_state_scheme \<Rightarrow> regs) \<Rightarrow> u32 \<Rightarrow> (c_view \<Rightarrow> regs_t \<Rightarrow> 'a idt_state_scheme \<Rightarrow> 'a idt_state_scheme option)
     \<Rightarrow> regs \<times> 'a idt_state_scheme \<Rightarrow> (regs \<times> 'a idt_state_scheme) option" where
  "call_handler clob ret f = (\<lambda>(c, s).
     let p = esp s;
         s = push p s;
         s = push ret s
     in do {
       s \<leftarrow> f (seen_by_c c) (read_regs (ram s) p) s;
       let (_, s) = pop s;
       let c = c\<lparr>eax := eax (clob s), ecx := ecx (clob s), edx := edx (clob s), eflags := eflags (clob s)\<rparr>;
       Some (c, s\<lparr>esp := esp s + 4\<rparr>)
     })"

definition pop_segments :: "regs \<times> 'a machine_scheme \<Rightarrow> regs \<times> 'a machine_scheme" where
  "pop_segments = (\<lambda>(c, s).
     let (v, s) = pop s; c = c\<lparr>seg_gs := ucast v\<rparr>;
         (v, s) = pop s; c = c\<lparr>seg_fs := ucast v\<rparr>;
         (v, s) = pop s; c = c\<lparr>seg_es := ucast v\<rparr>;
         (v, s) = pop s; c = c\<lparr>seg_ds := ucast v\<rparr>
     in (c, s))"

definition isr_common ::
    "('a idt_state_scheme \<Rightarrow> regs) \<Rightarrow> u32 \<Rightarrow> (c_view \<Rightarrow> regs_t \<Rightarrow> 'a idt_state_scheme \<Rightarrow> 'a idt_state_scheme option)
     \<Rightarrow> regs \<times> 'a idt_state_scheme \<Rightarrow> (regs \<times> 'a idt_state_scheme) option" where
  "isr_common clob ret f = (\<lambda>(c, s).
     let s = pusha c s;
         s = push (ucast (seg_ds c)) s;
         s = push (ucast (seg_es c)) s;
         s = push (ucast (seg_fs c)) s;
         s = push (ucast (seg_gs c)) s
     in do {
       x \<leftarrow> call_handler clob ret f (kernel_segments c, s);
       let (c, s) = popa (pop_segments x);
       Some (iret (c, s\<lparr>esp := esp s + 8\<rparr>))
     })"

definition irq_common ::
    "('a idt_state_scheme \<Rightarrow> regs) \<Rightarrow> u32 \<Rightarrow> (c_view \<Rightarrow> regs_t \<Rightarrow> 'a idt_state_scheme \<Rightarrow> 'a idt_state_scheme option)
     \<Rightarrow> regs \<times> 'a idt_state_scheme \<Rightarrow> (regs \<times> 'a idt_state_scheme) option" where
  "irq_common clob ret f = (\<lambda>(c, s).
     let s = pusha c s;
         s = push (ucast (seg_ds c)) s;
         s = push (ucast (seg_es c)) s;
         s = push (ucast (seg_es c)) s;
         s = push (ucast (seg_gs c)) s
     in do {
       x \<leftarrow> call_handler clob ret f (kernel_segments c, s);
       let (c, s) = popa (pop_segments x);
       Some (iret (c, s\<lparr>esp := esp s + 8\<rparr>))
     })"

text \<open>The macros \<open>isr_noerr\<close>, \<open>isr_err\<close> and \<open>irq\<close>, and the vectors they are used for.\<close>

definition isr_noerr :: "u32 \<Rightarrow> 'a idt_state_scheme \<Rightarrow> 'a idt_state_scheme" where
  "isr_noerr idx s = push idx (push 0 (s\<lparr>interrupts_on := False\<rparr>))"

definition isr_err :: "u32 \<Rightarrow> 'a idt_state_scheme \<Rightarrow> 'a idt_state_scheme" where
  "isr_err idx s = push idx (s\<lparr>interrupts_on := False\<rparr>)"

definition stub_has_error :: "nat \<Rightarrow> bool" where
  "stub_has_error n \<longleftrightarrow> n \<in> {8, 10, 11, 12, 13, 14}"

definition isr_stub ::
    "('a idt_state_scheme \<Rightarrow> regs) \<Rightarrow> u32 \<Rightarrow> (c_view \<Rightarrow> regs_t \<Rightarrow> 'a idt_state_scheme \<Rightarrow> 'a idt_state_scheme option)
     \<Rightarrow> nat \<Rightarrow> regs \<times> 'a idt_state_scheme \<Rightarrow> (regs \<times> 'a idt_state_scheme) option" where
  "isr_stub clob ret f n = (\<lambda>(c, s).
     isr_common clob ret f
       (c, if stub_has_error n then isr_err (word_of_nat n) s else isr_noerr (word_of_nat n) s))"

definition irq_stub ::
    "('a idt_state_scheme \<Rightarrow> regs) \<Rightarrow> u32 \<Rightarrow> (c_view \<Rightarrow> regs_t \<Rightarrow> 'a idt_state_scheme \<Rightarrow> 'a idt_state_scheme option)
     \<Rightarrow> nat \<Rightarrow> regs \<times> 'a idt_state_scheme \<Rightarrow> (regs \<times> 'a idt_state_scheme) option" where
  "irq_stub clob ret f byte = (\<lambda>(c, s).
     irq_common clob ret f (c, push (word_of_nat byte) (push 0 (s\<lparr>interrupts_on := False\<rparr>))))"

section \<open>The stack\<close>

text \<open>\<open>stacked m p vs\<close>: the words from \<open>p\<close> upwards are \<open>vs\<close>.\<close>

fun stacked :: "mem \<Rightarrow> u32 \<Rightarrow> u32 list \<Rightarrow> bool" where
  "stacked m p [] = True"
| "stacked m p (v # vs) = (load32 m p = v \<and> stacked m (p + 4) vs)"

lemma push_registers [simp]:
  "esp (push v s) = esp s - 4" "ebp (push v s) = ebp s" "ebx (push v s) = ebx s"
  "esi (push v s) = esi s" "edi (push v s) = edi s"
  by (simp_all add: push_def)

lemma push_fields [simp]:
  "push v (s\<lparr>interrupts_on := b\<rparr>) = (push v s)\<lparr>interrupts_on := b\<rparr>" for s :: "'a idt_state_scheme"
  by (simp_all add: push_def)

lemma below_apart:
  fixes p :: u32
  assumes "4 * k + 8 \<le> 2 ^ 32"
  shows "apart (p - 4) 4 (p + 4 * word_of_nat k) 4"
proof -
  let ?x = "4 * word_of_nat k + 4 :: u32"
  have x: "unat ?x = 4 * k + 4"
    using assms by (simp add: unat_word_ariths unat_of_nat)
  then have "?x \<noteq> 0" by auto
  then have "unat (- ?x) = 2 ^ 32 - unat ?x" by (rule unat_minus_word)
  then have "unat (- ?x) = 2 ^ 32 - (4 * k + 4)" using x by (simp only:)
  moreover have "p + 4 * word_of_nat k - (p - 4) = ?x" "p - 4 - (p + 4 * word_of_nat k) = - ?x"
    by (simp_all add: algebra_simps)
  ultimately show ?thesis using x assms unfolding apart_def by presburger
qed

lemma store_below_stacked:
  assumes "4 * k + 4 * length vs + 4 \<le> 2 ^ 32"
  shows "stacked (store32 m (p - 4) v) (p + 4 * word_of_nat k) vs = stacked m (p + 4 * word_of_nat k) vs"
  using assms
proof (induction vs arbitrary: k)
  case (Cons w vs)
  have "apart (p - 4) 4 (p + 4 * word_of_nat k) 4" using Cons.prems by (intro below_apart) simp
  then show ?case using Cons.IH [of "Suc k"] Cons.prems
    by (simp add: load32_store32_apart algebra_simps)
qed simp

text \<open>Pushing puts a word on top, and changes no byte outside the stack.\<close>

lemma push_stacked:
  assumes "length vs < 64"
  shows "stacked (ram (push v s)) (esp s - 4) (v # vs) = stacked (ram s) (esp s) vs"
  using store_below_stacked [of 0 vs "ram s" "esp s" v] assms by (simp add: push_def)

lemma push_ram_other:
  assumes "apart (esp s - 4 * word_of_nat n) (4 * n) a 1" "0 < n" "n < 64"
  shows "ram (push v s) a = ram s a"
proof -
  have "4 * word_of_nat n - 4 = (4 * word_of_nat (n - 1) :: u32)"
    using assms(2) by (cases n) (simp_all add: algebra_simps)
  then have e: "esp s - 4 = esp s - 4 * word_of_nat n + 4 * word_of_nat (n - 1)" by (simp add: algebra_simps)
  have "unat (4 * word_of_nat (n - 1) :: u32) = 4 * (n - 1)"
    using assms(3) by (simp add: unat_word_ariths unat_of_nat)
  then have "apart (esp s - 4 * word_of_nat n + 4 * word_of_nat (n - 1)) 4 a 1"
    using assms by (intro apart_shift_left [OF assms(1)]) auto
  then show ?thesis unfolding e [symmetric] by (simp add: push_def store32_other)
qed

lemma fold_push_stacked:
  assumes "length vs + length ws < 64" "stacked (ram s) (esp s) ws"
  shows "stacked (ram (fold push vs s)) (esp (fold push vs s)) (rev vs @ ws)"
  using assms
proof (induction vs arbitrary: s ws)
  case (Cons v vs)
  have "stacked (ram (push v s)) (esp (push v s)) (v # ws)"
    using push_stacked [of ws v s] Cons.prems by (simp add: push_def)
  then show ?case using Cons.IH [of "v # ws" "push v s"] Cons.prems(1) by simp
qed simp

lemma fold_push_esp: "esp (fold push vs s) = esp s - 4 * word_of_nat (length vs)"
  by (induction vs arbitrary: s) (simp_all add: algebra_simps)

lemma fold_push_ram_other:
  assumes "length vs < 64" "apart (esp s - 4 * word_of_nat (length vs)) (4 * length vs) a 1"
  shows "ram (fold push vs s) a = ram s a"
  using assms
proof (induction vs arbitrary: s)
  case (Cons v vs)
  let ?n = "length vs" and ?s = "push v s"
  have n: "ram ?s a = ram s a" using push_ram_other [of s "Suc ?n" a v] Cons.prems by simp
  have e: "esp ?s - 4 * word_of_nat ?n = esp s - 4 * word_of_nat (Suc ?n)"
    by (simp add: push_def algebra_simps)
  have "apart (esp ?s - 4 * word_of_nat ?n) (4 * ?n) a 1"
    unfolding e using Cons.prems(2) by (simp add: apart_def)
  then show ?case using Cons.IH [of ?s] Cons.prems(1) n by simp
qed simp

lemma fold_push_only: "\<exists>e m. fold push vs s = s\<lparr>esp := e, ram := m\<rparr>"
proof (induction vs arbitrary: s)
  case Nil
  show ?case by (intro exI [of _ "esp s"] exI [of _ "ram s"]) simp
next
  case (Cons v vs)
  obtain e m where "fold push vs (push v s) = (push v s)\<lparr>esp := e, ram := m\<rparr>" using Cons.IH by blast
  also have "\<dots> = s\<lparr>esp := e, ram := m\<rparr>" by (simp add: push_def)
  finally show ?case by auto
qed

lemma fold_push_state: "fold push vs s = s\<lparr>esp := esp (fold push vs s), ram := ram (fold push vs s)\<rparr>"
  using fold_push_only [of vs s] by auto

text \<open>
  The words on the stack when the C function starts, from the top, above what was there when the
  common part of the stubs began; \<open>fs\<close> is the third segment register it pushed.
\<close>

definition stub_frame :: "u32 \<Rightarrow> u32 \<Rightarrow> regs \<Rightarrow> 'a machine_scheme \<Rightarrow> u32 list" where
  "stub_frame ret fs c z =
     [ret, esp z - 48, ucast (seg_gs c), fs, ucast (seg_es c), ucast (seg_ds c), edi z, esi z, ebp z,
      esp z, ebx z, edx c, ecx c, eax c]"

definition entered :: "u32 \<Rightarrow> u32 \<Rightarrow> regs \<Rightarrow> 'a machine_scheme \<Rightarrow> 'a machine_scheme" where
  "entered ret fs c z = fold push (rev (stub_frame ret fs c z)) z"

definition stub_exit :: "regs \<times> 'a idt_state_scheme \<Rightarrow> regs \<times> 'a idt_state_scheme" where
  "stub_exit x = (let (c, s) = popa (pop_segments x) in iret (c, s\<lparr>esp := esp s + 8\<rparr>))"

lemma entered_stack:
  assumes "stacked (ram z) (esp z) ws" "length ws < 50"
  shows "stacked (ram (entered ret fs c z)) (esp z - 56) (stub_frame ret fs c z @ ws)"
    "esp (entered ret fs c z) = esp z - 56"
proof -
  let ?vs = "rev (stub_frame ret fs c z)"
  have l: "length ?vs = 14" by (simp add: stub_frame_def)
  show e: "esp (entered ret fs c z) = esp z - 56"
    using fold_push_esp [of ?vs z] unfolding l by (simp add: entered_def)
  show "stacked (ram (entered ret fs c z)) (esp z - 56) (stub_frame ret fs c z @ ws)"
    using fold_push_stacked [of ?vs ws z] e l assms by (simp add: entered_def)
qed

lemma entered_ram_other:
  assumes "apart (esp z - 56) 56 a 1"
  shows "ram (entered ret fs c z) a = ram z a"
  using fold_push_ram_other [of "rev (stub_frame ret fs c z)" z a] assms
  by (simp add: entered_def stub_frame_def)

lemma ucast_selector [simp]: "ucast (ucast (x :: u16) :: u32) = x"
  by (rule bit_word_eqI) (simp add: bit_simps)

lemma flags_word_bit [simp]: "bit (flags_word c s) 9 = interrupts_on s"
  by (simp add: flags_word_def bit_simps)

lemma flags_word_push [simp]: "flags_word c (push v s) = flags_word c s"
  by (simp add: flags_word_def push_def)

lemma call_handler_exit:
  assumes "f (seen_by_c c) (read_regs (ram t) (esp s)) t = Some u" "t = push ret (push (esp s) s)"
  shows "\<exists>k. call_handler clob ret f (c, s) \<bind>
      (\<lambda>x. let (c, s) = popa (pop_segments x) in Some (iret (c, s\<lparr>esp := esp s + 8\<rparr>)))
    = Some (stub_exit (k, u\<lparr>esp := esp u + 8\<rparr>))"
  using assms
  by (auto simp add: call_handler_def Let_def stub_exit_def pop_def case_prod_unfold add.commute [of 8])

text \<open>Everything is popped from where it was saved, whatever the C function left in the registers.\<close>

lemma stub_exit_restores:
  assumes "esp u = esp z - 56" "stacked (ram u) (esp z - 56) (stub_frame ret fs c z @ [n, err, ip, sg, fl])"
  shows "stub_exit (k, u\<lparr>esp := esp u + 8\<rparr>) = (c\<lparr>seg_fs := ucast fs, eip := ip, seg_cs := ucast sg, eflags := fl\<rparr>,
    u\<lparr>esp := esp z + 20, ebp := ebp z, ebx := ebx z, esi := esi z, edi := edi z, interrupts_on := bit fl 9\<rparr>)"
proof -
  have st: "stacked (ram u) (esp u) (stub_frame ret fs c z @ [n, err, ip, sg, fl])" and e: "esp z = esp u + 56"
    using assms by simp_all
  show ?thesis
    using st unfolding stub_frame_def
    by (intro prod_eqI regs.equality)
      (simp_all add: stub_exit_def popa_def pop_segments_def iret_def pop_def Let_def e add.assoc)
qed

text \<open>The common parts of both kinds of stub, for a C function that keeps the memory and its stack pointer.\<close>

lemma common_returns:
  assumes common: "result =
      call_handler clob ret f (kernel_segments c, fold push (rev (tl (tl (stub_frame ret fs c z)))) z) \<bind>
      (\<lambda>x. let (c, s) = popa (pop_segments x) in Some (iret (c, s\<lparr>esp := esp s + 8\<rparr>)))"
    and f: "f (kernel_view False) (read_regs (ram t) (esp z - 48)) t = Some u" "t = entered ret fs c z" "esp u = esp t" "ram u = ram t"
    and z: "stacked (ram z) (esp z) [n, err, ip, sg, fl]"
  shows "result = Some (c\<lparr>seg_fs := ucast fs, eip := ip, seg_cs := ucast sg, eflags := fl\<rparr>,
    u\<lparr>esp := esp z + 20, ebp := ebp z, ebx := ebx z, esi := esi z, edi := edi z, interrupts_on := bit fl 9\<rparr>)"
proof -
  let ?s = "fold push (rev (tl (tl (stub_frame ret fs c z)))) z"
  have e: "esp ?s = esp z - 48" by (simp add: stub_frame_def)
  have t: "t = push ret (push (esp ?s) ?s)" unfolding e by (simp add: f(2) entered_def stub_frame_def)
  have f': "f (seen_by_c (kernel_segments c)) (read_regs (ram t) (esp ?s)) t = Some u"
    unfolding e seen_kernel_segments by (rule f(1))
  obtain k where k: "result = Some (stub_exit (k, u\<lparr>esp := esp u + 8\<rparr>))"
    using call_handler_exit [of f "kernel_segments c" t ?s u ret, OF f' t] unfolding common by auto
  have "stacked (ram u) (esp z - 56) (stub_frame ret fs c z @ [n, err, ip, sg, fl])" "esp u = esp z - 56"
    using entered_stack [OF z] f by simp_all
  then show ?thesis unfolding k using stub_exit_restores by blast
qed

lemma irq_common_pushes:
  "irq_common clob ret f (c, z) =
    call_handler clob ret f (kernel_segments c, fold push (rev (tl (tl (stub_frame ret (ucast (seg_es c)) c z)))) z) \<bind>
      (\<lambda>x. let (c, s) = popa (pop_segments x) in Some (iret (c, s\<lparr>esp := esp s + 8\<rparr>)))"
  by (simp add: irq_common_def pusha_def stub_frame_def Let_def)

lemma isr_common_pushes:
  "isr_common clob ret f (c, z) =
    call_handler clob ret f (kernel_segments c, fold push (rev (tl (tl (stub_frame ret (ucast (seg_fs c)) c z)))) z) \<bind>
      (\<lambda>x. let (c, s) = popa (pop_segments x) in Some (iret (c, s\<lparr>esp := esp s + 8\<rparr>)))"
  by (simp add: isr_common_def pusha_def stub_frame_def Let_def)

lemmas irq_common_returns = common_returns [OF irq_common_pushes, unfolded ucast_selector]
lemmas isr_common_returns = common_returns [OF isr_common_pushes, unfolded ucast_selector]

text \<open>What is on the stack when the common part begins.\<close>

definition accepted :: "u32 list \<Rightarrow> regs \<Rightarrow> 'a idt_state_scheme \<Rightarrow> 'a idt_state_scheme" where
  "accepted ws c s = (fold push ([flags_word c s, ucast (seg_cs c), eip c] @ ws) s)\<lparr>interrupts_on := False\<rparr>"

lemma accepted_stack:
  assumes "length ws < 5"
  shows "stacked (ram (accepted ws c s)) (esp (accepted ws c s)) (rev ws @ [eip c, ucast (seg_cs c), flags_word c s])"
    "esp (accepted ws c s) = esp s - 12 - 4 * word_of_nat (length ws)"
  using fold_push_stacked [of "[flags_word c s, ucast (seg_cs c), eip c] @ ws" "[]" s] assms
    fold_push_esp [of "[flags_word c s, ucast (seg_cs c), eip c] @ ws" s]
  by (simp_all add: accepted_def del: fold_append)

lemma accept_registers:
  "fst (accept n err (c, s)) = c\<lparr>eip := gate_target (idt_entries s ! n), seg_cs := sel (idt_entries s ! n),
     eflags := eflags c AND NOT 0x34100\<rparr>"
  by (simp add: accept_def Let_def push_def split: option.splits)

lemma irq_stub_accepts:
  "irq_stub clob ret f n (accept v None (c, s)) =
    irq_common clob ret f (fst (accept v None (c, s)), accepted [0, word_of_nat n] c s)"
  by (simp add: irq_stub_def accept_def accepted_def Let_def)

lemma isr_stub_accepts:
  "isr_stub clob ret f n (accept v err (c, s)) =
    isr_common clob ret f (fst (accept v err (c, s)),
      accepted ((case err of Some e \<Rightarrow> [e] | None \<Rightarrow> []) @ (if stub_has_error n then [] else [0]) @ [word_of_nat n]) c s)"
  by (simp add: isr_stub_def isr_err_def isr_noerr_def accept_def accepted_def Let_def split: option.splits)

text \<open>The state the C function starts in: the stack has grown by \<open>d\<close> bytes, nothing else has changed.\<close>

definition stack_only :: "nat \<Rightarrow> 'a idt_state_scheme \<Rightarrow> 'a idt_state_scheme \<Rightarrow> bool" where
  "stack_only d s t \<longleftrightarrow> (\<exists>m. t = s\<lparr>esp := esp s - word_of_nat d, ram := m, interrupts_on := False\<rparr> \<and>
     (\<forall>a. apart (esp s - word_of_nat d) d a 1 \<longrightarrow> m a = ram s a))"

lemma accepted_entered_stack_only:
  assumes "length ws < 5" "d = 68 + 4 * length ws"
  shows "stack_only d s (entered ret fs k (accepted ws c s))"
proof -
  let ?vs = "[flags_word c s, ucast (seg_cs c), eip c] @ ws"
  let ?z = "accepted ws c s" and ?ws = "rev (stub_frame ret fs k (accepted ws c s))"
  have "fold push ?ws ?z = (fold push ?ws (fold push ?vs s))\<lparr>interrupts_on := False\<rparr>"
    by (simp add: accepted_def stub_frame_def)
  then have t: "entered ret fs k ?z = (fold push (?vs @ ?ws) s)\<lparr>interrupts_on := False\<rparr>"
    by (simp add: entered_def)
  have l: "length (?vs @ ?ws) = 17 + length ws" by (simp add: stub_frame_def)
  have d: "4 * word_of_nat (17 + length ws) = (word_of_nat d :: u32)" "4 * (17 + length ws) = d"
    by (simp_all add: assms(2) algebra_simps)
  have e: "esp (fold push (?vs @ ?ws) s) = esp s - word_of_nat d"
    using fold_push_esp [of "?vs @ ?ws" s] unfolding l d .
  have "ram (fold push (?vs @ ?ws) s) a = ram s a" if "apart (esp s - word_of_nat d) d a 1" for a
    using fold_push_ram_other [of "?vs @ ?ws" s a] that assms(1) unfolding l d by simp
  then show ?thesis
    unfolding stack_only_def t using fold_push_state [of "?vs @ ?ws" s] unfolding e
    by (intro exI [of _ "ram (fold push (?vs @ ?ws) s)"]) (metis (no_types, lifting))
qed

lemma stacked_append: "stacked m p (vs @ ws) \<Longrightarrow> stacked m p vs"
  by (induction vs arbitrary: p) simp_all

lemma stub_returns:
  assumes common: "\<And>u t. f (read_regs (ram t) (esp z - 48)) t = Some u \<Longrightarrow> t = entered ret fs k z \<Longrightarrow>
      esp u = esp t \<Longrightarrow> ram u = ram t \<Longrightarrow> stacked (ram z) (esp z) [n, err, ip, sg, fl] \<Longrightarrow>
      result = Some (g u)"
    and z: "z = accepted ws c s" "length ws < 5"
      "rev ws @ [eip c, ucast (seg_cs c), flags_word c s] = [n, err, ip, sg, fl] @ rest"
    and f: "\<And>t r. stack_only (68 + 4 * length ws) s t \<Longrightarrow> int_no r = n \<Longrightarrow>
      \<exists>u. f r t = Some u \<and> esp u = esp t \<and> ram u = ram t \<and> P t u"
  shows "\<exists>t u. stack_only (68 + 4 * length ws) s t \<and> P t u \<and> result = Some (g u)"
proof -
  let ?t = "entered ret fs k z"
  have t: "stack_only (68 + 4 * length ws) s ?t"
    unfolding z(1) by (rule accepted_entered_stack_only [OF z(2) refl])
  have "stacked (ram z) (esp z) ([n, err, ip, sg, fl] @ rest)"
    using accepted_stack(1) [OF z(2), of c s] unfolding z(1,3) .
  then have st: "stacked (ram z) (esp z) [n, err, ip, sg, fl]" by (rule stacked_append)
  have "stacked (ram ?t) (esp z - 56) (stub_frame ret fs k z @ [n, err, ip, sg, fl])"
    by (rule entered_stack [OF st]) simp
  then have n: "int_no (read_regs (ram ?t) (esp z - 48)) = n"
    by (simp add: read_regs_def stub_frame_def)
  obtain u where u: "f (read_regs (ram ?t) (esp z - 48)) ?t = Some u" "esp u = esp ?t" "ram u = ram ?t" "P ?t u"
    using f [OF t n] by blast
  show ?thesis using common [OF u(1) refl u(2,3) st] t u(4) by blast
qed

section \<open>Properties\<close>

lemma fold_push_registers [simp]:
  "ebp (fold push vs s) = ebp s" "ebx (fold push vs s) = ebx s" "esi (fold push vs s) = esi s"
  "edi (fold push vs s) = edi s"
  by (induction vs arbitrary: s) simp_all

lemma accepted_registers [simp]:
  "ebp (accepted ws c s) = ebp s" "ebx (accepted ws c s) = ebx s" "esi (accepted ws c s) = esi s"
  "edi (accepted ws c s) = edi s"
  by (simp_all add: accepted_def del: fold_append fold_simps)

lemma device_interrupt_returns:
  assumes "\<And>t r. stack_only 76 s t \<Longrightarrow> int_no r = word_of_nat n \<Longrightarrow>
      \<exists>u. f (kernel_view False) r t = Some u \<and> esp u = esp t \<and> ram u = ram t \<and> P t u"
  shows "\<exists>t u. stack_only 76 s t \<and> P t u \<and> irq_stub clob ret f n (accept v None (c, s)) =
    Some (c\<lparr>seg_fs := seg_es c, eflags := flags_word c s\<rparr>,
      u\<lparr>esp := esp s, ebp := ebp s, ebx := ebx s, esi := esi s, edi := edi s, interrupts_on := interrupts_on s\<rparr>)"
proof -
  let ?ws = "[0 :: u32, word_of_nat n]" and ?c = "fst (accept v None (c, s))"
  let ?z = "accepted ?ws c s"
  let ?g = "\<lambda>u. (?c\<lparr>seg_fs := seg_es ?c, eip := eip c, seg_cs := ucast (ucast (seg_cs c) :: u32),
    eflags := flags_word c s\<rparr>, u\<lparr>esp := esp ?z + 20, ebp := ebp ?z, ebx := ebx ?z, esi := esi ?z,
    edi := edi ?z, interrupts_on := bit (flags_word c s) 9\<rparr>)"
  have e: "esp ?z = esp s - 20" using accepted_stack(2) [of ?ws c s] by simp
  have "\<exists>t u. stack_only (68 + 4 * length ?ws) s t \<and> P t u \<and> irq_common clob ret f (?c, ?z) = Some (?g u)"
    by (rule stub_returns [where f = "f (kernel_view False)" and rest = "[]"], rule irq_common_returns, assumption+, rule refl) (use assms in auto)
  then show ?thesis unfolding irq_stub_accepts accept_registers by (simp add: e)
qed

text \<open>The same for an exception, and for one whose error code the stub does not expect.\<close>

lemma exception_returns:
  assumes "stub_has_error n = (err \<noteq> None)"
    "\<And>t r. stack_only 76 s t \<Longrightarrow> int_no r = word_of_nat n \<Longrightarrow>
      \<exists>u. f (kernel_view False) r t = Some u \<and> esp u = esp t \<and> ram u = ram t \<and> P t u"
  shows "\<exists>t u. stack_only 76 s t \<and> P t u \<and> isr_stub clob ret f n (accept v err (c, s)) =
    Some (c\<lparr>eflags := flags_word c s\<rparr>,
      u\<lparr>esp := esp s, ebp := ebp s, ebx := ebx s, esi := esi s, edi := edi s, interrupts_on := interrupts_on s\<rparr>)"
proof -
  let ?ws = "[case err of Some e \<Rightarrow> e | None \<Rightarrow> 0, word_of_nat n]" and ?c = "fst (accept v err (c, s))"
  let ?z = "accepted ?ws c s"
  let ?g = "\<lambda>u. (?c\<lparr>seg_fs := seg_fs ?c, eip := eip c, seg_cs := ucast (ucast (seg_cs c) :: u32),
    eflags := flags_word c s\<rparr>, u\<lparr>esp := esp ?z + 20, ebp := ebp ?z, ebx := ebx ?z, esi := esi ?z,
    edi := edi ?z, interrupts_on := bit (flags_word c s) 9\<rparr>)"
  have e: "esp ?z = esp s - 20" using accepted_stack(2) [of ?ws c s] by simp
  have "\<exists>t u. stack_only (68 + 4 * length ?ws) s t \<and> P t u \<and> isr_common clob ret f (?c, ?z) = Some (?g u)"
    by (rule stub_returns [where f = "f (kernel_view False)" and rest = "[]"], rule isr_common_returns, assumption+, rule refl) (use assms in auto)
  moreover have "(case err of Some e \<Rightarrow> [e] | None \<Rightarrow> []) @ (if stub_has_error n then [] else [0]) @ [word_of_nat n] = ?ws"
    using assms(1) by (cases err) simp_all
  ultimately show ?thesis unfolding isr_stub_accepts accept_registers by (simp only:) (simp add: e)
qed

lemma unexpected_error_code:
  assumes "\<not> stub_has_error n"
    "\<And>t r. stack_only 80 s t \<Longrightarrow> int_no r = word_of_nat n \<Longrightarrow>
      \<exists>u. f (kernel_view False) r t = Some u \<and> esp u = esp t \<and> ram u = ram t \<and> P t u"
  shows "\<exists>t u. stack_only 80 s t \<and> P t u \<and> isr_stub clob ret f n (accept v (Some e) (c, s)) =
    Some (c\<lparr>eip := e, seg_cs := ucast (eip c), eflags := ucast (seg_cs c)\<rparr>,
      u\<lparr>esp := esp s - 4, ebp := ebp s, ebx := ebx s, esi := esi s, edi := edi s,
        interrupts_on := bit (seg_cs c) 9\<rparr>)"
proof -
  let ?ws = "[e :: u32, 0, word_of_nat n]" and ?c = "fst (accept v (Some e) (c, s))"
  let ?z = "accepted ?ws c s"
  let ?g = "\<lambda>u. (?c\<lparr>seg_fs := seg_fs ?c, eip := e, seg_cs := ucast (eip c), eflags := ucast (seg_cs c)\<rparr>,
    u\<lparr>esp := esp ?z + 20, ebp := ebp ?z, ebx := ebx ?z, esi := esi ?z,
    edi := edi ?z, interrupts_on := bit (ucast (seg_cs c) :: u32) 9\<rparr>)"
  have e: "esp ?z = esp s - 24" using accepted_stack(2) [of ?ws c s] by simp
  have "\<exists>t u. stack_only (68 + 4 * length ?ws) s t \<and> P t u \<and> isr_common clob ret f (?c, ?z) = Some (?g u)"
    by (rule stub_returns [where f = "f (kernel_view False)" and rest = "[flags_word c s]"], rule isr_common_returns, assumption+, rule refl) (use assms in auto)
  then show ?thesis using assms(1) unfolding isr_stub_accepts accept_registers by (simp add: e bit_simps)
qed

text \<open>
  C32. A timer interrupt that only counts: the interrupted program continues where it was, with all its
  registers and flags and every byte it may rely on, except that \<open>%fs\<close> holds what \<open>%es\<close> held.  The
  kernel has counted the tick and acknowledged it.
\<close>

theorem timer_tick_transparent:
  assumes "length (handlers s) = 256" "handlers s ! 32 = Some Timer_handler" "unat (ticks s) < 9999"
  shows "\<exists>m. irq_stub clob ret (c_code (irq_handler (run_handler sret))) 32 (accept 32 None (c, s)) =
      Some (c\<lparr>seg_fs := seg_es c, eflags := flags_word c s\<rparr>,
        s\<lparr>ram := m, ticks := ticks s + 1, ports := ports s @ [(0x20, 0x20)]\<rparr>) \<and>
    (\<forall>a. apart (esp s - 76) 76 a 1 \<longrightarrow> m a = ram s a)"
proof -
  let ?P = "\<lambda>t u. u = t\<lparr>ticks := ticks t + 1, ports := ports t @ [(0x20, 0x20)]\<rparr>"
  have "\<exists>u. irq_handler (run_handler sret) r t = Some u \<and> esp u = esp t \<and> ram u = ram t \<and> ?P t u"
    if "stack_only 76 s t" "int_no r = word_of_nat 32" for t r
  proof -
    have "unat (ticks t) + 1 < 10000" "length (handlers t) = 256" "handlers t ! 32 = Some Timer_handler"
      using that(1) assms by (auto simp: stack_only_def)
    then show ?thesis
      using that(2) tick_counts [of t sret] by (simp add: irq_handler_def Let_def run_handler_def outport_def)
  qed
  from device_interrupt_returns [where v = 32 and c = c and clob = clob and ret = ret and s = s and n = 32
      and f = "c_code (irq_handler (run_handler sret))" and P = ?P, unfolded c_code_kernel, OF this]
  obtain t u where "stack_only 76 s t" "?P t u"
    "irq_stub clob ret (c_code (irq_handler (run_handler sret))) 32 (accept 32 None (c, s)) =
      Some (c\<lparr>seg_fs := seg_es c, eflags := flags_word c s\<rparr>,
        u\<lparr>esp := esp s, ebp := ebp s, ebx := ebx s, esi := esi s, edi := edi s, interrupts_on := interrupts_on s\<rparr>)"
    by auto
  then show ?thesis by (auto simp: stack_only_def)
qed

definition regs_example :: regs where
  "regs_example = \<lparr>eax = 1, ecx = 2, edx = 3, seg_cs = 8, seg_ds = 0x10, seg_es = 0x10, seg_fs = 0x18,
     seg_gs = 0x10, eflags = 0x202, eip = 0xC0100500\<rparr>"

theorem timer_tick_transparent_witness:
  "\<exists>c' s'. irq_stub (\<lambda>_. regs_example) 0xC0106000 (c_code (irq_handler (run_handler 0))) 32
      (accept 32 None (regs_example, timer_init (sched_state.extend sched_example \<lparr>ticks = 41\<rparr>))) = Some (c', s') \<and>
    eip c' = 0xC0100500 \<and> seg_fs c' = 0x10 \<and> ticks s' = 42 \<and> esp s' = 0x9000"
proof -
  let ?s = "timer_init (sched_state.extend sched_example \<lparr>ticks = 41\<rparr>)"
  have "length (handlers ?s) = 256" "handlers ?s ! 32 = Some Timer_handler" "ticks ?s = 41" "esp ?s = 0x9000"
    by (simp_all add: timer_init_def Let_def outport_def add_int_handler_def sched_example_def
      sched_state.defs pmm_state.defs boot_example_defs)
  then show ?thesis
    using timer_tick_transparent [where s = ?s and clob = "\<lambda>_. regs_example" and ret = "0xC0106000" and sret = 0 and c = regs_example]
    by (auto simp: regs_example_def)
qed

lemma err_code_returned:
  "\<exists>t u. A t \<and> B t u \<and> r = Some (c\<lparr>eip := e, seg_cs := ucast (eip c), eflags := x\<rparr>,
      u\<lparr>esp := p, ebp := q, ebx := i, esi := j, edi := k, interrupts_on := l\<rparr>) \<Longrightarrow>
    \<exists>c' s'. r = Some (c', s') \<and> eip c' = e \<and> seg_cs c' = ucast (eip c) \<and> esp s' = p"
  by force

text \<open>
  C33. An exception without handler, whose error code the stub expects or not as the processor pushes one
  or not, prints its message; the interrupted program continues with all its registers.  If the
  processor pushes an error code that the stub does not expect, \<open>iret\<close> takes it for the return address.
\<close>

theorem exception_transparent:
  assumes "handlers s = replicate 256 None" "itoa_buf_ok (itoa_buf s)" "n < 32"
  shows "(stub_has_error n = (err \<noteq> None) \<longrightarrow>
      (\<exists>m s'. isr_stub clob ret (c_code (isr_handler run)) n (accept n err (c, s)) = Some (c\<lparr>eflags := flags_word c s\<rparr>, s') \<and>
        console_only (s\<lparr>ram := m\<rparr>) s' \<and> (\<forall>a. apart (esp s - 76) 76 a 1 \<longrightarrow> m a = ram s a))) \<and>
    (\<not> stub_has_error n \<longrightarrow>
      (\<exists>c' s'. isr_stub clob ret (c_code (isr_handler run)) n (accept n (Some e) (c, s)) = Some (c', s') \<and>
        eip c' = e \<and> seg_cs c' = ucast (eip c) \<and> esp s' = esp s - 4))"
proof (intro conjI impI)
  have n: "unat (word_of_nat n :: u32) = n" using assms(3) by (simp add: unat_of_nat)
  have run: "\<exists>u. isr_handler run r t = Some u \<and> esp u = esp t \<and> ram u = ram t \<and> console_only t u"
    if "stack_only d s t" "int_no r = word_of_nat n" for d t r
  proof -
    let ?args = "[KInt (int_no r), KInt (int_no r), KStr (trap_messages ! n)]"
    have t: "handlers t = replicate 256 None" "itoa_buf_ok (itoa_buf t)"
      using that(1) assms by (auto simp: stack_only_def)
    obtain u where u: "kprintf (str ''recieved trap %x (%d) -> %s \<newline>'') ?args t = Some u"
      using kprintf_matches [of "str ''recieved trap %x (%d) -> %s \<newline>''" ?args t] t(2) by auto
    then have "isr_handler run r t = Some u"
      using t(1) assms(3) that(2) n by (simp add: isr_handler_def Let_def trap_messages_length)
    moreover have "console_only t u" by (rule kprintf_console [OF u])
    ultimately show ?thesis by (auto simp: console_only_def)
  qed
  {
  assume err: "stub_has_error n = (err \<noteq> None)"
  show "\<exists>m s'. isr_stub clob ret (c_code (isr_handler run)) n (accept n err (c, s)) = Some (c\<lparr>eflags := flags_word c s\<rparr>, s') \<and>
      console_only (s\<lparr>ram := m\<rparr>) s' \<and> (\<forall>a. apart (esp s - 76) 76 a 1 \<longrightarrow> m a = ram s a)"
  proof -
    have "\<exists>t u. stack_only 76 s t \<and> console_only t u \<and>
      isr_stub clob ret (c_code (isr_handler run)) n (accept n err (c, s)) = Some (c\<lparr>eflags := flags_word c s\<rparr>,
        u\<lparr>esp := esp s, ebp := ebp s, ebx := ebx s, esi := esi s, edi := edi s, interrupts_on := interrupts_on s\<rparr>)"
      by (rule exception_returns [where f = "c_code (isr_handler run)", unfolded c_code_kernel, OF err run])
    then obtain t u where tu: "stack_only 76 s t" "console_only t u"
      "isr_stub clob ret (c_code (isr_handler run)) n (accept n err (c, s)) = Some (c\<lparr>eflags := flags_word c s\<rparr>,
        u\<lparr>esp := esp s, ebp := ebp s, ebx := ebx s, esi := esi s, edi := edi s, interrupts_on := interrupts_on s\<rparr>)"
      by (elim exE conjE)
    from tu(2) obtain p q v b where u: "u = t\<lparr>ports := p, cursor := q, vga_mem := v, itoa_buf := b\<rparr>"
      by (rule console_onlyE)
    obtain m where m: "t = s\<lparr>esp := esp s - word_of_nat 76, ram := m, interrupts_on := False\<rparr>"
      "\<forall>a. apart (esp s - word_of_nat 76) 76 a 1 \<longrightarrow> m a = ram s a"
      using tu(1) unfolding stack_only_def by blast
    have "u\<lparr>esp := esp s, ebp := ebp s, ebx := ebx s, esi := esi s, edi := edi s, interrupts_on := interrupts_on s\<rparr>
      = s\<lparr>ram := m, ports := p, cursor := q, vga_mem := v, itoa_buf := b\<rparr>"
      unfolding u m(1) by simp
    moreover have "console_only (s\<lparr>ram := m\<rparr>) (s\<lparr>ram := m, ports := p, cursor := q, vga_mem := v, itoa_buf := b\<rparr>)"
      by (simp add: console_only_def)
    ultimately show ?thesis using tu(3) m(2) by (intro exI [of _ m]) simp
  qed
  }
  {
    assume "\<not> stub_has_error n"
    then show "\<exists>c' s'. isr_stub clob ret (c_code (isr_handler run)) n (accept n (Some e) (c, s)) = Some (c', s') \<and>
        eip c' = e \<and> seg_cs c' = ucast (eip c) \<and> esp s' = esp s - 4"
      by (intro err_code_returned [OF unexpected_error_code [where f = "c_code (isr_handler run)", unfolded c_code_kernel, OF _ run]])
  }
qed

theorem exception_transparent_witness:
  "\<exists>c' s'. isr_stub (\<lambda>_. regs_example) 0xC0106000 (c_code (isr_handler (\<lambda>_ _. Some))) 17
      (accept 17 (Some 0) (regs_example, int0)) = Some (c', s') \<and> eip c' = 0"
proof -
  have "handlers int0 = replicate 256 None" "itoa_buf_ok (itoa_buf int0)" "\<not> stub_has_error 17"
    by (simp_all add: stub_has_error_def int0_def idt_state.defs idt0_def gdt_state.defs gdt0_def klib.defs
      klib0_def console.defs itoa_buf_ok_def)
  then show ?thesis
    using exception_transparent [where s = int0 and n = 17 and clob = "\<lambda>_. regs_example" and ret = "0xC0106000"
        and run = "\<lambda>_ _. Some" and c = regs_example and e = 0]
    by force
qed

end
