(* ===== verification/Boot.thy ===== *)
theory Boot
  imports Kmain Stubs
begin

text \<open>
  kern/asm/boot.S: the multiboot header, the page directory the kernel starts with and the code from
  the entry point to the call of \<open>kmain\<close>.  The addresses of \<open>boot_pd\<close>, \<open>higher_half\<close>, \<open>stack_top\<close> and
  \<open>kmain\<close> are arguments; \<open>translate\<close> is the page walk of the processor (theory Paging).
  Proved: which addresses are mapped before and after the identity mapping is dropped, and with
  what arguments and stack \<open>kmain\<close> starts.
\<close>

section \<open>Data\<close>

definition MB_MAGIC :: u32 where "MB_MAGIC = 0x1BADB002"
definition MB_FLAGS :: u32 where "MB_FLAGS = push_bit 0 1 OR push_bit 1 1"
definition MB_CHECKSUM :: u32 where "MB_CHECKSUM = - (MB_MAGIC + MB_FLAGS)"

definition multiboot_header :: "u32 list" where
  "multiboot_header = [MB_MAGIC, MB_FLAGS, MB_CHECKSUM, 0, 0, 0, 0, 0, 0, 0, 0, 32]"

definition KERN_PG_NUM :: nat where "KERN_PG_NUM = unat (drop_bit 22 KERN_OFFSET)"

definition boot_pd :: "u32 list" where
  "boot_pd = [0x83] @ replicate (KERN_PG_NUM - 1) 0 @ [0x83] @ replicate (1024 - KERN_PG_NUM - 1) 0"

section \<open>Code\<close>

text \<open>From \<open>_start\<close> to the jump: the state also has \<open>cr4\<close>.\<close>

definition start :: "u32 \<Rightarrow> u32 \<Rightarrow> regs \<times> u32 \<times> 'a machine_scheme \<Rightarrow> regs \<times> u32 \<times> 'a machine_scheme" where
  "start pd target = (\<lambda>(c, cr4, s).
     let c = c\<lparr>ecx := pd - KERN_OFFSET\<rparr>;
         s = s\<lparr>cr3 := ecx c\<rparr>;
         c = c\<lparr>ecx := cr4\<rparr>;
         c = c\<lparr>ecx := ecx c OR 0x10\<rparr>;
         cr4 = ecx c;
         c = c\<lparr>ecx := cr0 s\<rparr>;
         c = c\<lparr>ecx := ecx c OR 0x80000000\<rparr>;
         s = s\<lparr>cr0 := ecx c\<rparr>;
         c = c\<lparr>edx := target\<rparr>
     in (c\<lparr>eip := edx c\<rparr>, cr4, s))"

text \<open>From \<open>higher_half\<close> to the first instruction of \<open>kmain\<close>; \<open>ret\<close> is the return address.\<close>

definition higher_half ::
    "u32 \<Rightarrow> u32 \<Rightarrow> u32 \<Rightarrow> u32 \<Rightarrow> regs \<times> 'a idt_state_scheme \<Rightarrow> regs \<times> 'a idt_state_scheme" where
  "higher_half pd stack_top entry ret = (\<lambda>(c, s).
     let s = s\<lparr>ram := store32 (ram s) pd 0\<rparr>;
         s = s\<lparr>esp := stack_top\<rparr>;
         s = s\<lparr>esp := esp s AND - 16\<rparr>;
         s = push (esp s) s;
         s = push (eax c) s;
         s = s\<lparr>ebx := ebx s + KERN_OFFSET\<rparr>;
         s = push (ebx s) s;
         s = s\<lparr>interrupts_on := False\<rparr>;
         s = push ret s
     in (c\<lparr>eip := entry\<rparr>, s))"

section \<open>The page walk\<close>

definition boot_directory :: "u32 \<Rightarrow> mem \<Rightarrow> bool" where
  "boot_directory pd m \<longleftrightarrow> (\<forall>i<1024. load32 m (pd + 4 * word_of_nat i) = boot_pd ! i)"

lemma boot_pd_nth: "i < 1024 \<Longrightarrow> boot_pd ! i = (if i = 0 \<or> i = 768 then 0x83 else 0)"
  by (auto simp: boot_pd_def KERN_PG_NUM_def KERN_OFFSET_def nth_append nth_Cons split: nat.splits)

lemma large_page:
  fixes va :: u32
  shows "va AND 0x3fffff = va - push_bit 22 (drop_bit 22 va)"
proof -
  have "va AND 0x3fffff = va AND mask 22" by (simp add: mask_numeral)
  also have "\<dots> = take_bit 22 va" by (simp add: take_bit_eq_mask)
  finally show ?thesis using bits_ident [of 22 va] by (simp add: algebra_simps)
qed

lemma directory_index:
  fixes va :: u32
  shows "PD_IDX va = 0 \<longleftrightarrow> va < 0x400000" "PD_IDX va = 768 \<longleftrightarrow> 0xC0000000 \<le> va \<and> va < 0xC0400000"
  using unat_PD_IDX [of va] unat_bound32 [of va]
  by (simp_all add: word_unat_eq_iff word_less_nat_alt word_le_nat_alt) arith+

text \<open>The walk through a directory with entries for pages of 4 MB only.\<close>

lemma translate_directory:
  assumes "bit (cr0 s) 31" "bit cr4 4" "cr3 s = pd - KERN_OFFSET" "pd mod PG_SZ = 0"
    "load32 (ram s) (pd + 4 * PD_IDX va) = (if PD_IDX va \<in> L then 0x83 else 0)"
  shows "translate cr4 s va = (if PD_IDX va \<in> L then Some (va - push_bit 22 (PD_IDX va)) else None)"
proof -
  have "take_bit 10 (drop_bit 22 va) = drop_bit 22 va"
    by (rule bit_word_eqI) (auto simp: bit_simps dest: bit_imp_le_length)
  then have "va AND 0x3fffff = va - push_bit 22 (PD_IDX va)"
    by (simp add: large_page PD_IDX_def and_masks)
  then show ?thesis
    using assms by (simp add: translate_def directory_base Let_def)
qed

section \<open>Properties\<close>

lemma PD_IDX_entry:
  assumes "boot_directory pd m"
  shows "load32 m (pd + 4 * PD_IDX va) = (if PD_IDX va \<in> {0, 768} then 0x83 else 0)"
proof -
  have i: "unat (PD_IDX va) < 1024"
    using unat_PD_IDX [of va] unat_bound32 [of va] by (simp add: less_mult_imp_div_less)
  then have "load32 m (pd + 4 * word_of_nat (unat (PD_IDX va))) = boot_pd ! unat (PD_IDX va)"
    using assms by (simp only: boot_directory_def)
  then show ?thesis using i by (simp add: boot_pd_nth word_unat_eq_iff)
qed

lemma aligned_16:
  fixes x :: u32
  assumes "x mod 16 = 0"
  shows "x AND - 16 = x"
proof -
  have "take_bit 4 x = 0" using assms by (simp add: take_bit_eq_mod)
  then have "x = push_bit 4 (drop_bit 4 x)" using bits_ident [of 4 x] by simp
  moreover have "- 16 = (NOT (mask 4) :: u32)" by (simp add: mask_numeral)
  moreover have "push_bit 4 (drop_bit 4 x) AND NOT (mask 4) = push_bit 4 (drop_bit 4 x)"
    by (rule bit_word_eqI) (auto simp: bit_simps)
  ultimately show ?thesis by metis
qed

text \<open>Four words pushed onto a stack that is apart from the directory leave its other entries alone.\<close>

lemma boot_directory_entry:
  assumes "boot_directory pd (ram s)" "ram t = store32 (ram s) pd 0" "esp t = sp" "length vs = 4"
    "apart (sp - 16) 16 pd 4096"
  shows "load32 (ram (fold push vs t)) (pd + 4 * PD_IDX va) = (if PD_IDX va \<in> {768} then 0x83 else 0)"
proof -
  have i: "unat (PD_IDX va) < 1024"
    using unat_PD_IDX [of va] unat_bound32 [of va] by (simp add: less_mult_imp_div_less)
  have u: "unat (4 * PD_IDX va) = 4 * unat (PD_IDX va)"
    using i by (simp add: unat_word_ariths)
  have "load32 (ram (fold push vs t)) (pd + 4 * PD_IDX va) = load32 (ram t) (pd + 4 * PD_IDX va)"
  proof (rule load32_cong)
    fix c :: u32 assume c: "unat c < 4"
    have "unat (4 * PD_IDX va + c) = unat (4 * PD_IDX va) + unat c"
      using u i c by (subst unat_add_lem [THEN iffD1]) simp_all
    then have "apart (sp - 16) 16 (pd + (4 * PD_IDX va + c)) 1"
      using u i c by (intro apart_shift_right [OF assms(5)]) simp_all
    then show "ram (fold push vs t) (pd + 4 * PD_IDX va + c) = ram t (pd + 4 * PD_IDX va + c)"
      using fold_push_ram_other [of vs t "pd + 4 * PD_IDX va + c"] assms(3,4) by (simp add: add.assoc)
  qed
  also have "\<dots> = (if PD_IDX va \<in> {768} then 0x83 else 0)"
  proof (cases "PD_IDX va = 0")
    case True
    then show ?thesis using assms(2) by simp
  next
    case False
    have "apart 0 4 (4 * PD_IDX va) 4"
      using False u i by (intro apart_bounds) (simp_all add: word_unat_eq_iff)
    then show ?thesis
      using PD_IDX_entry [OF assms(1), of va] False assms(2) by (simp add: load32_store32_apart)
  qed
  finally show ?thesis .
qed

lemma translated:
  fixes va :: u32
  shows "(if PD_IDX va \<in> {0, 768} then Some (va - push_bit 22 (PD_IDX va)) else None) =
      (if va < 0x400000 then Some va else if 0xC0000000 \<le> va \<and> va < 0xC0400000 then Some (V2P va) else None)"
    "(if PD_IDX va \<in> {768} then Some (va - push_bit 22 (PD_IDX va)) else None) =
      (if 0xC0000000 \<le> va \<and> va < 0xC0400000 then Some (V2P va) else None)"
  using directory_index [of va] by (auto simp: V2P_def KERN_OFFSET_def)

text \<open>
  C31. The code between the boot loader and \<open>kmain\<close>.  When paging is switched on, the first 4 MB of memory
  are mapped to themselves, so that the code goes on, and from \<open>0xC0000000\<close> on, where it jumps to;
  nothing else is mapped.  When \<open>kmain\<close> starts only the second mapping is left; the stack holds the
  kernel's pointer to the multiboot structure, the magic number and the stack pointer, which is a
  multiple of 16; interrupts are off, and no other memory has changed.  The header adds up to zero.
\<close>

theorem boot_enters_kmain:
  assumes "boot_directory pd (ram s)" "pd mod PG_SZ = 0" "stack_top mod 16 = 0" "apart (stack_top - 16) 16 pd 4096"
    and "start pd hh (c, cr4, s) = (c1, cr4', s1)" "higher_half pd stack_top entry ret (c1, s1) = (c2, s2)"
  shows "(\<forall>va. translate cr4' s1 va = (if va < 0x400000 then Some va
        else if 0xC0000000 \<le> va \<and> va < 0xC0400000 then Some (V2P va) else None)) \<and>
    (\<forall>va. translate cr4' s2 va = (if 0xC0000000 \<le> va \<and> va < 0xC0400000 then Some (V2P va) else None)) \<and>
    stacked (ram s2) (esp s2) [ret, P2V (ebx s), eax c, stack_top] \<and> esp s2 = stack_top - 16 \<and>
    eip c1 = hh \<and> eip c2 = entry \<and> \<not> interrupts_on s2 \<and>
    (\<forall>a. apart (stack_top - 16) 16 a 1 \<and> apart pd 4 a 1 \<longrightarrow> ram s2 a = ram s a) \<and>
    MB_MAGIC + MB_FLAGS + MB_CHECKSUM = 0"
proof -
  let ?m = "store32 (ram s) pd 0"
  have c1: "cr4' = cr4 OR 0x10" "cr3 s1 = pd - KERN_OFFSET" "cr0 s1 = cr0 s OR 0x80000000" "ram s1 = ram s"
    "ebx s1 = ebx s" "eax c1 = eax c" "eip c1 = hh"
    using assms(5) by (auto simp: start_def Let_def)
  have b: "bit cr4' 4" "bit (cr0 s1) 31" by (simp_all add: c1 bit_simps)
  have t1: "translate cr4' s1 va = (if PD_IDX va \<in> {0, 768} then Some (va - push_bit 22 (PD_IDX va)) else None)" for va
    by (rule translate_directory [OF b(2,1) c1(2) assms(2)]) (use PD_IDX_entry [OF assms(1)] c1(4) in simp)
  let ?s = "s1\<lparr>ram := ?m, esp := stack_top\<rparr>" and ?vs = "[stack_top, eax c, P2V (ebx s), ret]"
  have s2: "s2 = (fold push ?vs ?s)\<lparr>ebx := ebx s + KERN_OFFSET, interrupts_on := False\<rparr>" "eip c2 = entry"
    using assms(6) by (auto simp: higher_half_def Let_def aligned_16 [OF assms(3)] c1 P2V_def push_def)
  obtain e m where p: "fold push ?vs ?s = ?s\<lparr>esp := e, ram := m\<rparr>" using fold_push_only by blast
  have r: "ram s2 = ram (fold push ?vs ?s)" "esp s2 = esp (fold push ?vs ?s)" "cr3 s2 = cr3 s1" "cr0 s2 = cr0 s1"
    unfolding s2(1) p by simp_all
  have e: "esp (fold push ?vs ?s) = stack_top - 16" using fold_push_esp [of ?vs ?s] by simp
  have t2: "translate cr4' s2 va = (if PD_IDX va \<in> {768} then Some (va - push_bit 22 (PD_IDX va)) else None)" for va
  proof (rule translate_directory [OF _ b(1) _ assms(2)])
    show "bit (cr0 s2) 31" "cr3 s2 = pd - KERN_OFFSET" using b(2) c1(2) r by simp_all
    show "load32 (ram s2) (pd + 4 * PD_IDX va) = (if PD_IDX va \<in> {768} then 0x83 else 0)"
      unfolding r(1) by (rule boot_directory_entry [OF assms(1) _ _ _ assms(4)]) simp_all
  qed
  have "stacked (ram s2) (esp s2) [ret, P2V (ebx s), eax c, stack_top]"
    using fold_push_stacked [of ?vs "[]" ?s] r by simp
  moreover have "ram s2 a = ram s a" if "apart (stack_top - 16) 16 a 1" "apart pd 4 a 1" for a
    using fold_push_ram_other [of ?vs ?s a] that r(1) by (simp add: store32_other)
  moreover have "MB_MAGIC + MB_FLAGS + MB_CHECKSUM = 0" by (simp add: MB_CHECKSUM_def)
  moreover have "\<not> interrupts_on s2" unfolding s2(1) by simp
  ultimately show ?thesis using t1 t2 e r(2) s2(2) c1(7) translated by auto
qed

definition boot_memory :: "u32 \<Rightarrow> mem" where
  "boot_memory pd = store32 (store32 (\<lambda>_. 0) pd 0x83) (pd + 0xC00) 0x83"

lemma boot_memory_directory: "boot_directory pd (boot_memory pd)"
  unfolding boot_directory_def
proof (intro allI impI)
  fix i :: nat assume i: "i < 1024"
  let ?d = "4 * word_of_nat i :: u32"
  have u: "unat ?d = 4 * i" using i by (simp add: unat_word_ariths unat_of_nat)
  have z: "load32 (\<lambda>_. 0) a = 0" for a by (simp add: load32_def)
  have 1: "apart 0 4 ?d 4" if "i \<noteq> 0" using that i u by (intro apart_bounds) simp_all
  have 2: "apart 0xC00 4 ?d 4" if "i \<noteq> 768"
  proof (cases "i < 768")
    case True
    have "apart ?d 4 0xC00 4" using True u by (intro apart_bounds) simp_all
    then show ?thesis using apart_sym by blast
  qed (use that i u in \<open>intro apart_bounds, simp_all\<close>)
  consider "i = 0" | "i = 768" | "i \<noteq> 0" "i \<noteq> 768" by blast
  then show "load32 (boot_memory pd) (pd + ?d) = boot_pd ! i"
    by cases (use i 1 2 in \<open>simp_all add: boot_memory_def boot_pd_nth load32_store32_apart z\<close>)
qed

theorem boot_enters_kmain_witness:
  "\<exists>c2 s2. higher_half 0xC0107000 0xC0106000 0xC0101000 0xC0100080
      (let (c, _, s) = start 0xC0107000 0xC0100040 (regs_example, 0, int0\<lparr>ram := boot_memory 0xC0107000, ebx := 0x9000\<rparr>) in (c, s)) = (c2, s2) \<and>
    translate 0x10 s2 0xC0100000 = Some 0x100000 \<and> translate 0x10 s2 0x100000 = None \<and>
    stacked (ram s2) (esp s2) [0xC0100080, 0xC0009000, 1, 0xC0106000]"
proof -
  let ?s = "int0\<lparr>ram := boot_memory 0xC0107000, ebx := 0x9000\<rparr>"
  obtain c1 cr4' s1 where 1: "start 0xC0107000 0xC0100040 (regs_example, 0, ?s) = (c1, cr4', s1)" by (metis prod_cases3)
  obtain c2 s2 where 2: "higher_half 0xC0107000 0xC0106000 0xC0101000 0xC0100080 (c1, s1) = (c2, s2)" by fastforce
  have "cr4' = 0x10" "eax regs_example = 1" using 1 by (simp_all add: start_def Let_def regs_example_def)
  then have "(\<forall>va. translate 0x10 s2 va = (if 0xC0000000 \<le> va \<and> va < 0xC0400000 then Some (V2P va) else None)) \<and>
    stacked (ram s2) (esp s2) [0xC0100080, P2V 0x9000, 1, 0xC0106000]"
    using boot_enters_kmain [OF _ _ _ _ 1 2] boot_memory_directory by (auto simp: PG_SZ_def simp del: stacked.simps)
  then show ?thesis
    using 1 2 by (intro exI [of _ c2] exI [of _ s2]) (simp add: V2P_def P2V_def KERN_OFFSET_def del: stacked.simps)
qed

end
