(* ===== verification/Vmm_Loops.thy ===== *)
theory Vmm_Loops
  imports Vmm
begin

text \<open>
  The two loops of \<open>vmm_init\<close> (kern/mm/vmm.c), \<open>map_kernel\<close> and \<open>map_heap\<close>: each creates one page table
  behind everything allocated so far (\<open>first_page\<close>) and fills its entries one after the other
  (\<open>filled\<close>), the first loop with the frames the pages stand for, the second with the first free
  ones.  \<open>tabled\<close> says what a whole loop does (\<open>map_kernel_all\<close>, \<open>map_heap_all\<close>).
\<close>

section \<open>One page of a table that exists\<close>

text \<open>The table at \<open>T\<close> for index \<open>d\<close> of the directory \<open>D\<close>, apart from the directory and the bit set.\<close>

definition table_ready :: "u32 \<Rightarrow> u32 \<Rightarrow> u32 \<Rightarrow> 'a pmm_state_scheme \<Rightarrow> bool" where
  "table_ready D T d s \<longleftrightarrow> pmm_ok s \<and> kern_dir s = D \<and> dir_table (ram s) D d = T \<and> T \<noteq> 0 \<and> unat d < 1024 \<and>
     apart D 8196 T 4096 \<and> apart (frames s) 8 T 4096 \<and> outside_bits (ram s) (frames s) T 4096 \<and>
     outside_bits (ram s) (frames s) D 8196"

text \<open>Every word outside the table and the bit set.\<close>

definition kept :: "u32 \<Rightarrow> 'a pmm_state_scheme \<Rightarrow> mem \<Rightarrow> bool" where
  "kept T s m' \<longleftrightarrow> (\<forall>a. apart T 4096 a 4 \<longrightarrow> outside_bits (ram s) (frames s) a 4 \<longrightarrow>
     load32 m' a = load32 (ram s) a)"

lemma entry_only_bits:
  assumes "pmm_ok s" "entry_free pg s" "entry_only pg s m" "bs_sz (ram s) (frames s) \<noteq> 0"
  shows "bs_sz m (frames s) = bs_sz (ram s) (frames s)" "bs_bits m (frames s) = bs_bits (ram s) (frames s)"
proof -
  let ?F = "frames s"
  have ok: "apart ?F 8 (bs_bits (ram s) ?F) (4 * unat (bs_sz (ram s) ?F))" and e: "apart ?F 8 pg 4"
    using assms(1,2) by (simp_all add: pmm_ok_def bs_ok_def entry_free_def)
  have p: "apart pg 4 ?F 4" "apart pg 4 (?F + 4) 4"
    using apart_mono [OF e, of 4 4] apart_shift_left [OF e, of 4 4] by (simp_all add: apart_sym)
  have o: "outside_bits (ram s) ?F ?F 4" "outside_bits (ram s) ?F (?F + 4) 4"
    unfolding outside_bits_def
    using apart_mono [OF ok, of 4] apart_shift_left [OF ok, of 4 4] assms(4)
    by (auto simp: apart_sym unat_gt_0)
  show "bs_sz m ?F = bs_sz (ram s) ?F" "bs_bits m ?F = bs_bits (ram s) ?F"
    using assms(3) p o by (simp_all add: entry_only_def bs_sz_def bs_bits_def)
qed

lemma page_ref_in:
  assumes "unat k < 1024"
  shows "apart T 4096 a n \<Longrightarrow> 0 < n \<Longrightarrow> apart (page_ref T k) 4 a n"
    "apart a n T 4096 \<Longrightarrow> 0 < n \<Longrightarrow> apart a n (page_ref T k) 4"
    "unat j < 1024 \<Longrightarrow> j \<noteq> k \<Longrightarrow> apart (page_ref T k) 4 (page_ref T j) 4"
proof -
  note t = times_4 [OF assms]
  show "apart T 4096 a n \<Longrightarrow> 0 < n \<Longrightarrow> apart (page_ref T k) 4 a n"
    unfolding page_ref_def by (rule apart_shift_left) (use t assms in auto)
  show "apart a n T 4096 \<Longrightarrow> 0 < n \<Longrightarrow> apart a n (page_ref T k) 4"
    unfolding page_ref_def by (rule apart_shift_right) (use t assms in auto)
  show "apart (page_ref T k) 4 (page_ref T j) 4" if j: "unat j < 1024" "j \<noteq> k"
  proof -
    have "unat j < unat k \<or> unat k < unat j" using j(2) by (metis nat_neq_iff word_unat_eq_iff)
    then have "apart (4 * k) 4 (4 * j) 4"
      using apart_bounds [of "4 * k" 4 "4 * j" 4] apart_bounds [of "4 * j" 4 "4 * k" 4] t times_4 [OF j(1)] assms j(1)
      by (auto simp: apart_sym)
    then show ?thesis by (simp add: page_ref_def)
  qed
qed

text \<open>The frame a page gets: the one asked for, or the first free one.\<close>

definition frame_for :: "u32 \<Rightarrow> 'a pmm_state_scheme \<Rightarrow> u32 \<Rightarrow> bool" where
  "frame_for addr s f \<longleftrightarrow>
     (if addr \<noteq> 0 then addr div PG_SZ < bs_get_size (ram s) (frames s) \<and> f = addr div PG_SZ
      else free_frames s \<noteq> {} \<and> f = Min (free_frames s))"

lemma map_next:
  assumes r: "table_ready D T d s" and va: "PD_IDX va = d" and pg: "pg = page_ref T (PT_IDX va)"
    and z: "pg_addr (ram s) pg = 0" and f: "frame_for addr s f"
  shows "\<exists>s'. get_page va 1 (kern_dir s) s = Some (pg, s) \<and> map_page pg 1 1 addr s = Some s' \<and>
    s' = s\<lparr>ram := ram s'\<rparr> \<and> table_ready D T d s' \<and> bs_get_size (ram s') (frames s) = bs_get_size (ram s) (frames s) \<and>
    page_fields (ram s') pg = (1, 1, 0, f) \<and> free_frames s' = free_frames s - {f} \<and>
    (\<forall>j. unat j < 1024 \<longrightarrow> j \<noteq> PT_IDX va \<longrightarrow> load32 (ram s') (page_ref T j) = load32 (ram s) (page_ref T j)) \<and>
    kept T s (ram s') \<and> bs_sz (ram s') (frames s) = bs_sz (ram s) (frames s) \<and>
    bs_bits (ram s') (frames s) = bs_bits (ram s) (frames s)"
proof -
  note k = table_index_bound(2) [of va]
  note R = r [unfolded table_ready_def]
  have ok: "pmm_ok s" using R by simp
  have sz: "bs_sz (ram s) (frames s) \<noteq> 0"
    using f by (auto simp: frame_for_def bs_get_size_def free_frames_iff split: if_splits)
  then have pos: "0 < 4 * unat (bs_sz (ram s) (frames s))" by (simp add: unat_gt_0)
  have ef: "entry_free pg s"
    using page_ref_in(2) [OF k] R pos unfolding pg entry_free_def outside_bits_def by simp
  have g: "get_page va 1 (kern_dir s) s = Some (pg, s)"
    using get_page_present [of s "kern_dir s" va 1] R by (simp add: va pg)
  obtain s' where s': "map_page pg 1 1 addr s = Some s'" "s' = s\<lparr>ram := ram s'\<rparr>" "pmm_ok s'"
    "page_fields (ram s') pg = (1, 1, 0, f)" "free_frames s' = free_frames s - {f}" "entry_only pg s (ram s')"
    "entry_free pg s'" "bs_get_size (ram s') (frames s) = bs_get_size (ram s) (frames s)"
    using map_page_fixed_frame [OF ok ef z, of addr 1 1] map_page_first_frame [OF ok ef z, of 1 1] f
    by (auto simp: frame_for_def split: if_splits)
  note bits = entry_only_bits [OF ok ef s'(6) sz]
  have kp: "kept T s (ram s')"
    using s'(6) page_ref_in(1) [OF k] unfolding kept_def entry_only_def pg by simp
  have others: "load32 (ram s') (page_ref T j) = load32 (ram s) (page_ref T j)" if "unat j < 1024" "j \<noteq> PT_IDX va" for j
  proof -
    have "outside_bits (ram s) (frames s) (page_ref T j) 4"
      using page_ref_in(2) [OF that(1)] R pos unfolding outside_bits_def by simp
    then show ?thesis using s'(6) page_ref_in(3) [OF k that] unfolding entry_only_def pg by simp
  qed
  have d: "unat d < 1024" "apart D 8196 T 4096" "outside_bits (ram s) (frames s) D 8196" using R by simp_all
  have "outside_bits (ram s) (frames s) (table_ref D d) 4"
    using dir_fields_apart(2) [OF d(1) _ pos] d(3) unfolding outside_bits_def by (metis apart_sym)
  moreover have "apart T 4096 (table_ref D d) 4"
    using dir_fields_apart(2) [OF d(1,2)] by (simp add: apart_sym)
  ultimately have dt: "dir_table (ram s') D d = T" using kp R by (simp add: kept_def dir_table_def)
  have "kern_dir s' = kern_dir s" "frames s' = frames s" by (subst s'(2), simp)+
  then have "table_ready D T d s'"
    using R bits s'(3) dt by (simp add: table_ready_def outside_bits_def)
  then show ?thesis using g s' kp others bits by (intro exI [of _ s']) simp
qed

section \<open>Many pages of one table\<close>

text \<open>From \<open>s\<close> to \<open>s'\<close> the entries from \<open>i\<close> on have been filled with the frames \<open>fs\<close>, and nothing else has changed.\<close>

definition filled :: "u32 \<Rightarrow> u32 \<Rightarrow> u32 \<Rightarrow> nat \<Rightarrow> u32 list \<Rightarrow> 'a pmm_state_scheme \<Rightarrow> 'a pmm_state_scheme \<Rightarrow> bool" where
  "filled D T d i fs s s' \<longleftrightarrow> s' = s\<lparr>ram := ram s'\<rparr> \<and> table_ready D T d s' \<and>
     (\<forall>j<length fs. page_fields (ram s') (page_ref T (word_of_nat (i + j))) = (1, 1, 0, fs ! j)) \<and>
     (\<forall>j<1024. j < i \<or> i + length fs \<le> j \<longrightarrow>
        load32 (ram s') (page_ref T (word_of_nat j)) = load32 (ram s) (page_ref T (word_of_nat j))) \<and>
     kept T s (ram s') \<and> free_frames s' = free_frames s - set fs \<and>
     bs_sz (ram s') (frames s) = bs_sz (ram s) (frames s) \<and> bs_bits (ram s') (frames s) = bs_bits (ram s) (frames s)"

lemma filled_refl: "table_ready D T d s \<Longrightarrow> filled D T d i [] s s"
  by (simp add: filled_def kept_def)

lemma small_words: "i < 1024 \<Longrightarrow> unat (word_of_nat i :: u32) = i"
  by (simp add: unat_of_nat)

lemma fill_one:
  assumes r: "table_ready D T d s" and va: "PD_IDX va = d" "PT_IDX va = word_of_nat i" "i < 1024"
    and z: "pg_addr (ram s) (page_ref T (word_of_nat i)) = 0" and f: "frame_for addr s f"
  shows "\<exists>s'. get_page va 1 (kern_dir s) s = Some (page_ref T (word_of_nat i), s) \<and>
    map_page (page_ref T (word_of_nat i)) 1 1 addr s = Some s' \<and> filled D T d i [f] s s'"
proof -
  have pg: "page_ref T (word_of_nat i) = page_ref T (PT_IDX va)" using va(2) by simp
  have ne: "word_of_nat j \<noteq> (word_of_nat i :: u32)" if "j < 1024" "j \<noteq> i" for j
    using that small_words [of j] small_words [OF va(3)] by metis
  obtain s' where s': "get_page va 1 (kern_dir s) s = Some (page_ref T (word_of_nat i), s)"
    "map_page (page_ref T (word_of_nat i)) 1 1 addr s = Some s'" "s' = s\<lparr>ram := ram s'\<rparr>" "table_ready D T d s'"
    "page_fields (ram s') (page_ref T (word_of_nat i)) = (1, 1, 0, f)" "free_frames s' = free_frames s - {f}"
    "\<forall>j. unat j < 1024 \<longrightarrow> j \<noteq> word_of_nat i \<longrightarrow> load32 (ram s') (page_ref T j) = load32 (ram s) (page_ref T j)"
    "kept T s (ram s')" "bs_sz (ram s') (frames s) = bs_sz (ram s) (frames s)"
    "bs_bits (ram s') (frames s) = bs_bits (ram s) (frames s)"
    using map_next [OF r va(1) pg z f] unfolding va(2) by (elim exE conjE)
  have "filled D T d i [f] s s'"
    unfolding filled_def using s'(3-6,8-10) s'(7) ne small_words by (simp add: le_Suc_eq)
  then show ?thesis using s'(1,2) by blast
qed

lemma filled_Cons:
  assumes "filled D T d i [f] s t" "filled D T d (Suc i) fs t s'" "i < 1024"
  shows "filled D T d i (f # fs) s s'"
proof -
  note a = assms(1) [unfolded filled_def] and b = assms(2) [unfolded filled_def]
  have "s' = (s\<lparr>ram := ram t\<rparr>)\<lparr>ram := ram s'\<rparr>" using a b by metis
  then have st: "s' = s\<lparr>ram := ram s'\<rparr>" by simp
  have "frames t = frames (s\<lparr>ram := ram t\<rparr>)" using a by (intro arg_cong [of _ _ frames]) blast
  then have fr: "frames t = frames s" by simp
  have e: "page_fields (ram s') (page_ref T (word_of_nat (i + j))) = (1, 1, 0, (f # fs) ! j)" if "j < length (f # fs)" for j
  proof (cases j)
    case 0
    have "load32 (ram s') (page_ref T (word_of_nat i)) = load32 (ram t) (page_ref T (word_of_nat i))"
      using b assms(3) by blast
    then have "page_fields (ram s') (page_ref T (word_of_nat i)) = page_fields (ram t) (page_ref T (word_of_nat i))"
      by (rule entry_cong)
    then show ?thesis using a 0 by simp
  next
    case (Suc k)
    then show ?thesis using b that by simp
  qed
  have o: "load32 (ram s') (page_ref T (word_of_nat j)) = load32 (ram s) (page_ref T (word_of_nat j))"
    if "j < 1024" "j < i \<or> i + length (f # fs) \<le> j" for j
    using a b that by auto
  have k: "kept T s (ram s')"
    using a b fr by (simp add: kept_def outside_bits_def)
  show ?thesis
    unfolding filled_def using st e o k a b fr by (intro conjI) (auto simp: fr)
qed

section \<open>The two loops\<close>

text \<open>The page \<open>i\<close> of the 4 MB that the directory index \<open>d\<close> covers.\<close>

definition page_at :: "nat \<Rightarrow> nat \<Rightarrow> u32" where
  "page_at d i = word_of_nat (4194304 * d + 4096 * i)"

lemma page_at_unat: "d < 1024 \<Longrightarrow> i < 1024 \<Longrightarrow> unat (page_at d i) = 4194304 * d + 4096 * i"
  by (simp add: page_at_def unat_of_nat del: of_nat_add of_nat_mult)

lemma page_at_next: "page_at d i + PG_SZ = page_at d (Suc i)"
  by (simp add: page_at_def PG_SZ_def)

lemma page_at_index:
  assumes "d < 1024" "i < 1024"
  shows "PD_IDX (page_at d i) = word_of_nat d" "PT_IDX (page_at d i) = word_of_nat i"
proof -
  note u = page_at_unat [OF assms]
  have "(4194304 * d + 4096 * i) div 4194304 = d" "(4194304 * d + 4096 * i) div 4096 = 1024 * d + i"
    using assms(2) by simp_all
  then have "unat (drop_bit 22 (page_at d i)) = d" "unat (drop_bit 12 (page_at d i)) = 1024 * d + i"
    by (simp_all add: drop_bit_eq_div unat_div u)
  then show "PD_IDX (page_at d i) = word_of_nat d" "PT_IDX (page_at d i) = word_of_nat i"
    using assms by (simp_all add: PD_IDX_def PT_IDX_def and_masks word_unat_eq_iff take_bit_eq_mod unat_mod
        unat_of_nat)
qed

lemma page_fields_zero: "pg_addr (ram s) p = 0 \<Longrightarrow> load32 m p = load32 (ram s) p \<Longrightarrow> pg_addr m p = 0"
  by (simp add: pg_addr_def)

lemma ram_only_fields:
  assumes "t = s\<lparr>ram := ram t\<rparr>"
  shows "alloc_ptr t = alloc_ptr s" "frames t = frames s"
  by (subst assms, simp)+

lemma page_order: "(4194304 * 768 + 4096 * i \<le> x) = (0xC0000 + i \<le> x div 4096)" for i x :: nat
  by (simp add: less_eq_div_iff_mult_less_eq mult.commute)

text \<open>The loop over the kernel, from the second page on: every page gets the frame it stands for.\<close>

lemma map_kernel_fills:
  assumes "table_ready D T 768 s" "0 < i" "i + n < 1024"
    "\<forall>j<1024. i \<le> j \<longrightarrow> pg_addr (ram s) (page_ref T (word_of_nat j)) = 0"
    "word_of_nat (i + n) < bs_get_size (ram s) (frames s)"
    "unat (alloc_ptr s + 0x1000) div 4096 + 1 = 0xC0000 + (i + n)"
  shows "\<exists>s'. map_kernel (page_at 768 i) s = Some s' \<and> filled D T 768 i (map word_of_nat [i..<i + n]) s s'"
  using assms
proof (induction n arbitrary: i s)
  case 0
  have "\<not> page_at 768 i \<le> kmalloc_get_end s + 0x1000"
    using 0 page_at_unat [of 768 i] by (simp add: word_le_nat_alt kmalloc_get_end_def not_le page_order)
  then show ?case using 0(1) filled_refl by (subst map_kernel.simps) simp
next
  case (Suc n)
  note u = page_at_unat [of 768 i]
  have le: "page_at 768 i \<le> kmalloc_get_end s + 0x1000"
    using Suc.prems u by (simp add: word_le_nat_alt kmalloc_get_end_def page_order)
  have v: "V2P (page_at 768 i) = word_of_nat (4096 * i)"
    by (simp add: V2P_def KERN_OFFSET_def page_at_def)
  have "unat (word_of_nat (4096 * i) :: u32) = 4096 * i"
    using Suc.prems(3) by (simp add: unat_of_nat del: of_nat_mult)
  then have "word_of_nat (4096 * i) \<noteq> (0 :: u32)" "word_of_nat (4096 * i) div PG_SZ = (word_of_nat i :: u32)"
    using Suc.prems(2,3) small_words [of i]
    by (auto simp: word_unat_eq_iff unat_div PG_SZ_def simp del: of_nat_mult)
  moreover have "word_of_nat i < (word_of_nat (i + Suc n) :: u32)"
    using Suc.prems(3) small_words [of i] small_words [of "i + Suc n"] by (simp add: word_less_nat_alt del: of_nat_add)
  ultimately have f: "frame_for (V2P (page_at 768 i)) s (word_of_nat i)"
    using Suc.prems(5) unfolding v frame_for_def by auto
  have va: "PD_IDX (page_at 768 i) = 768" "PT_IDX (page_at 768 i) = word_of_nat i" "i < 1024"
    using page_at_index [of 768 i] Suc.prems by simp_all
  have z: "pg_addr (ram s) (page_ref T (word_of_nat i)) = 0" using Suc.prems(3,4) by simp
  obtain t where t: "get_page (page_at 768 i) 1 (kern_dir s) s = Some (page_ref T (word_of_nat i), s)"
    "map_page (page_ref T (word_of_nat i)) 1 1 (V2P (page_at 768 i)) s = Some t"
    "filled D T 768 i [word_of_nat i] s t"
    using fill_one [OF Suc.prems(1) va z f] by blast
  note a = t(3) [unfolded filled_def]
  have same: "alloc_ptr t = alloc_ptr s" "frames t = frames s" using ram_only_fields [of t s] a by blast+
  have "\<exists>s'. map_kernel (page_at 768 (Suc i)) t = Some s' \<and>
      filled D T 768 (Suc i) (map word_of_nat [Suc i..<Suc i + n]) t s'"
  proof (rule Suc.IH)
    show "table_ready D T 768 t" using a by blast
    show "\<forall>j<1024. Suc i \<le> j \<longrightarrow> pg_addr (ram t) (page_ref T (word_of_nat j)) = 0"
      using a Suc.prems(4) page_fields_zero by (metis One_nat_def Suc_leD add.commute length_Cons list.size(3) plus_1_eq_Suc)
    show "word_of_nat (Suc i + n) < bs_get_size (ram t) (frames t)"
      using Suc.prems(5) a same by (simp add: bs_get_size_def)
    show "unat (alloc_ptr t + 0x1000) div 4096 + 1 = 0xC0000 + (Suc i + n)"
      using Suc.prems(6) same by simp
  qed (use Suc.prems in simp_all)
  then obtain s' where s': "map_kernel (page_at 768 (Suc i)) t = Some s'"
    "filled D T 768 (Suc i) (map word_of_nat [Suc i..<Suc i + n]) t s'" by blast
  have "map_kernel (page_at 768 i) s = Some s'"
    using le t(1,2) s'(1) by (subst map_kernel.simps) (simp add: page_at_next)
  moreover have "[i..<i + Suc n] = i # [Suc i..<Suc i + n]" by (simp add: upt_rec)
  ultimately show ?case using filled_Cons [OF t(3) s'(2) va(3)] by simp
qed

text \<open>The loop over the heap: the pages get the free frames in order.\<close>

lemma map_heap_fills:
  assumes "table_ready D T 832 s" "i + n = 257"
    "\<forall>j<1024. i \<le> j \<longrightarrow> pg_addr (ram s) (page_ref T (word_of_nat j)) = 0" "n \<le> card (free_frames s)"
  shows "\<exists>s'. map_heap (page_at 832 i) s = Some s' \<and>
    filled D T 832 i (take n (sorted_list_of_set (free_frames s))) s s'"
  using assms
proof (induction n arbitrary: i s)
  case 0
  then have "page_at 832 i = 0xD0101000" by (simp add: page_at_def)
  then have "\<not> page_at 832 i \<le> KHEAP_END" by (simp add: KHEAP_END_def)
  then show ?case using 0(1) filled_refl by (subst map_heap.simps) simp
next
  case (Suc n)
  let ?A = "free_frames s" and ?f = "Min (free_frames s)"
  have le: "page_at 832 i \<le> KHEAP_END"
    using page_at_unat [of 832 i] Suc.prems(2) by (simp add: word_le_nat_alt KHEAP_END_def)
  have ne: "?A \<noteq> {}" "finite ?A" using Suc.prems(4) by auto
  have l: "sorted_list_of_set ?A = ?f # sorted_list_of_set (?A - {?f})"
    using ne by (intro sorted_list_of_set_nonempty)
  have f: "frame_for 0 s ?f" using ne by (simp add: frame_for_def)
  have va: "PD_IDX (page_at 832 i) = 832" "PT_IDX (page_at 832 i) = word_of_nat i" "i < 1024"
    using page_at_index [of 832 i] Suc.prems by simp_all
  have z: "pg_addr (ram s) (page_ref T (word_of_nat i)) = 0" using Suc.prems(3) va(3) by simp
  obtain t where t: "get_page (page_at 832 i) 1 (kern_dir s) s = Some (page_ref T (word_of_nat i), s)"
    "map_page (page_ref T (word_of_nat i)) 1 1 0 s = Some t" "filled D T 832 i [?f] s t"
    using fill_one [OF Suc.prems(1) va z f] by blast
  note a = t(3) [unfolded filled_def]
  have ft: "free_frames t = ?A - {?f}" using a by simp
  have "\<exists>s'. map_heap (page_at 832 (Suc i)) t = Some s' \<and>
      filled D T 832 (Suc i) (take n (sorted_list_of_set (free_frames t))) t s'"
  proof (rule Suc.IH)
    show "table_ready D T 832 t" using a by blast
    show "\<forall>j<1024. Suc i \<le> j \<longrightarrow> pg_addr (ram t) (page_ref T (word_of_nat j)) = 0"
      using a Suc.prems(3) page_fields_zero by (metis One_nat_def Suc_leD add.commute length_Cons list.size(3) plus_1_eq_Suc)
    show "n \<le> card (free_frames t)" using Suc.prems(4) ne ft by (simp add: card_Diff_singleton)
  qed (use Suc.prems in simp)
  then obtain s' where s': "map_heap (page_at 832 (Suc i)) t = Some s'"
    "filled D T 832 (Suc i) (take n (sorted_list_of_set (?A - {?f}))) t s'"
    unfolding ft by blast
  have "map_heap (page_at 832 i) s = Some s'"
    using le t(1,2) s'(1) by (subst map_heap.simps) (simp add: page_at_next)
  then show ?case using filled_Cons [OF t(3) s'(2) va(3)] l by simp
qed

section \<open>The page that needs a new table\<close>

text \<open>Memory that agrees with the old one on the words of the bit set has the same frames.\<close>

lemma same_frames:
  assumes "pmm_ok s" "frames t = frames s"
    and "\<And>a. a \<in> {frames s, frames s + 4} \<or> (\<exists>w. unat w < unat (bs_sz (ram s) (frames s)) \<and>
      a = bs_bits (ram s) (frames s) + 4 * w) \<Longrightarrow> load32 (ram t) a = load32 (ram s) a"
  shows "pmm_ok t" "free_frames t = free_frames s" "bs_sz (ram t) (frames s) = bs_sz (ram s) (frames s)"
    "bs_bits (ram t) (frames s) = bs_bits (ram s) (frames s)"
proof -
  let ?F = "frames s"
  show b: "bs_sz (ram t) ?F = bs_sz (ram s) ?F" "bs_bits (ram t) ?F = bs_bits (ram s) ?F"
    using assms(3) by (simp_all add: bs_sz_def bs_bits_def)
  then show "pmm_ok t" using assms(1,2) by (simp add: pmm_ok_def bs_ok_def)
  have "bs_bit (ram t) ?F j = bs_bit (ram s) ?F j" if "j < bs_get_size (ram s) ?F" for j
  proof -
    have "load32 (ram t) (bs_bits (ram s) ?F + 4 * (j div 32)) = load32 (ram s) (bs_bits (ram s) ?F + 4 * (j div 32))"
      using idx_word [OF pmm_ok_bs [OF assms(1)] that] by (intro assms(3)) blast
    then show ?thesis using b by (simp add: bs_bit_def word_ref_def)
  qed
  then show "free_frames t = free_frames s"
    using b assms(2) by (auto simp: free_frames_iff bs_get_size_def)
qed

text \<open>The words of the bit set lie apart from a region that is apart from its two parts.\<close>

lemma bit_words_apart:
  assumes "pmm_ok s" "apart (frames s) 8 T n" "outside_bits (ram s) (frames s) T n" "0 < n"
    and "a \<in> {frames s, frames s + 4} \<or> (\<exists>w. unat w < unat (bs_sz (ram s) (frames s)) \<and>
      a = bs_bits (ram s) (frames s) + 4 * w)"
  shows "apart T n a 4"
proof -
  have "apart a 4 T n"
    using assms(5)
  proof (elim disjE exE conjE)
    assume "a \<in> {frames s, frames s + 4}"
    then show ?thesis
      using apart_mono [OF assms(2), of 4 n] apart_shift_left [OF assms(2), of 4 4] assms(4) by auto
  next
    fix w assume w: "unat w < unat (bs_sz (ram s) (frames s))" "a = bs_bits (ram s) (frames s) + 4 * w"
    have "unat w < 2 ^ 27" using w(1) assms(1) by (auto simp: pmm_ok_def bs_ok_def)
    then have "unat (4 * w) = 4 * unat w" by (simp add: unat_word_ariths)
    then show ?thesis
      unfolding w(2) using w(1) by (intro apart_shift_left [OF assms(3) [unfolded outside_bits_def]] assms(4)) simp_all
  qed
  then show ?thesis by (simp add: apart_sym)
qed

text \<open>The table is put at the next page of the bump pointer; then the page is mapped to the first free frame.\<close>

lemma first_page:
  assumes ok: "pmm_ok s" "early s" "kern_dir s = D" "dir_table (ram s) D d = 0"
    and va: "PD_IDX va = d" "PT_IDX va = 0"
    and T: "T = PG_ROUND_UP (alloc_ptr s)" "T \<noteq> 0"
    and ap: "apart D 8196 T 4096" "apart (frames s) 8 T 4096" "outside_bits (ram s) (frames s) T 4096"
      "outside_bits (ram s) (frames s) D 8196" "apart (frames s) 8 D 8196"
    and ne: "free_frames s \<noteq> {}"
  shows "\<exists>t s'. get_page va 1 (kern_dir s) s = Some (page_ref T 0, t) \<and> map_page (page_ref T 0) 1 1 0 t = Some s' \<and>
    console_only (s\<lparr>alloc_ptr := T + 4096, ram := ram t\<rparr>) t \<and> early t \<and>
    load32 (ram t) (phys_tab_ref D d) = V2P T OR 7 \<and> free_frames t = free_frames s \<and>
    bs_sz (ram t) (frames s) = bs_sz (ram s) (frames s) \<and> bs_bits (ram t) (frames s) = bs_bits (ram s) (frames s) \<and>
    (\<forall>a. apart T 4096 a 4 \<longrightarrow> apart (table_ref D d) 4 a 4 \<longrightarrow> apart (phys_tab_ref D d) 4 a 4 \<longrightarrow>
       load32 (ram t) a = load32 (ram s) a) \<and>
    (\<forall>j<1024. load32 (ram t) (page_ref T (word_of_nat j)) = 0) \<and>
    table_ready D T d t \<and> filled D T d 0 [Min (free_frames s)] t s'"
proof -
  have "create \<noteq> 0" if "create = (1 :: u8)" for create using that by simp
  then have "(1 :: u8) \<noteq> 0" by simp
  from get_page_new_table [OF ok(2) this, of D va T] obtain t where t:
    "get_page va 1 D s = Some (page_ref T (PT_IDX va), t)" "alloc_ptr t = T + 4096" "dir_table (ram t) D d = T"
    "load32 (ram t) (phys_tab_ref D d) = V2P T OR 7" "\<forall>i. unat i < 1024 \<longrightarrow> load32 (ram t) (page_ref T i) = 0"
    "\<forall>a. apart T 4096 a 4 \<longrightarrow> apart (table_ref D d) 4 a 4 \<longrightarrow> apart (phys_tab_ref D d) 4 a 4 \<longrightarrow>
       load32 (ram t) a = load32 (ram s) a"
    "console_only (s\<lparr>alloc_ptr := alloc_ptr t, ram := ram t\<rparr>) t"
    using ok va T ap(1) by auto
  note c = console_only_pmm [OF t(7)]
  have F: "frames t = frames s" "kern_dir t = D" "early t" using c ok(2,3) by (simp_all add: early_def)
  have d: "unat d < 1024" using table_index_bound(1) [of va] va by simp
  have keep: "load32 (ram t) a = load32 (ram s) a"
    if "a \<in> {frames s, frames s + 4} \<or> (\<exists>w. unat w < unat (bs_sz (ram s) (frames s)) \<and>
      a = bs_bits (ram s) (frames s) + 4 * w)" for a
  proof -
    have "apart T 4096 a 4" "apart D 8196 a 4"
      using bit_words_apart [OF ok(1) ap(2,3) _ that] bit_words_apart [OF ok(1) ap(5,4) _ that] by simp_all
    then show ?thesis using t(6) dir_fields_apart(2,3) [OF d, of D a 4] by simp
  qed
  note same = same_frames [OF ok(1) F(1) keep]
  have r: "table_ready D T d t"
    using same F t(3) T(2) d ap by (simp add: table_ready_def outside_bits_def)
  have z: "pg_addr (ram t) (page_ref T (word_of_nat 0)) = 0"
    using t(5) by (simp add: pg_addr_def get_field_def)
  have "frame_for 0 t (Min (free_frames s))" using same(2) ne by (simp add: frame_for_def)
  from fill_one [OF r va(1) _ _ z this] obtain s' where
    "get_page va 1 (kern_dir t) t = Some (page_ref T 0, t)" "map_page (page_ref T 0) 1 1 0 t = Some s'"
    "filled D T d 0 [Min (free_frames s)] t s'"
    using va(2) by auto
  moreover have "load32 (ram t) (page_ref T (word_of_nat j)) = 0" if "j < 1024" for j
    using t(5) small_words [OF that] that by simp
  ultimately show ?thesis
    using t(1,2,4,6,7) ok(3) va(2) same F r by (intro exI [of _ t] exI [of _ s']) simp
qed

text \<open>The words of a directory lie apart.\<close>

lemma dir_words_apart:
  assumes "unat i < 1024" "unat j < 1024"
  shows "i \<noteq> j \<Longrightarrow> apart (table_ref D i) 4 (table_ref D j) 4"
    "i \<noteq> j \<Longrightarrow> apart (phys_tab_ref D i) 4 (phys_tab_ref D j) 4"
    "apart (phys_tab_ref D i) 4 (table_ref D j) 4"
    "apart (table_ref D i) 4 (D + 8192) 4" "apart (phys_tab_ref D i) 4 (D + 8192) 4"
proof -
  note t = times_4 [OF assms(1)] times_4 [OF assms(2)]
  have u: "unat (4096 + 4 * i) = 4096 + 4 * unat i" "unat (4096 + 4 * j) = 4096 + 4 * unat j"
    using t assms by (simp_all add: unat_word_ariths)
  have ne: "unat i < unat j \<or> unat j < unat i" if "i \<noteq> j" using that by (metis nat_neq_iff word_unat_eq_iff)
  have e: "apart (4 * i) 4 (4 * j) 4" if "i \<noteq> j"
    using ne [OF that] t assms apart_bounds [of "4 * i" 4 "4 * j" 4] apart_bounds [of "4 * j" 4 "4 * i" 4]
    by (auto simp: apart_sym)
  show "i \<noteq> j \<Longrightarrow> apart (phys_tab_ref D i) 4 (phys_tab_ref D j) 4" using e by (simp add: phys_tab_ref_def)
  show "i \<noteq> j \<Longrightarrow> apart (table_ref D i) 4 (table_ref D j) 4" using e by (simp add: table_ref_def)
  have "apart (4 * i) 4 (4096 + 4 * j) 4" "apart (4096 + 4 * i) 4 8192 4" "apart (4 * i) 4 8192 4"
    using t u assms by (intro apart_bounds; simp)+
  then show "apart (phys_tab_ref D i) 4 (table_ref D j) 4" "apart (table_ref D i) 4 (D + 8192) 4"
    "apart (phys_tab_ref D i) 4 (D + 8192) 4"
    by (simp_all add: table_ref_def phys_tab_ref_def add.assoc)
qed

text \<open>What both loops do: a new table \<open>T\<close> for index \<open>d\<close>, whose first entries hold the frames \<open>fs\<close>.\<close>

definition tabled :: "u32 \<Rightarrow> u32 \<Rightarrow> u32 \<Rightarrow> u32 list \<Rightarrow> 'a pmm_state_scheme \<Rightarrow> 'a pmm_state_scheme \<Rightarrow> bool" where
  "tabled D T d fs s s' \<longleftrightarrow> console_only (s\<lparr>alloc_ptr := T + 4096, ram := ram s'\<rparr>) s' \<and> pmm_ok s' \<and>
     dir_table (ram s') D d = T \<and> load32 (ram s') (phys_tab_ref D d) = V2P T OR 7 \<and>
     (\<forall>j<length fs. page_fields (ram s') (page_ref T (word_of_nat j)) = (1, 1, 0, fs ! j)) \<and>
     (\<forall>j<1024. length fs \<le> j \<longrightarrow> load32 (ram s') (page_ref T (word_of_nat j)) = 0) \<and>
     free_frames s' = free_frames s - set fs \<and>
     bs_sz (ram s') (frames s) = bs_sz (ram s) (frames s) \<and> bs_bits (ram s') (frames s) = bs_bits (ram s) (frames s) \<and>
     (\<forall>a. apart T 4096 a 4 \<longrightarrow> apart (table_ref D d) 4 a 4 \<longrightarrow> apart (phys_tab_ref D d) 4 a 4 \<longrightarrow>
        outside_bits (ram s) (frames s) a 4 \<longrightarrow> load32 (ram s') a = load32 (ram s) a)"

lemma console_only_ram: "console_only s t \<Longrightarrow> console_only (s\<lparr>ram := m\<rparr>) (t\<lparr>ram := m\<rparr>)"
  by (simp add: console_only_def)

lemma tabledI:
  assumes t: "console_only (s\<lparr>alloc_ptr := T + 4096, ram := ram t\<rparr>) t"
    and p: "load32 (ram t) (phys_tab_ref D d) = V2P T OR 7" "free_frames t = free_frames s"
      "bs_sz (ram t) (frames s) = bs_sz (ram s) (frames s)" "bs_bits (ram t) (frames s) = bs_bits (ram s) (frames s)"
    and k: "\<forall>a. apart T 4096 a 4 \<longrightarrow> apart (table_ref D d) 4 a 4 \<longrightarrow> apart (phys_tab_ref D d) 4 a 4 \<longrightarrow>
       load32 (ram t) a = load32 (ram s) a"
    and z: "\<forall>j<1024. load32 (ram t) (page_ref T (word_of_nat j)) = 0"
    and f: "filled D T d 0 fs t s'"
    and ap: "apart D 8196 T 4096" "outside_bits (ram s) (frames s) D 8196" "bs_sz (ram s) (frames s) \<noteq> 0"
  shows "tabled D T d fs s s'"
proof -
  note f' = f [unfolded filled_def]
  have fr: "frames t = frames s" using console_only_pmm(1) [OF t] by simp
  have d: "unat d < 1024" using f' by (simp add: table_ready_def)
  have pos: "0 < 4 * unat (bs_sz (ram s) (frames s))" using ap(3) by (simp add: unat_gt_0)
  have "console_only (s\<lparr>alloc_ptr := T + 4096, ram := ram s'\<rparr>) s'"
  proof -
    have "s' = t\<lparr>ram := ram s'\<rparr>" using f' by blast
    moreover have "console_only (s\<lparr>alloc_ptr := T + 4096, ram := ram s'\<rparr>) (t\<lparr>ram := ram s'\<rparr>)"
      using console_only_ram [OF t, of "ram s'"] by simp
    ultimately show ?thesis by simp
  qed
  moreover have "load32 (ram s') (phys_tab_ref D d) = load32 (ram t) (phys_tab_ref D d)"
  proof -
    have "apart T 4096 (phys_tab_ref D d) 4"
      using dir_fields_apart(3) [OF d ap(1)] by (simp add: apart_sym)
    moreover have "outside_bits (ram t) (frames t) (phys_tab_ref D d) 4"
      using dir_fields_apart(3) [OF d _ pos] ap(2) p(3,4) fr unfolding outside_bits_def by (metis apart_sym)
    ultimately show ?thesis using f' by (simp add: kept_def)
  qed
  moreover have "load32 (ram s') a = load32 (ram s) a"
    if "apart T 4096 a 4" "apart (table_ref D d) 4 a 4" "apart (phys_tab_ref D d) 4 a 4"
      "outside_bits (ram s) (frames s) a 4" for a
    using that f' k p(3,4) fr by (simp add: kept_def outside_bits_def)
  ultimately show ?thesis
    unfolding tabled_def using f' p z fr by (simp add: table_ready_def)
qed

text \<open>Where a table can be created: behind everything, apart from the directory and the bit set.\<close>

definition table_room :: "u32 \<Rightarrow> u32 \<Rightarrow> u32 \<Rightarrow> 'a pmm_state_scheme \<Rightarrow> bool" where
  "table_room D T d s \<longleftrightarrow> pmm_ok s \<and> early s \<and> kern_dir s = D \<and> dir_table (ram s) D d = 0 \<and>
     T = PG_ROUND_UP (alloc_ptr s) \<and> T \<noteq> 0 \<and> apart D 8196 T 4096 \<and> apart (frames s) 8 T 4096 \<and>
     outside_bits (ram s) (frames s) T 4096 \<and> outside_bits (ram s) (frames s) D 8196 \<and>
     apart (frames s) 8 D 8196 \<and> free_frames s \<noteq> {}"

lemma table_room_bits: "table_room D T d s \<Longrightarrow> bs_sz (ram s) (frames s) \<noteq> 0"
  by (auto simp: table_room_def free_frames_iff bs_get_size_def)

lemma map_kernel_all:
  assumes r: "table_room D T 768 s" and n: "0 < n" "n < 1024"
    and b: "unat (T + 0x2000) div 4096 + 1 = 0xC0000 + n" "0xC0000000 \<le> alloc_ptr s + 0x1000"
      "word_of_nat n < bs_get_size (ram s) (frames s)"
  shows "\<exists>s'. map_kernel (P2V 0) s = Some s' \<and>
    tabled D T 768 (Min (free_frames s) # map word_of_nat [1..<n]) s s'"
proof -
  note R = r [unfolded table_room_def]
  have va: "PD_IDX 0xC0000000 = 768" "PT_IDX 0xC0000000 = 0" "P2V 0 = 0xC0000000" "V2P 0xC0000000 = 0"
    "0xC0000000 + PG_SZ = page_at 768 1"
    by (simp_all add: PD_IDX_def PT_IDX_def P2V_def V2P_def KERN_OFFSET_def page_at_def PG_SZ_def)
  obtain t u where t: "get_page 0xC0000000 1 (kern_dir s) s = Some (page_ref T 0, t)"
    "map_page (page_ref T 0) 1 1 0 t = Some u" "console_only (s\<lparr>alloc_ptr := T + 4096, ram := ram t\<rparr>) t"
    "load32 (ram t) (phys_tab_ref D 768) = V2P T OR 7" "free_frames t = free_frames s"
    "bs_sz (ram t) (frames s) = bs_sz (ram s) (frames s)" "bs_bits (ram t) (frames s) = bs_bits (ram s) (frames s)"
    "\<forall>a. apart T 4096 a 4 \<longrightarrow> apart (table_ref D 768) 4 a 4 \<longrightarrow> apart (phys_tab_ref D 768) 4 a 4 \<longrightarrow>
       load32 (ram t) a = load32 (ram s) a"
    "\<forall>j<1024. load32 (ram t) (page_ref T (word_of_nat j)) = 0" "filled D T 768 0 [Min (free_frames s)] t u"
    using first_page [of s D 768 "0xC0000000" T] R va by metis
  note U = t(10) [unfolded filled_def]
  have same: "alloc_ptr t = T + 4096" "frames t = frames s" using console_only_pmm [OF t(3)] by simp_all
  have su: "alloc_ptr u = alloc_ptr t" "frames u = frames t" using ram_only_fields [of u t] U by blast+
  have "\<exists>s'. map_kernel (page_at 768 1) u = Some s' \<and> filled D T 768 1 (map word_of_nat [1..<1 + (n - 1)]) u s'"
  proof (rule map_kernel_fills)
    show "table_ready D T 768 u" using U by blast
    have "load32 (ram u) (page_ref T (word_of_nat j)) = 0" if "j < 1024" "1 \<le> j" for j
      using U t(9) that by simp
    then show "\<forall>j<1024. 1 \<le> j \<longrightarrow> pg_addr (ram u) (page_ref T (word_of_nat j)) = 0"
      by (simp add: pg_addr_def get_field_def)
    show "word_of_nat (1 + (n - 1)) < bs_get_size (ram u) (frames u)"
      using b(3) n U t(6) same su by (simp add: bs_get_size_def)
    show "unat (alloc_ptr u + 0x1000) div 4096 + 1 = 0xC0000 + (1 + (n - 1))"
      using b(1) n same su by (simp add: add.assoc)
  qed (use n in simp_all)
  then obtain s' where s': "map_kernel (page_at 768 1) u = Some s'"
    "filled D T 768 (Suc 0) (map word_of_nat [1..<n]) u s'" using n by auto
  have "map_kernel (P2V 0) s = Some s'"
    using b(2) t(1,2) s'(1) va by (subst map_kernel.simps) (simp add: kmalloc_get_end_def)
  moreover have "tabled D T 768 (Min (free_frames s) # map word_of_nat [1..<n]) s s'"
    by (rule tabledI [OF t(3-9) filled_Cons [OF t(10) s'(2)]]; insert R table_room_bits [OF r]; (blast | simp))
  ultimately show ?thesis by blast
qed

lemma map_heap_all:
  assumes r: "table_room D T 832 s" and n: "257 \<le> card (free_frames s)"
  shows "\<exists>s'. map_heap KHEAP_START s = Some s' \<and>
    tabled D T 832 (take 257 (sorted_list_of_set (free_frames s))) s s'"
proof -
  let ?A = "free_frames s"
  note R = r [unfolded table_room_def]
  have va: "PD_IDX 0xD0000000 = 832" "PT_IDX 0xD0000000 = 0" "0xD0000000 + PG_SZ = page_at 832 1"
    by (simp_all add: PD_IDX_def PT_IDX_def page_at_def PG_SZ_def)
  obtain t u where t: "get_page 0xD0000000 1 (kern_dir s) s = Some (page_ref T 0, t)"
    "map_page (page_ref T 0) 1 1 0 t = Some u" "console_only (s\<lparr>alloc_ptr := T + 4096, ram := ram t\<rparr>) t"
    "load32 (ram t) (phys_tab_ref D 832) = V2P T OR 7" "free_frames t = free_frames s"
    "bs_sz (ram t) (frames s) = bs_sz (ram s) (frames s)" "bs_bits (ram t) (frames s) = bs_bits (ram s) (frames s)"
    "\<forall>a. apart T 4096 a 4 \<longrightarrow> apart (table_ref D 832) 4 a 4 \<longrightarrow> apart (phys_tab_ref D 832) 4 a 4 \<longrightarrow>
       load32 (ram t) a = load32 (ram s) a"
    "\<forall>j<1024. load32 (ram t) (page_ref T (word_of_nat j)) = 0" "filled D T 832 0 [Min ?A] t u"
    using first_page [of s D 832 "0xD0000000" T] R va by metis
  note U = t(10) [unfolded filled_def]
  have fu: "free_frames u = ?A - {Min ?A}" using U t(5) by simp
  have "\<exists>s'. map_heap (page_at 832 1) u = Some s' \<and>
      filled D T 832 1 (take 256 (sorted_list_of_set (free_frames u))) u s'"
  proof (rule map_heap_fills)
    show "table_ready D T 832 u" using U by blast
    have "load32 (ram u) (page_ref T (word_of_nat j)) = 0" if "j < 1024" "1 \<le> j" for j
      using U t(9) that by simp
    then show "\<forall>j<1024. 1 \<le> j \<longrightarrow> pg_addr (ram u) (page_ref T (word_of_nat j)) = 0"
      by (simp add: pg_addr_def get_field_def)
    show "256 \<le> card (free_frames u)" using n R unfolding fu by (simp add: card_Diff_singleton)
  qed simp
  then obtain s' where s': "map_heap (page_at 832 1) u = Some s'"
    "filled D T 832 (Suc 0) (take 256 (sorted_list_of_set (?A - {Min ?A}))) u s'" unfolding fu by auto
  have l: "take 257 (sorted_list_of_set ?A) = Min ?A # take 256 (sorted_list_of_set (?A - {Min ?A}))"
    using R sorted_list_of_set_nonempty [of ?A] by simp
  have "map_heap KHEAP_START s = Some s'"
    using t(1,2) s'(1) va by (subst map_heap.simps) (simp add: KHEAP_START_def KHEAP_END_def)
  moreover have "tabled D T 832 (take 257 (sorted_list_of_set ?A)) s s'"
    unfolding l by (rule tabledI [OF t(3-9) filled_Cons [OF t(10) s'(2)]]; insert R table_room_bits [OF r]; (blast | simp))
  ultimately show ?thesis by blast
qed

end
