(* ===== verification/Vmm_Start.thy ===== *)
theory Vmm_Start
  imports Vmm_Loops Kheap_Life
begin

text \<open>
  What \<open>vmm_init\<close> (kern/mm/vmm.c) does before its two loops: the directory and the heap structure are
  put behind the kernel and frame 0 is taken (\<open>vmm_start\<close>), from any state with room for the rest
  (\<open>vmm_room\<close>) to one from which the loops can run (\<open>vmm_ready\<close>).
\<close>

section \<open>The state before the loops\<close>

lemma alloc_bins_only:
  "early s \<Longrightarrow> alloc_bins is s = Some s' \<Longrightarrow> \<exists>a m. s' = s\<lparr>alloc_ptr := a, ram := m\<rparr>"
proof (induction "is" arbitrary: s)
  case Nil
  then show ?case by (intro exI [of _ "alloc_ptr s"] exI [of _ "ram s"]) simp
next
  case (Cons i js)
  let ?s = "s\<lparr>alloc_ptr := alloc_ptr s + 4,
     ram := store32 (ram s) (kheap s + 16 + 4 * word_of_nat i) (alloc_ptr s)\<rparr>"
  have "early ?s" "alloc_bins js ?s = Some s'" using Cons.prems by (simp_all add: early_def kmalloc_early)
  from Cons.IH [OF this] obtain a m where "s' = ?s\<lparr>alloc_ptr := a, ram := m\<rparr>" by blast
  then show ?case by (intro exI [of _ a] exI [of _ m]) simp
qed

lemma kheap_pre_init_only:
  assumes "early s" "kheap_pre_init s = Some s'"
  shows "s' = s\<lparr>alloc_ptr := alloc_ptr s', kheap := kheap s', ram := ram s'\<rparr>"
proof -
  let ?s = "s\<lparr>alloc_ptr := alloc_ptr s + 52, kheap := alloc_ptr s,
    ram := store32 (store32 (ram s) (alloc_ptr s) KHEAP_START) (alloc_ptr s + 4) KHEAP_END\<rparr>"
  have "early ?s" "alloc_bins [0..<9] ?s = Some s'"
    using assms by (simp_all add: early_def kheap_pre_init_def kmalloc_early Let_def del: upt_rec_numeral)
  from alloc_bins_only [OF this] obtain a m where "s' = ?s\<lparr>alloc_ptr := a, ram := m\<rparr>" by blast
  then show ?thesis by simp
qed

text \<open>
  The kernel's data ends within its first 4 MB, where the bit set lies below it, the memory behind
  it is zero where the heads of the bins will be, and there are frames for all pages.
\<close>

definition vmm_room :: "'a pmm_state_scheme \<Rightarrow> bool" where
  "vmm_room s \<longleftrightarrow> early s \<and> pmm_ok s \<and> 0xC0000000 \<le> unat (alloc_ptr s) \<and> unat (alloc_ptr s) + 0x8000 \<le> 0xC0400000 \<and>
     unat (frames s) + 8 \<le> unat (alloc_ptr s) \<and>
     unat (bs_bits (ram s) (frames s)) + 4 * unat (bs_sz (ram s) (frames s)) \<le> unat (alloc_ptr s) \<and>
     1024 \<le> bs_get_size (ram s) (frames s) \<and> 1282 \<le> card (free_frames s) \<and>
     (\<forall>i<9. load32 (ram s) (PG_ROUND_UP (alloc_ptr s) + 0x2038 + 4 * word_of_nat i) = 0)"

text \<open>The state from which the loops start: the directory is empty, frame 0 is taken, the heap structure is there.\<close>

definition vmm_ready :: "u32 \<Rightarrow> 'a pmm_state_scheme \<Rightarrow> bool" where
  "vmm_ready D s \<longleftrightarrow> early s \<and> pmm_ok s \<and> kern_dir s = D \<and> D mod PG_SZ = 0 \<and> kheap s = D + 0x2004 \<and>
     alloc_ptr s = D + 0x205C \<and> 0xC0000000 \<le> unat D \<and> unat D + 0x7000 \<le> 0xC0400000 \<and>
     unat (frames s) + 8 \<le> unat D \<and>
     unat (bs_bits (ram s) (frames s)) + 4 * unat (bs_sz (ram s) (frames s)) \<le> unat D \<and>
     1024 \<le> bs_get_size (ram s) (frames s) \<and> 1281 \<le> card (free_frames s) \<and>
     (\<forall>i. unat i < 1024 \<longrightarrow> dir_table (ram s) D i = 0 \<and> load32 (ram s) (phys_tab_ref D i) = 0) \<and> dir_phys (ram s) D = V2P D \<and>
     heap_start (ram s) (D + 0x2004) = KHEAP_START \<and> heap_end (ram s) (D + 0x2004) = KHEAP_END \<and>
     (\<forall>i<9. heap_bin (ram s) (D + 0x2004) (word_of_nat i) = D + 0x2038 + 4 * word_of_nat i \<and>
        load32 (ram s) (D + 0x2038 + 4 * word_of_nat i) = 0)"

lemma unat_off: "unat x + unat c < 2 ^ 32 \<Longrightarrow> unat (x + c) = unat x + unat c" for x c :: u32
  by (subst unat_add_lem [THEN iffD1]) simp_all

text \<open>A region that starts at or behind the end of the bit set.\<close>

lemma behind_bits:
  assumes "unat (frames s) + 8 \<le> unat X" "0 < n" "unat X + n \<le> 2 ^ 32" "bs_sz (ram s) (frames s) \<noteq> 0"
    "unat (bs_bits (ram s) (frames s)) + 4 * unat (bs_sz (ram s) (frames s)) \<le> unat X"
  shows "apart (frames s) 8 X n" "outside_bits (ram s) (frames s) X n"
  using assms by (auto simp: outside_bits_def unat_gt_0 intro!: apart_bounds)

lemma empty_directory:
  assumes "unat D + 8196 < 2 ^ 32" "unat i < 1024"
  shows "dir_table (store32 (memset D 0 SIZEOF_PG_DIR m) (D + 8192) v) D i = 0"
    "load32 (store32 (memset D 0 SIZEOF_PG_DIR m) (D + 8192) v) (phys_tab_ref D i) = 0"
    "dir_phys (store32 (memset D 0 SIZEOF_PG_DIR m) (D + 8192) v) D = v"
proof -
  note q = times_4 [OF assms(2)]
  have "apart (4 * i) 4 8192 4" using q assms(2) by (intro apart_bounds) simp_all
  then have "apart (D + 8192) 4 (D + 4 * i) 4" by (simp only: apart_same_base) (simp add: apart_sym)
  moreover have "load32 (memset D 0 SIZEOF_PG_DIR m) (D + 4 * i) = 0"
    using q assms(2) by (intro load32_memset_zero) (simp add: SIZEOF_PG_DIR_def)
  ultimately show "load32 (store32 (memset D 0 SIZEOF_PG_DIR m) (D + 8192) v) (phys_tab_ref D i) = 0"
    by (simp add: phys_tab_ref_def load32_store32_apart)
  have u: "unat (4096 + 4 * i) = 4096 + 4 * unat i" using assms(2) times_4 [of i] by (simp add: unat_word_ariths)
  have "apart (4096 + 4 * i) 4 8192 4" using u assms(2) by (intro apart_bounds) simp_all
  then have "apart (D + 8192) 4 (D + (4096 + 4 * i)) 4" by (simp only: apart_same_base) (simp add: apart_sym)
  moreover have "load32 (memset D 0 SIZEOF_PG_DIR m) (D + (4096 + 4 * i)) = 0"
    using u assms(2) by (intro load32_memset_zero) (simp add: SIZEOF_PG_DIR_def)
  ultimately show "dir_table (store32 (memset D 0 SIZEOF_PG_DIR m) (D + 8192) v) D i = 0"
    by (simp add: dir_table_def table_ref_def load32_store32_apart add.assoc)
  show "dir_phys (store32 (memset D 0 SIZEOF_PG_DIR m) (D + 8192) v) D = v" by (simp add: dir_phys_def)
qed

lemma vmm_start:
  assumes "vmm_room s" and D: "D = PG_ROUND_UP (alloc_ptr s)"
  shows "\<exists>s3. (do {
       (dir, phys, s) \<leftarrow> kmalloc_ap SIZEOF_PG_DIR s;
       let m = store32 (memset dir 0 SIZEOF_PG_DIR (ram s)) (dir + 8192) phys;
       let s = s\<lparr>kern_dir := dir, ram := m\<rparr>;
       let (_, s) = set_frame 0 s;
       kheap_pre_init s }) = Some s3 \<and> vmm_ready D s3 \<and> free_frames s3 = free_frames s - {0} \<and>
     frames s3 = frames s \<and>
     console_only (s\<lparr>kern_dir := D, alloc_ptr := D + 0x205C, kheap := D + 0x2004, ram := ram s3\<rparr>) s3"
proof -
  note R = assms(1) [unfolded vmm_room_def]
  have Du: "unat D = unat (alloc_ptr s) - unat (alloc_ptr s) mod 4096 + 4096"
    unfolding D by (rule PG_ROUND_UP_unat) (use R in simp)
  let ?F = "frames s" and ?H = "D + 0x2004"
  have size: "bs_sz (ram s) ?F \<noteq> 0" using R by (auto simp: bs_get_size_def)
  have bound: "unat (alloc_ptr s) \<le> unat D" "unat D + 0x7000 \<le> 0xC0400000" "0xC0000000 \<le> unat D"
    using R Du mod_less_divisor [of 4096 "unat (alloc_ptr s)"] mod_less_eq_dividend [of "unat (alloc_ptr s)" 4096]
    by linarith+
  have H: "unat ?H = unat D + 0x2004" using bound by (subst unat_off) simp_all
  have ap: "apart ?F 8 D 8196" "outside_bits (ram s) ?F D 8196" "apart ?F 8 ?H 88" "outside_bits (ram s) ?F ?H 88"
    using behind_bits [of s D 8196] behind_bits [of s ?H 88] R bound H size by simp_all
  define m1 where "m1 = store32 (memset D 0 SIZEOF_PG_DIR (ram s)) (D + 8192) (V2P D)"
  let ?s1 = "s\<lparr>alloc_ptr := D + 8196, kern_dir := D, ram := m1\<rparr>"
  have k1: "load32 m1 a = load32 (ram s) a" if "apart D 8196 a 4" for a
    using apart_shift_left [OF that, of 8192 4] that
    by (simp add: m1_def load32_store32_apart load32_memset_apart SIZEOF_PG_DIR_def)
  have "load32 (ram ?s1) a = load32 (ram s) a"
    if "a \<in> {?F, ?F + 4} \<or> (\<exists>w. unat w < unat (bs_sz (ram s) ?F) \<and> a = bs_bits (ram s) ?F + 4 * w)" for a
    using k1 bit_words_apart [OF _ ap(1,2) _ that] R by simp
  note f1 = same_frames [of s ?s1, OF _ _ this]
  let ?m2 = "bs_set ?F 0 m1"
  let ?s2 = "?s1\<lparr>ram := ?m2\<rparr>"
  have ok1: "pmm_ok ?s1" using f1(1) R by simp
  have b2: "pmm_ok ?s2" "free_frames ?s2 = free_frames s - {0}" "bs_sz ?m2 ?F = bs_sz (ram s) ?F"
    "bs_bits ?m2 ?F = bs_bits (ram s) ?F"
    using bs_set_pmm_ok [OF ok1, of 0] free_frames_mark [OF ok1, of 0] bs_set_facts(1,2) [OF pmm_ok_bs [OF ok1], of 0] f1(2-4) R
    by simp_all
  have k2: "load32 ?m2 a = load32 m1 a" if "outside_bits (ram s) ?F a 4" for a
    using bits_only_set [OF pmm_ok_bs [OF ok1], of 0] that f1(3,4) R by (simp add: bits_only_def outside_bits_def)
  have e2: "early ?s2" using R by (simp add: early_def)
  obtain s3 where s3: "kheap_pre_init ?s2 = Some s3" "early s3" "kheap s3 = ?H" "alloc_ptr s3 = ?H + 88"
    "heap_start (ram s3) ?H = KHEAP_START" "heap_end (ram s3) ?H = KHEAP_END"
    "\<forall>i<9. heap_bin (ram s3) ?H (word_of_nat i) = ?H + 52 + 4 * word_of_nat i"
    "\<forall>a. apart ?H 52 a 4 \<longrightarrow> load32 (ram s3) a = load32 ?m2 a"
    using kheap_pre_init_early [OF e2] by auto
  note o3 = kheap_pre_init_only [OF e2 s3(1)]
  have fr3: "frames s3 = ?F" "kern_dir s3 = D" by (subst o3, simp)+
  have "load32 (ram s3) a = load32 (ram ?s2) a"
    if "a \<in> {frames ?s2, frames ?s2 + 4} \<or> (\<exists>w. unat w < unat (bs_sz (ram ?s2) (frames ?s2)) \<and>
      a = bs_bits (ram ?s2) (frames ?s2) + 4 * w)" for a
  proof -
    have "apart ?H 88 a 4" by (rule bit_words_apart [OF b2(1) _ _ _ that]) (use ap b2 in \<open>simp_all add: outside_bits_def\<close>)
    then have "apart ?H 52 a 4" by (rule apart_mono) simp_all
    then show ?thesis using s3(8) by simp
  qed
  note f3 = same_frames [OF b2(1) _ this]
  have DH: "apart D 8196 ?H 88" using H bound by (intro apart_bounds) simp_all
  have pos: "0 < 4 * unat (bs_sz (ram s) ?F)" using size by (simp add: unat_gt_0)
  have bits_D: "apart D 8196 (bs_bits (ram s) ?F) (4 * unat (bs_sz (ram s) ?F))"
    using ap(2) by (simp add: outside_bits_def apart_sym)
  have dir: "load32 (ram s3) a = load32 m1 a"
    if "apart a 4 ?H 88" "apart a 4 (bs_bits (ram s) ?F) (4 * unat (bs_sz (ram s) ?F))" for a
    using s3(8) k2 that apart_mono [OF that(1), of 4 52] by (simp add: outside_bits_def apart_sym)
  have t: "dir_table (ram s3) D i = 0" if "unat i < 1024" for i
    using dir [of "table_ref D i"] dir_fields_apart(2) [OF that DH] dir_fields_apart(2) [OF that bits_D pos]
      empty_directory(1) [of D i] bound that
    by (simp add: dir_table_def m1_def)
  have q: "load32 (ram s3) (phys_tab_ref D i) = 0" if "unat i < 1024" for i
    using dir [of "phys_tab_ref D i"] dir_fields_apart(3) [OF that DH] dir_fields_apart(3) [OF that bits_D pos]
      empty_directory(2) [of D i] bound that
    by (simp add: m1_def)
  have p: "dir_phys (ram s3) D = V2P D"
    using dir [of "D + 8192"] apart_shift_left [OF DH, of 8192 4] apart_shift_left [OF bits_D, of 8192 4] pos
    by (simp add: dir_phys_def m1_def)
  have bins: "load32 (ram s3) (D + 0x2038 + 4 * word_of_nat i) = 0" if i: "i < 9" for i
  proof -
    have u: "unat (52 + 4 * word_of_nat i :: u32) = 52 + 4 * i" using i by (simp add: unat_word_ariths unat_of_nat)
    have a: "D + 0x2038 + 4 * word_of_nat i = ?H + (52 + 4 * word_of_nat i)" by (simp add: algebra_simps)
    have "apart 0 52 (52 + 4 * word_of_nat i :: u32) 4" using u i by (intro apart_bounds) simp_all
    then have 1: "apart ?H 52 (?H + (52 + 4 * word_of_nat i)) 4" by (simp only: apart_base_left)
    have 2: "outside_bits (ram s) ?F (?H + (52 + 4 * word_of_nat i)) 4"
      using pos u i unfolding outside_bits_def
      by (intro apart_shift_right [OF ap(4) [unfolded outside_bits_def]]) simp_all
    have 3: "apart D 8196 (?H + (52 + 4 * word_of_nat i)) 4"
      using u i by (intro apart_shift_right [OF DH]) simp_all
    have "load32 (ram s3) (?H + (52 + 4 * word_of_nat i)) = load32 (ram s) (?H + (52 + 4 * word_of_nat i))"
      using s3(8) 1 k2 [OF 2] k1 [OF 3] by simp
    moreover have "load32 (ram s) (D + 0x2038 + 4 * word_of_nat i) = 0" using R i D by simp
    ultimately show ?thesis unfolding a by (simp only:)
  qed
  have bn: "heap_bin (ram s3) ?H (word_of_nat i) = D + 0x2038 + 4 * word_of_nat i" if "i < 9" for i
    using s3(7) that by (simp add: add.assoc)
  have cd: "1281 \<le> card (free_frames s - {0})"
  proof -
    have "1282 \<le> card (free_frames s)" using R by blast
    then show ?thesis using diff_card_le_card_Diff [of "{0}" "free_frames s"] by simp
  qed
  have free: "free_frames s3 = free_frames s - {0}" using f3(2) fr3 b2 by simp
  have sz3: "bs_sz (ram s3) ?F = bs_sz (ram s) ?F" "bs_bits (ram s3) ?F = bs_bits (ram s) ?F"
    using f3(3,4) fr3 b2 by simp_all
  have "vmm_ready D s3"
    unfolding vmm_ready_def
    using s3(2-6) fr3 f3(1) R bound t q p bins bn cd free sz3 PG_ROUND_UP_page [of "alloc_ptr s"] D
    by (simp add: bs_get_size_def)
  moreover have "s\<lparr>kern_dir := D, alloc_ptr := D + 0x205C, kheap := D + 0x2004, ram := ram s3\<rparr> = s3"
  proof -
    have "s3 = s\<lparr>kern_dir := D, alloc_ptr := alloc_ptr s3, kheap := kheap s3, ram := ram s3\<rparr>" using o3 by simp
    moreover have "kheap s3 = D + 0x2004" "alloc_ptr s3 = D + 0x205C" using s3(3,4) by simp_all
    ultimately show ?thesis by metis
  qed
  then have "console_only (s\<lparr>kern_dir := D, alloc_ptr := D + 0x205C, kheap := D + 0x2004, ram := ram s3\<rparr>) s3"
    by (simp only: console_only_refl)
  moreover have "(do {
       (dir, phys, s) \<leftarrow> kmalloc_ap SIZEOF_PG_DIR s;
       let m = store32 (memset dir 0 SIZEOF_PG_DIR (ram s)) (dir + 8192) phys;
       let s = s\<lparr>kern_dir := dir, ram := m\<rparr>;
       let (_, s) = set_frame 0 s;
       kheap_pre_init s }) = Some s3"
  proof -
    have "snd (set_frame 0 (s\<lparr>alloc_ptr := D + SIZEOF_PG_DIR, kern_dir := D, ram := m1\<rparr>)) = ?s2"
      by (simp add: set_frame_state SIZEOF_PG_DIR_def PG_SZ_def)
    then show ?thesis
      using s3(1) R by (simp add: kmalloc_ap_early Let_def case_prod_unfold D [symmetric] m1_def [symmetric])
  qed
  ultimately show ?thesis using free fr3 by (intro exI [of _ s3] conjI) simp_all
qed

end
