(* ===== verification/Vmm_Init.thy ===== *)
theory Vmm_Init
  imports Vmm_Start
begin

text \<open>
  What \<open>vmm_init\<close> of kern/mm/vmm.c builds, from the state \<open>pmm_init\<close> leaves: the directory and the heap
  structure behind the kernel, one page table for the kernel and one for the heap, the mapping of
  both, and the heap as one free block.  The page at 0xC0000000 gets the first free frame, not
  frame 0.
\<close>

section \<open>What a loop keeps\<close>

lemma tabled_keeps:
  assumes t: "tabled D T d fs s s'" and d: "unat d < 1024"
    and a: "apart T 4096 a 4" "apart D 8196 a 4" "outside_bits (ram s) (frames s) a 4"
  shows "load32 (ram s') a = load32 (ram s) a"
  using t a dir_fields_apart(2,3) [OF d a(2)] by (simp add: tabled_def)

lemma tabled_keeps_dir:
  assumes t: "tabled D T d fs s s'" and d: "unat d < 1024"
    and a: "apart D 8196 T 4096" "outside_bits (ram s) (frames s) D 8196" "bs_sz (ram s) (frames s) \<noteq> 0"
  shows "dir_phys (ram s') D = dir_phys (ram s) D"
    "unat i < 1024 \<Longrightarrow> i \<noteq> d \<Longrightarrow> dir_table (ram s') D i = dir_table (ram s) D i"
    "unat i < 1024 \<Longrightarrow> i \<noteq> d \<Longrightarrow> load32 (ram s') (phys_tab_ref D i) = load32 (ram s) (phys_tab_ref D i)"
proof -
  have pos: "0 < 4 * unat (bs_sz (ram s) (frames s))" using a(3) by (simp add: unat_gt_0)
  have b: "apart D 8196 (bs_bits (ram s) (frames s)) (4 * unat (bs_sz (ram s) (frames s)))"
    using a(2) by (simp add: outside_bits_def apart_sym)
  note w = dir_words_apart [of d _ D, OF d]
  show "dir_phys (ram s') D = dir_phys (ram s) D"
    using t apart_shift_left [OF a(1), of 8192 4] apart_shift_left [OF b, of 8192 4] pos w(4,5) [of 0]
    by (simp add: dir_phys_def tabled_def outside_bits_def apart_sym)
  show "dir_table (ram s') D i = dir_table (ram s) D i" if i: "unat i < 1024" "i \<noteq> d"
    using t dir_fields_apart(2) [OF i(1) a(1)] dir_fields_apart(2) [OF i(1) b pos] w(1,3) [OF i(1)] i(2)
    by (simp add: dir_table_def tabled_def outside_bits_def apart_sym)
  show "load32 (ram s') (phys_tab_ref D i) = load32 (ram s) (phys_tab_ref D i)" if i: "unat i < 1024" "i \<noteq> d"
    using t dir_fields_apart(3) [OF i(1) a(1)] dir_fields_apart(3) [OF i(1) b pos] w(2) [OF i(1)]
      dir_words_apart(3) [OF i(1) d] i(2)
    by (simp add: tabled_def outside_bits_def apart_sym)
qed

section \<open>The two tables\<close>

text \<open>How many pages the loop over the kernel maps, and what the two tables get.\<close>

definition kernel_pages :: "u32 \<Rightarrow> nat" where
  "kernel_pages D = (unat D - 0xC0000000) div 4096 + 6"

definition kernel_frames :: "u32 \<Rightarrow> u32 set \<Rightarrow> u32 list" where
  "kernel_frames D A = Min A # map word_of_nat [1..<kernel_pages D]"

definition heap_frames :: "u32 \<Rightarrow> u32 set \<Rightarrow> u32 list" where
  "heap_frames D A = take 257 (sorted_list_of_set (A - set (kernel_frames D A)))"

text \<open>Everything the kernel has allocated lies apart.\<close>

lemma vmm_regions:
  assumes "vmm_ready D s"
  shows "apart D 8196 (D + 0x2004) 88" "apart D 8196 (D + 0x3000) 4096" "apart D 8196 (D + 0x5000) 4096"
    "apart (D + 0x3000) 4096 (D + 0x2004) 88" "apart (D + 0x5000) 4096 (D + 0x2004) 88"
    "apart (D + 0x5000) 4096 (D + 0x3000) 4096"
    "n \<le> 0x6000 \<Longrightarrow> 0 < n \<Longrightarrow> apart KHEAP_START 0x100000 D n"
    "unat c + n \<le> 0x7000 \<Longrightarrow> 0 < n \<Longrightarrow> apart (frames s) 8 (D + c) n"
    "unat c + n \<le> 0x7000 \<Longrightarrow> 0 < n \<Longrightarrow> outside_bits (ram s) (frames s) (D + c) n"
    "bs_sz (ram s) (frames s) \<noteq> 0"
proof -
  note R = assms [unfolded vmm_ready_def]
  show z: "bs_sz (ram s) (frames s) \<noteq> 0" using R by (auto simp: bs_get_size_def)
  have b: "unat D + 0x7000 \<le> 0xC0400000" using R by blast
  have u: "unat (D + c) = unat D + unat c" if "unat c \<le> 0x7000" for c
    using that b by (intro unat_off) simp
  show "apart D 8196 (D + 0x2004) 88" "apart D 8196 (D + 0x3000) 4096" "apart D 8196 (D + 0x5000) 4096"
    using b by (simp_all add: apart_def)
  show "apart (D + 0x3000) 4096 (D + 0x2004) 88" "apart (D + 0x5000) 4096 (D + 0x2004) 88"
    "apart (D + 0x5000) 4096 (D + 0x3000) 4096"
    by (simp_all add: apart_def)
  show "apart KHEAP_START 0x100000 D n" if "n \<le> 0x6000" "0 < n"
    using that b apart_bounds [of D n KHEAP_START 1048576] by (simp add: apart_sym KHEAP_START_def)
  show "apart (frames s) 8 (D + c) n" "outside_bits (ram s) (frames s) (D + c) n" if "unat c + n \<le> 0x7000" "0 < n"
    using behind_bits [of s "D + c" n] u [of c] R that z by simp_all
qed

lemma kernel_pages_bound:
  assumes "vmm_ready D s"
  shows "6 \<le> kernel_pages D" "kernel_pages D < 1024" "unat (D + 0x5000) div 4096 + 1 = 0xC0000 + kernel_pages D"
    "unat D = 0xC0000000 + 4096 * (kernel_pages D - 6)"
proof -
  have b: "unat D + 0x7000 \<le> 0xC0400000" "0xC0000000 \<le> unat D" and m: "D mod PG_SZ = 0"
    using assms by (auto simp: vmm_ready_def)
  have "unat D mod 4096 = 0" using arg_cong [OF m, of unat] by (simp add: unat_mod PG_SZ_def)
  then obtain k where k: "unat D = 4096 * k" by auto
  have u: "unat (D + 0x5000) = unat D + 0x5000" using b by (subst unat_off) simp_all
  have "0xC0000 \<le> k" "k + 7 \<le> 0xC0400" using b k by simp_all
  moreover have "(unat D - 0xC0000000) div 4096 = k - 0xC0000" using k by simp
  moreover have "(4096 * k + 0x5000) div 4096 = k + 5" by simp
  ultimately show "6 \<le> kernel_pages D" "kernel_pages D < 1024"
    "unat (D + 0x5000) div 4096 + 1 = 0xC0000 + kernel_pages D"
    "unat D = 0xC0000000 + 4096 * (kernel_pages D - 6)"
    using u k by (simp_all add: kernel_pages_def)
qed

lemma page_round:
  assumes "vmm_ready D s"
  shows "PG_ROUND_UP (D + 0x205C) = D + 0x3000" "PG_ROUND_UP (D + 0x4000) = D + 0x5000"
proof -
  have b: "unat D + 0x7000 \<le> 0xC0400000" using assms(1) by (auto simp: vmm_ready_def)
  obtain k where k: "unat D = 4096 * k"
  proof
    show "unat D = 4096 * (0xC0000 + (kernel_pages D - 6))" using kernel_pages_bound(4) [OF assms(1)] by simp
  qed
  have u: "unat (D + c) = unat D + unat c" if "unat c \<le> 0x7000" for c
    using that b by (intro unat_off) simp
  have "unat (PG_ROUND_UP (D + 0x205C)) = unat (D + 0x3000)" "unat (PG_ROUND_UP (D + 0x4000)) = unat (D + 0x5000)"
    using b k by (simp_all add: PG_ROUND_UP_unat u)
  then show "PG_ROUND_UP (D + 0x205C) = D + 0x3000" "PG_ROUND_UP (D + 0x4000) = D + 0x5000"
    by (simp_all only: word_unat_eq_iff)
qed

lemma tabled_fields:
  assumes "tabled D T d fs s s'"
  shows "frames s' = frames s" "kern_dir s' = kern_dir s" "alloc_ptr s' = T + 4096" "early s' = early s" "pmm_ok s'"
    "kheap s' = kheap s" "handlers s' = handlers s" "free_frames s' = free_frames s - set fs"
    "bs_sz (ram s') (frames s) = bs_sz (ram s) (frames s)" "bs_bits (ram s') (frames s) = bs_bits (ram s) (frames s)"
    "dir_table (ram s') D d = T" "load32 (ram s') (phys_tab_ref D d) = V2P T OR 7"
  using assms console_only_pmm [of "s\<lparr>alloc_ptr := T + 4096, ram := ram s'\<rparr>" s']
  by (simp_all add: tabled_def early_def)

lemma vmm_loops:
  assumes r: "vmm_ready D s" and A: "A = free_frames s"
  shows "\<exists>s4 s5. map_kernel (P2V 0) s = Some s4 \<and> tabled D (D + 0x3000) 768 (kernel_frames D A) s s4 \<and>
    map_heap KHEAP_START s4 = Some s5 \<and> tabled D (D + 0x5000) 832 (heap_frames D A) s4 s5"
proof -
  note R = r [unfolded vmm_ready_def] and reg = vmm_regions [OF r] and n = kernel_pages_bound [OF r]
  have big: "0xC0000000 \<le> unat D" "unat D + 0x7000 \<le> 0xC0400000" using R by blast+
  have u: "unat (D + c) = unat D + unat c" if "unat c \<le> 0x7000" for c
    using that big by (intro unat_off) simp
  have ne: "D + c \<noteq> 0" if "unat c \<le> 0x7000" for c using u [OF that] big by auto
  have at: "apart (frames s) 8 (D + c) n \<and> outside_bits (ram s) (frames s) (D + c) n"
    if "unat c + n \<le> 0x7000" "0 < n" for c n
    using reg(8,9) that by blast
  have room: "table_room D (D + 0x3000) 768 s"
    unfolding table_room_def using R page_round(1) [OF r] reg(2) ne [of "0x3000"] at [of "0x3000" 4096] at [of 0 8196]
      card.empty
    by auto
  have w: "word_of_nat (kernel_pages D) < bs_get_size (ram s) (frames s)"
  proof -
    have "word_of_nat (kernel_pages D) < (1024 :: u32)"
      using n(2) small_words [OF n(2)] by (simp add: word_less_nat_alt)
    then show ?thesis using R by (meson order_less_le_trans)
  qed
  have "0xC0000000 \<le> alloc_ptr s + 0x1000"
    using R u [of "0x305C"] big by (simp add: word_le_nat_alt add.assoc)
  from map_kernel_all [OF room _ n(2) _ this w] n obtain s4 where
    s4: "map_kernel (P2V 0) s = Some s4" "tabled D (D + 0x3000) 768 (kernel_frames D A) s s4"
    by (auto simp: kernel_frames_def A add.assoc)
  note f4 = tabled_fields [OF s4(2)]
  have k: "dir_table (ram s4) D 832 = 0"
    using tabled_keeps_dir(2) [OF s4(2) _ reg(2) _ reg(10), of 832] at [of 0 8196] by simp (use R in simp)
  have "card (set (kernel_frames D A)) \<le> 1024"
    using card_length [of "kernel_frames D A"] n by (simp add: kernel_frames_def)
  moreover have "1281 \<le> card (free_frames s)" using R by blast
  ultimately have c: "257 \<le> card (free_frames s4)"
    using diff_card_le_card_Diff [of "set (kernel_frames D A)" "free_frames s"] f4(8) by simp
  then have ne4: "free_frames s4 \<noteq> {}" by auto
  have "table_room D (D + 0x5000) 832 s4"
    unfolding table_room_def outside_bits_def f4(1-4,9,10)
    using R f4(5) k page_round(2) [OF r] reg(3) at [of 0 8196] at [of "0x5000" 4096] ne [of "0x5000"] ne4
    by (auto simp: outside_bits_def add.assoc)
  from map_heap_all [OF this c] s4 show ?thesis
    by (auto simp: heap_frames_def A f4(8))
qed

section \<open>The memory at the end\<close>

text \<open>What the two tables of the directory \<open>D\<close> hold; every other entry of the directory is null.\<close>

definition vmm_tables :: "u32 \<Rightarrow> u32 list \<Rightarrow> u32 list \<Rightarrow> mem \<Rightarrow> bool" where
  "vmm_tables D ks hs m \<longleftrightarrow> dir_phys m D = V2P D \<and>
     dir_table m D 768 = D + 0x3000 \<and> load32 m (phys_tab_ref D 768) = V2P (D + 0x3000) OR 7 \<and>
     dir_table m D 832 = D + 0x5000 \<and> load32 m (phys_tab_ref D 832) = V2P (D + 0x5000) OR 7 \<and>
     (\<forall>i. unat i < 1024 \<longrightarrow> i \<noteq> 768 \<longrightarrow> i \<noteq> 832 \<longrightarrow>
        dir_table m D i = 0 \<and> load32 m (phys_tab_ref D i) = 0) \<and>
     (\<forall>j<length ks. page_fields m (page_ref (D + 0x3000) (word_of_nat j)) = (1, 1, 0, ks ! j)) \<and>
     (\<forall>j<1024. length ks \<le> j \<longrightarrow> load32 m (page_ref (D + 0x3000) (word_of_nat j)) = 0) \<and>
     (\<forall>j<length hs. page_fields m (page_ref (D + 0x5000) (word_of_nat j)) = (1, 1, 0, hs ! j)) \<and>
     (\<forall>j<1024. length hs \<le> j \<longrightarrow> load32 m (page_ref (D + 0x5000) (word_of_nat j)) = 0)"

text \<open>The words of the directory and the two tables decide it.\<close>

lemma vmm_tables_cong:
  assumes "vmm_tables D ks hs m" "length ks \<le> 1024" "length hs \<le> 1024"
    and "\<And>a. apart a 4 (D + 0x2004) 88 \<Longrightarrow> apart KHEAP_START 0x100000 a 4 \<Longrightarrow> load32 m' a = load32 m a"
    and "apart D 8196 (D + 0x2004) 88" "\<And>n c. unat c + n \<le> 0x6000 \<Longrightarrow> 0 < n \<Longrightarrow> apart KHEAP_START 0x100000 (D + c) n"
  shows "vmm_tables D ks hs m'"
proof -
  have k: "load32 m' (D + c) = load32 m (D + c)"
    if "unat c + 4 \<le> 0x2004 \<or> 0x205C \<le> unat c \<and> unat c + 4 \<le> 0x6000" for c
    using that by (intro assms(4) assms(6)) (auto simp: intro!: apart_bounds2)
  have t: "load32 m' (D + c + 4 * word_of_nat j) = load32 m (D + c + 4 * word_of_nat j)"
    if "j < 1024" "unat c \<le> 0x1000 \<or> 0x205C \<le> unat c \<and> unat c \<le> 0x5000" for c j
  proof -
    have "unat (4 * word_of_nat j :: u32) = 4 * j"
      using times_4 [of "word_of_nat j"] small_words [OF that(1)] that(1) by simp
    then have "unat (c + 4 * word_of_nat j) = unat c + 4 * j"
      using that by (subst unat_off) auto
    then show ?thesis unfolding add.assoc by (intro k) (use that in linarith)
  qed
  have w: "load32 m' (phys_tab_ref D i) = load32 m (phys_tab_ref D i)" "load32 m' (table_ref D i) = load32 m (table_ref D i)"
    if "unat i < 1024" for i
    using t [OF that, of 0] t [OF that, of "0x1000"] that by (simp_all add: phys_tab_ref_def table_ref_def)
  have p: "load32 m' (page_ref (D + c) (word_of_nat j)) = load32 m (page_ref (D + c) (word_of_nat j))"
    if "j < 1024" "c = 0x3000 \<or> c = 0x5000" for c j
    using t [OF that(1), of c] that(2) by (auto simp: page_ref_def)
  note e = entry_cong [OF p]
  show ?thesis
    using assms(1) k [of "0x2000"] w p unfolding vmm_tables_def dir_phys_def dir_table_def
    using e assms(2,3) by simp
qed

lemma loops_keep:
  assumes r: "vmm_ready D s" and t: "tabled D (D + 0x3000) 768 ks s s4" "tabled D (D + 0x5000) 832 hs s4 s5"
  shows "unat c + 4 \<le> 0x6000 \<Longrightarrow> apart (D + 0x5000) 4096 (D + c) 4 \<Longrightarrow> apart D 8196 (D + c) 4 \<Longrightarrow>
      load32 (ram s5) (D + c) = load32 (ram s4) (D + c)"
    "unat c + 4 \<le> 0x6000 \<Longrightarrow> apart (D + 0x5000) 4096 (D + c) 4 \<Longrightarrow> apart D 8196 (D + c) 4 \<Longrightarrow>
      apart (D + 0x3000) 4096 (D + c) 4 \<Longrightarrow> load32 (ram s5) (D + c) = load32 (ram s) (D + c)"
proof -
  note f4 = tabled_fields [OF t(1)]
  have o: "outside_bits (ram s) (frames s) (D + c) 4" "outside_bits (ram s4) (frames s4) (D + c) 4"
    if "unat c + 4 \<le> 0x6000" for c
    using vmm_regions(9) [OF r, of c 4] that f4 by (simp_all add: outside_bits_def)
  show 1: "load32 (ram s5) (D + c) = load32 (ram s4) (D + c)"
    if "unat c + 4 \<le> 0x6000" "apart (D + 0x5000) 4096 (D + c) 4" "apart D 8196 (D + c) 4" for c
    using tabled_keeps [OF t(2) _ that(2,3)] o that(1) by simp
  show "load32 (ram s5) (D + c) = load32 (ram s) (D + c)"
    if "unat c + 4 \<le> 0x6000" "apart (D + 0x5000) 4096 (D + c) 4" "apart D 8196 (D + c) 4"
      "apart (D + 0x3000) 4096 (D + c) 4" for c
    using 1 [OF that(1-3)] tabled_keeps [OF t(1) _ that(4,3)] o that(1) by simp
qed

lemma loops_tables:
  assumes r: "vmm_ready D s" and t: "tabled D (D + 0x3000) 768 ks s s4" "tabled D (D + 0x5000) 832 hs s4 s5"
    and l: "length ks \<le> 1024" "length hs \<le> 1024"
  shows "vmm_tables D ks hs (ram s5)"
proof -
  note f4 = tabled_fields [OF t(1)] and f5 = tabled_fields [OF t(2)] and reg = vmm_regions [OF r]
  have o: "outside_bits (ram s) (frames s) D 8196" "outside_bits (ram s4) (frames s4) D 8196"
    "bs_sz (ram s4) (frames s4) \<noteq> 0"
    using reg(9) [of 0 8196] reg(10) f4 by (simp_all add: outside_bits_def)
  have d: "unat (768 :: u32) < 1024" "unat (832 :: u32) < 1024" by simp_all
  note k4 = tabled_keeps_dir [OF t(1) d(1) reg(2) o(1) reg(10)] and k5 = tabled_keeps_dir [OF t(2) d(2) reg(3) o(2,3)]
  have p: "load32 (ram s5) (page_ref (D + 0x3000) (word_of_nat j)) = load32 (ram s4) (page_ref (D + 0x3000) (word_of_nat j))"
    if "j < 1024" for j
  proof -
    have "unat (4 * word_of_nat j :: u32) = 4 * j"
      using times_4 [of "word_of_nat j"] small_words [OF that] that by simp
    then have u: "unat (0x3000 + 4 * word_of_nat j :: u32) = 0x3000 + 4 * j"
      using that by (subst unat_off) auto
    have "apart 0x5000 4096 (0x3000 + 4 * word_of_nat j) 4" "apart 0 8196 (0x3000 + 4 * word_of_nat j) 4"
      using u that by (auto intro!: apart_bounds2)
    then have "load32 (ram s5) (D + (0x3000 + 4 * word_of_nat j)) = load32 (ram s4) (D + (0x3000 + 4 * word_of_nat j))"
      using u that by (intro loops_keep(1) [OF r t]) simp_all
    then show ?thesis by (simp add: page_ref_def add.assoc)
  qed
  have e: "page_fields (ram s5) (page_ref (D + 0x3000) (word_of_nat j)) = page_fields (ram s4) (page_ref (D + 0x3000) (word_of_nat j))"
    if "j < 1024" for j
    by (rule entry_cong [OF p [OF that]])
  have z: "\<forall>i. unat i < 1024 \<longrightarrow> dir_table (ram s) D i = 0 \<and> load32 (ram s) (phys_tab_ref D i) = 0"
    "dir_phys (ram s) D = V2P D"
    using r by (simp_all add: vmm_ready_def)
  show ?thesis
    unfolding vmm_tables_def
    using t [unfolded tabled_def] f4(11,12) f5(11,12) k4 k5 d z p e l by simp
qed

lemma loops_heap:
  assumes r: "vmm_ready D s" and t: "tabled D (D + 0x3000) 768 ks s s4" "tabled D (D + 0x5000) 832 hs s4 s5"
  shows "empty_heap (ram s5) (D + 0x2004)" "i < 9 \<Longrightarrow> bin_at (ram s5) (D + 0x2004) i = D + 0x2004 + (52 + 4 * word_of_nat i)"
proof -
  have k: "load32 (ram s5) (D + c) = load32 (ram s) (D + c)" if "0x2004 \<le> unat c" "unat c + 4 \<le> 0x3000" for c
    by (rule loops_keep(2) [OF r t]) (use that in \<open>auto intro!: apart_bounds2\<close>)
  have b: "unat (4 * word_of_nat i :: u32) = 4 * i" if "i < 9" for i
    using times_4 [of "word_of_nat i"] small_words [of i] that by simp
  have c: "unat (0x2004 + c + 4 * word_of_nat i :: u32) = 0x2004 + unat c + 4 * i" if "i < 9" "unat c \<le> 0x100" for i c
  proof -
    have "unat (0x2004 + c) = 0x2004 + unat c" using that by (subst unat_off) auto
    then show ?thesis using b [OF that(1)] that by (subst unat_off) auto
  qed
  note R = r [unfolded vmm_ready_def]
  have hb: "bin_at (ram s5) (D + 0x2004) i = D + 0x2038 + 4 * word_of_nat i" if "i < 9" for i
  proof -
    have "load32 (ram s5) (D + (0x2004 + 16 + 4 * word_of_nat i)) = load32 (ram s) (D + (0x2004 + 16 + 4 * word_of_nat i))"
      using c [OF that, of 16] that by (intro k) simp_all
    then have "heap_bin (ram s5) (D + 0x2004) (word_of_nat i) = heap_bin (ram s) (D + 0x2004) (word_of_nat i)"
      by (simp add: heap_bin_def add.assoc)
    then show ?thesis using R that by (simp add: bin_at_def)
  qed
  then show ba: "bin_at (ram s5) (D + 0x2004) i = D + 0x2004 + (52 + 4 * word_of_nat i)" if "i < 9" for i
    using that by (simp add: add.assoc)
  have hd: "bin_head (ram s5) (bin_at (ram s5) (D + 0x2004) i) = 0" if "i < 9" for i
  proof -
    have "load32 (ram s5) (D + (0x2004 + 52 + 4 * word_of_nat i)) = load32 (ram s) (D + (0x2004 + 52 + 4 * word_of_nat i))"
      using c [OF that, of 52] that by (intro k) simp_all
    then show ?thesis using R that hb [OF that] by (simp add: bin_head_def add.assoc)
  qed
  have se: "heap_start (ram s5) (D + 0x2004) = KHEAP_START" "heap_end (ram s5) (D + 0x2004) = KHEAP_END"
    using k [of "0x2004"] k [of "0x2008"] R by (simp_all add: heap_start_def heap_end_def add.assoc)
  have sz: "heap_size (ram s5) (D + 0x2004) = 0x100000"
    by (simp add: heap_size_def se KHEAP_START_def KHEAP_END_def)
  have H: "apart KHEAP_START 0x100000 (D + 0x2004) 88"
  proof -
    have "apart KHEAP_START 0x100000 D 0x6000" by (rule vmm_regions(7) [OF r]) simp_all
    then show ?thesis by (rule apart_shift_right) simp_all
  qed
  have bb: "apart (52 + 4 * word_of_nat i :: u32) 4 0 52" "apart KHEAP_START 0x100000 (D + 0x2004 + (52 + 4 * word_of_nat i)) 4"
    "j < 9 \<Longrightarrow> i \<noteq> j \<Longrightarrow> apart (52 + 4 * word_of_nat i :: u32) 4 (52 + 4 * word_of_nat j) 4" if "i < 9" for i j
  proof -
    have u: "unat (52 + 4 * word_of_nat i :: u32) = 52 + 4 * i" if "i < 9" for i
      using b [OF that] that by (subst unat_off) auto
    show "apart (52 + 4 * word_of_nat i :: u32) 4 0 52"
      by (rule apart_bounds2) (use u [OF that] that in simp_all)
    show "apart KHEAP_START 0x100000 (D + 0x2004 + (52 + 4 * word_of_nat i)) 4"
      by (rule apart_shift_right [OF H]) (use u [OF that] that in simp_all)
    show "apart (52 + 4 * word_of_nat i :: u32) 4 (52 + 4 * word_of_nat j) 4" if "j < 9" "i \<noteq> j"
    proof (rule apart_bounds2)
      show "unat (52 + 4 * word_of_nat i :: u32) + 4 \<le> unat (52 + 4 * word_of_nat j :: u32) \<or>
          unat (52 + 4 * word_of_nat j :: u32) + 4 \<le> unat (52 + 4 * word_of_nat i :: u32)"
        unfolding u [OF \<open>i < 9\<close>] u [OF that(1)] using that by linarith
      show "unat (52 + 4 * word_of_nat i :: u32) + 4 \<le> 2 ^ 32" "unat (52 + 4 * word_of_nat j :: u32) + 4 \<le> 2 ^ 32"
        unfolding u [OF \<open>i < 9\<close>] u [OF that(1)] using that \<open>i < 9\<close> by simp_all
    qed simp_all
  qed
  have l: "heap_layout (ram s5) h" if h: "h = D + 0x2004" for h
  proof -
    have "apart KHEAP_START 0x100000 h 52" using H h apart_mono [OF H, of 1048576 52] by simp
    moreover have "apart KHEAP_START 0x100000 (h + (52 + 4 * word_of_nat i)) 4" if "i < 9" for i
      using bb(2) [OF that] unfolding h .
    moreover have "bin_at (ram s5) h i = h + (52 + 4 * word_of_nat i)" if "i < 9" for i
      using ba [OF that] unfolding h .
    ultimately show ?thesis
      unfolding heap_layout_def sz [folded h] se [folded h] using bb(1,3)
      by (simp add: KHEAP_START_def KHEAP_END_def apart_sym)
  qed
  show "empty_heap (ram s5) (D + 0x2004)" using l [OF refl] se hd by (simp add: empty_heap_def)
qed

lemma bin_offset: "i < 9 \<Longrightarrow> unat (52 + 4 * word_of_nat i :: u32) = 52 + 4 * i"
  using times_4 [of "word_of_nat i"] small_words [of i] by (subst unat_off) auto

section \<open>vmm\_init as a whole\<close>

lemma vmm_init_split:
  "vmm_init s = do {
     s \<leftarrow> do {
       (dir, phys, s) \<leftarrow> kmalloc_ap SIZEOF_PG_DIR s;
       let m = store32 (memset dir 0 SIZEOF_PG_DIR (ram s)) (dir + 8192) phys;
       let s = s\<lparr>kern_dir := dir, ram := m\<rparr>;
       let (_, s) = set_frame 0 s;
       kheap_pre_init s };
     s \<leftarrow> map_kernel (P2V 0) s;
     s \<leftarrow> map_heap KHEAP_START s;
     kheap_init (s\<lparr>handlers := (handlers s)[14 := Some Page_fault], cr3 := dir_phys (ram s) (kern_dir s),
       cr0 := cr0 s OR 0x80000000, current_dir := kern_dir s\<rparr>) }"
  by (cases "kmalloc_ap SIZEOF_PG_DIR s")
    (simp_all add: vmm_init_def Let_def split_def add_int_handler_def switch_page_directory_def)

lemma vmm_init_effect:
  assumes room: "vmm_room s" and D: "D = PG_ROUND_UP (alloc_ptr s)" and A: "A = free_frames s - {0}"
  shows "\<exists>s'. vmm_init s = Some s' \<and> kern_dir s' = D \<and> current_dir s' = D \<and> cr3 s' = V2P D \<and>
    cr0 s' = cr0 s OR 0x80000000 \<and> handlers s' = (handlers s)[14 := Some Page_fault] \<and>
    alloc_ptr s' = D + 0x6000 \<and> kheap s' = D + 0x2004 \<and> kheap_initialized s' = 1 \<and> frames s' = frames s \<and>
    pmm_ok s' \<and> free_frames s' = A - set (kernel_frames D A) - set (heap_frames D A) \<and>
    vmm_tables D (kernel_frames D A) (heap_frames D A) (ram s') \<and>
    heap_inv (ram s') (kheap s') [KHEAP_START] only_free \<and> heap_end (ram s') (kheap s') = KHEAP_END"
proof -
  obtain s3 where s3: "(do {
       (dir, phys, s) \<leftarrow> kmalloc_ap SIZEOF_PG_DIR s;
       let m = store32 (memset dir 0 SIZEOF_PG_DIR (ram s)) (dir + 8192) phys;
       let s = s\<lparr>kern_dir := dir, ram := m\<rparr>;
       let (_, s) = set_frame 0 s;
       kheap_pre_init s }) = Some s3" "vmm_ready D s3" "free_frames s3 = A" "frames s3 = frames s"
    "console_only (s\<lparr>kern_dir := D, alloc_ptr := D + 0x205C, kheap := D + 0x2004, ram := ram s3\<rparr>) s3"
    using vmm_start [OF room D] A by blast
  note r = s3(2) and f3 = console_only_pmm [OF s3(5)]
  obtain s4 s5 where s4: "map_kernel (P2V 0) s3 = Some s4" and t4: "tabled D (D + 0x3000) 768 (kernel_frames D A) s3 s4"
    and s5: "map_heap KHEAP_START s4 = Some s5" and t5: "tabled D (D + 0x5000) 832 (heap_frames D A) s4 s5"
    using vmm_loops [OF r s3(3) [symmetric]] by blast
  note f4 = tabled_fields [OF t4] and f5 = tabled_fields [OF t5]
  have l: "length (kernel_frames D A) \<le> 1024" "length (heap_frames D A) \<le> 1024"
    using kernel_pages_bound(2) [OF r] by (simp_all add: kernel_frames_def heap_frames_def)
  have kd: "kern_dir s3 = D" "kheap s3 = D + 0x2004" using r by (simp_all add: vmm_ready_def)
  have cr: "cr0 s5 = cr0 s" using s3(5) t4 t5 by (simp add: tabled_def console_only_def)
  have vt: "vmm_tables D (kernel_frames D A) (heap_frames D A) (ram s5)" by (rule loops_tables [OF r t4 t5 l])
  let ?u = "s5\<lparr>handlers := (handlers s5)[14 := Some Page_fault], cr3 := dir_phys (ram s5) (kern_dir s5),
       cr0 := cr0 s5 OR 0x80000000, current_dir := kern_dir s5\<rparr>"
  have "empty_heap (ram ?u) (kheap ?u)" using loops_heap(1) [OF r t4 t5] kd f4 f5 by simp
  from kheap_init_ok [OF this] obtain m where m: "kheap_init ?u = Some (?u\<lparr>ram := m, kheap_initialized := 1\<rparr>)"
    "heap_inv m (kheap ?u) [KHEAP_START] only_free" "heap_end m (kheap ?u) = KHEAP_END"
    "\<forall>a. apart KHEAP_START 0x100000 a 4 \<longrightarrow> (\<forall>i<9. apart (bin_at (ram ?u) (kheap ?u) i) 4 a 4) \<longrightarrow>
       load32 m a = load32 (ram ?u) a" by blast
  have k: "load32 m a = load32 (ram s5) a" if "apart a 4 (D + 0x2004) 88" "apart KHEAP_START 0x100000 a 4" for a
  proof -
    have "apart (bin_at (ram s5) (D + 0x2004) i) 4 a 4" if "i < 9" for i
      unfolding loops_heap(2) [OF r t4 t5 that]
      by (rule apart_shift_left [OF \<open>apart a 4 (D + 0x2004) 88\<close> [unfolded apart_sym [of a]]])
        (use bin_offset [OF that] that in simp_all)
    then show ?thesis using m(4) that(2) kd f4 f5 by simp
  qed
  have "vmm_tables D (kernel_frames D A) (heap_frames D A) m"
  proof (rule vmm_tables_cong [OF vt l k vmm_regions(1) [OF r]])
    show "apart KHEAP_START 0x100000 (D + c) n" if "unat c + n \<le> 0x6000" "0 < n" for c n
      by (rule apart_shift_right [OF vmm_regions(7) [OF r, of 24576]]) (use that in simp_all)
  qed
  moreover
  let ?s' = "?u\<lparr>ram := m, kheap_initialized := 1\<rparr>"
  have "load32 (ram ?s') a = load32 (ram s5) a"
    if w: "a \<in> {frames s5, frames s5 + 4} \<or> (\<exists>w. unat w < unat (bs_sz (ram s5) (frames s5)) \<and>
      a = bs_bits (ram s5) (frames s5) + 4 * w)" for a
  proof -
    have z: "bs_sz (ram s3) (frames s3) \<noteq> 0" by (rule vmm_regions(10) [OF r])
    have b: "apart (frames s5) 8 X n" "outside_bits (ram s5) (frames s5) X n"
      if "unat D \<le> unat X" "unat X + n \<le> 2 ^ 32" "0 < n" for X n
      using behind_bits [of s3 X n] r that z f4 f5 by (simp_all add: vmm_ready_def outside_bits_def)
    have H: "unat D \<le> unat (D + 0x2004)" "unat (D + 0x2004) + 88 \<le> 2 ^ 32" "unat D \<le> unat KHEAP_START"
      using r unat_off [of D "0x2004"] by (simp_all add: vmm_ready_def KHEAP_START_def)
    have "apart (D + 0x2004) 88 a 4" by (rule bit_words_apart [OF f5(5) b(1,2) _ w]) (use H in simp_all)
    moreover have "apart KHEAP_START 0x100000 a 4"
      by (rule bit_words_apart [OF f5(5) b(1,2) _ w]) (use H in \<open>simp_all add: KHEAP_START_def\<close>)
    ultimately show ?thesis using k by (simp add: apart_sym)
  qed
  note fr = same_frames [OF f5(5) _ this]
  moreover have "cr3 ?s' = V2P D" using vt f4 f5 kd by (simp add: vmm_tables_def)
  moreover have "vmm_init s = Some ?s'"
    unfolding vmm_init_split s3(1) using s4 s5 m(1) by simp
  ultimately show ?thesis
    using m(2,3) f3 f4 f5 kd cr s3(3,4)
    by (intro exI [of _ ?s']) (simp add: add.assoc)
qed

section \<open>The address space\<close>

text \<open>Pages \<open>ks\<close> from 0xC0000000 on and pages \<open>hs\<close> from 0xD0000000 on, and nothing else.\<close>

definition two_ranges :: "u32 list \<Rightarrow> u32 list \<Rightarrow> u32 \<Rightarrow> u32 option" where
  "two_ranges ks hs va =
     (let j = unat (va div PG_SZ) in
      if 0xC0000 \<le> j \<and> j < 0xC0000 + length ks then Some (ks ! (j - 0xC0000) * PG_SZ + va mod PG_SZ)
      else if 0xD0000 \<le> j \<and> j < 0xD0000 + length hs then Some (hs ! (j - 0xD0000) * PG_SZ + va mod PG_SZ)
      else None)"

lemma table_index_unat:
  "unat (PD_IDX va) = unat va div 4194304" "unat (PT_IDX va) = unat va div 4096 mod 1024"
  "unat (va div PG_SZ) = 1024 * unat (PD_IDX va) + unat (PT_IDX va)"
proof -
  have u: "unat (drop_bit 22 va) = unat va div 4194304" "unat (drop_bit 12 va) = unat va div 4096"
    by (simp_all add: drop_bit_eq_div unat_div)
  show d: "unat (PD_IDX va) = unat va div 4194304" using unat_PD_IDX [of va] by simp
  show i: "unat (PT_IDX va) = unat va div 4096 mod 1024"
    by (simp add: PT_IDX_def and_masks take_bit_eq_mod unat_mod u)
  have "unat va div 4194304 = unat va div 4096 div 1024" by (simp add: div_mult2_eq [symmetric])
  then show "unat (va div PG_SZ) = 1024 * unat (PD_IDX va) + unat (PT_IDX va)"
    unfolding d i by (simp add: unat_div PG_SZ_def)
qed

lemma mapped_entry:
  assumes "page_fields m p = (1, 1, 0, f)"
  shows "bit (load32 m p) 0" "load32 m p AND 0xfffff000 = f * PG_SZ"
proof -
  have f: "pg_present m p = 1" "f = take_bit 20 (drop_bit 12 (load32 m p))"
    using assms by (simp_all add: page_fields_def pg_addr_def get_field_def)
  show "bit (load32 m p) 0"
    using f(1) by (simp add: pg_present_def get_field_def bit_0 odd_iff_mod_2_eq_one take_bit_eq_mod)
  have "drop_bit 12 (load32 m p) = f"
    unfolding f(2) by (rule bit_word_eqI) (auto simp: bit_simps dest: bit_imp_le_length)
  then show "load32 m p AND 0xfffff000 = f * PG_SZ"
    by (simp add: and_page_mask push_bit_eq_mult PG_SZ_def mult.commute)
qed

lemma aligned_add:
  fixes x :: u32
  assumes "x mod PG_SZ = 0" "c mod PG_SZ = 0"
  shows "(x + c) mod PG_SZ = 0"
proof -
  have e: "unat y mod 4096 = 0 \<longleftrightarrow> y mod PG_SZ = 0" for y :: u32
    by (simp add: word_unat_eq_iff unat_mod PG_SZ_def)
  have "(4096 :: nat) dvd 2 ^ LENGTH(32)" by (simp add: dvd_eq_mod_eq_0)
  then have "unat (x + c) mod 4096 = (unat x + unat c) mod 4096"
    unfolding unat_word_ariths(1) by (rule mod_mod_cancel)
  also have "\<dots> = 0"
    using assms unfolding e [symmetric] dvd_eq_mod_eq_0 [symmetric] by (rule dvd_add)
  finally show ?thesis by (simp only: e)
qed

lemma table_entry:
  assumes "T mod PG_SZ = 0"
  shows "bit (V2P T OR 7) 0" "\<not> bit (V2P T OR 7) 7" "P2V ((V2P T OR 7) AND 0xfffff000) = T"
proof -
  have "V2P T mod PG_SZ = 0"
    using aligned_add [OF assms, of "- KERN_OFFSET"] by (simp add: V2P_def KERN_OFFSET_def PG_SZ_def)
  then have "take_bit 12 (V2P T) = 0" by (simp add: mod_page)
  then have b: "\<not> bit (V2P T) i" if "i < 12" for i
    using that by (metis bit_0_eq bit_take_bit_iff bot_apply bot_bool_def)
  have b7: "bit (7 :: u32) i \<longleftrightarrow> i < 3" for i
  proof -
    have "(7 :: u32) = mask 3" by (simp add: mask_eq_exp_minus_1)
    then show ?thesis by (simp only: bit_mask_iff) (auto simp: exp_eq_zero_iff)
  qed
  show "bit (V2P T OR 7) 0" "\<not> bit (V2P T OR 7) 7" using b [of 7] b7 by (simp_all add: bit_or_iff)
  have "(V2P T OR 7) AND 0xfffff000 = V2P T AND 0xfffff000"
    unfolding and_page_mask by (rule bit_word_eqI) (auto simp: bit_simps b7)
  then show "P2V ((V2P T OR 7) AND 0xfffff000) = T"
    using directory_base [OF assms] by (simp add: V2P_def)
qed

lemma translate_tables:
  assumes t: "vmm_tables D ks hs (ram s)" "length ks \<le> 1024" "length hs \<le> 1024" "D mod PG_SZ = 0"
    and c: "cr3 s = V2P D" "bit (cr0 s) 31"
  shows "translate cr4 s va = two_ranges ks hs va"
proof -
  let ?d = "PD_IDX va" and ?i = "PT_IDX va"
  note b = table_index_bound [of va]
  note j = table_index_unat(3) [of va]
  have i: "word_of_nat (unat ?i) = ?i" by simp
  have T: "(D + 0x3000) mod PG_SZ = 0" "(D + 0x5000) mod PG_SZ = 0"
    using aligned_add [OF t(4)] by (simp_all add: PG_SZ_def)
  have w: "translate cr4 s va =
      (let pde = load32 (ram s) (phys_tab_ref D ?d);
           pte = load32 (ram s) (page_ref (P2V (pde AND 0xfffff000)) ?i)
       in if \<not> bit pde 0 then None
          else if bit pde 7 \<and> bit cr4 4 then Some ((pde AND 0xffc00000) + (va AND 0x3fffff))
          else if bit pte 0 then Some ((pte AND 0xfffff000) + va mod PG_SZ) else None)"
    using c directory_base [OF t(4)] by (simp add: translate_def Let_def V2P_def phys_tab_ref_def page_ref_def)
  consider "?d = 768" | "?d = 832" | "?d \<noteq> 768" "?d \<noteq> 832" by blast
  then show ?thesis
  proof cases
    case 1
    have "two_ranges ks hs va = (if unat ?i < length ks then Some (ks ! unat ?i * PG_SZ + va mod PG_SZ) else None)"
      using j b(2) t(2) by (simp add: two_ranges_def 1 Let_def)
    moreover have "page_fields (ram s) (page_ref (D + 0x3000) ?i) = (1, 1, 0, ks ! unat ?i)" if "unat ?i < length ks"
      using t(1) that unfolding vmm_tables_def by (metis i)
    moreover have "load32 (ram s) (page_ref (D + 0x3000) ?i) = 0" if "\<not> unat ?i < length ks"
      using t(1) that b(2) unfolding vmm_tables_def by (metis i not_less)
    ultimately show ?thesis
      using t(1) mapped_entry table_entry [OF T(1)] by (auto simp: w 1 vmm_tables_def Let_def)
  next
    case 2
    have "two_ranges ks hs va = (if unat ?i < length hs then Some (hs ! unat ?i * PG_SZ + va mod PG_SZ) else None)"
      using j b(2) t(2,3) by (simp add: two_ranges_def 2 Let_def)
    moreover have "page_fields (ram s) (page_ref (D + 0x5000) ?i) = (1, 1, 0, hs ! unat ?i)" if "unat ?i < length hs"
      using t(1) that unfolding vmm_tables_def by (metis i)
    moreover have "load32 (ram s) (page_ref (D + 0x5000) ?i) = 0" if "\<not> unat ?i < length hs"
      using t(1) that b(2) unfolding vmm_tables_def by (metis i not_less)
    ultimately show ?thesis
      using t(1) mapped_entry table_entry [OF T(2)] by (auto simp: w 2 vmm_tables_def Let_def)
  next
    case 3
    have "unat ?d \<noteq> 768" "unat ?d \<noteq> 832" using 3 by (auto simp: word_unat_eq_iff)
    then have "two_ranges ks hs va = None"
      using j b(2) t(2,3) by (auto simp: two_ranges_def Let_def)
    moreover have "load32 (ram s) (phys_tab_ref D ?d) = 0" using t(1) 3 b(1) by (simp add: vmm_tables_def)
    ultimately show ?thesis by (simp add: w)
  qed
qed

section \<open>After pmm\_init\<close>

text \<open>The frames of the bit set that no region of the memory map reserves.\<close>

definition usable :: "(u32 \<times> u64 \<times> u64 \<times> u32) list \<Rightarrow> nat \<Rightarrow> u32 set" where
  "usable es n = {j. unat j < n \<and> \<not> reserved es j}"

lemma zero_word:
  assumes "\<And>d. unat d < n \<Longrightarrow> m (a + d) = 0" "unat c + 4 \<le> n" "unat c + 4 < 2 ^ 32"
  shows "load32 m (a + c) = 0"
proof -
  have "m (a + (c + d)) = 0" if "unat d < 4" for d
    by (rule assms(1)) (use assms(2,3) that unat_off [of c d] in simp)
  from this [of 0] this [of 1] this [of 2] this [of 3] show ?thesis by (simp add: load32_def add.assoc)
qed

lemma pmm_init_room:
  assumes s: "early s" "itoa_buf_ok (itoa_buf s)" "boot_info mb es s" and n: "n = bitset_bytes (ram s) mb"
    and zero: "\<And>d. unat d < n + 0x4000 \<Longrightarrow> ram s (alloc_ptr s + d) = 0"
    and at: "0xC0000000 \<le> unat (alloc_ptr s)" "unat (alloc_ptr s) + n + 0x8000 \<le> 0xC0400000"
    and c: "1282 \<le> card (usable es (8 * (n - 8)))"
  shows "\<exists>s'. pmm_init mb s = Some s' \<and> vmm_room s' \<and> free_frames s' = usable es (8 * (n - 8)) \<and>
    unat (alloc_ptr s') = unat (alloc_ptr s) + n \<and> handlers s' = handlers s"
proof -
  let ?a = "alloc_ptr s"
  obtain s' where s': "pmm_init mb s = Some s'" "pmm_ok s'" "frames s' = ?a"
    "unat (alloc_ptr s') = unat ?a + n" "console_only (s\<lparr>frames := frames s', alloc_ptr := alloc_ptr s', ram := ram s'\<rparr>) s'"
    "\<forall>j<bs_get_size (ram s') (frames s'). j \<in> free_frames s' \<longleftrightarrow> \<not> reserved es j \<and>
       \<not> bit (load32 (ram s) (?a + 8 + 4 * (j div 32))) (unat (j mod 32))"
    "8 + 4 * unat (bs_sz (ram s') (frames s')) = n" "bs_bits (ram s') (frames s') = frames s' + 8"
    "agree_off ?a n (ram s) (ram s')"
    using pmm_init_effect [OF s] n by blast
  note co = console_only_pmm [OF s'(5)]
  have big: "unat j < 8 * (n - 8) \<longleftrightarrow> j < bs_get_size (ram s') (frames s')" for j
    using bs_get_size_unat [OF pmm_ok_bs [OF s'(2)]] s'(7) by (simp add: word_less_nat_alt) arith
  have "load32 (ram s) (?a + (8 + 4 * (j div 32))) = 0" if "j < bs_get_size (ram s') (frames s')" for j
  proof (rule zero_word [where m = "ram s" and a = ?a and n = "n + 0x4000"])
    show "ram s (?a + d) = 0" if "unat d < n + 0x4000" for d using zero that .
    have w: "unat (j div 32) < unat (bs_sz (ram s') (frames s'))" by (rule idx_word [OF pmm_ok_bs [OF s'(2)] that])
    then have "unat (8 + 4 * (j div 32)) = 8 + 4 * unat (j div 32)"
      using s'(2) by (auto simp: unat_word_ariths pmm_ok_def)
    then show "unat (8 + 4 * (j div 32)) + 4 \<le> n + 0x4000" "unat (8 + 4 * (j div 32)) + 4 < 2 ^ 32"
      using w s'(7) s'(2) by (auto simp: pmm_ok_def)
  qed
  then have free: "free_frames s' = usable es (8 * (n - 8))"
    using s'(6) big by (auto simp: usable_def free_frames_iff add.assoc)
  have e: "early s'" using s(1) co by (simp add: early_def)
  have size: "1024 \<le> bs_get_size (ram s') (frames s')"
  proof (rule ccontr)
    assume "\<not> ?thesis"
    then have "j \<in> word_of_nat ` {..<1024}" if "j \<in> usable es (8 * (n - 8))" for j
      using big [of j] that
      by (intro image_eqI [of _ _ "unat j"]) (auto simp: usable_def word_less_nat_alt word_le_nat_alt not_le)
    then have "usable es (8 * (n - 8)) \<subseteq> word_of_nat ` {..<1024}" by blast
    from card_mono [OF _ this] have "card (usable es (8 * (n - 8))) \<le> card ((word_of_nat :: nat \<Rightarrow> u32) ` {..<1024})"
      by simp
    also have "\<dots> \<le> 1024" using card_image_le [of "{..<1024 :: nat}" "word_of_nat :: nat \<Rightarrow> u32"] by simp
    finally show False using c by simp
  qed
  let ?b = "alloc_ptr s'"
  have bb: "unat ?b + 4096 < 2 ^ 32" using s'(4) at by simp
  note ru = PG_ROUND_UP_unat [OF bb]
  have "load32 (ram s') (PG_ROUND_UP ?b + 0x2038 + 4 * word_of_nat i) = 0" if i: "i < 9" for i
  proof -
    let ?X = "PG_ROUND_UP ?b + 0x2038 + 4 * word_of_nat i"
    have r: "unat ?b \<le> unat (PG_ROUND_UP ?b)" "unat (PG_ROUND_UP ?b) \<le> unat ?b + 4096"
      using ru mod_less_divisor [of 4096 "unat ?b"] mod_less_eq_dividend [of "unat ?b" 4096] by linarith+
    have "unat (4 * word_of_nat i :: u32) = 4 * i"
      using times_4 [of "word_of_nat i"] small_words [of i] i by simp
    then have X: "unat ?X = unat (PG_ROUND_UP ?b) + 0x2038 + 4 * i"
      using r s'(4) at i by (simp add: unat_off)
    have le: "?a \<le> ?X" using X r s'(4) by (simp add: word_le_nat_alt)
    have d: "unat (?X - ?a) = unat ?X - unat ?a" by (rule unat_sub [OF le])
    have "load32 (ram s) (?a + (?X - ?a)) = 0"
    proof (rule zero_word [where m = "ram s" and a = ?a and n = "n + 0x4000"])
      show "ram s (?a + d) = 0" if "unat d < n + 0x4000" for d using zero that .
      show "unat (?X - ?a) + 4 \<le> n + 0x4000" "unat (?X - ?a) + 4 < 2 ^ 32"
        unfolding d using X r s'(4) at i by simp_all
    qed
    moreover have "apart ?a n ?X 4"
      by (rule apart_bounds2) (use X r s'(4,7) at i in simp_all)
    ultimately show ?thesis using s'(9) by (simp add: agree_off_def add.assoc)
  qed
  moreover have "unat (frames s' + 8) = unat ?a + 8" using s'(3) at by (subst unat_off) simp_all
  ultimately have "vmm_room s'"
    unfolding vmm_room_def using e s' at size free c by simp
  then show ?thesis using s'(1,4) free co by auto
qed

section \<open>Who shares a frame\<close>

lemma frame_address_inj:
  fixes f g o1 o2 :: u32
  assumes "unat f < 2 ^ 20" "unat g < 2 ^ 20" "f * PG_SZ + va mod PG_SZ = g * PG_SZ + vb mod PG_SZ"
  shows "f = g" "va mod PG_SZ = vb mod PG_SZ"
proof -
  have m: "unat (x mod PG_SZ) = unat x mod 4096" for x :: u32 by (simp add: unat_mod PG_SZ_def)
  have u: "unat (h * PG_SZ + x mod PG_SZ) = 4096 * unat h + unat x mod 4096" if "unat h < 2 ^ 20" for h x :: u32
  proof -
    have "unat (h * PG_SZ) = 4096 * unat h" using that by (simp add: unat_word_ariths PG_SZ_def)
    then show ?thesis
      using that m [of x] mod_less_divisor [of 4096 "unat x"] by (subst unat_off) simp_all
  qed
  have e: "4096 * unat f + unat va mod 4096 = 4096 * unat g + unat vb mod 4096"
    using assms(3) u [OF assms(1), of va] u [OF assms(2), of vb] by simp
  have "unat f = unat g" using arg_cong [OF e, of "\<lambda>x. x div 4096"] by simp
  moreover from this e have "unat va mod 4096 = unat vb mod 4096" by simp
  ultimately show "f = g" "va mod PG_SZ = vb mod PG_SZ" using m by (simp_all add: word_unat_eq_iff)
qed

lemma page_parts: "va div PG_SZ = vb div PG_SZ \<Longrightarrow> va mod PG_SZ = vb mod PG_SZ \<Longrightarrow> va = vb" for va vb :: u32
  by (metis div_mult_mod_eq)

text \<open>A page of the second range shares its frame with no other page, when its frames are distinct and new.\<close>

lemma two_ranges_private:
  assumes f: "distinct hs" "set hs \<inter> set ks = {}" "\<And>f. f \<in> set ks \<union> set hs \<Longrightarrow> unat f < 2 ^ 20"
    and l: "length ks \<le> 1024"
    and va: "0xD0000 \<le> unat (va div PG_SZ)" "unat (va div PG_SZ) < 0xD0000 + length hs"
    and e: "two_ranges ks hs vb = two_ranges ks hs va"
  shows "vb = va"
proof -
  define j where "j = unat (va div PG_SZ) - 0xD0000"
  define k where "k = unat (vb div PG_SZ)"
  have j: "j < length hs" "unat (va div PG_SZ) = 0xD0000 + j" using va by (simp_all add: j_def)
  have a: "two_ranges ks hs va = Some (hs ! j * PG_SZ + va mod PG_SZ)"
    using j l by (simp add: two_ranges_def Let_def)
  have m: "hs ! j \<in> set hs" using j by simp
  show ?thesis
  proof (cases "0xC0000 \<le> k \<and> k < 0xC0000 + length ks")
    case True
    have b: "two_ranges ks hs vb = Some (ks ! (k - 0xC0000) * PG_SZ + vb mod PG_SZ)"
      using True by (simp add: two_ranges_def Let_def k_def)
    have n: "ks ! (k - 0xC0000) \<in> set ks" using True by (intro nth_mem) auto
    have "ks ! (k - 0xC0000) * PG_SZ + vb mod PG_SZ = hs ! j * PG_SZ + va mod PG_SZ"
      using e unfolding a b by simp
    from frame_address_inj(1) [OF _ _ this] f(3) m n have "ks ! (k - 0xC0000) = hs ! j" by blast
    then show ?thesis using f(2) m n by auto
  next
    case False
    then have r: "0xD0000 \<le> k \<and> k < 0xD0000 + length hs"
      and b: "two_ranges ks hs vb = Some (hs ! (k - 0xD0000) * PG_SZ + vb mod PG_SZ)"
      using e a by (auto simp: two_ranges_def Let_def k_def split: if_splits)
    have n: "hs ! (k - 0xD0000) \<in> set hs" using r by (intro nth_mem) auto
    have "hs ! (k - 0xD0000) * PG_SZ + vb mod PG_SZ = hs ! j * PG_SZ + va mod PG_SZ"
      using e unfolding a b by simp
    from frame_address_inj [OF _ _ this] f(3) m n
    have i: "hs ! (k - 0xD0000) = hs ! j" "vb mod PG_SZ = va mod PG_SZ" by blast+
    have "k - 0xD0000 < length hs" using r by auto
    with i(1) have "k - 0xD0000 = j" using f(1) j(1) nth_eq_iff_index_eq by blast
    then have "k = 0xD0000 + j" using r by linarith
    then have "unat (vb div PG_SZ) = unat (va div PG_SZ)" using j by (simp add: k_def)
    then have "vb div PG_SZ = va div PG_SZ" by (simp add: word_unat_eq_iff)
    then show ?thesis using page_parts i(2) by blast
  qed
qed

lemma frames_small: "pmm_ok s \<Longrightarrow> j \<in> free_frames s \<Longrightarrow> unat j < 2 ^ 20"
  using bs_get_size_unat [of "ram s" "frames s"] pmm_ok_bs [of s]
  by (auto simp: free_frames_iff pmm_ok_def word_less_nat_alt)

lemma heap_frames_props:
  fixes A :: "u32 set"
  shows "distinct (heap_frames D A)" "set (heap_frames D A) \<subseteq> A - set (kernel_frames D A)"
proof -
  have "set (sorted_list_of_set (A - set (kernel_frames D A))) = A - set (kernel_frames D A)" by simp
  then show "set (heap_frames D A) \<subseteq> A - set (kernel_frames D A)"
    unfolding heap_frames_def by (metis set_take_subset)
  show "distinct (heap_frames D A)" by (simp add: heap_frames_def)
qed

lemma kernel_range:
  assumes "vmm_ready D s" "0xC0001000 \<le> va" "va < D + 0x6000"
  shows "two_ranges (kernel_frames D A) hs va = Some (V2P va)"
proof -
  note n = kernel_pages_bound [OF assms(1)]
  have b: "unat D + 0x7000 \<le> 0xC0400000" using assms(1) by (auto simp: vmm_ready_def)
  have va: "0xC0001000 \<le> unat va" "unat va < unat D + 0x6000"
    using assms(2,3) b by (simp_all add: word_le_nat_alt word_less_nat_alt unat_off)
  define i where "i = unat va div 4096 - 0xC0000"
  have i: "0 < i" "i < kernel_pages D" "unat va div 4096 = 0xC0000 + i"
    using va n by (simp_all add: i_def)
  have p: "unat (va div PG_SZ) = 0xC0000 + i" using i(3) by (simp add: unat_div PG_SZ_def)
  have l: "length (kernel_frames D A) = kernel_pages D" using n(1) by (simp add: kernel_frames_def)
  have "kernel_frames D A ! i = word_of_nat i" using i by (simp add: kernel_frames_def nth_Cons')
  then have "two_ranges (kernel_frames D A) hs va = Some (word_of_nat i * PG_SZ + va mod PG_SZ)"
    using p l i by (simp add: two_ranges_def Let_def)
  moreover have "word_of_nat i * PG_SZ + va mod PG_SZ = V2P va"
  proof -
    have "va div PG_SZ = word_of_nat (0xC0000 + i)" by (subst word_unat_eq_iff) (use p i(2) n(2) in \<open>simp add: unat_of_nat del: of_nat_add\<close>)
    then have "va = word_of_nat (0xC0000 + i) * PG_SZ + va mod PG_SZ" by (metis div_mult_mod_eq)
    then show ?thesis by (simp add: V2P_def KERN_OFFSET_def PG_SZ_def algebra_simps)
  qed
  ultimately show ?thesis by simp
qed

lemma first_page_range:
  "unat va div 4096 = 0xC0000 \<Longrightarrow> two_ranges (kernel_frames D A) hs va = Some (Min A * PG_SZ + va mod PG_SZ)"
  by (simp add: two_ranges_def Let_def kernel_frames_def unat_div PG_SZ_def)

text \<open>The state and all that is known of it, for the properties.\<close>

lemma vmm_init_space:
  fixes s s' :: "'a pmm_state_scheme"
  assumes room: "vmm_room s" and D: "D = PG_ROUND_UP (alloc_ptr s)" and A: "A = free_frames s - {0}"
    and s': "vmm_init s = Some s'"
  shows "translate cr4 s' va = two_ranges (kernel_frames D A) (heap_frames D A) va" "alloc_ptr s' = D + 0x6000"
    "\<exists>s3 :: 'a pmm_state_scheme. vmm_ready D s3 \<and> free_frames s3 = A" "length (heap_frames D A) = 257"
    "f \<in> set (kernel_frames D A) \<union> set (heap_frames D A) \<Longrightarrow> unat f < 2 ^ 20" "A \<noteq> {}"
proof -
  have "\<exists>s3 :: 'a pmm_state_scheme. vmm_ready D s3 \<and> free_frames s3 = A"
    using vmm_start [OF room D] unfolding A by (elim exE conjE) (intro exI conjI)
  then obtain s3 :: "'a pmm_state_scheme" where s3: "vmm_ready D s3" "free_frames s3 = A" by blast
  note n = kernel_pages_bound [OF s3(1)]
  have l: "length (kernel_frames D A) = kernel_pages D" using n(1) by (simp add: kernel_frames_def)
  obtain t where t: "vmm_init s = Some t" "cr3 t = V2P D" "cr0 t = cr0 s OR 0x80000000" "alloc_ptr t = D + 0x6000"
    "vmm_tables D (kernel_frames D A) (heap_frames D A) (ram t)"
    using vmm_init_effect [OF room D A] by blast
  have st: "s' = t" using t(1) s' by simp
  have "D mod PG_SZ = 0" using s3(1) by (simp add: vmm_ready_def)
  moreover have "bit (cr0 t) 31"
    by (simp add: t(3) bit_simps)
  ultimately show "translate cr4 s' va = two_ranges (kernel_frames D A) (heap_frames D A) va"
    unfolding st using t(2,5) l n(2) by (intro translate_tables) (simp_all add: heap_frames_def)
  show "alloc_ptr s' = D + 0x6000" unfolding st by (rule t(4))
  show "\<exists>s3 :: 'a pmm_state_scheme. vmm_ready D s3 \<and> free_frames s3 = A" using s3 by blast
  have c: "1281 \<le> card A" using s3 by (auto simp: vmm_ready_def)
  then show ne: "A \<noteq> {}" by auto
  have "card (set (kernel_frames D A)) \<le> 1023" using card_length [of "kernel_frames D A"] l n(2) by simp
  then have "257 \<le> card (A - set (kernel_frames D A))"
    using c diff_card_le_card_Diff [of "set (kernel_frames D A)" A] by simp
  then show "length (heap_frames D A) = 257" by (simp add: heap_frames_def)
  have ok: "unat j < 2 ^ 20" if "j \<in> A" for j
    using frames_small [of s3] that s3 by (simp add: vmm_ready_def)
  have k: "unat j < 2 ^ 20" if "j \<in> set (kernel_frames D A)" for j
    using that ok Min_in [OF _ ne] n(2) by (auto simp: kernel_frames_def unat_of_nat)
  show "unat f < 2 ^ 20" if "f \<in> set (kernel_frames D A) \<union> set (heap_frames D A)" for f
    using that ok k heap_frames_props(2) [of D A] by blast
qed

lemma heap_page:
  assumes "KHEAP_START \<le> va" "va < KHEAP_END + 0x1000"
  shows "0xD0000 \<le> unat (va div PG_SZ)" "unat (va div PG_SZ) < 0xD0000 + 257"
proof -
  have "4096 * 0xD0000 \<le> unat va" "unat va < 4096 * (0xD0000 + 257)"
    using assms by (simp_all add: KHEAP_START_def KHEAP_END_def word_le_nat_alt word_less_nat_alt)
  then have "0xD0000 \<le> unat va div 4096" "unat va div 4096 < 0xD0000 + 257"
    by (simp_all only: less_eq_div_iff_mult_less_eq div_less_iff_less_mult mult.commute [of 4096] zero_less_numeral)
  then show "0xD0000 \<le> unat (va div PG_SZ)" "unat (va div PG_SZ) < 0xD0000 + 257"
    by (simp_all add: unat_div PG_SZ_def)
qed

section \<open>Properties\<close>

text \<open>The state \<open>pmm_init\<close> leaves on the machine of \<open>boot_example\<close>, with 32 MB.\<close>

lemma boot_example_zero:
  assumes "unat d < 0x43FC"
  shows "ram boot_example (alloc_ptr boot_example + d) = 0"
proof -
  have m: "ram boot_example = fold (\<lambda>(a, v) m. store32 m a v) boot_words (\<lambda>_. 0)"
    "alloc_ptr boot_example = 0xC0108000"
    by (simp_all add: boot_example_defs)
  have d: "apart a 4 (0xC0108000 + d) 1" if "apart a 4 0xC0108000 0x43FC" for a
    using assms that by (intro apart_shift_right [OF that]) auto
  show ?thesis unfolding m boot_words_def by simp (simp add: store32_other [OF d] apart_def)
qed

lemma boot_example_usable: "1282 \<le> card (usable boot_entries 8096)"
proof -
  have "inj_on (word_of_nat :: nat \<Rightarrow> u32) {0x100..<0x700}"
    by (rule inj_onI) (drule arg_cong [of _ _ unat], simp add: unat_of_nat)
  then have "card ((word_of_nat :: nat \<Rightarrow> u32) ` {0x100..<0x700}) = 0x600" by (simp add: card_image)
  moreover have "(word_of_nat :: nat \<Rightarrow> u32) ` {0x100..<0x700} \<subseteq> usable boot_entries 8096"
    by (auto simp: usable_def reserved_def boot_entries_def page_frame_def PG_SZ_def unat_of_nat word_unat_eq_iff)
  moreover have "finite (usable boot_entries 8096)" by simp
  ultimately have "0x600 \<le> card (usable boot_entries 8096)" by (metis card_mono)
  then show ?thesis by simp
qed

definition vmm_example :: pmm_state where
  "vmm_example = the (pmm_init 0xC0009000 boot_example)"

lemma vmm_example_room:
  "vmm_room vmm_example" "unat (alloc_ptr vmm_example) = 0xC01083FC" "1 \<in> free_frames vmm_example"
proof -
  have n: "bitset_bytes (ram boot_example) 0xC0009000 = 1020"
    by (simp add: boot_example_defs bitset_bytes_def mb_mem_upper_def mb_mem_lower_def load32_store32_apart apart_def)
  have a: "unat (alloc_ptr boot_example) = 0xC0108000" by (simp add: boot_example_defs)
  obtain s' where s': "pmm_init 0xC0009000 boot_example = Some s'" "vmm_room s'"
    "free_frames s' = usable boot_entries 8096" "unat (alloc_ptr s') = unat (alloc_ptr boot_example) + 1020"
    using pmm_init_room [OF boot_example_ok n [symmetric]] boot_example_zero boot_example_usable a by auto
  have "1 \<in> usable boot_entries 8096"
    by (auto simp: usable_def reserved_def boot_entries_def page_frame_def PG_SZ_def)
  then show "vmm_room vmm_example" "unat (alloc_ptr vmm_example) = 0xC01083FC" "1 \<in> free_frames vmm_example"
    using s' a by (simp_all add: vmm_example_def)
qed

lemma vmm_example_directory: "PG_ROUND_UP (alloc_ptr vmm_example) = 0xC0109000"
proof -
  have "unat (PG_ROUND_UP (alloc_ptr vmm_example)) = unat (0xC0109000 :: u32)"
    using vmm_example_room(2) by (simp add: PG_ROUND_UP_unat)
  then show ?thesis by (simp only: word_unat_eq_iff)
qed

text \<open>
  C2. \<open>vmm_init\<close> always gets through and fixes the whole address space: the processor translates
  the pages from 0xC0000000 up to the end of the last page table to \<open>kernel_frames\<close>, the 257 pages
  from 0xD0000000 on to \<open>heap_frames\<close> and no other address.  The frames used are no longer free, the
  kernel directory is the current one, page faults have their handler, and the heap is one free
  block that satisfies the heap invariant.
\<close>

theorem vmm_init_address_space:
  assumes "vmm_room s" and "D = PG_ROUND_UP (alloc_ptr s)" and "A = free_frames s - {0}"
  shows "\<exists>s'. vmm_init s = Some s' \<and>
    (\<forall>cr4 va. translate cr4 s' va = two_ranges (kernel_frames D A) (heap_frames D A) va) \<and>
    kern_dir s' = D \<and> current_dir s' = D \<and> handlers s' = (handlers s)[14 := Some Page_fault] \<and>
    pmm_ok s' \<and> free_frames s' = A - set (kernel_frames D A) - set (heap_frames D A) \<and>
    kheap_initialized s' = 1 \<and> heap_inv (ram s') (kheap s') [KHEAP_START] only_free"
proof -
  obtain s' where s': "vmm_init s = Some s'" "kern_dir s' = D" "current_dir s' = D"
    "handlers s' = (handlers s)[14 := Some Page_fault]" "kheap_initialized s' = 1" "pmm_ok s'"
    "free_frames s' = A - set (kernel_frames D A) - set (heap_frames D A)"
    "heap_inv (ram s') (kheap s') [KHEAP_START] only_free"
    using vmm_init_effect [OF assms] by blast
  then show ?thesis using vmm_init_space(1) [OF assms s'(1)] by blast
qed

theorem vmm_init_address_space_witness:
  "\<exists>s'. vmm_init vmm_example = Some s' \<and> kern_dir s' = 0xC0109000 \<and> translate 0 s' 0xC0400000 = None"
proof -
  have "two_ranges (kernel_frames 0xC0109000 A) hs 0xC0400000 = None" if "length hs < 0x100" for A hs
    by (simp add: two_ranges_def kernel_frames_def kernel_pages_def Let_def PG_SZ_def)
  then show ?thesis
    using vmm_init_address_space [OF vmm_example_room(1) refl refl] unfolding vmm_example_directory
    by (fastforce simp: two_ranges_def kernel_frames_def kernel_pages_def Let_def PG_SZ_def)
qed

text \<open>
  C3. From its second page on the kernel is mapped to the frames it lies in, up to the end of all
  early allocations.  The first page, which vmm.c also means to map that way, gets the first free
  frame instead, so when frame 1 is free 0xC0000000 and 0xC0001000 are the same memory.
\<close>

theorem vmm_init_kernel_linear:
  fixes s s' :: "'a pmm_state_scheme"
  assumes "vmm_room s" "vmm_init s = Some s'"
  shows "(0xC0001000 \<le> va \<and> va < alloc_ptr s' \<longrightarrow> translate cr4 s' va = Some (V2P va)) \<and>
    translate cr4 s' 0xC0000000 = Some (Min (free_frames s - {0}) * PG_SZ) \<and>
    (1 \<in> free_frames s \<longrightarrow> translate cr4 s' 0xC0000000 = translate cr4 s' 0xC0001000)"
proof -
  let ?D = "PG_ROUND_UP (alloc_ptr s)" and ?A = "free_frames s - {0}"
  note sp = vmm_init_space [OF assms(1) refl refl assms(2)]
  obtain s3 :: "'a pmm_state_scheme" where s3: "vmm_ready ?D s3" using sp(3) by blast
  have lin: "translate cr4 s' va = Some (V2P va)" if "0xC0001000 \<le> va" "va < alloc_ptr s'" for va
    using kernel_range [OF s3 that(1)] that(2) sp(1,2) by simp
  have first: "translate cr4 s' 0xC0000000 = Some (Min ?A * PG_SZ)"
    unfolding sp(1) by (subst first_page_range) (simp_all add: PG_SZ_def)
  have "0xC0001000 < alloc_ptr s'"
    using s3 unfolding sp(2) vmm_ready_def by (auto simp: word_less_nat_alt unat_off)
  then have second: "translate cr4 s' 0xC0001000 = Some 0x1000"
    using lin [of "0xC0001000"] by (simp add: V2P_def KERN_OFFSET_def)
  have "Min ?A = 1" if "1 \<in> free_frames s"
  proof (rule Min_eqI)
    show "1 \<le> y" if "y \<in> ?A" for y
    proof -
      have "y \<noteq> 0" using that by blast
      then have "0 < unat y" by (simp add: unat_gt_0)
      then show ?thesis by (simp add: word_le_nat_alt)
    qed
  qed (use that in simp_all)
  then show ?thesis using lin first second by (simp add: PG_SZ_def)
qed

theorem vmm_init_kernel_linear_witness:
  "\<exists>s'. vmm_init vmm_example = Some s' \<and> translate 0 s' 0xC0000000 = Some 0x1000 \<and>
     translate 0 s' 0xC0001000 = Some 0x1000"
proof -
  obtain s' where s': "vmm_init vmm_example = Some s'" "alloc_ptr s' = 0xC010F000"
    using vmm_init_effect [OF vmm_example_room(1) refl refl] by (auto simp: vmm_example_directory)
  note l = vmm_init_kernel_linear [OF vmm_example_room(1) s'(1), of "0xC0001000" 0]
  have 2: "translate 0 s' 0xC0001000 = Some 0x1000" using l s'(2) by (simp add: V2P_def KERN_OFFSET_def)
  have "translate 0 s' 0xC0000000 = translate 0 s' 0xC0001000" using l vmm_example_room(3) by blast
  then show ?thesis using s'(1) 2 by (intro exI [of _ s'] conjI) simp_all
qed

text \<open>
  C4. The memory of the heap is private: no other virtual address of the new address space
  reaches the physical address behind an address of the heap's pages.
\<close>

theorem vmm_init_heap_private:
  fixes s s' :: "'a pmm_state_scheme"
  assumes "vmm_room s" "vmm_init s = Some s'" "KHEAP_START \<le> va" "va < KHEAP_END + 0x1000" "vb \<noteq> va"
  shows "translate cr4 s' va \<noteq> None \<and> translate cr4 s' vb \<noteq> translate cr4 s' va"
proof -
  let ?D = "PG_ROUND_UP (alloc_ptr s)" and ?A = "free_frames s - {0}"
  note sp = vmm_init_space [OF assms(1) refl refl assms(2)]
  obtain s3 :: "'a pmm_state_scheme" where s3: "vmm_ready ?D s3" using sp(3) by blast
  have l: "length (kernel_frames ?D ?A) \<le> 1024"
    using kernel_pages_bound(1,2) [OF s3] by (simp add: kernel_frames_def)
  have va: "0xD0000 \<le> unat (va div PG_SZ)" "unat (va div PG_SZ) < 0xD0000 + length (heap_frames ?D ?A)"
    using heap_page [OF assms(3,4)] sp(4) by simp_all
  have "two_ranges (kernel_frames ?D ?A) (heap_frames ?D ?A) va \<noteq> None"
    using va by (simp add: two_ranges_def Let_def)
  moreover have "vb = va"
    if "two_ranges (kernel_frames ?D ?A) (heap_frames ?D ?A) vb = two_ranges (kernel_frames ?D ?A) (heap_frames ?D ?A) va"
    by (rule two_ranges_private [OF heap_frames_props(1) _ sp(5) l va that]) (use heap_frames_props(2) in \<open>blast+\<close>)
  ultimately show ?thesis using assms(5) unfolding sp(1) by blast
qed

theorem vmm_init_heap_private_witness:
  "\<exists>s'. vmm_init vmm_example = Some s' \<and> translate 0 s' 0xD0000000 \<noteq> translate 0 s' 0xD0001000"
proof -
  obtain s' where s': "vmm_init vmm_example = Some s'"
    using vmm_init_effect [OF vmm_example_room(1) refl refl] by blast
  show ?thesis
    using vmm_init_heap_private [OF vmm_example_room(1) s', of "0xD0001000" "0xD0000000" 0] s'
    by (simp add: KHEAP_START_def KHEAP_END_def)
qed

end
