(* ===== verification/Kernel_Start.thy ===== *)
theory Kernel_Start
  imports Kmain Vmm_Init
begin

text \<open>
  The start of the kernel as a whole: kern/kmain.c from the state the boot loader leaves through
  \<open>pmm_init\<close> (kern/mm/pmm.c) and \<open>vmm_init\<close> (kern/mm/vmm.c) to the point where paging and the heap are up.
  The facts of each stage meet here: what \<open>kmain_early\<close> leaves is what \<open>pmm_init\<close> needs, and what
  \<open>pmm_init\<close> leaves is what \<open>vmm_init\<close> needs.
\<close>

text \<open>
  What the memory has to be like for it: the kernel and what it allocates early lie in the first
  4 MB of the higher half, the memory behind the kernel is zero, and there are enough frames.
\<close>

definition memory_fits :: "symbols \<Rightarrow> (u32 \<times> u64 \<times> u64 \<times> u32) list \<Rightarrow> nat \<Rightarrow> mem \<Rightarrow> bool" where
  "memory_fits y es n m \<longleftrightarrow> 0xC0000000 \<le> unat (sym_end y) \<and> unat (sym_end y) + n + 0x8000 \<le> 0xC0400000 \<and>
     (\<forall>d. unat d < n + 0x4000 \<longrightarrow> m (sym_end y + d) = 0) \<and> 1282 \<le> card (usable es (8 * (n - 8)))"

lemma kernel_start:
  assumes b: "booted y s" and i: "boot_info mb es s" and n: "n = bitset_bytes (ram s) mb"
    and f: "memory_fits y es n (ram s)"
  shows "\<exists>s1 s2. kmain_early y s = Some s1 \<and> pmm_init mb s1 = Some s2 \<and> vmm_room s2 \<and>
    free_frames s2 = usable es (8 * (n - 8)) \<and> unat (alloc_ptr s2) = unat (sym_end y) + n \<and> handlers s2 = handlers s"
proof -
  obtain s1 where s1: "kmain_early y s = Some s1" "ram s1 = ram s" "early s1" "alloc_ptr s1 = alloc_ptr s"
    "itoa_buf_ok (itoa_buf s1)" "handlers s1 = handlers s"
    using kmain_early_effect [OF b] by blast
  have a: "alloc_ptr s = sym_end y" using b by (simp add: booted_def)
  have "boot_info mb es s1" using i s1(2,4) by (simp add: boot_info_def)
  from pmm_init_room [OF s1(3,5) this, of n] f s1 a n show ?thesis by (auto simp: memory_fits_def)
qed

section \<open>Properties\<close>

text \<open>
  C1. From the state the boot loader leaves, \<open>kmain\<close> gets as far as the heap: the console, the
  descriptor tables, the frame allocator, paging and the heap come up one after the other, the
  address space is the one described by the kernel's end and the memory map alone, and the rest of
  \<open>kmain\<close> goes on from there.
\<close>

theorem kmain_reaches_heap:
  assumes "booted y s" and "boot_info mb es s" and "n = bitset_bytes (ram s) mb"
    and "memory_fits y es n (ram s)"
    and "D = PG_ROUND_UP (sym_end y + word_of_nat n)" and "A = usable es (8 * (n - 8)) - {0}"
  shows "\<exists>s'. kmain y mb s = do {
       s \<leftarrow> kprintf (str ''paging and heap initialized \<newline>\<newline>'') [] s';
       s \<leftarrow> tasking_init (sym_kidle y) (sym_stack_bottom y) (sym_stack_top y) (timer_init s);
       fork s } \<and>
    (\<forall>cr4 va. translate cr4 s' va = two_ranges (kernel_frames D A) (heap_frames D A) va) \<and>
    kern_dir s' = D \<and> current_dir s' = D \<and> handlers s' = (handlers s)[14 := Some Page_fault] \<and>
    pmm_ok s' \<and> free_frames s' = A - set (kernel_frames D A) - set (heap_frames D A) \<and>
    heap_inv (ram s') (kheap s') [KHEAP_START] only_free"
proof -
  obtain s1 s2 where s2: "kmain_early y s = Some s1" "pmm_init mb s1 = Some s2" "vmm_room s2"
    "free_frames s2 = usable es (8 * (n - 8))" "unat (alloc_ptr s2) = unat (sym_end y) + n" "handlers s2 = handlers s"
    using kernel_start [OF assms(1-4)] by blast
  have "alloc_ptr s2 = sym_end y + word_of_nat n"
    using arg_cong [OF s2(5), of "word_of_nat :: nat \<Rightarrow> u32"] by simp
  then have D: "D = PG_ROUND_UP (alloc_ptr s2)" and A: "A = free_frames s2 - {0}"
    using assms(5,6) s2(4) by simp_all
  obtain s' where s': "vmm_init s2 = Some s'" "kern_dir s' = D" "current_dir s' = D"
    "handlers s' = (handlers s2)[14 := Some Page_fault]" "pmm_ok s'"
    "free_frames s' = A - set (kernel_frames D A) - set (heap_frames D A)"
    "heap_inv (ram s') (kheap s') [KHEAP_START] only_free"
    using vmm_init_effect [OF s2(3) D A] by blast
  have "kmain y mb s = do {
       s \<leftarrow> kprintf (str ''paging and heap initialized \<newline>\<newline>'') [] s';
       s \<leftarrow> tasking_init (sym_kidle y) (sym_stack_bottom y) (sym_stack_top y) (timer_init s);
       fork s }"
    using s2(1,2) s'(1) by (simp add: kmain_def Let_def)
  then show ?thesis using s' s2(6) vmm_init_space(1) [OF s2(3) D A s'(1)] by (intro exI [of _ s']) simp
qed

lemma kmain_example_fits:
  "bitset_bytes (ram kmain_example) 0xC0009000 = 1020" "memory_fits symbols_example boot_entries 1020 (ram kmain_example)"
proof -
  have r: "ram kmain_example = ram boot_example" "alloc_ptr boot_example = sym_end symbols_example"
    by (simp_all add: kmain_example_def sched_state.defs pmm_state.defs boot_example_defs symbols_example_def)
  show "bitset_bytes (ram kmain_example) 0xC0009000 = 1020"
    unfolding r by (simp add: boot_example_defs bitset_bytes_def mb_mem_upper_def mb_mem_lower_def
        load32_store32_apart apart_def)
  show "memory_fits symbols_example boot_entries 1020 (ram kmain_example)"
    using boot_example_zero boot_example_usable unfolding memory_fits_def r by (simp add: r(2) symbols_example_def)
qed

theorem kmain_reaches_heap_witness:
  "\<exists>s'. kern_dir s' = 0xC0109000 \<and> pmm_ok s' \<and> kmain symbols_example 0xC0009000 kmain_example = do {
     s \<leftarrow> kprintf (str ''paging and heap initialized \<newline>\<newline>'') [] s';
     s \<leftarrow> tasking_init 0xC0101000 0xC0102000 0xC0106000 (timer_init s);
     fork s }"
proof -
  have "PG_ROUND_UP (sym_end symbols_example + word_of_nat 1020) = 0xC0109000"
    by (simp add: symbols_example_def PG_ROUND_UP_def)
  then show ?thesis
    using kmain_reaches_heap [OF kmain_example_facts(1,2) kmain_example_fits(1) [symmetric] kmain_example_fits(2) refl refl]
    by (auto simp: symbols_example_def)
qed

end
