(* ===== verification/Vmm_Copy.thy ===== *)
theory Vmm_Copy
  imports Vmm_Init
begin

text \<open>
  Copying a page directory (\<open>copy_pg_dir\<close> of kern/mm/vmm.c): one page of user memory gets a frame of
  its own; the contents are copied while the window of the current address space shows that frame, and the
  window is empty again afterwards (\<open>copy_page\<close>), and the tables of the kernel are shared (\<open>share_table\<close>).
\<close>

section \<open>The kernel's half of a directory\<close>

lemma share_table_words:
  fixes m :: mem
  assumes i: "768 \<le> i" "i < 1024" and ap: "apart new 8196 kern 8196"
  defines "m' \<equiv> share_table new kern i m"
  shows "dir_table m' new (word_of_nat i) = (if dir_table m kern (word_of_nat i) \<noteq> 0
       then dir_table m kern (word_of_nat i) else dir_table m new (word_of_nat i))"
    "load32 m' (phys_tab_ref new (word_of_nat i)) = (if dir_table m kern (word_of_nat i) \<noteq> 0
       then load32 m (phys_tab_ref kern (word_of_nat i)) else load32 m (phys_tab_ref new (word_of_nat i)))"
    "j < 1024 \<Longrightarrow> j \<noteq> i \<Longrightarrow> dir_table m' new (word_of_nat j) = dir_table m new (word_of_nat j)"
    "j < 1024 \<Longrightarrow> j \<noteq> i \<Longrightarrow> load32 m' (phys_tab_ref new (word_of_nat j)) = load32 m (phys_tab_ref new (word_of_nat j))"
    "dir_phys m' new = dir_phys m new"
    "apart new 8196 a 4 \<Longrightarrow> load32 m' a = load32 m a"
proof -
  let ?i = "word_of_nat i :: u32"
  have I: "unat ?i < 1024" using i small_words [of i] by simp
  note s = dir_fields_apart [OF I, of new] 
  define t where "t = dir_table m kern ?i"
  define m1 where "m1 = store32 m (table_ref new ?i) t"
  have kp: "load32 m1 (phys_tab_ref kern ?i) = load32 m (phys_tab_ref kern ?i)"
    using dir_fields_apart(2) [OF I, of new "phys_tab_ref kern ?i" 4]
      dir_fields_apart(3) [OF I, of kern new 8196] ap
    by (simp add: m1_def load32_store32_apart apart_sym)
  have m': "m' = (if t \<noteq> 0 then store32 m1 (phys_tab_ref new ?i) (load32 m (phys_tab_ref kern ?i)) else m)"
    using kp by (simp add: m'_def share_table_def Let_def t_def m1_def)
  show "dir_table m' new ?i = (if dir_table m kern ?i \<noteq> 0 then dir_table m kern ?i else dir_table m new ?i)"
    using s(1) by (simp add: m' m1_def t_def dir_table_def load32_store32_apart apart_sym)
  show "load32 m' (phys_tab_ref new ?i) = (if dir_table m kern ?i \<noteq> 0
       then load32 m (phys_tab_ref kern ?i) else load32 m (phys_tab_ref new ?i))"
    by (simp add: m' t_def)
  have "word_of_nat j \<noteq> ?i" if "j < 1024" "j \<noteq> i" for j
    using that small_words [of j] small_words [of i] i by metis
  then show "dir_table m' new (word_of_nat j) = dir_table m new (word_of_nat j)"
    "load32 m' (phys_tab_ref new (word_of_nat j)) = load32 m (phys_tab_ref new (word_of_nat j))"
    if "j < 1024" "j \<noteq> i"
    using that I small_words [OF that(1)] dir_words_apart [of "word_of_nat j" ?i new] dir_words_apart [of ?i "word_of_nat j" new]
    by (simp_all add: m' m1_def dir_table_def load32_store32_apart apart_sym)
  show "dir_phys m' new = dir_phys m new"
    using dir_words_apart(4,5) [OF I I, of new] by (simp add: m' m1_def dir_phys_def load32_store32_apart)
  show "load32 m' a = load32 m a" if "apart new 8196 a 4"
    using s(2,3) [OF that] by (simp add: m' m1_def load32_store32_apart)
qed

lemma share_tables:
  fixes m :: mem
  assumes ap: "apart new 8196 kern 8196" and n: "768 + n \<le> 1024"
  defines "m' \<equiv> fold (share_table new kern) [768..<768 + n] m"
  shows "(\<forall>i<1024. dir_table m' new (word_of_nat i) =
       (if 768 \<le> i \<and> i < 768 + n \<and> dir_table m kern (word_of_nat i) \<noteq> 0
        then dir_table m kern (word_of_nat i) else dir_table m new (word_of_nat i))) \<and>
    (\<forall>i<1024. load32 m' (phys_tab_ref new (word_of_nat i)) =
       (if 768 \<le> i \<and> i < 768 + n \<and> dir_table m kern (word_of_nat i) \<noteq> 0
        then load32 m (phys_tab_ref kern (word_of_nat i)) else load32 m (phys_tab_ref new (word_of_nat i)))) \<and>
    dir_phys m' new = dir_phys m new \<and> (\<forall>a. apart new 8196 a 4 \<longrightarrow> load32 m' a = load32 m a)"
  using n unfolding m'_def
proof (induction n)
  case 0
  then show ?case by auto
next
  case (Suc n)
  let ?m = "fold (share_table new kern) [768..<768 + n] m"
  have i: "768 \<le> 768 + n" "768 + n < 1024" using Suc.prems by simp_all
  note w = share_table_words [OF i ap, where m = ?m]
  have I: "unat (word_of_nat (768 + n) :: u32) < 1024" using i small_words [of "768 + n"] by simp
  have "768 + n \<le> 1024" using i by simp
  note IH = Suc.IH [OF this]
  have k: "dir_table ?m kern (word_of_nat (768 + n)) = dir_table m kern (word_of_nat (768 + n))"
    "load32 ?m (phys_tab_ref kern (word_of_nat (768 + n))) = load32 m (phys_tab_ref kern (word_of_nat (768 + n)))"
    using IH dir_fields_apart(2,3) [OF I, of kern new 8196] ap by (simp_all add: dir_table_def apart_sym)
  have eq: "fold (share_table new kern) [768..<768 + Suc n] m = share_table new kern (768 + n) ?m"
  proof -
    have "[768..<768 + Suc n] = [768..<768 + n] @ [768 + n]" by (subst add_Suc_right, subst upt_Suc) simp
    then show ?thesis by (simp only: fold_append fold_simps comp_def)
  qed
  have less: "j < 768 + Suc n \<longleftrightarrow> j < 768 + n \<or> j = 768 + n" for j by auto
  show ?case unfolding eq
  proof (intro conjI allI impI)
    fix j :: nat assume j: "j < 1024"
    show "dir_table (share_table new kern (768 + n) ?m) new (word_of_nat j) =
       (if 768 \<le> j \<and> j < 768 + Suc n \<and> dir_table m kern (word_of_nat j) \<noteq> 0
        then dir_table m kern (word_of_nat j) else dir_table m new (word_of_nat j))"
      using w(1) w(3) [OF j] IH j k(1) unfolding less by (cases "j = 768 + n") (auto simp del: of_nat_add)
    show "load32 (share_table new kern (768 + n) ?m) (phys_tab_ref new (word_of_nat j)) =
       (if 768 \<le> j \<and> j < 768 + Suc n \<and> dir_table m kern (word_of_nat j) \<noteq> 0
        then load32 m (phys_tab_ref kern (word_of_nat j)) else load32 m (phys_tab_ref new (word_of_nat j)))"
      using w(2) w(4) [OF j] IH j k unfolding less by (cases "j = 768 + n") (auto simp del: of_nat_add)
  qed (use w(5,6) IH in simp_all)
qed

section \<open>One page\<close>








lemma copy_low_nothing:
  "(\<And>i. i \<in> set is \<Longrightarrow> dir_table (ram s) dir (word_of_nat i) = 0) \<Longrightarrow> copy_low new dir is s = Some s"
  by (induction "is") simp_all







section \<open>A directory without user pages\<close>

lemma copy_pg_dir_shared:
  assumes "kmalloc_ap SIZEOF_PG_DIR s = Some (new, phys, t)"
    and "\<forall>i<768. dir_table (ram t) dir (word_of_nat i) = 0"
    and "apart new 8196 dir 8196" and "apart new 8196 (kern_dir t) 8196" and "unat new + 8196 < 2 ^ 32"
  shows "\<exists>s'. copy_pg_dir dir s = Some (new, s') \<and> s' = t\<lparr>ram := ram s'\<rparr> \<and> dir_phys (ram s') new = phys \<and>
    (\<forall>i<768. dir_table (ram s') new (word_of_nat i) = 0 \<and> load32 (ram s') (phys_tab_ref new (word_of_nat i)) = 0) \<and>
    (\<forall>i. 768 \<le> i \<and> i < 1024 \<longrightarrow>
       dir_table (ram s') new (word_of_nat i) = dir_table (ram t) (kern_dir t) (word_of_nat i) \<and>
       load32 (ram s') (phys_tab_ref new (word_of_nat i)) =
         (if dir_table (ram t) (kern_dir t) (word_of_nat i) = 0 then 0
          else load32 (ram t) (phys_tab_ref (kern_dir t) (word_of_nat i)))) \<and>
    (\<forall>a. apart new 8196 a 4 \<longrightarrow> load32 (ram s') a = load32 (ram t) a)"
proof -
  define m where "m = store32 (memset new 0 SIZEOF_PG_DIR (ram t)) (new + 8192) phys"
  have k: "load32 m a = load32 (ram t) a" if "apart new 8196 a 4" for a
    using apart_shift_left [OF that, of 8192 4] that
    by (simp add: m_def load32_store32_apart load32_memset_apart SIZEOF_PG_DIR_def)
  have e: "dir_table m new (word_of_nat i) = 0" "load32 m (phys_tab_ref new (word_of_nat i)) = 0" if "i < 1024" for i
    using empty_directory(1,2) [OF assms(5), of "word_of_nat i"] small_words [OF that] that by (simp_all add: m_def)
  have I: "unat (word_of_nat i :: u32) < 1024" if "i < 1024" for i using that small_words [OF that] by simp
  have d: "dir_table m pd (word_of_nat i) = dir_table (ram t) pd (word_of_nat i)"
    "load32 m (phys_tab_ref pd (word_of_nat i)) = load32 (ram t) (phys_tab_ref pd (word_of_nat i))"
    if "apart new 8196 pd 8196" "i < 1024" for pd i
    using k dir_fields_apart(2,3) [OF I [OF that(2)], of pd new 8196] that(1)
    by (simp_all add: dir_table_def apart_sym)
  let ?s = "t\<lparr>ram := m\<rparr>"
  have c: "copy_low new dir [0..<768] ?s = Some ?s"
    by (rule copy_low_nothing) (use assms(2) d(1) [OF assms(3)] in simp)
  let ?m = "fold (share_table new (kern_dir t)) [768..<1024] m"
  have r: "copy_pg_dir dir s = Some (new, t\<lparr>ram := ?m\<rparr>)"
    using assms(1) c by (simp add: copy_pg_dir_def Let_def m_def [symmetric])
  note sh = share_tables [OF assms(4), of 256 m, simplified]
  note up = d [OF assms(4)]
  have p: "dir_phys ?m new = phys" using sh by (simp add: m_def dir_phys_def)
  show ?thesis
  proof (intro exI [of _ "t\<lparr>ram := ?m\<rparr>"] conjI allI impI)
    show "copy_pg_dir dir s = Some (new, t\<lparr>ram := ?m\<rparr>)" by (rule r)
    show "dir_phys (ram (t\<lparr>ram := ?m\<rparr>)) new = phys" using p by simp
    show "load32 (ram (t\<lparr>ram := ?m\<rparr>)) a = load32 (ram t) a" if "apart new 8196 a 4" for a
      using sh k [OF that] that by simp
  qed (use sh e up in \<open>auto simp del: of_nat_add\<close>)
qed

section \<open>Properties\<close>












text \<open>
  C7. The copy of a directory without user pages: the new directory is empty below the kernel,
  its upper quarter has the tables of the kernel's directory and their physical addresses, and nothing
  else in memory has changed.
\<close>

theorem copy_pg_dir_shares_kernel:
  assumes "kmalloc_ap SIZEOF_PG_DIR s = Some (new, phys, t)"
    and "\<forall>i<768. dir_table (ram t) dir (word_of_nat i) = 0"
    and "apart new 8196 dir 8196" and "apart new 8196 (kern_dir t) 8196" and "unat new + 8196 < 2 ^ 32"
  shows "\<exists>s'. copy_pg_dir dir s = Some (new, s') \<and> s' = t\<lparr>ram := ram s'\<rparr> \<and> dir_phys (ram s') new = phys \<and>
    (\<forall>i<768. dir_table (ram s') new (word_of_nat i) = 0 \<and> load32 (ram s') (phys_tab_ref new (word_of_nat i)) = 0) \<and>
    (\<forall>i. 768 \<le> i \<and> i < 1024 \<longrightarrow>
       dir_table (ram s') new (word_of_nat i) = dir_table (ram t) (kern_dir t) (word_of_nat i) \<and>
       load32 (ram s') (phys_tab_ref new (word_of_nat i)) =
         (if dir_table (ram t) (kern_dir t) (word_of_nat i) = 0 then 0
          else load32 (ram t) (phys_tab_ref (kern_dir t) (word_of_nat i)))) \<and>
    (\<forall>a. apart new 8196 a 4 \<longrightarrow> load32 (ram s') a = load32 (ram t) a)"
  using copy_pg_dir_shared [OF assms] by blast

theorem copy_pg_dir_shares_kernel_witness:
  "\<exists>s'. copy_pg_dir 0xC0010000 pmm_example = Some (0xC0109000, s') \<and> dir_phys (ram s') 0xC0109000 = 0x109000"
proof -
  have k: "kmalloc_ap SIZEOF_PG_DIR pmm_example =
      Some (0xC0109000, 0x109000, pmm_example\<lparr>alloc_ptr := 0xC0109000 + SIZEOF_PG_DIR\<rparr>)"
    using kmalloc_ap_early [OF pmm_example_more(1), of SIZEOF_PG_DIR]
    by (simp add: pmm_example_more V2P_def KERN_OFFSET_def)
  have z: "dir_table bs_example 0xC0010000 (word_of_nat i) = 0" if "i < 768" for i
  proof -
    have "unat (word_of_nat i :: u32) < 1024" using that small_words [of i] by simp
    from dir_fields_apart(2) [OF this, of "0xC0010000" "0x1000" 8] show ?thesis
      unfolding dir_table_def by (intro bs_example_zero) (simp add: apart_sym)
  qed
  let ?t = "pmm_example\<lparr>alloc_ptr := 0xC0109000 + SIZEOF_PG_DIR\<rparr>"
  have f: "ram ?t = bs_example" "kern_dir ?t = 0"
    by (simp_all add: pmm_example_facts) (simp add: pmm_example_def pmm0_def paging0_def paging_state.defs heap_state.defs int_state.defs)
  have "\<forall>i<768. dir_table (ram ?t) 0xC0010000 (word_of_nat i) = 0"
    unfolding f using z by blast
  from copy_pg_dir_shares_kernel [OF k this] show ?thesis unfolding f by auto
qed

end
