(* ===== verification/Sched_Fork.thy ===== *)
theory Sched_Fork
  imports Sched Vmm_Copy
begin

text \<open>
  \<open>fork\<close> of kern/proc/sched.c after its allocations: where the child goes, what it holds, what the
  parent gets, and where the child goes on when it is switched to for the first time.
\<close>

lemma add_task_other:
  assumes r: "ready_list rdy m q" and t: "add_task rdy x m = Some m'" and a: "links_apart rdy q a"
  shows "load32 m' a = load32 m a"
proof (cases "q = []")
  case True
  then have "m' = store32 m rdy x" using t r by (simp add: add_task_def ready_list_def)
  then show ?thesis using a by (simp add: links_apart_def load32_store32_apart)
next
  case False
  have tl: "task_list m (load32 m rdy) q" using r by (simp add: ready_list_def)
  then have "load32 m rdy \<noteq> 0" using False by (cases q) simp_all
  then have "m' = store32 m (last q + 20) x"
    using t last_task_last [OF tl False] by (simp add: add_task_def)
  then show ?thesis using a False link_words(1) by (simp add: links_apart_def load32_store32_apart)
qed

text \<open>
  The state after the two allocations: \<open>q\<close> is the ready list, \<open>ts\<close> holds it and the current task
  (which \<open>tasking_init\<close> leaves in the list), and the child is a new task whose context overlaps none.
\<close>

definition fork_room :: "u32 \<Rightarrow> u32 list \<Rightarrow> u32 list \<Rightarrow> 'a sched_state_scheme \<Rightarrow> bool" where
  "fork_room child q ts s \<longleftrightarrow> ready_list (ready s) (ram s) q \<and> set (current s # q) \<subseteq> set ts \<and>
     child \<noteq> 0 \<and> tsk_next (ram s) child = 0 \<and> task_objects (ready s) (child # ts) \<and>
     off_tasks (ready s) (child # ts) (tsk_ctx (ram s) child) 20"

text \<open>The memory when the child is put into the list.\<close>

definition fork_stores :: "u32 \<Rightarrow> u32 \<Rightarrow> 'a sched_state_scheme \<Rightarrow> mem" where
  "fork_stores child dir s = store32 (store32 (store32 (ram s) (child + 12) dir)
     (tsk_ctx (ram s) child) (esp s)) (tsk_ctx (ram s) child + 16) (ebp s)"

lemma fork_stores_words:
  assumes "fork_room child q ts s"
  shows "u \<in> set (child # ts) \<Longrightarrow> unat d + 4 \<le> 28 \<Longrightarrow> u = child \<longrightarrow> apart 12 4 d 4 \<Longrightarrow>
      load32 (fork_stores child dir s) (u + d) = load32 (ram s) (u + d)"
    "load32 (fork_stores child dir s) (ready s) = load32 (ram s) (ready s)"
    "tsk_ctx (store32 (ram s) (child + 12) dir) child = tsk_ctx (ram s) child"
    "tsk_ctx (store32 (store32 (ram s) (child + 12) dir) (tsk_ctx (ram s) child) v) child = tsk_ctx (ram s) child"
    "tsk_mem (fork_stores child dir s) child = dir"
    "load32 (fork_stores child dir s) (tsk_ctx (ram s) child) = esp s"
    "load32 (fork_stores child dir s) (tsk_ctx (ram s) child + 16) = ebp s"
proof -
  let ?c = "tsk_ctx (ram s) child"
  have o: "apart (ready s) 4 ?c 20" "\<And>u. u \<in> set (child # ts) \<Longrightarrow> apart u 28 ?c 20"
    using assms by (auto simp: fork_room_def off_tasks_def)
  have c: "apart ?c 4 (u + d) 4" "apart (?c + 16) 4 (u + d) 4" if "u \<in> set (child # ts)" "unat d + 4 \<le> 28" for u d
    using apart_shift [OF o(2) [OF that(1)] that(2), of 0 4] apart_shift [OF o(2) [OF that(1)] that(2), of 16 4]
    by (simp_all add: apart_sym)
  have r: "apart ?c 4 (ready s) 4" "apart (?c + 16) 4 (ready s) 4"
    using apart_shift_right [OF o(1), of 0 4] apart_shift_right [OF o(1), of 16 4] by (simp_all add: apart_sym)
  have child: "apart (child + 12) 4 (u + d) 4"
    if "u \<in> set (child # ts)" "unat d + 4 \<le> 28" "u = child \<longrightarrow> apart 12 4 d 4" for u d
  proof (cases "u = child")
    case False
    then have "apart child 28 u 28" using assms that(1) by (auto simp: fork_room_def task_objects_def)
    from apart_shift [OF this _ that(2), of 12 4] show ?thesis by simp
  qed (use that in simp)
  have cr: "apart (child + 12) 4 (ready s) 4"
    using assms by (intro apart_shift_left [of child 28]) (auto simp: fork_room_def task_objects_def)
  have self: "child \<in> set (child # ts)" by simp
  show "load32 (fork_stores child dir s) (u + d) = load32 (ram s) (u + d)"
    if "u \<in> set (child # ts)" "unat d + 4 \<le> 28" "u = child \<longrightarrow> apart 12 4 d 4"
    using c [OF that(1,2)] child [OF that] by (simp add: fork_stores_def load32_store32_apart)
  show "load32 (fork_stores child dir s) (ready s) = load32 (ram s) (ready s)"
    using r cr by (simp add: fork_stores_def load32_store32_apart)
  show "tsk_ctx (store32 (ram s) (child + 12) dir) child = ?c"
    by (simp add: tsk_ctx_def load32_store32_apart)
  show "tsk_ctx (store32 (store32 (ram s) (child + 12) dir) ?c v) child = ?c"
    using c(1) [OF self, of 8] by (simp add: tsk_ctx_def load32_store32_apart)
  show "tsk_mem (fork_stores child dir s) child = dir"
    using c [OF self, of 12] by (simp add: tsk_mem_def fork_stores_def load32_store32_apart)
  show "load32 (fork_stores child dir s) ?c = esp s" "load32 (fork_stores child dir s) (?c + 16) = ebp s"
    by (simp_all add: fork_stores_def load32_store32_apart)
qed

lemma fork_queues:
  fixes dir :: u32
  assumes room: "fork_room child q ts s"
  defines "m \<equiv> fork_stores child dir s"
  shows "\<exists>m'. add_task (ready s) child m = Some m' \<and> ready_list (ready s) m' (q @ [child]) \<and>
    tsk_tid m' (current s) = tsk_tid (ram s) (current s) \<and> tsk_tid m' child = tsk_tid (ram s) child \<and>
    tsk_mem m' child = dir \<and> tsk_parent m' child = tsk_parent (ram s) child \<and>
    tsk_ctx m' child = tsk_ctx (ram s) child \<and> load32 m' (tsk_ctx (ram s) child) = esp s \<and>
    load32 m' (tsk_ctx (ram s) child + 16) = ebp s"
proof -
  let ?rdy = "ready s" and ?c = "tsk_ctx (ram s) child"
  note R = room [unfolded fork_room_def]
  note w = fork_stores_words [OF room, where dir = dir, folded m_def]
  have obj: "task_objects ?rdy (child # ts)" and sub: "set q \<subseteq> set ts" "current s \<in> set ts" using R by auto
  have dq: "distinct q" using R by (simp add: ready_list_def task_objects_def)
  have nx: "tsk_next m u = tsk_next (ram s) u" if "u \<in> set (child # ts)" for u
    using w(1) [OF that, of 20] by (simp add: tsk_next_def)
  have rl: "ready_list ?rdy m q"
    using R w(2) task_list_cong [of q m "ram s"] nx sub(1) by (auto simp: ready_list_def)
  have "task_objects ?rdy (child # q)" using obj dq subsetD [OF sub(1)] unfolding task_objects_def by simp blast
  then have "enqueueable ?rdy m q child" using R nx [of child] by (simp add: enqueueable_def)
  then obtain m' where m': "add_task ?rdy child m = Some m'" "ready_list ?rdy m' (q @ [child])"
    using add_task_appends [OF rl] by blast
  note o = add_task_other [OF rl m'(1)]
  have f: "load32 m' (u + d) = load32 m (u + d)" if "u \<in> set (child # ts)" "unat d + 4 \<le> 20" for u d
    using o [OF links_apart_mono [OF own_ctx_apart [OF obj that] sub(1)]] .
  have "off_tasks ?rdy ts ?c 20" using R by (simp add: off_tasks_def)
  then have c: "load32 m' (?c + d) = load32 m (?c + d)" if "unat d + 4 \<le> 20" for d
    using o [OF links_apart_mono [OF off_tasks_word sub(1)]] that by blast
  show ?thesis
    using m' f [of child 0] f [of "current s" 0] f [of child 8] f [of child 12] f [of child 16] c [of 0] c [of 16]
      w(1) [of child 0] w(1) [of "current s" 0] w(1) [of child 8] w(1) [of child 16] w(5-7) sub(2)
    by (intro exI [of _ m']) (auto simp: tsk_tid_def tsk_ctx_def tsk_mem_def tsk_parent_def)
qed

section \<open>Properties\<close>

text \<open>
  C5. After its two allocations \<open>fork\<close> ends: the child is the last task of the ready list, with the
  copied directory, the current task as its parent and the stack pointer of \<open>fork\<close> in its context, and
  the parent gets the child's number.  But nothing was pushed for the child: whoever switches to it for
  the first time goes on at the word 16 bytes above that stack pointer in the copied stack, with
  the four words below it in the registers, not behind \<open>add_task\<close> in \<open>fork\<close>, where the child would get 0.
\<close>

theorem fork_queues_child:
  assumes "create_task 0 s = Some (child, s1)"
    and "copy_pg_dir (tsk_mem m (current s1)) (s1\<lparr>ram := m\<rparr>) = Some (dir, s2)"
    and "m = store32 (ram s1) (child + 16) (current s1)"
    and "fork_room child q ts s2" and "tsk_tid (ram s2) child \<noteq> tsk_tid (ram s2) (current s2)"
    and "ctx = tsk_ctx (ram s2) child"
  shows "\<exists>s'. fork s = Some (tsk_tid (ram s2) child, s') \<and> s' = s2\<lparr>ram := ram s'\<rparr> \<and>
    ready_list (ready s') (ram s') (q @ [child]) \<and> tsk_mem (ram s') child = dir \<and>
    tsk_parent (ram s') child = tsk_parent (ram s2) child \<and> tsk_ctx (ram s') child = ctx \<and>
    load32 (ram s') ctx = esp s2 \<and>
    (\<forall>ret old (t :: 'b machine_scheme). can_switch old ctx t \<longrightarrow> load32 (ram t) ctx = load32 (ram s') ctx \<longrightarrow>
       (\<exists>t'. call_ctx_swtch ret old ctx t = (load32 (ram t) (esp s2 + 16), t') \<and> esp t' = esp s2 + 20 \<and>
          edi t' = load32 (ram t) (esp s2) \<and> ebp t' = load32 (ram t) (esp s2 + 12)))"
proof -
  note w = fork_stores_words [OF assms(4)]
  obtain m' where m': "add_task (ready s2) child (fork_stores child dir s2) = Some m'"
    "ready_list (ready s2) m' (q @ [child])" "tsk_tid m' (current s2) = tsk_tid (ram s2) (current s2)"
    "tsk_tid m' child = tsk_tid (ram s2) child" "tsk_mem m' child = dir"
    "tsk_parent m' child = tsk_parent (ram s2) child" "tsk_ctx m' child = ctx" "load32 m' ctx = esp s2"
    using fork_queues [OF assms(4)] assms(6) by blast
  have "fork s = Some (tsk_tid (ram s2) child, s2\<lparr>ram := m'\<rparr>)"
    using assms(1,2,5) m'(1,3,4) w(3,4)
    by (simp add: fork_def Let_def assms(3) [symmetric] fork_stores_def)
  moreover have "\<exists>t'. call_ctx_swtch ret old ctx t = (load32 (ram t) (esp s2 + 16), t') \<and> esp t' = esp s2 + 20 \<and>
      edi t' = load32 (ram t) (esp s2) \<and> ebp t' = load32 (ram t) (esp s2 + 12)"
    if "can_switch old ctx t" "load32 (ram t) ctx = esp s2" for ret old and t :: "'b machine_scheme"
    using call_ctx_swtch_effect [OF that(1), of ret] that(2) by (auto simp: resumed_def)
  ultimately show ?thesis using m' by (intro exI [of _ "s2\<lparr>ram := m'\<rparr>"]) auto
qed


text \<open>
  Before the heap exists, with the tasks of \<open>tasks_example\<close> in the ready list, the first of which
  is the current one with an empty directory at 0x20000.
\<close>

definition fork_example :: sched_state where
  "fork_example = pmm_state.extend (pmm_example\<lparr>ram := store32 (store32 tasks_example 0x100C 0x20000) 0x1000 1, esp := 0x9000\<rparr>)
     \<lparr>ready = 0x100, current = 0x1000, next_tid = 4\<rparr>"

lemma fork_example_sel:
  "ram fork_example = store32 (store32 tasks_example 0x100C 0x20000) 0x1000 1" "current fork_example = 0x1000"
  "ready fork_example = 0x100" "next_tid fork_example = 4" "esp fork_example = 0x9000"
  "alloc_ptr fork_example = 0xC0108000" "early fork_example" "kern_dir fork_example = 0"
  using pmm_example_more(1,2)
  by (simp_all add: fork_example_def pmm_state.defs early_def)
    (simp_all add: pmm_example_def pmm0_def paging0_def paging_state.defs heap_state.defs int_state.defs)

definition fork_created :: mem where
  "fork_created = store32 (store32 (store32 (ram fork_example) 0xC0108000 4) 0xC0108004 0) 0xC0108008 0xC010801C"

lemma fork_example_created:
  "create_task 0 fork_example = Some (0xC0108000, fork_example\<lparr>ram := fork_created, next_tid := 5, alloc_ptr := 0xC0108030\<rparr>)"
proof -
  have k: "kheap_initialized fork_example = 0" using fork_example_sel(7) by (simp add: early_def)
  show ?thesis
    using fork_example_sel(4,6)
    by (simp add: create_task_def kmalloc_def kmalloc_helper_def k Let_def fork_created_def)
qed

lemma fork_example_word:
  assumes "a \<in> {0x100, 0x1000, 0x1014, 0x2014, 0x3014, 0xC0108000, 0xC0108008, 0xC0108014}"
  shows "load32 (store32 fork_created 0xC0108010 0x1000) a =
    (if a = 0x100 then 0x1000 else if a = 0x1000 then 1 else if a = 0x1014 then 0x2000 else if a = 0x2014 then 0x3000
     else if a = 0xC0108000 then 4 else if a = 0xC0108008 then 0xC010801C else 0)"
proof -
  have "load32 (\<lambda>_. 0) a = 0" for a by (simp add: load32_def)
  then show ?thesis
    using assms by (auto simp: fork_created_def fork_example_sel(1) tasks_example_def load32_store32_apart)
qed

theorem fork_queues_child_witness:
  "\<exists>s'. fork fork_example = Some (4, s') \<and> ready_list 0x100 (ram s') [0x1000, 0x2000, 0x3000, 0xC0108000] \<and>
    load32 (ram s') 0xC010801C = 0x9000"
proof -
  define s1 where "s1 = fork_example\<lparr>ram := fork_created, next_tid := 5, alloc_ptr := 0xC0108030\<rparr>"
  define m where "m = store32 (ram s1) (0xC0108000 + 16) (current s1)"
  have m: "m = store32 fork_created 0xC0108010 0x1000" by (simp add: m_def s1_def fork_example_sel(2))
  define t where "t = s1\<lparr>ram := m, alloc_ptr := 0xC0109000 + SIZEOF_PG_DIR\<rparr>"
  have e: "early (s1\<lparr>ram := m\<rparr>)" using fork_example_sel(7) by (simp add: s1_def early_def)
  have "kmalloc_ap SIZEOF_PG_DIR (s1\<lparr>ram := m\<rparr>) = Some (0xC0109000, 0x109000, t)"
    using kmalloc_ap_early [OF e, of SIZEOF_PG_DIR] by (simp add: s1_def t_def PG_ROUND_UP_def V2P_def KERN_OFFSET_def)
  note c = copy_pg_dir_shared [OF this, of "0x20000"]
  have z: "load32 m a = 0" if "apart 0x100 4 a 4" "apart 0x1000 16384 a 4" "apart 0xC0108000 48 a 4" for a
  proof -
    have "apart 0x1000 4 a 4" "apart 0x100C 4 a 4" "apart 0x1014 4 a 4" "apart 0x2014 4 a 4"
      using apart_shift_left [OF that(2), of 0 4] apart_shift_left [OF that(2), of 12 4]
        apart_shift_left [OF that(2), of 20 4] apart_shift_left [OF that(2), of 4116 4] by simp_all
    moreover have "apart 0xC0108000 4 a 4" "apart 0xC0108004 4 a 4" "apart 0xC0108008 4 a 4" "apart 0xC0108010 4 a 4"
      using apart_shift_left [OF that(3), of 0 4] apart_shift_left [OF that(3), of 4 4]
        apart_shift_left [OF that(3), of 8 4] apart_shift_left [OF that(3), of 16 4] by simp_all
    moreover have "load32 (\<lambda>_. 0) a = 0" by (simp add: load32_def)
    ultimately show ?thesis
      using that(1) by (simp add: m fork_created_def fork_example_sel(1) tasks_example_def load32_store32_apart)
  qed
  have "dir_table (ram t) 0x20000 (word_of_nat i) = 0" if "i < 768" for i
  proof -
    have I: "unat (word_of_nat i :: u32) < 1024" using that small_words [of i] by simp
    show ?thesis
      using z dir_fields_apart(2) [OF I, of "0x20000" "0x100" 4] dir_fields_apart(2) [OF I, of "0x20000" "0x1000" 16384]
        dir_fields_apart(2) [OF I, of "0x20000" "0xC0108000" 48]
      by (simp add: t_def dir_table_def apart_sym)
  qed
  moreover have "kern_dir t = 0" by (simp add: t_def s1_def fork_example_sel(8))
  ultimately obtain s2 where s2: "copy_pg_dir 0x20000 (s1\<lparr>ram := m\<rparr>) = Some (0xC0109000, s2)" "s2 = t\<lparr>ram := ram s2\<rparr>"
    "\<And>a. apart 0xC0109000 8196 a 4 \<Longrightarrow> load32 (ram s2) a = load32 m a"
    using c by (auto simp: t_def)
  have f: "ready s2 = 0x100" "current s2 = 0x1000" "esp s2 = 0x9000"
    by (subst s2(2), simp add: t_def s1_def fork_example_sel)+
  have w: "load32 (ram s2) a = load32 m a"
    if "a \<in> {0x100, 0x1000, 0x1014, 0x2014, 0x3014, 0xC0108000, 0xC0108008, 0xC0108014}" for a
    using that by (intro s2(3)) auto
  note w' = w [unfolded m] fork_example_word
  have x: "tsk_ctx (ram s2) 0xC0108000 = 0xC010801C" "tsk_tid (ram s2) 0xC0108000 = 4" "tsk_tid (ram s2) 0x1000 = 1"
    by (simp_all add: tsk_ctx_def tsk_tid_def w')
  have "fork_room 0xC0108000 [0x1000, 0x2000, 0x3000] [0x1000, 0x2000, 0x3000] s2"
    by (simp add: fork_room_def f x ready_list_def task_objects_def off_tasks_def tsk_next_def w')
  moreover have "create_task 0 fork_example = Some (0xC0108000, s1)" unfolding s1_def by (rule fork_example_created)
  moreover have "tsk_mem m (current s1) = 0x20000"
    by (simp add: s1_def fork_example_sel m tsk_mem_def fork_created_def load32_store32_apart)
  ultimately obtain s' where r: "fork fork_example = Some (4, s')" "s' = s2\<lparr>ram := ram s'\<rparr>"
    "ready_list (ready s') (ram s') [0x1000, 0x2000, 0x3000, 0xC0108000]" "load32 (ram s') 0xC010801C = 0x9000"
    using fork_queues_child [of fork_example "0xC0108000" s1 m "0xC0109000" s2 "[0x1000, 0x2000, 0x3000]"
        "[0x1000, 0x2000, 0x3000]" "0xC010801C"] s2(1) x f m_def by (auto simp: f)
  have "ready s' = 0x100" using f(1) by (subst r(2), simp)
  then show ?thesis using r(1,3,4) by auto
qed

end
