(* ===== verification/V1_Console.thy ===== *)
theory V1_Console
  imports Klib
begin

text \<open>
  The console of the first version of the kernel: v1/os/vga.c and the helpers of v1/os/sys.c.
  Its file-scope variables are those of kern/misc/vga.c and kern/misc/klib.c (a cursor, the
  device memory, an attribute, the buffer of \<open>itoa\<close>), so the states are the records \<open>console\<close>
  and \<open>klib\<close>; names that both versions use carry the suffix \<open>_v1\<close> here.  Proved: printing and
  clearing do to the screen what the current kernel's console does, and \<open>itoa\<close> agrees with the
  current one except for zero, which it prints as no digit at all.
\<close>

definition HEIGHT_v1 :: int where "HEIGHT_v1 = 25"
definition WIDTH_v1 :: int where "WIDTH_v1 = 80"
definition BUFFER_LEN_v1 :: int where "BUFFER_LEN_v1 = 2000"

lemmas vga_const_v1 = HEIGHT_v1_def WIDTH_v1_def BUFFER_LEN_v1_def

section \<open>The console\<close>

definition vga_scroll_v1 :: "'a console_scheme \<Rightarrow> 'a console_scheme" where
  "vga_scroll_v1 s =
     (let m = fold (\<lambda>i m. m(i := m (i + WIDTH_v1))) [0..WIDTH_v1 * (HEIGHT_v1 - 1) - 1] (vga_mem s);
          m = fold (\<lambda>i m. m(WIDTH_v1 * (HEIGHT_v1 - 1) + i := attribute s)) [0..WIDTH_v1 - 1] m
      in s\<lparr>vga_mem := m, cursor := WIDTH_v1 * (HEIGHT_v1 - 1)\<rparr>)"

definition update_csr :: "'a console_scheme \<Rightarrow> 'a console_scheme" where
  "update_csr s =
     (let s = outport 0x3D4 14 s;
          s = outport 0x3D5 (word_of_int (drop_bit 8 (cursor s))) s;
          s = outport 0x3D4 15 s
      in outport 0x3D5 (word_of_int (cursor s)) s)"

text \<open>
  The body of the loop of \<open>vga_write\<close> for the character \<open>c\<close>.  As in the current version, \<open>char\<close>
  is sign extended and the index of the device memory is not checked.
\<close>

definition put_char :: "u8 \<Rightarrow> 'a console_scheme \<Rightarrow> 'a console_scheme" where
  "put_char c s =
     (let s = (if cursor s = BUFFER_LEN_v1 then vga_scroll_v1 s else s);
          s = (if c = of_char CHR ''\<newline>'' then s\<lparr>cursor := (cursor s + 80) - (cursor s smod 80)\<rparr>
               else if c = 8 then
                 (let s = s\<lparr>cursor := cursor s - 1\<rparr>
                  in s\<lparr>vga_mem := (vga_mem s)(cursor s := scast (of_char CHR '' '' :: u8) OR attribute s)\<rparr>)
               else
                 (let s = s\<lparr>vga_mem := (vga_mem s)(cursor s := scast c OR attribute s)\<rparr>
                  in s\<lparr>cursor := cursor s + 1\<rparr>))
      in update_csr s)"

fun vga_write_v1 :: "u8 list \<Rightarrow> 'a console_scheme \<Rightarrow> 'a console_scheme" where
  "vga_write_v1 [] s = s"
| "vga_write_v1 (c # cs) s = (if c = 0 then s else vga_write_v1 cs (put_char c s))"

definition vga_writeln_v1 :: "u8 list option \<Rightarrow> 'a console_scheme \<Rightarrow> 'a console_scheme" where
  "vga_writeln_v1 st s =
     (let s = (case st of None \<Rightarrow> s | Some cs \<Rightarrow> vga_write_v1 cs s)
      in vga_write_v1 (str ''\<newline>'') s)"

definition vga_clear_v1 :: "'a console_scheme \<Rightarrow> 'a console_scheme" where
  "vga_clear_v1 s =
     (let m = fold (\<lambda>i m. m(i := scast (of_char CHR '' '' :: u8) OR attribute s))
                [0..WIDTH_v1 * HEIGHT_v1 - 1] (vga_mem s)
      in update_csr (s\<lparr>vga_mem := m, cursor := 0\<rparr>))"

definition set_color :: "u8 \<Rightarrow> u8 \<Rightarrow> 'a console_scheme \<Rightarrow> 'a console_scheme" where
  "set_color fore back s =
     s\<lparr>attribute := push_bit 8 (push_bit 4 (ucast back) OR (ucast fore AND 0x0F))\<rparr>"

definition init_vga :: "'a console_scheme \<Rightarrow> 'a console_scheme" where
  "init_vga s = vga_clear_v1 (set_color 15 0 (s\<lparr>cursor := 0\<rparr>))"

section \<open>sys.c\<close>

text \<open>\<open>memset\<close> returns its argument.  The loop is the one of the current version.\<close>

definition memset_v1 :: "u32 \<Rightarrow> u8 \<Rightarrow> u32 \<Rightarrow> mem \<Rightarrow> u32 \<times> mem" where
  "memset_v1 bufptr val sz m = (bufptr, memset_loop bufptr val sz 0 m)"

text \<open>
  The loop \<open>for(; val && i ; --i, val /= base)\<close>.  \<open>None\<close> is a division by zero or an index past the
  digit string.
\<close>

fun itoa_v1_loop :: "u32 \<Rightarrow> nat \<Rightarrow> u32 \<Rightarrow> u8 list \<Rightarrow> (nat \<times> u8 list) option" where
  "itoa_v1_loop base i val buf =
     (if val \<noteq> 0 \<and> i \<noteq> 0 then
        if base = 0 then None
        else do {
          c \<leftarrow> digit_char (val mod base);
          itoa_v1_loop base (i - 1) (val div base) (buf[i := c])
        }
      else Some (i, buf))"

declare itoa_v1_loop.simps [simp del]

definition itoa_v1 :: "u32 \<Rightarrow> u32 \<Rightarrow> 'a klib_scheme \<Rightarrow> (nat \<times> 'a klib_scheme) option" where
  "itoa_v1 val base s =
     do {
       (i, buf) \<leftarrow> itoa_v1_loop base 30 val (itoa_buf s);
       Some (i + 1, s\<lparr>itoa_buf := buf\<rparr>)
     }"

text \<open>\<open>vga_write(itoa(val, base))\<close>, the only way the result of \<open>itoa\<close> is used.\<close>

definition write_num :: "u32 \<Rightarrow> u32 \<Rightarrow> 'a klib_scheme \<Rightarrow> 'a klib_scheme option" where
  "write_num val base s =
     do { (i, s) \<leftarrow> itoa_v1 val base s; Some (vga_write_v1 (drop i (itoa_buf s)) s) }"

section \<open>Agreement with the current version\<close>

lemma vga_scroll_v1_eq: "vga_scroll_v1 s = vga_scroll s"
  by (simp add: vga_scroll_v1_def vga_scroll_def vga_const_v1 vga_const Let_def del: upto_rec_numeral)

lemma update_csr_eq: "update_csr s = vga_update_csr s"
  by (simp add: update_csr_def vga_update_csr_def outports_ports outport_def Let_def)

lemma set_color_eq: "set_color = vga_set_color"
  by (simp add: fun_eq_iff set_color_def vga_set_color_def)

lemma put_char_eq: "put_char c s = vga_write_char c s"
  by (simp add: put_char_def vga_write_char_def vga_scroll_v1_eq update_csr_eq vga_cell_def Let_def
      vga_const vga_const_v1)

lemma vga_write_v1_eq: "vga_write_v1 cs s = vga_write cs s"
  by (induction cs arbitrary: s) (simp_all add: put_char_eq)

lemma vga_writeln_v1_eq: "vga_writeln_v1 st s = vga_writeln st s"
  by (simp add: vga_writeln_v1_def vga_writeln_def vga_write_v1_eq split: option.splits)

lemma init_vga_screen:
  "cursor (init_vga s) = 0" "attribute (init_vga s) = 0xF00"
  "0 \<le> i \<Longrightarrow> i < 2000 \<Longrightarrow> vga_mem (init_vga s) i = 0xF20"
  by (simp_all add: init_vga_def vga_clear_v1_def set_color_def update_csr_eq vga_const_v1
      fold_fill [where k = 0, simplified] Let_def del: upto_rec_numeral)

lemma itoa_v1_loop_eq:
  "itoa_v1_loop base i val buf = itoa_loop base i val buf"
proof (induction i arbitrary: val buf)
  case 0
  then show ?case by (simp add: itoa_v1_loop.simps [of base 0])
next
  case (Suc i)
  then show ?case by (auto simp: itoa_v1_loop.simps [of base "Suc i"] intro!: Option.bind_cong)
qed

lemma itoa_v1_nonzero: "val \<noteq> 0 \<Longrightarrow> itoa_v1 val base s = itoa val base s"
  by (simp add: itoa_v1_def itoa_def itoa_v1_loop_eq)

lemma itoa_v1_zero: "itoa_v1 0 base s = Some (31, s)"
  by (simp add: itoa_v1_def itoa_v1_loop.simps)

text \<open>What printing a number does: it ends, and it only touches the console.\<close>

lemma write_num_returns:
  assumes "itoa_buf_ok (itoa_buf s)" "b \<in> {8, 10, 16}"
  shows "\<exists>s'. write_num v b s = Some s' \<and> itoa_buf_ok (itoa_buf s') \<and> console_only s s'"
proof (cases "v = 0")
  case True
  then show ?thesis
    using assms(1) by (simp add: write_num_def itoa_v1_zero vga_write_v1_eq)
next
  case False
  obtain s' where s': "print_num v b s = Some s'" "itoa_buf_ok (itoa_buf s')"
    using print_num_returns [OF assms] by blast
  have "write_num v b s = print_num v b s"
    using False by (simp add: write_num_def print_num_def itoa_v1_nonzero vga_write_v1_eq)
  then show ?thesis using s' print_num_console [OF s'(1) console_only_refl] by simp
qed

lemma set_color_buf [simp]: "itoa_buf (set_color f b s) = itoa_buf s"
  by (simp add: set_color_def)

section \<open>Properties\<close>

text \<open>
  Both versions of the console print the same: on every state, whatever the cursor, printing a
  string or a line leaves exactly the state that the current version leaves.
\<close>

theorem console_versions_agree:
  "vga_write_v1 cs s = vga_write cs s \<and> vga_writeln_v1 st s = vga_writeln st s"
  by (simp add: vga_write_v1_eq vga_writeln_v1_eq)

text \<open>
  \<open>itoa\<close> leaves and returns what the current version does for every number but zero.  For
  zero it returns the empty string at the end of the buffer: printing a zero prints nothing.
\<close>

theorem itoa_versions_agree:
  "(val \<noteq> 0 \<longrightarrow> itoa_v1 val base s = itoa val base s) \<and>
   (itoa_buf_ok (itoa_buf s) \<longrightarrow> buf_str 31 (itoa_buf s) = [] \<and> itoa_v1 0 base s = Some (31, s) \<and>
      write_num 0 base s = Some s)"
  by (simp add: itoa_v1_nonzero itoa_v1_zero write_num_def buf_str_def drop_31 vga_write_v1_eq)

theorem itoa_versions_agree_witness:
  "itoa_v1 255 16 klib0 = itoa 255 16 klib0 \<and> write_num 0 10 klib0 = Some klib0"
  using itoa_versions_agree [of 255 16 klib0] itoa_versions_agree [of 0 10 klib0]
  by (simp add: itoa_buf_ok_def klib0_def console.defs)

end
