(* ===== verification/V1_Tables.thy ===== *)
theory V1_Tables
  imports V1_Console Idt
begin

text \<open>
  The descriptor tables of the first version of the kernel: v1/os/gdt.c, v1/os/idt.c and the two
  routines of v1/os/asm/dt.S.  The structures have the fields of the current version, so the
  state is the record \<open>idt_state\<close> (\<open>segments\<close> is its \<open>gdt\<close>, \<open>entries\<close> its \<open>idt_entries\<close>).
  Proved: from the same table both versions leave the same segments and gates.
\<close>

section \<open>gdt.c\<close>

text \<open>The assignments of \<open>create_segment\<close> in their order; \<open>gran\<close> is assigned twice.\<close>

definition segment_entry :: "u32 \<Rightarrow> u32 \<Rightarrow> u8 \<Rightarrow> u8 \<Rightarrow> gdt_e \<Rightarrow> gdt_e" where
  "segment_entry bs lm acc gr e =
     (let e = e\<lparr>base_low := ucast (bs AND 0xFFFF)\<rparr>;
          e = e\<lparr>base_mid := ucast (drop_bit 16 bs AND 0xFF)\<rparr>;
          e = e\<lparr>base_high := ucast (drop_bit 24 bs AND 0xFF)\<rparr>;
          e = e\<lparr>lim_low := ucast (lm AND 0xFFFF)\<rparr>;
          e = e\<lparr>gran := ucast (drop_bit 16 lm AND 0x0F)\<rparr>;
          e = e\<lparr>gran := gran e OR (gr AND 0xF0)\<rparr>
      in e\<lparr>access := acc\<rparr>)"

definition create_segment ::
    "nat \<Rightarrow> u32 \<Rightarrow> u32 \<Rightarrow> u8 \<Rightarrow> u8 \<Rightarrow> 'a gdt_state_scheme \<Rightarrow> 'a gdt_state_scheme option" where
  "create_segment index bs lm acc gr s =
     (if index < length (gdt s)
      then Some (s\<lparr>gdt := (gdt s)[index := segment_entry bs lm acc gr (gdt s ! index)]\<rparr>)
      else None)"

definition acc_bytes :: "u8 list" where
  "acc_bytes = [0x9A, 0x92, 0xFA, 0xF2]"

fun create_segments :: "nat list \<Rightarrow> 'a gdt_state_scheme \<Rightarrow> 'a gdt_state_scheme option" where
  "create_segments [] s = Some s"
| "create_segments (i # is) s =
     do { s \<leftarrow> create_segment (i + 1) 0 0xFFFFFFFF (acc_bytes ! i) 0xCF s; create_segments is s }"

definition gdt_install_v1 :: "'a gdt_state_scheme \<Rightarrow> 'a gdt_state_scheme" where
  "gdt_install_v1 s = s\<lparr>gdtr := gdt_ptr s\<rparr>"

definition init_gdt :: "u32 \<Rightarrow> 'a gdt_state_scheme \<Rightarrow> 'a gdt_state_scheme option" where
  "init_gdt segments_addr s =
     do {
       let s = s\<lparr>gdt_ptr := (gdt_ptr s)\<lparr>lim := 8 * 5 - 1\<rparr>\<rparr>;
       let s = s\<lparr>gdt_ptr := (gdt_ptr s)\<lparr>base := segments_addr\<rparr>\<rparr>;
       s \<leftarrow> create_segment 0 0 0 0 0 s;
       s \<leftarrow> create_segments [0..<4] s;
       Some (gdt_install_v1 s)
     }"

section \<open>idt.c\<close>

definition add_entry :: "u8 \<Rightarrow> u32 \<Rightarrow> u16 \<Rightarrow> u8 \<Rightarrow> 'a idt_state_scheme \<Rightarrow> 'a idt_state_scheme" where
  "add_entry vec add sl fl s =
     s\<lparr>idt_entries := (idt_entries s)[unat vec :=
        \<lparr>low = ucast (add AND 0xFFFF), sel = sl, zero = 0, flags = fl,
         high = ucast (drop_bit 16 add AND 0xFFFF)\<rparr>]\<rparr>"

definition idt_install_v1 :: "'a idt_state_scheme \<Rightarrow> 'a idt_state_scheme" where
  "idt_install_v1 s = s\<lparr>idtr := idt_ptr s, interrupts_on := True\<rparr>"

text \<open>The stubs \<open>isr0..isr31\<close> and \<open>irq0..irq15\<close> are labels of v1/os/asm/int.asm.\<close>

definition init_idt ::
    "u32 \<Rightarrow> (nat \<Rightarrow> u32) \<Rightarrow> (nat \<Rightarrow> u32) \<Rightarrow> 'a idt_state_scheme \<Rightarrow> 'a idt_state_scheme" where
  "init_idt entries_addr isr irq s =
     (let s = s\<lparr>idt_ptr := \<lparr>lim = 8 * 256 - 1, base = entries_addr\<rparr>\<rparr>;
          s = s\<lparr>idt_entries := replicate 256 zero_idt_e\<rparr>;
          s = outports [(0x20, 0x11), (0xA0, 0x11), (0x21, 0x20), (0xA1, 0x28), (0x21, 0x04),
                (0xA1, 0x02), (0x21, 0x01), (0xA1, 0x01), (0x21, 0x0), (0xA1, 0x0)] s;
          s = fold (\<lambda>v. add_entry (word_of_nat v) (isr v) 0x08 0x8E) [0..<32] s;
          s = fold (\<lambda>v. add_entry (word_of_nat v) (irq (v - 32)) 0x08 0x8E) [32..<48] s
      in idt_install_v1 s)"

section \<open>Agreement with the current version\<close>

lemma ucast_masked:
  fixes x :: u32
  shows "ucast ((ucast x :: u64) AND 0xFFFF) = (ucast (x AND 0xFFFF) :: u16)"
    "ucast (drop_bit 16 (ucast x :: u64) AND 0xFF) = (ucast (drop_bit 16 x AND 0xFF) :: u8)"
    "ucast (drop_bit 24 (ucast x :: u64) AND 0xFF) = (ucast (drop_bit 24 x AND 0xFF) :: u8)"
    "ucast (drop_bit 16 (ucast x :: u64) AND 0x0F) = (ucast (drop_bit 16 x AND 0x0F) :: u8)"
  by (rule bit_word_eqI; auto simp: and_masks bit_simps)+

lemma segment_entry_eq: "segment_entry bs lm acc gr e = gdt_entry (ucast bs) (ucast lm) acc gr"
  by (rule gdt_e.equality) (simp_all add: segment_entry_def gdt_entry_def Let_def ucast_masked)

lemma create_segment_eq:
  "create_segment (unat i) bs lm acc gr s = gdt_set_entry i (ucast bs) (ucast lm) acc gr s"
  by (simp add: create_segment_def gdt_set_entry_def segment_entry_eq)

lemma create_segment_nat:
  "create_segment n bs lm acc gr s = gdt_set_entry (word_of_nat n) (ucast bs) (ucast lm) acc gr s"
  if "n < 256"
  using create_segment_eq [of "word_of_nat n" bs lm acc gr s] that by (simp add: unat_of_nat)

lemma init_gdt_eq: "init_gdt a s = gdt_init a s"
proof -
  have l: "[0..<4] = [0, 1, 2, 3]" by (simp add: upt_rec)
  have u: "(ucast (0xFFFFFFFF :: u32) :: u64) = 0xFFFFFFFF" "(ucast (0 :: u32) :: u64) = 0"
    by simp_all
  have p: "gdt_ptr s\<lparr>lim := 39, base := a\<rparr> = \<lparr>lim = 39, base = a\<rparr>" by (rule dt_p.equality) simp_all
  show ?thesis
    by (simp add: init_gdt_def gdt_init_def l create_segment_nat acc_bytes_def u p gdt_install_v1_def
        gdt_install_def del: upt_rec_numeral)
qed

lemma add_entry_eq: "add_entry = idt_add_entry"
  by (simp add: fun_eq_iff add_entry_def idt_add_entry_def idt_entry_def)

lemma init_idt_eq:
  "init_idt a isr irq s = idt_init a isr irq (s\<lparr>idt_entries := replicate 256 zero_idt_e\<rparr>)"
proof -
  have c: "s\<lparr>idt_ptr := p, idt_entries := e\<rparr> = s\<lparr>idt_entries := e, idt_ptr := p\<rparr>" for p e
    by (rule idt_state.equality) simp_all
  show ?thesis
    by (simp add: init_idt_def idt_init_def add_entry_eq pic_remap_def outports_ports
        idt_install_v1_def idt_install_def Let_def c del: upt_rec_numeral)
qed

text \<open>
  Both versions set up the processor's tables the same way: \<open>init_gdt\<close> leaves the segments,
  the pointer and the register that the current \<open>gdt_init\<close> leaves, on every state, and \<open>init_idt\<close>
  leaves what the current \<open>idt_init\<close> leaves when it starts from a cleared table: only the first
  version clears the table itself.
\<close>

theorem tables_versions_agree:
  "init_gdt a s = gdt_init a s \<and>
   init_idt b isr irq t = idt_init b isr irq (t\<lparr>idt_entries := replicate 256 zero_idt_e\<rparr>)"
  by (simp add: init_gdt_eq init_idt_eq)

end
