(* ===== verification/V1_Devices.thy ===== *)
theory V1_Devices
  imports V1_Tables Interrupts
begin

text \<open>
  Interrupt dispatch and the two devices of the first version of the kernel: v1/os/isr.c,
  v1/os/timer.c and v1/os/keyboard.c.  A function pointer of the table \<open>handlers\<close> is a value of
  \<open>isr_t\<close>; what a call does is the argument \<open>run\<close> of the entry points.  What the keyboard
  controller returns is the argument \<open>inport\<close> of its handler.  Proved: when interrupts are
  acknowledged, the divisor the timer is given, and that the modifier flags of the keyboard
  count the make and break codes of their keys.
\<close>

datatype isr_t = Page_fault_v1 | Timer_v1 | Keyboard_v1

record mod_struct =
  capslock :: bool
  numlock :: bool
  scrolllock :: bool
  shift :: bool
  alt :: bool
  ctrl :: bool

record device_state = idt_state +
  handlers_v1 :: "isr_t option list"
  tick :: u32
  modifiers :: mod_struct

definition device0 :: device_state where
  "device0 = idt_state.extend idt0 \<lparr>handlers_v1 = replicate 256 None, tick = 0,
     modifiers = \<lparr>capslock = False, numlock = False, scrolllock = False, shift = False,
       alt = False, ctrl = False\<rparr>\<rparr>"

section \<open>isr.c\<close>

definition add_handler :: "u8 \<Rightarrow> isr_t \<Rightarrow> 'a device_state_scheme \<Rightarrow> 'a device_state_scheme" where
  "add_handler n h s = s\<lparr>handlers_v1 := (handlers_v1 s)[unat n := Some h]\<rparr>"

definition isr_handler_v1 ::
    "(isr_t \<Rightarrow> regs_t \<Rightarrow> 'a device_state_scheme \<Rightarrow> 'a device_state_scheme option) \<Rightarrow> regs_t
     \<Rightarrow> 'a device_state_scheme \<Rightarrow> 'a device_state_scheme option" where
  "isr_handler_v1 run r s =
     (let s = set_color 0x4 0 s in
      if unat (int_no r) < length (handlers_v1 s) then
        (case handlers_v1 s ! unat (int_no r) of
           Some h \<Rightarrow> run h r s
         | None \<Rightarrow> do {
             let s = vga_write_v1 (str ''recieved interrupt: '') s;
             s \<leftarrow> write_num (int_no r) 16 s;
             s \<leftarrow> write_num (err_code r) 16 s;
             Some (vga_write_v1 (str ''\<newline>'') s)
           })
      else None)"

definition irq_handler_v1 ::
    "(isr_t \<Rightarrow> regs_t \<Rightarrow> 'a device_state_scheme \<Rightarrow> 'a device_state_scheme option) \<Rightarrow> regs_t
     \<Rightarrow> 'a device_state_scheme \<Rightarrow> 'a device_state_scheme option" where
  "irq_handler_v1 run r s =
     (let s = (if 40 \<le> int_no r then outport 0xA0 0x20 s else s) in
      if unat (int_no r) < length (handlers_v1 s) then
        do {
          s \<leftarrow> (case handlers_v1 s ! unat (int_no r) of Some h \<Rightarrow> run h r s | None \<Rightarrow> Some s);
          Some (outport 0x20 0x20 s)
        }
      else None)"

section \<open>timer.c\<close>

definition timer_handler_v1 :: "'a device_state_scheme \<Rightarrow> 'a device_state_scheme option" where
  "timer_handler_v1 s =
     do {
       let s = s\<lparr>tick := tick s + 1\<rparr>;
       let s = vga_write_v1 (str ''tick: '') s;
       s \<leftarrow> write_num (tick s) 10 s;
       Some (vga_write_v1 (str ''\<newline>'') s)
     }"

definition init_timer :: "u32 \<Rightarrow> 'a device_state_scheme \<Rightarrow> 'a device_state_scheme option" where
  "init_timer frequency s =
     (let s = add_handler 32 Timer_v1 s in
      if frequency = 0 then None
      else
        let divisor = 1193180 div frequency;
            s = outport 0x43 0x36 s;
            s = outport 0x40 (ucast (divisor AND 0xFF)) s
        in Some (outport 0x40 (ucast (drop_bit 8 divisor)) s))"

section \<open>keyboard.c\<close>

text \<open>The table for the keys of a US keyboard; the rest of the 128 entries is zero.\<close>

definition kbdus :: "u8 list" where
  "kbdus =
     (let t = [0, 27] @ str ''1234567890-='' @ [8, 9] @ str ''qwertyuiop[]'' @ [10, 0] @
            str ''asdfghjkl;'' @ [39, 96, 0, 92] @ str ''zxcvbnm,./'' @ [0] @ str ''*'' @ [0] @
            str '' '' @ replicate 16 0 @ str ''-'' @ replicate 3 0 @ str ''+''
      in t @ replicate (128 - length t) 0)"

definition toggle_modifier :: "u8 \<Rightarrow> mod_struct \<Rightarrow> mod_struct" where
  "toggle_modifier scancode m =
     (if scancode = 170 \<or> scancode = 42 then m\<lparr>shift := \<not> shift m\<rparr>
      else if scancode = 184 \<or> scancode = 56 then m\<lparr>alt := \<not> alt m\<rparr>
      else if scancode = 157 \<or> scancode = 29 then m\<lparr>ctrl := \<not> ctrl m\<rparr>
      else if scancode = 58 then m\<lparr>capslock := \<not> capslock m\<rparr>
      else if scancode = 70 then m\<lparr>scrolllock := \<not> scrolllock m\<rparr>
      else if scancode = 69 then m\<lparr>numlock := \<not> numlock m\<rparr>
      else m)"

definition keyboard_handler ::
    "(u16 \<Rightarrow> u8) \<Rightarrow> 'a device_state_scheme \<Rightarrow> 'a device_state_scheme option" where
  "keyboard_handler inport s =
     (let scancode = inport 0x60;
          s = s\<lparr>modifiers := toggle_modifier scancode (modifiers s)\<rparr>
      in if scancode AND 0x80 = 0 \<and> kbdus ! unat scancode \<noteq> 0 then
           (let s = (if shift (modifiers s) then vga_write_v1 (str ''shift'') s else s);
                s = (if alt (modifiers s) then vga_write_v1 (str ''alt'') s else s);
                s = (if ctrl (modifiers s) then vga_write_v1 (str ''ctrl'') s else s)
            in write_num (ucast scancode) 10 s)
         else Some s)"

definition init_keyboard :: "'a device_state_scheme \<Rightarrow> 'a device_state_scheme" where
  "init_keyboard s = add_handler 33 Keyboard_v1 s"

lemma kbdus_length: "length kbdus = 128"
  by (simp add: kbdus_def)

lemma kbdus_layout:
  "kbdus ! 30 = of_char CHR ''a''" "kbdus ! 50 = of_char CHR ''m''" "kbdus ! 57 = of_char CHR '' ''"
  "kbdus ! 74 = of_char CHR ''-''" "kbdus ! 78 = of_char CHR ''+''"
  by (simp_all add: kbdus_def nth_append)

section \<open>Acknowledgement\<close>

text \<open>
  What an interrupt of vector \<open>n\<close> tells the controllers before and after its handler.
\<close>

definition slave_eoi :: "u32 \<Rightarrow> (u16 \<times> u8) list" where
  "slave_eoi n = (if 40 \<le> n then [(0xA0, 0x20)] else [])"

lemma irq_handler_v1_runs:
  assumes "unat (int_no r) < length (handlers_v1 s)"
  shows "irq_handler_v1 run r s = map_option (outport 0x20 0x20)
    (case handlers_v1 s ! unat (int_no r) of
       Some h \<Rightarrow> run h r (outports (slave_eoi (int_no r)) s)
     | None \<Rightarrow> Some (outports (slave_eoi (int_no r)) s))"
  using assms
  by (cases "handlers_v1 s ! unat (int_no r)")
    (auto simp: irq_handler_v1_def slave_eoi_def outports_def outport_def Let_def map_conv_bind_option
      comp_def)

text \<open>
  In the first version a registered handler is the one its vector runs, and the controllers
  are told at different times: the slave before the handler runs, the master after it.  A request
  without handler is acknowledged in silence.  As in the current version, a handler that does not
  return leaves the master without its acknowledgement.
\<close>

theorem irq_handler_v1_acknowledges:
  assumes "length (handlers_v1 s) = 256" and "s' = add_handler n h s"
  shows "(int_no r = ucast n \<longrightarrow> irq_handler_v1 run r s' =
      map_option (outport 0x20 0x20) (run h r (outports (slave_eoi (int_no r)) s'))) \<and>
    (k \<noteq> n \<and> handlers_v1 s ! unat k = None \<and> int_no q = ucast k \<longrightarrow>
      irq_handler_v1 run q s' = Some (outports (slave_eoi (int_no q) @ [(0x20, 0x20)]) s'))"
proof -
  have l: "length (handlers_v1 s') = 256" and at_n: "handlers_v1 s' ! unat n = Some h"
    and others: "k \<noteq> n \<Longrightarrow> handlers_v1 s' ! unat k = handlers_v1 s ! unat k" for k
    using assms unat_bound8 [of n] by (simp_all add: add_handler_def word_unat_eq_iff)
  have "irq_handler_v1 run r s' =
      map_option (outport 0x20 0x20) (run h r (outports (slave_eoi (int_no r)) s'))"
    if "int_no r = ucast n"
    using irq_handler_v1_runs [of r s' run] l at_n unat_bound8 [of n] by (simp add: vector_eq [OF that])
  moreover have "irq_handler_v1 run q s' = Some (outports (slave_eoi (int_no q) @ [(0x20, 0x20)]) s')"
    if k: "k \<noteq> n" "handlers_v1 s ! unat k = None" and q: "int_no q = ucast k"
  proof -
    have "unat (int_no q) = unat k" using q by (rule vector_eq)
    then show ?thesis
      using irq_handler_v1_runs [of q s' run] l others [OF k(1)] k(2) unat_bound8 [of k]
      by (simp add: outports_ports outport_def)
  qed
  ultimately show ?thesis by blast
qed

theorem irq_handler_v1_acknowledges_witness:
  "irq_handler_v1 (\<lambda>_ _. Some) (regs_of 44 0) (add_handler 33 Keyboard_v1 device0) =
    Some (outports [(0xA0, 0x20), (0x20, 0x20)] (add_handler 33 Keyboard_v1 device0))"
  using irq_handler_v1_acknowledges [of device0 "add_handler 33 Keyboard_v1 device0" 33 Keyboard_v1
      "regs_of 33 0" "\<lambda>_ _. Some" 44 "regs_of 44 0"]
  by (simp add: device0_def idt_state.defs regs_of_def slave_eoi_def)

section \<open>The timer\<close>

text \<open>
  A frequency from 19 Hz on gives a divisor of 16 bits, and the two bytes \<open>init_timer\<close> sends
  after the command are that divisor; slower requests are truncated by the second \<open>outport\<close>, and
  a frequency of zero divides by zero.
\<close>

theorem init_timer_divisor:
  "(frequency = 0 \<longrightarrow> init_timer frequency s = None) \<and>
   (19 \<le> frequency \<longrightarrow> (\<exists>lo hi s'. init_timer frequency s = Some s' \<and>
      ports s' = ports s @ [(0x43, 0x36), (0x40, lo), (0x40, hi)] \<and>
      unat lo + 256 * unat hi = 1193180 div unat frequency \<and>
      handlers_v1 s' = (handlers_v1 s)[32 := Some Timer_v1]))"
proof -
  define d :: u32 where "d = 1193180 div frequency"
  have "unat (ucast (d AND 0xFF) :: u8) + 256 * unat (ucast (drop_bit 8 d) :: u8) =
      1193180 div unat frequency" if f: "19 \<le> frequency"
  proof -
    have d: "unat d = 1193180 div unat frequency" by (simp add: d_def unat_div)
    have "1193180 div unat frequency \<le> 1193180 div 19"
      by (rule div_le_mono2) (use f in \<open>simp_all add: word_le_nat_alt\<close>)
    then have small: "unat d < 65536" using d by simp
    have "ucast (d AND 0xFF) = (ucast d :: u8)"
      by (rule bit_word_eqI) (simp add: and_masks bit_simps)
    then have lo: "unat (ucast (d AND 0xFF) :: u8) = unat d mod 256"
      by (simp add: unsigned_ucast_eq take_bit_eq_mod)
    have hi: "unat (ucast (drop_bit 8 d) :: u8) = unat d div 256"
      using less_mult_imp_div_less [of "unat d" 256 256] small
      by (simp add: unsigned_ucast_eq unat_div take_bit_eq_mod drop_bit_eq_div)
    show ?thesis using d by (simp add: lo hi mult.commute [of 256])
  qed
  then show ?thesis
    by (auto simp: init_timer_def add_handler_def outport_def Let_def d_def)
qed

theorem init_timer_divisor_witness:
  "\<exists>lo hi s'. init_timer 100 device0 = Some s' \<and> unat lo + 256 * unat (hi :: u8) = 11931 \<and>
    ports s' = [(0x43, 0x36), (0x40, lo), (0x40, hi)]"
proof -
  have "ports device0 = []"
    by (simp add: device0_def idt_state.defs idt0_def gdt_state.defs gdt0_def klib.defs klib0_def
        console.defs console0_def)
  then show ?thesis using init_timer_divisor [of 100 device0] by force
qed

section \<open>The keyboard\<close>

text \<open>The scan codes in the order they arrive, one interrupt each.\<close>

fun type_keys :: "u8 list \<Rightarrow> 'a device_state_scheme \<Rightarrow> 'a device_state_scheme option" where
  "type_keys [] s = Some s"
| "type_keys (c # cs) s = do { s \<leftarrow> keyboard_handler (\<lambda>_. c) s; type_keys cs s }"

definition toggled :: "u8 set \<Rightarrow> u8 list \<Rightarrow> bool" where
  "toggled K cs \<longleftrightarrow> odd (length (filter (\<lambda>c. c \<in> K) cs))"

lemma toggled_simps [simp]: "toggled K [] = False" "toggled K (c # cs) = (toggled K cs \<noteq> (c \<in> K))"
  by (auto simp: toggled_def)

definition prints_key :: "u8 \<Rightarrow> bool" where
  "prints_key c \<longleftrightarrow> c AND 0x80 = 0 \<and> kbdus ! unat c \<noteq> 0"

lemma vga_write_char_modifiers [simp]: "modifiers (vga_write_char c s) = modifiers s"
  by (simp add: vga_write_char_def Let_def vga_update_csr_def outports_ports vga_scroll_def)

lemma vga_write_modifiers [simp]: "modifiers (vga_write cs s) = modifiers s"
  by (induction cs s rule: vga_write.induct) auto

lemma write_num_modifiers: "write_num v b s = Some s' \<Longrightarrow> modifiers s' = modifiers s"
  by (auto simp: write_num_def itoa_v1_def bind_eq_Some_conv vga_write_v1_eq)

lemma keyboard_handler_step:
  assumes "itoa_buf_ok (itoa_buf s)"
  shows "\<exists>s'. keyboard_handler (\<lambda>_. c) s = Some s' \<and> itoa_buf_ok (itoa_buf s') \<and>
    modifiers s' = toggle_modifier c (modifiers s) \<and>
    (\<not> prints_key c \<longrightarrow> vga_mem s' = vga_mem s \<and> cursor s' = cursor s)"
proof (cases "prints_key c")
  case True
  let ?m = "toggle_modifier c (modifiers s)"
  let ?t = "(let s = s\<lparr>modifiers := ?m\<rparr>;
      s = (if shift (modifiers s) then vga_write (str ''shift'') s else s);
      s = (if alt (modifiers s) then vga_write (str ''alt'') s else s)
    in (if ctrl (modifiers s) then vga_write (str ''ctrl'') s else s))"
  have b: "itoa_buf_ok (itoa_buf ?t)" and m: "modifiers ?t = ?m" using assms by (simp_all add: Let_def)
  obtain s' where s': "write_num (ucast c) 10 ?t = Some s'" "itoa_buf_ok (itoa_buf s')"
    using write_num_returns [OF b, of 10 "ucast c"] by auto
  have "keyboard_handler (\<lambda>_. c) s = write_num (ucast c) 10 ?t"
    using True by (simp add: keyboard_handler_def prints_key_def Let_def vga_write_v1_eq)
  then show ?thesis using s' write_num_modifiers [OF s'(1)] m True by simp
next
  case False
  then show ?thesis
    using assms by (auto simp: keyboard_handler_def prints_key_def Let_def)
qed

lemma toggle_modifier_fields:
  "shift (toggle_modifier c m) = (shift m \<noteq> (c \<in> {42, 170}))"
  "alt (toggle_modifier c m) = (alt m \<noteq> (c \<in> {56, 184}))"
  "ctrl (toggle_modifier c m) = (ctrl m \<noteq> (c \<in> {29, 157}))"
  "capslock (toggle_modifier c m) = (capslock m \<noteq> (c = 58))"
  "scrolllock (toggle_modifier c m) = (scrolllock m \<noteq> (c = 70))"
  "numlock (toggle_modifier c m) = (numlock m \<noteq> (c = 69))"
  by (simp_all add: toggle_modifier_def)

lemma fold_toggle_fields:
  "shift (fold toggle_modifier cs m) = (shift m \<noteq> toggled {42, 170} cs)"
  "alt (fold toggle_modifier cs m) = (alt m \<noteq> toggled {56, 184} cs)"
  "ctrl (fold toggle_modifier cs m) = (ctrl m \<noteq> toggled {29, 157} cs)"
  "capslock (fold toggle_modifier cs m) = (capslock m \<noteq> toggled {58} cs)"
  "scrolllock (fold toggle_modifier cs m) = (scrolllock m \<noteq> toggled {70} cs)"
  "numlock (fold toggle_modifier cs m) = (numlock m \<noteq> toggled {69} cs)"
  by (induction cs arbitrary: m; simp add: toggle_modifier_fields; blast)+

lemma type_keys_returns:
  assumes "itoa_buf_ok (itoa_buf s)"
  shows "\<exists>s'. type_keys cs s = Some s' \<and> modifiers s' = fold toggle_modifier cs (modifiers s) \<and>
    (list_all (\<lambda>c. \<not> prints_key c) cs \<longrightarrow> vga_mem s' = vga_mem s \<and> cursor s' = cursor s)"
  using assms
proof (induction cs arbitrary: s)
  case (Cons c cs)
  obtain t where t: "keyboard_handler (\<lambda>_. c) s = Some t" "itoa_buf_ok (itoa_buf t)"
    "modifiers t = toggle_modifier c (modifiers s)"
    "\<not> prints_key c \<longrightarrow> vga_mem t = vga_mem s \<and> cursor t = cursor s"
    using keyboard_handler_step [OF Cons.prems, of c] by blast
  obtain s' where "type_keys cs t = Some s'" "modifiers s' = fold toggle_modifier cs (modifiers t)"
    "list_all (\<lambda>c. \<not> prints_key c) cs \<longrightarrow> vga_mem s' = vga_mem t \<and> cursor s' = cursor t"
    using Cons.IH [OF t(2)] by blast
  then show ?case using t(1,3,4) by (intro exI [of _ s'] conjI) auto
qed simp

text \<open>
  C40. Whatever keys are typed, the handler returns, and a modifier flag is its first value
  toggled once for each make or break code of its key.  So a shift, alt or control that was off
  is on exactly while its key is down, and the lock flags change on each press.  Break codes and
  keys without a character print nothing.
\<close>

theorem keyboard_modifiers_follow_keys:
  assumes "itoa_buf_ok (itoa_buf s)"
  shows "\<exists>s'. type_keys cs s = Some s' \<and>
    shift (modifiers s') = (shift (modifiers s) \<noteq> toggled {42, 170} cs) \<and>
    alt (modifiers s') = (alt (modifiers s) \<noteq> toggled {56, 184} cs) \<and>
    ctrl (modifiers s') = (ctrl (modifiers s) \<noteq> toggled {29, 157} cs) \<and>
    capslock (modifiers s') = (capslock (modifiers s) \<noteq> toggled {58} cs) \<and>
    scrolllock (modifiers s') = (scrolllock (modifiers s) \<noteq> toggled {70} cs) \<and>
    numlock (modifiers s') = (numlock (modifiers s) \<noteq> toggled {69} cs) \<and>
    (list_all (\<lambda>c. \<not> prints_key c) cs \<longrightarrow> vga_mem s' = vga_mem s \<and> cursor s' = cursor s)"
proof -
  obtain s' where "type_keys cs s = Some s'" "modifiers s' = fold toggle_modifier cs (modifiers s)"
    "list_all (\<lambda>c. \<not> prints_key c) cs \<longrightarrow> vga_mem s' = vga_mem s \<and> cursor s' = cursor s"
    using type_keys_returns [OF assms] by blast
  then show ?thesis by (intro exI [of _ s'] conjI; simp add: fold_toggle_fields)
qed

theorem keyboard_modifiers_follow_keys_witness:
  "\<exists>s'. type_keys [42, 30, 158, 170] device0 = Some s' \<and> \<not> shift (modifiers s')"
proof -
  have ok: "itoa_buf_ok (itoa_buf device0)" and off: "\<not> shift (modifiers device0)"
    by (simp_all add: device0_def idt_state.defs idt0_def gdt_state.defs gdt0_def klib.defs klib0_def
        console.defs itoa_buf_ok_def)
  obtain s' where "type_keys [42, 30, 158, 170] device0 = Some s'"
    "shift (modifiers s') = (shift (modifiers device0) \<noteq> toggled {42, 170} [42, 30, 158, 170])"
    using keyboard_modifiers_follow_keys [OF ok, of "[42, 30, 158, 170]"] by blast
  then show ?thesis using off by (intro exI [of _ s'] conjI) simp_all
qed

end
