(* ===== verification/V1_Llist.thy ===== *)
theory V1_Llist
  imports V1_Devices Kheap_Bins
begin

text \<open>
  v1/os/llist.c: the bins of the first version's heap, doubly linked lists of free nodes sorted by
  size.  \<open>node_t\<close> (v1/os/include/kheap.h) has the links and the size at the offsets of the current
  \<open>block_t\<close>, but \<open>hole\<close> is a word; \<open>bin_t\<close> starts with the head.  Proved: \<open>add_node\<close> is the
  current \<open>add_block_sorted\<close>, \<open>remove_node\<close> takes a node out of its list but leaves the node's own
  links behind, and the three operations meet the contract \<open>keyed_bin\<close> of a bin.
\<close>

section \<open>Fields\<close>

definition node_hole :: "mem \<Rightarrow> u32 \<Rightarrow> u32" where "node_hole m n = load32 m n"
definition node_size :: "mem \<Rightarrow> u32 \<Rightarrow> u32" where "node_size m n = load32 m (n + 4)"
definition node_next :: "mem \<Rightarrow> u32 \<Rightarrow> u32" where "node_next m n = load32 m (n + 8)"
definition node_prev :: "mem \<Rightarrow> u32 \<Rightarrow> u32" where "node_prev m n = load32 m (n + 12)"

definition put_hole :: "u32 \<Rightarrow> u32 \<Rightarrow> mem \<Rightarrow> mem" where "put_hole n v m = store32 m n v"
definition put_size :: "u32 \<Rightarrow> u32 \<Rightarrow> mem \<Rightarrow> mem" where "put_size n v m = store32 m (n + 4) v"
definition put_next :: "u32 \<Rightarrow> u32 \<Rightarrow> mem \<Rightarrow> mem" where "put_next n v m = store32 m (n + 8) v"
definition put_prev :: "u32 \<Rightarrow> u32 \<Rightarrow> mem \<Rightarrow> mem" where "put_prev n v m = store32 m (n + 12) v"

definition list_head :: "mem \<Rightarrow> u32 \<Rightarrow> u32" where "list_head m bin = load32 m bin"
definition put_head :: "u32 \<Rightarrow> u32 \<Rightarrow> mem \<Rightarrow> mem" where "put_head bin v m = store32 m bin v"

text \<open>All but \<open>hole\<close> are the fields of the current version.\<close>

lemma node_fields_eq:
  "node_size = blk_size" "node_next = blk_next" "node_prev = blk_prev"
  "put_size = set_size" "put_next = set_next" "put_prev = set_prev"
  "list_head = bin_head" "put_head = set_head"
  by (simp_all add: fun_eq_iff node_size_def node_next_def node_prev_def put_size_def put_next_def
      put_prev_def list_head_def put_head_def blk_fields)

section \<open>Operations\<close>

text \<open>The loop of \<open>add_node\<close>: the pair of \<open>current\<close> and \<open>previous\<close> when it stops.\<close>

partial_function (option) node_pos :: "mem \<Rightarrow> u32 \<Rightarrow> u32 \<Rightarrow> u32 \<Rightarrow> (u32 \<times> u32) option" where
  "node_pos m node current previous =
     (if current \<noteq> 0 \<and> node_size m current \<le> node_size m node
      then node_pos m node (node_next m current) current
      else Some (current, previous))"

definition add_node :: "u32 \<Rightarrow> u32 \<Rightarrow> mem \<Rightarrow> mem option" where
  "add_node bin node m =
     (let m = put_next node 0 m;
          m = put_prev node 0 m
      in if list_head m bin = 0 then Some (put_head bin node m)
      else do {
        (current, previous) \<leftarrow> node_pos m node (list_head m bin) 0;
        if current = 0 then
          (let m = put_next previous node m in Some (put_prev node previous m))
        else if previous \<noteq> 0 then
          (let m = put_next node current m;
               m = put_next previous node m;
               m = put_prev node previous m
           in Some (put_prev current node m))
        else
          (let m = put_next node (list_head m bin) m;
               m = put_prev (list_head m bin) node m
           in Some (put_head bin node m))
      })"

partial_function (option) find_node :: "mem \<Rightarrow> u32 \<Rightarrow> u32 \<Rightarrow> bool option" where
  "find_node m temp node =
     (if temp = 0 then Some False
      else if temp = node then Some True
      else find_node m (node_next m temp) node)"

definition unlink_node :: "u32 \<Rightarrow> mem \<Rightarrow> mem" where
  "unlink_node temp m =
     (if node_next m temp = 0 then put_next (node_prev m temp) 0 m
      else
        (let m = put_next (node_prev m temp) (node_next m temp) m
         in put_prev (node_next m temp) (node_prev m temp) m))"

definition remove_node ::
    "u32 \<Rightarrow> u32 \<Rightarrow> 'a console_scheme \<Rightarrow> 'a console_scheme option" where
  "remove_node bin node s =
     (let m = ram s in
      if list_head m bin = 0 then Some s
      else if list_head m bin = node then
        Some (s\<lparr>ram := put_head bin (node_next m (list_head m bin)) m\<rparr>)
      else do {
        found \<leftarrow> find_node m (node_next m (list_head m bin)) node;
        if found then Some (s\<lparr>ram := unlink_node node m\<rparr>)
        else Some (vga_writeln_v1 (Some (str ''Node not found in list!'')) s)
      })"

partial_function (option) best_fit_loop :: "mem \<Rightarrow> u32 \<Rightarrow> u32 \<Rightarrow> u32 option" where
  "best_fit_loop m temp sz =
     (if temp = 0 then Some 0
      else if sz \<le> node_size m temp then Some temp
      else best_fit_loop m (node_next m temp) sz)"

definition get_best_fit :: "mem \<Rightarrow> u32 \<Rightarrow> u32 \<Rightarrow> u32 option" where
  "get_best_fit m bin sz =
     (if list_head m bin = 0 then Some 0 else best_fit_loop m (list_head m bin) sz)"

text \<open>Without a test for an empty bin: the loop then starts by reading at the null pointer.\<close>

partial_function (option) last_node_loop :: "mem \<Rightarrow> u32 \<Rightarrow> u32 option" where
  "last_node_loop m temp =
     (if node_next m temp \<noteq> 0 then last_node_loop m (node_next m temp) else Some temp)"

definition get_last_node :: "mem \<Rightarrow> u32 \<Rightarrow> u32 option" where
  "get_last_node m bin = last_node_loop m (list_head m bin)"

partial_function (option) dump_nodes :: "u32 \<Rightarrow> 'a klib_scheme \<Rightarrow> 'a klib_scheme option" where
  "dump_nodes temp s =
     (if temp = 0 then Some s
      else do {
        let s = vga_write_v1 (str ''NODE: '') s;
        s \<leftarrow> write_num temp 16 s;
        let s = vga_write_v1 (str '' size: '') s;
        s \<leftarrow> write_num (node_size (ram s) temp) 10 s;
        let s = vga_write_v1 (str '' hole: '') s;
        s \<leftarrow> write_num (node_hole (ram s) temp) 10 s;
        let s = vga_writeln_v1 None s;
        dump_nodes (node_next (ram s) temp) s
      })"

definition dump_bin :: "u32 \<Rightarrow> 'a klib_scheme \<Rightarrow> 'a klib_scheme option" where
  "dump_bin bin s = dump_nodes (list_head (ram s) bin) s"

declare node_pos.simps [simp del] find_node.simps [simp del] best_fit_loop.simps [simp del]
  last_node_loop.simps [simp del] dump_nodes.simps [simp del]

section \<open>The loops are those of the current version\<close>

lemma option_eqI: "(\<And>r. x = Some r \<Longrightarrow> y = Some r) \<Longrightarrow> (\<And>r. y = Some r \<Longrightarrow> x = Some r) \<Longrightarrow> x = y"
  by (cases x; cases y) auto

lemma node_pos_eq: "node_pos m n c p = sorted_pos m n c p"
proof (rule option_eqI)
  fix r
  show "node_pos m n c p = Some r \<Longrightarrow> sorted_pos m n c p = Some r"
    by (erule node_pos.raw_induct [rotated]) (subst sorted_pos.simps, auto simp: node_fields_eq split: if_splits)
  show "sorted_pos m n c p = Some r \<Longrightarrow> node_pos m n c p = Some r"
    by (erule sorted_pos.raw_induct [rotated]) (subst node_pos.simps, auto simp: node_fields_eq split: if_splits)
qed

lemma best_fit_loop_eq: "best_fit_loop m c sz = first_fit_loop m c sz"
proof (rule option_eqI)
  fix r
  show "best_fit_loop m c sz = Some r \<Longrightarrow> first_fit_loop m c sz = Some r"
    by (erule best_fit_loop.raw_induct [rotated]) (subst first_fit_loop.simps, auto simp: node_fields_eq split: if_splits)
  show "first_fit_loop m c sz = Some r \<Longrightarrow> best_fit_loop m c sz = Some r"
    by (erule first_fit_loop.raw_induct [rotated]) (subst best_fit_loop.simps, auto simp: node_fields_eq split: if_splits)
qed

lemma find_node_eq: "find_node m c n = find_block m c n"
proof (rule option_eqI)
  fix r
  show "find_node m c n = Some r \<Longrightarrow> find_block m c n = Some r"
    by (erule find_node.raw_induct [rotated]) (subst find_block.simps, auto simp: node_fields_eq split: if_splits)
  show "find_block m c n = Some r \<Longrightarrow> find_node m c n = Some r"
    by (erule find_block.raw_induct [rotated]) (subst find_node.simps, auto simp: node_fields_eq split: if_splits)
qed

lemma add_node_eq: "add_node bin n m = add_block_sorted bin n m"
  unfolding add_node_def add_block_sorted_def Let_def node_fields_eq node_pos_eq
  by (auto intro!: Option.bind_cong)

lemma get_best_fit_eq: "get_best_fit m bin sz = get_first_fit m bin sz"
  by (simp add: get_best_fit_def get_first_fit_def best_fit_loop_eq node_fields_eq)

lemma unlink_node_eq: "unlink_node n m = unlink n m"
  by (simp add: unlink_node_def unlink_def node_fields_eq Let_def)

section \<open>Removal\<close>

lemma links_only_back:
  assumes "links_only bin S m (set_prev x v (set_next x w m'))" "x \<in> S"
  shows "links_only bin S m m'"
proof -
  have "apart (x + 8) 4 a 1" "apart (x + 12) 4 a 1" if "apart (x + 8) 8 a 1" for a
    using apart_shift_left [OF that, of 0 4] apart_shift_left [OF that, of 4 4]
    by (simp_all add: add.assoc)
  then show ?thesis
    using assms by (simp add: links_only_def set_next_def set_prev_def store32_other)
qed

lemma bin_list_back:
  assumes "bin_list (set_prev b v (set_next b w m)) bin ys" "b \<notin> set ys" "apart bin 4 b 16"
    "\<And>x. x \<in> set ys \<Longrightarrow> sep2 b x"
  shows "bin_list m bin ys"
proof -
  let ?m = "set_prev b v (set_next b w m)"
  have f: "blk_next ?m x = blk_next m x" "blk_prev ?m x = blk_prev m x" "blk_size ?m x = blk_size m x"
    if "x \<in> set ys" for x
    using fields_if [OF assms(4) [OF that]] that assms(2) by auto
  have "path ?m p ys 0 = path m p ys 0" for p by (rule path_cong) (rule f)
  moreover have "back_links ?m ys = back_links m ys"
    by (rule back_links_cong) (use f list.set_sel(2) [of ys] in \<open>cases ys; auto\<close>)
  moreover have "map (blk_size ?m) ys = map (blk_size m) ys" using f by simp
  then have "sorted (map (blk_size m) ys)" using assms(1) by (metis bin_list_def)
  ultimately show ?thesis using assms(1) by (simp add: bin_list_def bin_head_other [OF assms(3)])
qed

lemma bin_neighbours:
  assumes "bin_list m bin (ys @ b # zs)" "ys \<noteq> []"
  shows "blk_prev m b = last ys" "blk_next m b = (case zs of [] \<Rightarrow> 0 | z # _ \<Rightarrow> z)"
proof -
  have "path m (blk_next m b) zs 0" "back_links m (ys @ b # zs)"
    using assms(1) by (auto simp: bin_list_def path_append)
  then show "blk_prev m b = last ys" "blk_next m b = (case zs of [] \<Rightarrow> 0 | z # _ \<Rightarrow> z)"
    using assms(2) by (cases zs; simp add: back_links_append)+
qed

text \<open>
  A node that is in the list: the memory after \<open>remove_node\<close>, and how it is the memory after the
  current \<open>remove_block\<close> before that clears the node's links.
\<close>

lemma unlink_keeps_links:
  assumes "bin_list m bin xs" "b \<in> set xs" "bin_head m bin \<noteq> b"
  shows "blk_next (unlink b m) b = blk_next m b" "blk_prev (unlink b m) b = blk_prev m b"
proof -
  have d: "distinct xs" and p: "path m (bin_head m bin) xs 0"
    using assms(1) path_distinct by (auto simp: bin_list_def)
  have s2: "\<And>x y. x \<in> set xs \<Longrightarrow> y \<in> set xs \<Longrightarrow> sep2 x y"
    using assms(1) by (auto simp: bin_list_def separated_def)
  obtain ys zs where xs: "xs = ys @ b # zs" using assms(2) by (meson split_list)
  have ys: "ys \<noteq> []" using p xs assms(3) by auto
  note nb = bin_neighbours [OF assms(1) [unfolded xs] ys]
  have y: "last ys \<in> set xs" "last ys \<noteq> b" using xs ys d by auto
  have z: "blk_next m b = 0 \<or> blk_next m b \<in> set xs \<and> blk_next m b \<noteq> b"
    using nb(2) xs d by (cases zs) auto
  note f = fields_if [OF s2 [OF y(1) assms(2)]]
  show "blk_next (unlink b m) b = blk_next m b" "blk_prev (unlink b m) b = blk_prev m b"
    using z y(2) fields_if [OF s2 [OF _ assms(2)], of "blk_next m b"]
    by (auto simp: unlink_def nb(1) f Let_def)
qed

lemma remove_node_block:
  fixes t :: heap_state
  assumes bl: "bin_list (ram s) bin xs" and b: "b \<in> set xs" and t: "ram t = ram s"
  shows "\<exists>m'. remove_node bin b s = Some (s\<lparr>ram := m'\<rparr>) \<and>
    remove_block bin b t = Some (t\<lparr>ram := set_prev b 0 (set_next b 0 m')\<rparr>) \<and>
    blk_next m' b = blk_next (ram s) b \<and> blk_prev m' b = blk_prev (ram s) b"
proof -
  let ?m = "ram s"
  have p: "path ?m (bin_head ?m bin) xs 0" and bh: "apart bin 4 b 16"
    using bl b by (auto simp: bin_list_def)
  obtain x0 xs0 where x: "xs = x0 # xs0" "bin_head ?m bin = x0" "path ?m (blk_next ?m x0) xs0 0" "x0 \<noteq> 0"
    using p b by (cases xs) auto
  show ?thesis
  proof (cases "b = x0")
    case True
    then show ?thesis
      using x t bh by (intro exI [of _ "set_head bin (blk_next ?m b) ?m"])
        (simp add: remove_node_def remove_block_def Let_def node_fields_eq fields_set_head)
  next
    case False
    then have "find_block ?m (blk_next ?m x0) b = Some True"
      using find_block_path [OF x(3), of b] b x(1) by simp
    then show ?thesis
      using x t False unlink_keeps_links [OF bl b] by (intro exI [of _ "unlink b ?m"])
        (simp add: remove_node_def remove_block_def Let_def node_fields_eq find_node_eq unlink_node_eq)
  qed
qed

lemma remove_node_list:
  assumes bl: "bin_list (ram s) bin xs" and b: "b \<in> set xs"
  shows "\<exists>m'. remove_node bin b s = Some (s\<lparr>ram := m'\<rparr>) \<and> bin_list m' bin (remove1 b xs) \<and>
    links_only bin (set xs) (ram s) m' \<and>
    blk_next m' b = blk_next (ram s) b \<and> blk_prev m' b = blk_prev (ram s) b"
proof -
  define t :: heap_state where "t = idt_state.extend idt0
    \<lparr>handlers = [], kheap_initialized = 0, kheap = 0, alloc_ptr = 0\<rparr>\<lparr>ram := ram s\<rparr>"
  have t: "ram t = ram s" by (simp add: t_def)
  obtain m' where m': "remove_node bin b s = Some (s\<lparr>ram := m'\<rparr>)"
    "remove_block bin b t = Some (t\<lparr>ram := set_prev b 0 (set_next b 0 m')\<rparr>)"
    "blk_next m' b = blk_next (ram s) b" "blk_prev m' b = blk_prev (ram s) b"
    using remove_node_block [OF bl b t] by blast
  have bl': "bin_list (set_prev b 0 (set_next b 0 m')) bin (remove1 b xs)"
    and l: "links_only bin (set xs) (ram s) (set_prev b 0 (set_next b 0 m'))"
    using remove_block_list [of t bin xs b] bl b t m'(2) by (auto dest: arg_cong [of _ _ ram])
  note fs = bin_list_facts [OF bl]
  have "sep2 b x" if "x \<in> set (remove1 b xs)" for x
    using separatedD [OF fs(1) b] that notin_set_remove1 [of x xs b] by blast
  then have "bin_list m' bin (remove1 b xs)"
    using bin_list_back [OF bl'] fs(2,3) b by auto
  then show ?thesis using m' links_only_back [OF l b] by blast
qed

section \<open>Properties\<close>

definition remove_node_mem :: "'a console_scheme \<Rightarrow> u32 \<Rightarrow> u32 \<Rightarrow> mem \<Rightarrow> mem option" where
  "remove_node_mem s bin b m = map_option ram (remove_node bin b (s\<lparr>ram := m\<rparr>))"

text \<open>The first version's bins meet the same contract as the current ones.\<close>

interpretation nb: keyed_bin "\<lambda>m xs. bin_list m bin xs" node_size "may_add bin"
  "add_node bin" "remove_node_mem s bin" "\<lambda>m sz. get_best_fit m bin sz" 0
  for bin s
proof unfold_locales
  fix m xs b
  assume "bin_list m bin xs" "may_add bin b xs"
  then show "\<exists>m' ys. add_node bin b m = Some m' \<and> bin_list m' bin ys \<and>
      set ys = insert b (set xs) \<and> (\<forall>x\<in>set ys. node_size m' x = node_size m x)"
    unfolding add_node_eq node_fields_eq by (rule kb.add_law)
next
  fix m xs b
  assume h: "bin_list m bin xs" "b \<in> set xs"
  then obtain m' where m': "remove_node bin b (s\<lparr>ram := m\<rparr>) = Some (s\<lparr>ram := m'\<rparr>)"
    "bin_list m' bin (remove1 b xs)" "links_only bin (set xs) m m'"
    using remove_node_list [of "s\<lparr>ram := m\<rparr>" bin xs b] by auto
  have "set (remove1 b xs) = set xs - {b}" using bin_list_facts(3) [OF h(1)] by simp
  moreover have "\<forall>x\<in>set xs. node_size m' x = node_size m x"
    using links_only_sizes(1) [OF m'(3) bin_list_facts(1,2) [OF h(1)]] by (simp add: node_fields_eq)
  ultimately show "\<exists>m' ys. remove_node_mem s bin b m = Some m' \<and> bin_list m' bin ys \<and>
      set ys = set xs - {b} \<and> (\<forall>x\<in>set xs. node_size m' x = node_size m x)"
    using m'(1,2) by (intro exI [of _ m'] exI [of _ "remove1 b xs"]) (simp add: remove_node_mem_def)
next
  fix m xs sz
  assume "bin_list m bin xs"
  then show "\<exists>r. get_best_fit m bin sz = Some r \<and> (if r = 0 then \<forall>x\<in>set xs. node_size m x < sz
      else r \<in> set xs \<and> sz \<le> node_size m r \<and>
        (\<forall>x\<in>set xs. sz \<le> node_size m x \<longrightarrow> node_size m r \<le> node_size m x))"
    unfolding get_best_fit_eq node_fields_eq by (rule kb.fit_law)
qed

text \<open>
  On every memory the first version inserts and searches exactly as the current one: \<open>add_node\<close>
  ends and leaves what \<open>add_block_sorted\<close> leaves, and \<open>get_best_fit\<close> finds what
  \<open>get_first_fit\<close> finds.
\<close>

theorem bin_operations_agree:
  "add_node bin n m = add_block_sorted bin n m \<and> get_best_fit m bin sz = get_first_fit m bin sz"
  by (simp add: add_node_eq get_best_fit_eq)

text \<open>
  \<open>remove_node\<close> ends, takes exactly the given node out of a sorted list and writes nothing but
  the head and the links of the list's nodes.  The removed node keeps its own links, which still
  point at its old neighbours.  A node that is not in the list only gets a message.
\<close>

theorem remove_node_removes:
  assumes "bin_list (ram s) bin xs"
  shows "(b \<in> set xs \<longrightarrow> (\<exists>m'. remove_node bin b s = Some (s\<lparr>ram := m'\<rparr>) \<and>
      bin_list m' bin (remove1 b xs) \<and> links_only bin (set xs) (ram s) m' \<and>
      node_next m' b = node_next (ram s) b \<and> node_prev m' b = node_prev (ram s) b)) \<and>
    (b \<notin> set xs \<longrightarrow> (\<exists>s'. remove_node bin b s = Some s' \<and> ram s' = ram s))"
proof -
  have p: "path (ram s) (bin_head (ram s) bin) xs 0" using assms by (simp add: bin_list_def)
  have "\<exists>s'. remove_node bin b s = Some s' \<and> ram s' = ram s" if "b \<notin> set xs"
  proof (cases xs)
    case Nil
    then show ?thesis using p by (simp add: remove_node_def node_fields_eq)
  next
    case (Cons x xs')
    then have "path (ram s) (blk_next (ram s) x) xs' 0" using p by simp
    then have "find_block (ram s) (blk_next (ram s) x) b = Some False"
      using find_block_path that Cons by simp
    then show ?thesis
      using p Cons that
      by (auto simp: remove_node_def Let_def node_fields_eq find_node_eq vga_writeln_v1_eq vga_writeln_def)
  qed
  then show ?thesis using remove_node_list [OF assms] by (auto simp: node_fields_eq)
qed

theorem remove_node_removes_witness:
  "\<exists>m'. remove_node 0xC0200000 0xD0000000 (console0\<lparr>ram := put_head 0xC0200000 0xD0000000 (\<lambda>_. 0)\<rparr>) =
      Some (console0\<lparr>ram := m'\<rparr>) \<and> bin_list m' 0xC0200000 []"
proof -
  let ?s = "console0\<lparr>ram := put_head 0xC0200000 0xD0000000 (\<lambda>_. 0)\<rparr>"
  have "bin_list (ram ?s) 0xC0200000 [0xD0000000]" using one_block_bin by (simp add: node_fields_eq)
  from remove_node_removes [OF this, of "0xD0000000"] show ?thesis by auto
qed

lemma dump_nodes_path:
  "path (ram s) temp xs 0 \<Longrightarrow> itoa_buf_ok (itoa_buf s) \<Longrightarrow>
    \<exists>s'. dump_nodes temp s = Some s' \<and> console_only s s'"
proof (induction xs arbitrary: temp s)
  case Nil
  then show ?case by (simp add: dump_nodes.simps)
next
  case (Cons x xs)
  have out: "\<exists>t'. write_num v b (vga_write cs t) = Some t' \<and> itoa_buf_ok (itoa_buf t') \<and> console_only s t'"
    if "b \<in> {8, 10, 16}" "itoa_buf_ok (itoa_buf t)" "console_only s t" for v b cs and t :: "'a klib_scheme"
  proof -
    have "console_only s (vga_write cs t)" using that(3) by simp
    then show ?thesis
      using write_num_returns [of "vga_write cs t" b v] that(1,2) console_only_trans
      by (metis vga_write_buf)
  qed
  have b: "(16 :: u32) \<in> {8, 10, 16}" "(10 :: u32) \<in> {8, 10, 16}" by simp_all
  obtain s1 where s1: "write_num temp 16 (vga_write (str ''NODE: '') s) = Some s1"
    "itoa_buf_ok (itoa_buf s1)" "console_only s s1"
    using out [OF b(1) Cons.prems(2) console_only_refl] by blast
  obtain s2 where s2: "write_num (node_size (ram s) temp) 10 (vga_write (str '' size: '') s1) = Some s2"
    "itoa_buf_ok (itoa_buf s2)" "console_only s s2"
    using out [OF b(2) s1(2,3)] by blast
  obtain s3 where s3: "write_num (node_hole (ram s) temp) 10 (vga_write (str '' hole: '') s2) = Some s3"
    "itoa_buf_ok (itoa_buf s3)" "console_only s s3"
    using out [OF b(2) s2(2,3)] by blast
  let ?t = "vga_writeln None s3"
  have r: "ram s1 = ram s" "ram s2 = ram s" "ram s3 = ram s"
    using s1(3) s2(3) s3(3) by (simp_all add: console_only_def)
  have t: "itoa_buf_ok (itoa_buf ?t)" "console_only s ?t" "ram ?t = ram s"
    using s3 r by (simp_all add: vga_writeln_def)
  obtain s' where "dump_nodes (node_next (ram s) temp) ?t = Some s'" "console_only ?t s'"
    using Cons.IH [of ?t "node_next (ram s) temp"] Cons.prems t by (auto simp: node_fields_eq)
  then show ?case
    using Cons.prems(1) s1(1) s2(1) s3(1) r t(2,3) console_only_trans [OF t(2)]
    by (subst dump_nodes.simps)
      (auto simp: vga_write_v1_eq vga_writeln_v1_eq simp del: vga_write.simps)
qed

text \<open>
  On a bin that is a list, \<open>dump_bin\<close> ends and changes nothing but the console, and
  \<open>get_last_node\<close> ends at the largest node.
\<close>

lemma last_node_loop_path:
  "path m temp (x # xs) 0 \<Longrightarrow> last_node_loop m temp = Some (last (x # xs))"
proof (induction xs arbitrary: temp x)
  case Nil
  then show ?case by (subst last_node_loop.simps) (simp add: node_fields_eq)
next
  case (Cons y ys)
  then show ?case by (subst last_node_loop.simps) (auto simp: node_fields_eq)
qed

theorem bin_walks_end:
  assumes "bin_list (ram s) bin xs" and "itoa_buf_ok (itoa_buf s)"
  shows "(\<exists>s'. dump_bin bin s = Some s' \<and> console_only s s') \<and>
    (xs \<noteq> [] \<longrightarrow> get_last_node (ram s) bin = Some (last xs) \<and>
       (\<forall>x\<in>set xs. node_size (ram s) x \<le> node_size (ram s) (last xs)))"
proof -
  have p: "path (ram s) (bin_head (ram s) bin) xs 0" and so: "sorted (map (blk_size (ram s)) xs)"
    using assms(1) by (simp_all add: bin_list_def)
  have "\<forall>x\<in>set xs. node_size (ram s) x \<le> node_size (ram s) (last xs)"
    using so by (cases xs rule: rev_cases) (auto simp: node_fields_eq sorted_append)
  moreover have "get_last_node (ram s) bin = Some (last xs)" if "xs \<noteq> []"
    using that p last_node_loop_path [of "ram s"] by (cases xs) (auto simp: get_last_node_def node_fields_eq)
  ultimately show ?thesis
    using dump_nodes_path [OF p assms(2)] by (simp add: dump_bin_def node_fields_eq)
qed

theorem bin_walks_end_witness:
  "get_last_node (put_head 0xC0200000 0xD0000000 (\<lambda>_. 0)) 0xC0200000 = Some 0xD0000000"
proof -
  let ?s = "klib0\<lparr>ram := put_head 0xC0200000 0xD0000000 (\<lambda>_. 0)\<rparr>"
  have "bin_list (ram ?s) 0xC0200000 [0xD0000000]" using one_block_bin by (simp add: node_fields_eq)
  moreover have "itoa_buf_ok (itoa_buf ?s)" by (simp add: klib0_def console.defs itoa_buf_ok_def)
  ultimately show ?thesis using bin_walks_end [of ?s "0xC0200000" "[0xD0000000]"] by simp
qed

end
