(* ===== verification/V1_Frames.thy ===== *)
theory V1_Frames
  imports V1_Llist
begin

text \<open>
  The frames and page table entries of the first version: \<open>push_frame\<close> and \<open>pop_frame\<close> of
  v1/os/pmm.c, \<open>get_page\<close>, \<open>alloc_frame\<close> and \<open>free_frame\<close> of v1/os/vmm.c.  \<open>paging_t\<close>
  (v1/os/include/vmm.h) is one object: the 1024 entries of the directory at 0, and from 4096 on the
  1024 tables of 1024 entries each.  \<open>push_frame\<close> allocates its stack slots with \<open>kmalloc\<close>, which is
  its argument here, since the heap behind \<open>kmalloc\<close> calls \<open>push_frame\<close> in turn.  The record
  holds the file-scope variables of pmm.c and vmm.c.
\<close>

record v1_state = device_state +
  top_v1 :: u32
  bottom_v1 :: u32
  placement_addr :: u32
  kheap_init_v1 :: u8
  kheap_v1 :: u32
  kpaging :: u32

type_synonym 'a malloc = "u32 \<Rightarrow> 'a v1_state_scheme \<Rightarrow> (u32 \<times> 'a v1_state_scheme) option"

section \<open>The stack of free frames\<close>

definition push_frame :: "'a malloc \<Rightarrow> u32 \<Rightarrow> 'a v1_state_scheme \<Rightarrow> 'a v1_state_scheme option" where
  "push_frame km addr s =
     do {
       (ptr, s) \<leftarrow> km 4 s;
       let s = s\<lparr>ram := store32 (ram s) ptr addr\<rparr>;
       Some (s\<lparr>top_v1 := ptr\<rparr>)
     }"

definition pop_frame :: "'a v1_state_scheme \<Rightarrow> u32 \<times> 'a v1_state_scheme" where
  "pop_frame s =
     (if top_v1 s = bottom_v1 s then (-1, vga_write_v1 (str ''NO MEMORY'') s)
      else (load32 (ram s) (top_v1 s), s\<lparr>top_v1 := top_v1 s - 4\<rparr>))"

section \<open>Page table entries\<close>

definition dir_entry :: "u32 \<Rightarrow> u32 \<Rightarrow> u32" where
  "dir_entry paging index = paging + 4 * index"

definition table_addr :: "u32 \<Rightarrow> u32 \<Rightarrow> u32" where
  "table_addr paging index = paging + 4096 + 4096 * index"

definition get_page_v1 :: "u32 \<Rightarrow> u32 \<Rightarrow> mem \<Rightarrow> u32 \<times> mem" where
  "get_page_v1 address paging m =
     (let frame = drop_bit 12 address;
          index = frame div 1024;
          m = (if load32 m (dir_entry paging index) AND 1 = 0
               then store32 m (dir_entry paging index) (table_addr paging index OR 3) else m)
      in (table_addr paging index + 4 * (frame mod 1024), m))"

definition or_entry :: "u32 \<Rightarrow> u32 \<Rightarrow> mem \<Rightarrow> mem" where
  "or_entry page bits m = store32 m page (load32 m page OR bits)"

definition alloc_frame :: "u32 \<Rightarrow> u8 \<Rightarrow> u8 \<Rightarrow> 'a v1_state_scheme \<Rightarrow> 'a v1_state_scheme" where
  "alloc_frame page kern wr s =
     (let (address, s) = pop_frame s;
          m = or_entry page 1 (ram s);
          m = or_entry page (if wr \<noteq> 0 then 2 else 0) m;
          m = or_entry page (if kern \<noteq> 0 then 4 else 0) m;
          m = or_entry page address m
      in s\<lparr>ram := m\<rparr>)"

definition free_frame_v1 :: "'a malloc \<Rightarrow> u32 \<Rightarrow> 'a v1_state_scheme \<Rightarrow> 'a v1_state_scheme option" where
  "free_frame_v1 km page s =
     do {
       let frame = load32 (ram s) page AND 0xFFFFF000;
       s \<leftarrow> push_frame km frame s;
       Some (s\<lparr>ram := store32 (ram s) page 0\<rparr>)
     }"

section \<open>What the entries hold\<close>

lemma or_entry_load [simp]: "load32 (or_entry page b m) page = load32 m page OR b"
  by (simp add: or_entry_def)

lemma or_entry_other: "apart page 4 a 4 \<Longrightarrow> load32 (or_entry page b m) a = load32 m a"
  by (simp add: or_entry_def load32_store32_apart)

lemma alloc_frame_entry:
  "load32 (ram (alloc_frame page kern wr s)) page =
     (((load32 (ram s) page OR 1) OR (if wr \<noteq> 0 then 2 else 0)) OR (if kern \<noteq> 0 then 4 else 0))
       OR fst (pop_frame s)"
  by (simp add: alloc_frame_def pop_frame_def Let_def vga_write_v1_eq split: prod.splits)

lemma alloc_frame_other:
  "apart page 4 a 4 \<Longrightarrow> load32 (ram (alloc_frame page kern wr s)) a = load32 (ram s) a"
  by (simp add: alloc_frame_def pop_frame_def Let_def or_entry_other vga_write_v1_eq split: prod.splits)

lemma vga_write_more [simp]:
  "top_v1 (vga_write cs s) = top_v1 s" "bottom_v1 (vga_write cs s) = bottom_v1 s"
  "placement_addr (vga_write cs s) = placement_addr s"
  "kheap_init_v1 (vga_write cs s) = kheap_init_v1 s" "kheap_v1 (vga_write cs s) = kheap_v1 s"
  "kpaging (vga_write cs s) = kpaging s"
proof -
  have "console_only s (vga_write cs s)" by simp
  then have "klib.more (vga_write cs s) = klib.more s" by (simp add: console_only_def)
  then show "top_v1 (vga_write cs s) = top_v1 s" "bottom_v1 (vga_write cs s) = bottom_v1 s"
    "placement_addr (vga_write cs s) = placement_addr s"
    "kheap_init_v1 (vga_write cs s) = kheap_init_v1 s" "kheap_v1 (vga_write cs s) = kheap_v1 s"
    "kpaging (vga_write cs s) = kpaging s"
    by (cases s, cases "vga_write cs s", simp)+
qed

section \<open>The stack as a list\<close>

text \<open>
  \<open>frame_stack s fs\<close>: the slots from \<open>bottom\<close> on hold \<open>fs\<close> and \<open>top\<close> points at the last of them.
\<close>

definition slot :: "'a v1_state_scheme \<Rightarrow> nat \<Rightarrow> u32" where
  "slot s i = bottom_v1 s + 4 * word_of_nat i"

definition frame_stack :: "'a v1_state_scheme \<Rightarrow> u32 list \<Rightarrow> bool" where
  "frame_stack s fs \<longleftrightarrow> fs \<noteq> [] \<and> unat (bottom_v1 s) + 4 * length fs \<le> 2 ^ 32 \<and>
     top_v1 s = slot s (length fs - 1) \<and> (\<forall>i<length fs. load32 (ram s) (slot s i) = fs ! i)"

text \<open>Before the heap exists, \<open>kmalloc\<close> takes the next bytes at the placement address.\<close>

definition bump :: "'a malloc" where
  "bump n s = Some (placement_addr s, s\<lparr>placement_addr := placement_addr s + n\<rparr>)"

lemma slot_unat:
  assumes "unat (bottom_v1 s) + 4 * i < 2 ^ 32"
  shows "unat (slot s i) = unat (bottom_v1 s) + 4 * i"
proof -
  have "unat (4 * word_of_nat i :: u32) = 4 * i"
    using assms by (simp add: unat_word_ariths unat_of_nat)
  then show ?thesis using assms by (simp add: slot_def unat_word_ariths)
qed

lemma slot_apart:
  assumes "unat (bottom_v1 s) + 4 * Suc i \<le> 2 ^ 32" "unat (bottom_v1 s) + 4 * Suc j \<le> 2 ^ 32" "i \<noteq> j"
  shows "apart (slot s i) 4 (slot s j) 4"
proof -
  have "apart (slot s a) 4 (slot s b) 4"
    if "a < b" "unat (bottom_v1 s) + 4 * Suc b \<le> 2 ^ 32" for a b
    by (rule apart_bounds) (use that in \<open>simp_all add: slot_unat\<close>)
  from this [of i j] this [of j i] show ?thesis using assms apart_sym by (metis linorder_neqE_nat)
qed

lemma slot_eq_iff:
  assumes "unat (bottom_v1 s) + 4 * Suc i \<le> 2 ^ 32" "unat (bottom_v1 s) + 4 * Suc j \<le> 2 ^ 32"
  shows "slot s i = slot s j \<longleftrightarrow> i = j"
  using slot_apart [OF assms] apart_neq by fastforce

lemma slot_more [simp]:
  "slot (s\<lparr>ram := m\<rparr>) i = slot s i" "slot (s\<lparr>top_v1 := t\<rparr>) i = slot s i"
  "slot (s\<lparr>placement_addr := p\<rparr>) i = slot s i" "slot (vga_write cs s) i = slot s i"
  by (simp_all add: slot_def)

lemma slot_0 [simp]: "slot s 0 = bottom_v1 s"
  by (simp add: slot_def)

lemma slot_Suc: "slot s i + 4 = slot s (Suc i)"
  by (simp add: slot_def algebra_simps)

lemma pop_frame_stack:
  assumes "frame_stack s (fs @ [f])"
  shows "fs \<noteq> [] \<Longrightarrow> pop_frame s = (f, s\<lparr>top_v1 := slot s (length fs - 1)\<rparr>)"
    and "fs = [] \<Longrightarrow> pop_frame s = (- 1, vga_write (str ''NO MEMORY'') s)"
proof -
  have t: "top_v1 s = slot s (length fs)" and f: "load32 (ram s) (slot s (length fs)) = f"
    and b: "unat (bottom_v1 s) + 4 * Suc (length fs) \<le> 2 ^ 32"
    using assms by (auto simp: frame_stack_def nth_append)
  show "fs = [] \<Longrightarrow> pop_frame s = (- 1, vga_write (str ''NO MEMORY'') s)"
    using t by (simp add: pop_frame_def vga_write_v1_eq del: vga_write.simps)
  assume ne: "fs \<noteq> []"
  have "slot s (length fs) \<noteq> bottom_v1 s"
    using slot_eq_iff [of s "length fs" 0] b ne by simp
  moreover have "slot s (length fs) - 4 = slot s (length fs - 1)"
    using slot_Suc [of s "length fs - 1"] ne by (simp add: diff_eq_eq)
  ultimately show "pop_frame s = (f, s\<lparr>top_v1 := slot s (length fs - 1)\<rparr>)"
    using t f by (simp add: pop_frame_def)
qed

lemma frame_stack_popped:
  assumes "frame_stack s (fs @ [f])" "fs \<noteq> []"
  shows "frame_stack (s\<lparr>top_v1 := slot s (length fs - 1)\<rparr>) fs"
  using assms by (auto simp: frame_stack_def nth_append less_Suc_eq)

text \<open>A push at the end of the slots, whatever the stack has popped in between.\<close>

lemma frame_stack_push:
  assumes "frame_stack (s\<lparr>top_v1 := slot s (length fs - 1)\<rparr>) fs" "placement_addr s = slot s (length fs)"
    and room: "unat (bottom_v1 s) + 4 * Suc (length fs) \<le> 2 ^ 32"
  shows "\<exists>s'. push_frame bump g s = Some s' \<and> frame_stack s' (fs @ [g]) \<and>
    placement_addr s' = slot s' (length (fs @ [g])) \<and> bottom_v1 s' = bottom_v1 s \<and>
    kheap_init_v1 s' = kheap_init_v1 s"
proof -
  let ?s' = "s\<lparr>placement_addr := placement_addr s + 4, ram := store32 (ram s) (placement_addr s) g,
    top_v1 := placement_addr s\<rparr>"
  have p: "push_frame bump g s = Some ?s'" by (simp add: push_frame_def bump_def)
  have l: "load32 (store32 (ram s) (slot s (length fs)) g) (slot s i) = fs ! i" if "i < length fs" for i
    using assms(1) slot_apart [of s "length fs" i] that room
    by (simp add: frame_stack_def load32_store32_apart)
  have "frame_stack ?s' (fs @ [g])"
    using assms(2) room l by (auto simp: frame_stack_def nth_append less_Suc_eq)
  then show ?thesis using p assms(2) by (simp add: slot_Suc)
qed

fun pop_frames :: "nat \<Rightarrow> 'a v1_state_scheme \<Rightarrow> u32 list \<times> 'a v1_state_scheme" where
  "pop_frames 0 s = ([], s)"
| "pop_frames (Suc n) s =
     (let (f, s) = pop_frame s; (fs, s) = pop_frames n s in (f # fs, s))"

fun push_frames :: "'a malloc \<Rightarrow> u32 list \<Rightarrow> 'a v1_state_scheme \<Rightarrow> 'a v1_state_scheme option" where
  "push_frames km [] s = Some s"
| "push_frames km (f # fs) s = do { s \<leftarrow> push_frame km f s; push_frames km fs s }"

lemma push_frames_stack:
  assumes "frame_stack s fs" "placement_addr s = slot s (length fs)"
    "unat (bottom_v1 s) + 4 * length (fs @ gs) \<le> 2 ^ 32"
  shows "\<exists>s'. push_frames bump gs s = Some s' \<and> frame_stack s' (fs @ gs) \<and> bottom_v1 s' = bottom_v1 s"
  using assms
proof (induction gs arbitrary: s fs)
  case Nil
  then show ?case by simp
next
  case (Cons g gs)
  have "frame_stack (s\<lparr>top_v1 := slot s (length fs - 1)\<rparr>) fs"
    using Cons.prems(1) by (simp add: frame_stack_def)
  then obtain t where t: "push_frame bump g s = Some t" "frame_stack t (fs @ [g])"
    "placement_addr t = slot t (length (fs @ [g]))" "bottom_v1 t = bottom_v1 s"
    using frame_stack_push [of s fs g] Cons.prems by auto
  then show ?case using Cons.IH [of t "fs @ [g]"] Cons.prems(3) by auto
qed

lemma push_frames_first:
  assumes "placement_addr s = bottom_v1 s" "fs \<noteq> []" "unat (bottom_v1 s) + 4 * length fs \<le> 2 ^ 32"
  shows "\<exists>s'. push_frames bump fs s = Some s' \<and> frame_stack s' fs"
proof -
  obtain f gs where fs: "fs = f # gs" using assms(2) by (cases fs) auto
  let ?t = "s\<lparr>placement_addr := placement_addr s + 4, ram := store32 (ram s) (placement_addr s) f,
    top_v1 := placement_addr s\<rparr>"
  have "push_frame bump f s = Some ?t" by (simp add: push_frame_def bump_def)
  moreover have "frame_stack ?t [f]" using assms fs by (simp add: frame_stack_def)
  moreover have "placement_addr ?t = slot ?t (length [f])" using assms(1) by (simp add: slot_def)
  ultimately show ?thesis
    using push_frames_stack [of ?t "[f]" gs] assms(3) fs by auto
qed

lemma pop_frames_stack:
  assumes "frame_stack s (fs @ gs)" "fs \<noteq> []"
  shows "fst (pop_frames (length gs) s) = rev gs \<and> frame_stack (snd (pop_frames (length gs) s)) fs"
  using assms
proof (induction gs arbitrary: s rule: rev_induct)
  case Nil
  then show ?case by simp
next
  case (snoc g gs)
  have "frame_stack s ((fs @ gs) @ [g])" using snoc.prems(1) by simp
  note p = pop_frame_stack(1) [OF this] frame_stack_popped [OF this]
  show ?case
    using snoc.IH [OF p(2)] p(1) snoc.prems(2)
    by (cases "pop_frames (length gs) (s\<lparr>top_v1 := slot s (length (fs @ gs) - 1)\<rparr>)") auto
qed

text \<open>
  Frames that are pushed come back in reverse order, except the first: when only that is left
  \<open>pop_frame\<close> reports that there is no memory.
\<close>

lemma frames_popped_in_reverse:
  assumes "placement_addr s = bottom_v1 s" and "unat (bottom_v1 s) + 4 * length (f # fs) \<le> 2 ^ 32"
  shows "\<exists>s'. push_frames bump (f # fs) s = Some s' \<and>
    fst (pop_frames (length fs) s') = rev fs \<and>
    (let t = snd (pop_frames (length fs) s') in pop_frame t = (- 1, vga_write (str ''NO MEMORY'') t))"
proof -
  obtain s' where s': "push_frames bump (f # fs) s = Some s'" "frame_stack s' ([f] @ fs)"
    using push_frames_first [OF assms(1) _ assms(2)] by auto
  note p = pop_frames_stack [OF s'(2)]
  then have "frame_stack (snd (pop_frames (length fs) s')) ([] @ [f])" by simp
  from pop_frame_stack(2) [OF this] show ?thesis
    using s'(1) p by (simp add: Let_def del: vga_write.simps)
qed

definition v1_state0 :: v1_state where
  "v1_state0 = device_state.extend device0 \<lparr>top_v1 = 0, bottom_v1 = 0x200000, placement_addr = 0x200000,
     kheap_init_v1 = 0, kheap_v1 = 0, kpaging = 0x400000\<rparr>"

text \<open>
  A frame that is pushed after another was popped brings the popped one back: the slot of the
  popped frame is still there below the new one, so the next two pops hand out the new frame and
  then the popped one a second time.
\<close>

theorem pushed_frame_revives_popped:
  assumes "frame_stack s (fs @ [f])" and "fs \<noteq> []" and "placement_addr s = slot s (length (fs @ [f]))"
    and "unat (bottom_v1 s) + 4 * length (fs @ [f, g]) \<le> 2 ^ 32"
  shows "\<exists>t s'. pop_frame s = (f, t) \<and> push_frame bump g t = Some s' \<and>
    fst (pop_frames 2 s') = [g, f]"
proof -
  let ?t = "s\<lparr>top_v1 := slot s (length fs - 1)\<rparr>"
  have pop: "pop_frame s = (f, ?t)" using pop_frame_stack(1) [OF assms(1,2)] .
  have "frame_stack (?t\<lparr>top_v1 := slot ?t (length (fs @ [f]) - 1)\<rparr>) (fs @ [f])"
    using assms(1) by (simp add: frame_stack_def)
  then obtain s' where s': "push_frame bump g ?t = Some s'" "frame_stack s' ((fs @ [f]) @ [g])"
    using frame_stack_push [of ?t "fs @ [f]" g] assms(3,4) by auto
  have "frame_stack s' (fs @ [f, g])" using s'(2) by simp
  moreover have "length [f, g] = 2" "rev [f, g] = [g, f]" by simp_all
  ultimately show ?thesis using pop s'(1) pop_frames_stack [OF _ assms(2)] by metis
qed

theorem pushed_frame_revives_popped_witness:
  "\<exists>s t s'. pop_frame s = (0x301000, t) \<and> push_frame bump 0x555000 t = Some s' \<and>
    fst (pop_frames 2 s') = [0x555000, 0x301000 :: u32] \<and> bottom_v1 (s :: v1_state) = 0x200000"
proof -
  let ?s = "v1_state0\<lparr>ram := store32 (store32 (\<lambda>_. 0) 0x200000 0x300000) 0x200004 0x301000,
    top_v1 := 0x200004, placement_addr := 0x200008\<rparr>"
  have "frame_stack ?s ([0x300000] @ [0x301000])"
    by (auto simp: frame_stack_def slot_def v1_state0_def device_state.defs less_Suc_eq
        load32_store32_apart)
  moreover have "placement_addr ?s = slot ?s (length ([0x300000] @ [0x301000 :: u32]))"
    by (simp add: slot_def v1_state0_def device_state.defs)
  moreover have b: "bottom_v1 ?s = 0x200000" by (simp add: v1_state0_def device_state.defs)
  moreover have "unat (bottom_v1 ?s) + 4 * length ([0x300000] @ [0x301000 :: u32, 0x555000]) \<le> 2 ^ 32"
    by (simp add: b)
  ultimately obtain t s' where "pop_frame ?s = (0x301000, t)" "push_frame bump 0x555000 t = Some s'"
    "fst (pop_frames 2 s') = [0x555000, 0x301000]"
    using pushed_frame_revives_popped by blast
  then show ?thesis using b by blast
qed

end
