(* ===== verification/V1_Heap.thy ===== *)
theory V1_Heap
  imports V1_Frames
begin

text \<open>
  v1/os/kheap.c, the heap of the first version, with \<open>kmalloc\<close> and \<open>kfree\<close> of v1/os/vmm.c.
  \<open>heap_t\<close> (v1/os/include/kheap.h) has \<open>start\<close> at 0, \<open>end\<close> 4, \<open>max\<close> 8, \<open>super\<close> 12, \<open>ro\<close> 13 and the nine
  pointers \<open>bins\<close> from 16 on; an index past 8 reads the memory behind the structure, as in C.

  \<open>alloc\<close> can shrink the heap, which frees frames, which allocates the slots of the frame stack:
  \<open>alloc\<close>, \<open>contract\<close>, \<open>free_frame\<close>, \<open>push_frame\<close> and \<open>kmalloc\<close> are mutually recursive.  The bodies
  take the inner allocator as an argument, and \<open>alloc d\<close> allows \<open>d\<close> nested calls; \<open>None\<close> is more
  than that, an endless loop, or no defined result.
\<close>

definition KHEAP_START_v1 :: u32 where "KHEAP_START_v1 = 0xC0000000"
definition KHEAP_INIT_SIZE :: u32 where "KHEAP_INIT_SIZE = 0x1000000"
definition KHEAP_MAX :: u32 where "KHEAP_MAX = 0xCFFFF000"
definition MIN_HEAP_SIZE :: u32 where "MIN_HEAP_SIZE = 0x10000"
definition MIN_WILDERNESS :: u32 where "MIN_WILDERNESS = 0x2000"
definition MAX_WILDERNESS :: u32 where "MAX_WILDERNESS = 0x1000000"

lemmas heap_const_v1 = KHEAP_START_v1_def KHEAP_INIT_SIZE_def KHEAP_MAX_def MIN_HEAP_SIZE_def
  MIN_WILDERNESS_def MAX_WILDERNESS_def

definition bins_at :: "mem \<Rightarrow> u32 \<Rightarrow> u32 \<Rightarrow> u32" where
  "bins_at m heap i = load32 m (heap + 16 + 4 * i)"

section \<open>Sizes and footers\<close>

function log_loop :: "u32 \<Rightarrow> u32 \<Rightarrow> u32" where
  "log_loop sz index =
     (let sz = drop_bit 1 sz in if sz \<noteq> 0 then log_loop sz (index + 1) else index)"
  by pat_completeness auto
termination
proof (relation "measure (\<lambda>(sz, index). unat sz)", goal_cases)
  case (2 sz index x)
  then have "unat (drop_bit 1 sz) < unat sz"
    by (cases "sz = 0") (auto simp: unat_div drop_bit_Suc unat_gt_0)
  with 2 show ?case by simp
qed simp

declare log_loop.simps [simp del]

definition get_bin_index_v1 :: "u32 \<Rightarrow> u32" where
  "get_bin_index_v1 sz =
     (let sz = (if sz < 4 then 4 else sz);
          index = log_loop sz 0;
          index = index - 2
      in if 8 < index then 8 else index)"

definition get_foot_v1 :: "mem \<Rightarrow> u32 \<Rightarrow> u32" where
  "get_foot_v1 m node = node + 16 + node_size m node"

definition create_foot_v1 :: "u32 \<Rightarrow> mem \<Rightarrow> mem" where
  "create_foot_v1 head m = store32 m (get_foot_v1 m head) head"

definition get_wilderness_v1 :: "mem \<Rightarrow> u32 \<Rightarrow> u32" where
  "get_wilderness_v1 m heap = load32 m (load32 m (heap + 4) - 4)"

section \<open>Initialisation\<close>

definition init_heap ::
    "u32 \<Rightarrow> u32 \<Rightarrow> u32 \<Rightarrow> u32 \<Rightarrow> u8 \<Rightarrow> u8 \<Rightarrow> mem \<Rightarrow> mem option" where
  "init_heap heap start end_addr max_addr super ro m =
     do {
       let m = put_hole start 1 m;
       let m = put_size start (KHEAP_INIT_SIZE - 16 - 4) m;
       let m = create_foot_v1 start m;
       m \<leftarrow> add_node (bins_at m heap (get_bin_index_v1 (node_size m start))) start m;
       let m = store32 m heap start;
       let m = store32 m (heap + 4) end_addr;
       let m = store32 m (heap + 8) max_addr;
       Some (m(heap + 12 := super, heap + 13 := ro))
     }"

section \<open>Growing and shrinking\<close>

partial_function (option) map_pages ::
    "u32 \<Rightarrow> u32 \<Rightarrow> u32 \<Rightarrow> 'a v1_state_scheme \<Rightarrow> 'a v1_state_scheme option" where
  "map_pages heap i new_size s =
     (if i < new_size then
        (let (page, m) = get_page_v1 (load32 (ram s) heap + i) (kpaging s) (ram s);
             s = alloc_frame page 1 1 (s\<lparr>ram := m\<rparr>)
         in map_pages heap (i + 0x1000) new_size s)
      else Some s)"

text \<open>The size \<open>expand\<close> gives the heap: past a page it takes a whole page more.\<close>

definition grown_size :: "u32 \<Rightarrow> u32" where
  "grown_size new_size =
     (if new_size AND 0xfffff000 \<noteq> 0 then (new_size AND 0xfffff000) + 0x1000 else new_size)"

definition expand :: "u32 \<Rightarrow> u32 \<Rightarrow> 'a v1_state_scheme \<Rightarrow> (u8 \<times> 'a v1_state_scheme) option" where
  "expand heap sz s =
     (let m = ram s;
          old_size = load32 m (heap + 4) - load32 m heap;
          new_size = old_size + sz;
          sz = (if new_size AND 0xfffff000 \<noteq> 0 then grown_size new_size - old_size else sz);
          new_size = grown_size new_size
      in if load32 m (heap + 8) < load32 m heap + new_size then
           Some (0, vga_writeln_v1 (Some (str ''heap maxed out! can't expand'')) s)
         else do {
           s \<leftarrow> map_pages heap old_size new_size s;
           let m = ram s;
           let wild = get_wilderness_v1 m heap;
           let m = store32 m (get_foot_v1 m wild) 0;
           let m = put_size wild (node_size m wild + sz) m;
           let m = store32 m (get_foot_v1 m wild) wild;
           let m = store32 m (heap + 4) (load32 m heap + new_size);
           Some (1, s\<lparr>ram := m\<rparr>)
         })"

partial_function (option) unmap_pages ::
    "'a malloc \<Rightarrow> u32 \<Rightarrow> u32 \<Rightarrow> u32 \<Rightarrow> 'a v1_state_scheme \<Rightarrow> 'a v1_state_scheme option" where
  "unmap_pages km heap i new_size s =
     (if new_size < i then
        do {
          let (page, m) = get_page_v1 (load32 (ram s) heap + i) (kpaging s) (ram s);
          s \<leftarrow> free_frame_v1 km page (s\<lparr>ram := m\<rparr>);
          unmap_pages km heap (i - 0x1000) new_size s
        }
      else Some s)"

text \<open>
  The size \<open>contract\<close> aims at and the amount it takes from the wilderness.  The mask is that of one
  bit, not that of a page boundary.
\<close>

definition shrunk_size :: "u32 \<Rightarrow> u32 \<Rightarrow> u32 \<times> u32" where
  "shrunk_size old_size sz =
     (let new_size = old_size - sz;
          (new_size, sz) =
            (if new_size AND 0x1000 \<noteq> 0
             then (let n = (new_size AND 0x1000) + 0x1000 in (n, old_size - n))
             else (new_size, sz))
      in (if new_size < MIN_HEAP_SIZE then MIN_HEAP_SIZE else new_size, sz))"

definition contract ::
    "'a malloc \<Rightarrow> u32 \<Rightarrow> u32 \<Rightarrow> 'a v1_state_scheme \<Rightarrow> 'a v1_state_scheme option" where
  "contract km heap sz s =
     do {
       let old_size = load32 (ram s) (heap + 4) - load32 (ram s) heap;
       let (new_size, sz) = shrunk_size old_size sz;
       s \<leftarrow> unmap_pages km heap (old_size - 0x1000) new_size s;
       let m = ram s;
       let wild = get_wilderness_v1 m heap;
       let m = put_size wild (node_size m wild - sz) m;
       let m = store32 m (get_foot_v1 m wild) wild;
       Some (s\<lparr>ram := store32 m (heap + 4) (load32 m heap + new_size)\<rparr>)
     }"

section \<open>Allocation\<close>

text \<open>The loop over the bins: it goes on to the next one until a node is found.\<close>

partial_function (option) fit_search :: "mem \<Rightarrow> u32 \<Rightarrow> u32 \<Rightarrow> u32 \<Rightarrow> (u32 \<times> u32) option" where
  "fit_search m heap index sz =
     do {
       found \<leftarrow> get_best_fit m (bins_at m heap index) sz;
       if found = 0 then fit_search m heap (index + 1) sz else Some (index, found)
     }"

text \<open>
  The address of the rest is \<open>(node_t * ) ((char * ) found + 16 + 4) + size\<close>: the cast binds tighter
  than the addition, so the requested size is counted in nodes of 16 bytes.
\<close>

definition split_node :: "u32 \<Rightarrow> u32 \<Rightarrow> u32 \<Rightarrow> mem \<Rightarrow> mem option" where
  "split_node heap found sz m =
     do {
       let split = found + 16 + 4 + 16 * sz;
       let m = put_size split (node_size m found - sz - 16 - 4) m;
       let m = put_hole split 1 m;
       let m = create_foot_v1 split m;
       let new_idx = get_bin_index_v1 (node_size m split);
       m \<leftarrow> add_node (bins_at m heap new_idx) split m;
       let m = put_size found sz m;
       Some (create_foot_v1 found m)
     }"

text \<open>The part after the search: take the node out, keep the wilderness within its bounds.\<close>

definition take_node ::
    "'a malloc \<Rightarrow> u32 \<Rightarrow> u32 \<Rightarrow> u32 \<Rightarrow> 'a v1_state_scheme \<Rightarrow> (u32 \<times> 'a v1_state_scheme) option" where
  "take_node km heap index found s =
     do {
       s \<leftarrow> remove_node (bins_at (ram s) heap index) found s;
       let wild = get_wilderness_v1 (ram s) heap;
       (success, s) \<leftarrow>
         (if node_size (ram s) wild < MIN_WILDERNESS then expand heap 0x1000 s
          else if MAX_WILDERNESS < node_size (ram s) wild then
            do { s \<leftarrow> contract km heap 0x1000 s; Some (1, s) }
          else Some (1, s));
       if success = 0 then Some (0, s)
       else
         let m = put_prev found 0 (ram s);
             m = put_next found 0 m
         in Some (found + 8, s\<lparr>ram := m\<rparr>)
     }"

definition alloc_with ::
    "'a malloc \<Rightarrow> u32 \<Rightarrow> u32 \<Rightarrow> 'a v1_state_scheme \<Rightarrow> (u32 \<times> 'a v1_state_scheme) option" where
  "alloc_with km heap sz s =
     do {
       (index, found) \<leftarrow> fit_search (ram s) heap (get_bin_index_v1 sz) sz;
       m \<leftarrow> (if 4 < node_size (ram s) found - sz then split_node heap found sz (ram s)
             else Some (ram s));
       take_node km heap index found (s\<lparr>ram := put_hole found 0 m\<rparr>)
     }"

section \<open>kmalloc, and the recursion through it\<close>

definition kmalloc_with :: "(u32 \<Rightarrow> 'a malloc) \<Rightarrow> 'a malloc" where
  "kmalloc_with al sz s =
     (if kheap_init_v1 s \<noteq> 0 then al (kheap_v1 s) sz s
      else Some (placement_addr s, s\<lparr>placement_addr := placement_addr s + sz\<rparr>))"

fun alloc :: "nat \<Rightarrow> u32 \<Rightarrow> 'a malloc" where
  "alloc 0 heap sz s = None"
| "alloc (Suc d) heap sz s = alloc_with (kmalloc_with (alloc d)) heap sz s"

definition kmalloc_v1 :: "nat \<Rightarrow> 'a malloc" where
  "kmalloc_v1 d = kmalloc_with (alloc d)"

section \<open>Release\<close>

definition merge_prev ::
    "u32 \<Rightarrow> u32 \<Rightarrow> u32 \<Rightarrow> 'a v1_state_scheme \<Rightarrow> (u32 \<times> 'a v1_state_scheme) option" where
  "merge_prev heap prev_n head s =
     (if node_hole (ram s) prev_n \<noteq> 0 then
        do {
          s \<leftarrow> remove_node (bins_at (ram s) heap (get_bin_index_v1 (node_size (ram s) prev_n))) prev_n s;
          let m = ram s;
          let m = put_size prev_n (node_size m prev_n + (4 + 16 + node_size m head)) m;
          let m = store32 m (get_foot_v1 m head) prev_n;
          Some (prev_n, s\<lparr>ram := m\<rparr>)
        }
      else Some (head, s))"

definition append_next :: "u32 \<Rightarrow> u32 \<Rightarrow> mem \<Rightarrow> mem" where
  "append_next head next_n m =
     (let m = put_size head (node_size m head + (16 + node_size m next_n)) m;
          m = store32 m (get_foot_v1 m next_n) 0;
          m = put_size next_n 0 m;
          m = put_hole next_n 0 m
      in store32 m (get_foot_v1 m head) head)"

definition merge_next ::
    "u32 \<Rightarrow> u32 \<Rightarrow> u32 \<Rightarrow> 'a v1_state_scheme \<Rightarrow> 'a v1_state_scheme option" where
  "merge_next heap next_n head s =
     (if node_hole (ram s) next_n \<noteq> 0 then
        do {
          s \<leftarrow> remove_node (bins_at (ram s) heap (get_bin_index_v1 (node_size (ram s) next_n))) next_n s;
          Some (s\<lparr>ram := append_next head next_n (ram s)\<rparr>)
        }
      else Some s)"

text \<open>\<open>free\<close> of v1/os/kheap.c; \<open>offset\<close> is \<open>sizeof(node_t) - 8\<close>.\<close>

definition heap_free :: "u32 \<Rightarrow> u32 \<Rightarrow> 'a v1_state_scheme \<Rightarrow> 'a v1_state_scheme option" where
  "heap_free heap p s =
     (let head = p - 8 in
      if head = load32 (ram s) heap then
        do {
          let m = put_hole head 1 (ram s);
          m \<leftarrow> add_node (bins_at m heap (get_bin_index_v1 (node_size m head))) head m;
          Some (s\<lparr>ram := m\<rparr>)
        }
      else do {
        let next_n = get_foot_v1 (ram s) head + 4;
        let prev_n = load32 (ram s) (head - 4);
        (head, s) \<leftarrow> merge_prev heap prev_n head s;
        s \<leftarrow> merge_next heap next_n head s;
        let m = put_hole head 1 (ram s);
        m \<leftarrow> add_node (bins_at m heap (get_bin_index_v1 (node_size m head))) head m;
        Some (s\<lparr>ram := m\<rparr>)
      })"

definition kfree_v1 :: "u32 \<Rightarrow> 'a v1_state_scheme \<Rightarrow> 'a v1_state_scheme option" where
  "kfree_v1 p s =
     (if p = 0 then Some s
      else if kheap_init_v1 s \<noteq> 0 then heap_free (kheap_v1 s) p s
      else Some (vga_writeln_v1
        (Some (str ''cannot free pointer, kernel heap is uninitialized!'')) s))"

section \<open>Agreement with the current version\<close>

lemma log_loop_eq: "log_loop sz i = bin_index_loop sz i"
  by (induction sz i rule: log_loop.induct)
    (subst log_loop.simps, subst bin_index_loop.simps, simp add: Let_def)

lemma get_bin_index_v1_eq: "get_bin_index_v1 sz = get_bin_index sz"
  by (simp add: get_bin_index_v1_def get_bin_index_def log_loop_eq BIN_CNT_def Let_def)

lemma foot_eq: "get_foot_v1 = get_foot" "create_foot_v1 = create_foot"
  by (simp_all add: fun_eq_iff get_foot_v1_def get_foot_def create_foot_v1_def create_foot_def
      node_fields_eq set_foot_header_def)

lemma kmalloc_v1_bump: "kheap_init_v1 s = 0 \<Longrightarrow> kmalloc_v1 d n s = bump n s"
  by (simp add: kmalloc_v1_def kmalloc_with_def bump_def)

section \<open>More nesting changes nothing\<close>

definition refines :: "'a malloc \<Rightarrow> 'a malloc \<Rightarrow> bool" where
  "refines km km' \<longleftrightarrow> (\<forall>n s r. km n s = Some r \<longrightarrow> km' n s = Some r)"

lemma bind_SomeE:
  assumes "x \<bind> f = Some r" "\<And>y. x = Some y \<Longrightarrow> x' = Some y" "\<And>y. x = Some y \<Longrightarrow> f y = Some r \<Longrightarrow> f' y = Some r"
  shows "x' \<bind> f' = Some r"
  using assms by (cases x) auto

lemma push_frame_refines: "refines km km' \<Longrightarrow> push_frame km a s = Some r \<Longrightarrow> push_frame km' a s = Some r"
  unfolding push_frame_def refines_def by (erule bind_SomeE) auto

lemma free_frame_refines:
  "refines km km' \<Longrightarrow> free_frame_v1 km p s = Some r \<Longrightarrow> free_frame_v1 km' p s = Some r"
  unfolding free_frame_v1_def Let_def by (erule bind_SomeE) (auto intro: push_frame_refines)

lemma unmap_pages_refines:
  assumes "refines km km'"
  shows "unmap_pages km heap i n s = Some r \<Longrightarrow> unmap_pages km' heap i n s = Some r"
proof (erule unmap_pages.raw_induct [rotated, where P = "\<lambda>km heap i n s r. refines km km' \<longrightarrow> unmap_pages km' heap i n s = Some r", THEN mp])
  show "refines km km'" by (rule assms)
next
  fix up :: "'a malloc \<Rightarrow> u32 \<Rightarrow> u32 \<Rightarrow> u32 \<Rightarrow> 'a v1_state_scheme \<Rightarrow> 'a v1_state_scheme option"
    and km heap i n s r
  assume ih: "\<And>km heap i n s r. up km heap i n s = Some r \<Longrightarrow>
      refines km km' \<longrightarrow> unmap_pages km' heap i n s = Some r"
    and step: "(if n < i
      then let (page, m) = get_page_v1 (load32 (ram s) heap + i) (kpaging s) (ram s)
           in free_frame_v1 km page (s\<lparr>ram := m\<rparr>) \<bind> (\<lambda>s. up km heap (i - 0x1000) n s)
      else Some s) = Some r"
  show "refines km km' \<longrightarrow> unmap_pages km' heap i n s = Some r"
    using step by (subst unmap_pages.simps)
      (auto simp: Let_def ih elim!: bind_SomeE intro: free_frame_refines split: if_splits prod.splits)
qed

lemma alloc_with_refines:
  assumes "refines km km'" "alloc_with km heap sz s = Some r"
  shows "alloc_with km' heap sz s = Some r"
proof -
  have c: "contract km h n t = Some u \<Longrightarrow> contract km' h n t = Some u" for h n t u
    unfolding contract_def Let_def
    by (auto elim!: bind_SomeE intro: unmap_pages_refines [OF assms(1)] split: prod.splits)
  have t: "take_node km h i f t = Some u \<Longrightarrow> take_node km' h i f t = Some u" for h i f t u
    unfolding take_node_def Let_def
    by (erule bind_SomeE, assumption, erule bind_SomeE)
      (auto elim!: bind_SomeE intro: c split: if_splits)
  show ?thesis
    using assms(2) unfolding alloc_with_def
  proof (elim bind_SomeE)
    fix y
    assume "(case y of (index, found) \<Rightarrow>
        (if 4 < node_size (ram s) found - sz then split_node heap found sz (ram s) else Some (ram s)) \<bind>
        (\<lambda>m. take_node km heap index found (s\<lparr>ram := put_hole found 0 m\<rparr>))) = Some r"
    then show "(case y of (index, found) \<Rightarrow>
        (if 4 < node_size (ram s) found - sz then split_node heap found sz (ram s) else Some (ram s)) \<bind>
        (\<lambda>m. take_node km' heap index found (s\<lparr>ram := put_hole found 0 m\<rparr>))) = Some r"
      unfolding case_prod_beta by (elim bind_SomeE) (simp_all add: t)
  qed assumption
qed

lemma alloc_deeper: "alloc d heap sz (s :: 'a v1_state_scheme) = Some r \<Longrightarrow> alloc (Suc d) heap sz s = Some r"
proof (induction d arbitrary: heap sz s r)
  case (Suc d)
  have "refines (kmalloc_with (alloc d) :: 'a malloc) (kmalloc_with (alloc (Suc d)))"
    using Suc.IH unfolding refines_def kmalloc_with_def by (simp del: alloc.simps)
  from alloc_with_refines [OF this Suc.prems [unfolded alloc.simps]]
  show ?case by (simp only: alloc.simps)
qed simp

lemma kmalloc_deeper:
  assumes "kmalloc_v1 d n s = Some r" "d \<le> d'"
  shows "kmalloc_v1 d' n s = Some r"
proof -
  have "alloc d heap sz t = Some u \<Longrightarrow> alloc d' heap sz t = Some u" for heap sz t u
    using assms(2) by (induction d' rule: dec_induct) (simp_all del: alloc.simps add: alloc_deeper)
  then show ?thesis using assms(1) by (simp add: kmalloc_v1_def kmalloc_with_def split: if_splits)
qed

section \<open>Growing ends\<close>

declare map_pages.simps [simp del] unmap_pages.simps [simp del] fit_search.simps [simp del]

text \<open>\<open>expand\<close> maps up to a page boundary (or nothing above the first page): the counter cannot wrap.\<close>

lemma grown_size_page: "unat (grown_size n) mod 4096 = 0 \<or> unat (grown_size n) < 4096"
proof (cases "n AND 0xfffff000 = 0")
  case True
  then have "unat n = unat n mod 4096" using page_split [of n] by simp
  also have "\<dots> < 4096" by simp
  finally have "unat n < 4096" .
  then show ?thesis using True by (simp add: grown_size_def)
next
  case False
  have "unat ((n AND 0xfffff000) + 0x1000) mod 4096 =
      (unat (n AND 0xfffff000) + 4096) mod 2 ^ 32 mod 4096"
    by (simp add: unat_word_ariths)
  also have "\<dots> = (unat (n AND 0xfffff000) + 4096) mod 4096"
    by (rule mod_mod_cancel) simp
  also have "\<dots> = 0" using page_split [of n] by simp
  finally show ?thesis using False by (simp add: grown_size_def)
qed

lemma page_aligned_bound:
  assumes "unat (n :: u32) mod 4096 = 0"
  shows "unat n \<le> 4294963200"
proof -
  have "unat n \<le> 4294967295" using unat_bound32 [of n] by simp
  then have "4096 * (unat n div 4096) \<le> 4294963200"
    using div_le_mono [of "unat n" 4294967295 4096] by simp
  moreover have "unat n = 4096 * (unat n div 4096)" using assms by auto
  ultimately show ?thesis by simp
qed

lemma map_pages_ends:
  assumes "unat n mod 4096 = 0 \<or> unat n < 4096"
  shows "\<exists>s'. map_pages heap i n s = Some s'"
proof (induction "unat n - unat i" arbitrary: i s rule: less_induct)
  case less
  show ?case
  proof (cases "i < n")
    case True
    then have lt: "unat i < unat n" by (simp add: word_less_nat_alt)
    have "unat n \<le> 2 ^ 32 - 4096" using assms page_aligned_bound [of n] by auto
    then have "unat (i + 0x1000) = unat i + 4096"
      using lt by (subst unat_add_lem [THEN iffD1]) simp_all
    then have "unat n - unat (i + 0x1000) < unat n - unat i" using lt by simp
    note ih = less [OF this]
    obtain page m where "get_page_v1 (load32 (ram s) heap + i) (kpaging s) (ram s) = (page, m)"
      by (cases "get_page_v1 (load32 (ram s) heap + i) (kpaging s) (ram s)")
    then have "map_pages heap i n s =
        map_pages heap (i + 0x1000) n (alloc_frame page 1 1 (s\<lparr>ram := m\<rparr>))"
      using True by (subst map_pages.simps) simp
    then show ?thesis using ih by simp
  next
    case False
    then show ?thesis by (simp add: map_pages.simps)
  qed
qed

lemma expand_ends:
  "\<exists>ok s'. expand heap sz s = Some (ok, s') \<and>
     (let size = grown_size (load32 (ram s) (heap + 4) - load32 (ram s) heap + sz)
      in if load32 (ram s) (heap + 8) < load32 (ram s) heap + size then ok = 0 \<and> ram s' = ram s
         else ok = 1 \<and> load32 (ram s') (heap + 4) = load32 (ram s') heap + size)"
proof -
  let ?old = "load32 (ram s) (heap + 4) - load32 (ram s) heap"
  let ?size = "grown_size (?old + sz)"
  obtain t where t: "map_pages heap ?old ?size s = Some t"
    using map_pages_ends [OF grown_size_page] by blast
  show ?thesis
  proof (cases "load32 (ram s) (heap + 8) < load32 (ram s) heap + ?size")
    case True
    then show ?thesis
      by (simp add: expand_def Let_def vga_writeln_v1_eq vga_writeln_def del: vga_write.simps)
  next
    case False
    then show ?thesis by (simp add: expand_def Let_def t load32_store32_apart)
  qed
qed

text \<open>
  C38. \<open>expand\<close> always ends.  When the grown heap would pass its maximum it reports failure and
  changes no memory; otherwise the heap then ends the new size behind its start.  A heap of whole
  pages that is asked to grow by a page grows by two.
\<close>

theorem expand_grows:
  "(\<exists>ok s'. expand heap sz s = Some (ok, s') \<and>
     (let size = grown_size (load32 (ram s) (heap + 4) - load32 (ram s) heap + sz)
      in if load32 (ram s) (heap + 8) < load32 (ram s) heap + size then ok = 0 \<and> ram s' = ram s
         else ok = 1 \<and> load32 (ram s') (heap + 4) = load32 (ram s') heap + size)) \<and>
   (\<forall>k. 0 < k \<and> k < 0xFFFFE \<longrightarrow> grown_size (push_bit 12 k + 0x1000) = push_bit 12 k + 0x2000)"
proof -
  have "grown_size (push_bit 12 k + 0x1000) = push_bit 12 k + 0x2000" if k: "k < 0xFFFFE" for k :: u32
  proof -
    let ?x = "push_bit 12 k + 0x1000 :: u32"
    have x: "?x = push_bit 12 (k + 1)" by (simp add: push_bit_add)
    have k1: "unat (k + 1) = unat k + 1" and kn: "unat k < 0xFFFFE"
      using unat_succ [OF k] k by (simp_all add: word_less_nat_alt)
    have u: "unat ?x = 4096 * (unat k + 1)"
      unfolding x using k1 kn by (simp add: push_bit_eq_mult unat_word_ariths)
    have "?x AND 0xfffff000 = ?x" using page_split [of ?x] u by (simp add: word_unat_eq_iff)
    moreover have "?x \<noteq> 0" using u by (auto simp flip: unat_eq_0)
    ultimately show ?thesis by (simp add: grown_size_def)
  qed
  then show ?thesis using expand_ends by blast
qed

theorem expand_grows_witness:
  "\<exists>s'. expand 0x200000 0x1000 (v1_state0\<lparr>ram := store32 (\<lambda>_. 0) 0x200004 0x3000\<rparr>) = Some (0, s')"
  using expand_grows [of "0x200000" "0x1000" "v1_state0\<lparr>ram := store32 (\<lambda>_. 0) 0x200004 0x3000\<rparr>"]
  by (auto simp: load32_store32_apart grown_size_def Let_def)

section \<open>Shrinking takes too much\<close>

text \<open>
  Once the size \<open>contract\<close> aims at has bit 12 set, the mask leaves that bit alone: the heap is
  set to its least size whatever it was, and the wilderness loses all but two pages of the old
  size, 14 pages more than the heap.  Without that bit the heap and the wilderness shrink alike,
  unless the least size is reached.
\<close>

theorem shrunk_size_cases:
  "(bit (old_size - sz) 12 \<longrightarrow> shrunk_size old_size sz = (0x10000, old_size - 0x2000)) \<and>
   (\<not> bit (old_size - sz) 12 \<longrightarrow>
      shrunk_size old_size sz = (max (old_size - sz) 0x10000, sz))"
proof -
  have m: "x AND 0x1000 = (if bit x 12 then 0x1000 else 0)" for x :: u32
  proof -
    have "x AND push_bit k 1 = push_bit k (of_bool (bit x k))" for k
      by (rule bit_word_eqI) (auto simp: bit_simps)
    from this [of 12] show ?thesis by simp
  qed
  show ?thesis by (auto simp: shrunk_size_def m MIN_HEAP_SIZE_def Let_def max_def)
qed

theorem shrunk_size_cases_witness: "shrunk_size 0x1002000 0x1000 = (0x10000, 0x1000000)"
  using shrunk_size_cases [of "0x1002000" "0x1000"] by simp

section \<open>Frames freed after the heap exists\<close>

text \<open>
  The slots \<open>push_frame\<close> takes from the heap are not next to each other: after a push of \<open>g\<close>
  into the payload of a node, the first pop returns \<open>g\<close> and the second one what lies before the
  payload, the node's size, as if it were the address of a frame.
\<close>

theorem heap_slot_then_node_size:
  assumes "km 4 s = Some (n + 8, t)" and "n + 8 \<noteq> bottom_v1 t" and "n + 4 \<noteq> bottom_v1 t"
  shows "\<exists>s' s''. push_frame km g s = Some s' \<and> pop_frame s' = (g, s'') \<and>
    fst (pop_frame s'') = node_size (ram t) n"
  using assms
  by (simp add: push_frame_def pop_frame_def node_size_def load32_store32_apart add.commute [of 4 n])

theorem heap_slot_then_node_size_witness:
  "\<exists>s' s''. push_frame (\<lambda>_ s. Some (0xC0000008, s)) 0x300000
       (v1_state0\<lparr>ram := put_size 0xC0000000 24 (\<lambda>_. 0)\<rparr>) = Some s' \<and>
     pop_frame s' = (0x300000, s'') \<and> fst (pop_frame s'') = 24"
  using heap_slot_then_node_size [of "\<lambda>_ s. Some (0xC0000008, s)"
      "v1_state0\<lparr>ram := put_size 0xC0000000 24 (\<lambda>_. 0)\<rparr>" "0xC0000000"
      "v1_state0\<lparr>ram := put_size 0xC0000000 24 (\<lambda>_. 0)\<rparr>" "0x300000"]
  by (simp add: v1_state0_def device_state.defs node_fields_eq)

section \<open>Merging with the node behind\<close>

lemma unat_offset: "unat a + unat b < 2 ^ 32 \<Longrightarrow> unat (a + b) = unat a + unat (b :: u32)"
  by (subst unat_add_lem [THEN iffD1]) simp_all

text \<open>
  Two neighbours: the node at \<open>next_n\<close> lies right behind the footer of \<open>head\<close>, and the end of its
  own footer does not pass the end of the address space.
\<close>

definition neighbours :: "mem \<Rightarrow> u32 \<Rightarrow> u32 \<Rightarrow> bool" where
  "neighbours m head next_n \<longleftrightarrow> next_n = get_foot_v1 m head + 4 \<and>
     unat head + 40 + unat (node_size m head) + unat (node_size m next_n) \<le> 2 ^ 32"

lemma neighbours_unat:
  assumes "neighbours m head next_n"
  shows "unat (head + 4) = unat head + 4"
    "unat next_n = unat head + 20 + unat (node_size m head)"
    "unat (next_n + 4) = unat head + 24 + unat (node_size m head)"
    "unat (next_n + 12 + node_size m next_n) =
       unat head + 32 + unat (node_size m head) + unat (node_size m next_n)"
    "unat (next_n + 16 + node_size m next_n) =
       unat head + 36 + unat (node_size m head) + unat (node_size m next_n)"
proof -
  let ?A = "node_size m head" and ?B = "node_size m next_n"
  have n: "next_n = head + (20 + ?A)"
    using assms by (simp add: neighbours_def get_foot_v1_def algebra_simps)
  have r: "unat head + 40 + unat ?A + unat ?B \<le> 2 ^ 32"
    using assms unfolding neighbours_def by blast
  have a: "unat (20 + ?A) = 20 + unat ?A" using r by (subst unat_offset) simp_all
  show "unat (head + 4) = unat head + 4" using r by (subst unat_offset) simp_all
  show un: "unat next_n = unat head + 20 + unat ?A"
    unfolding n using r a by (subst unat_offset) simp_all
  show "unat (next_n + 4) = unat head + 24 + unat ?A" using r un by (subst unat_offset) simp_all
  have b: "unat (12 + ?B) = 12 + unat ?B" "unat (16 + ?B) = 16 + unat ?B"
    using r by (subst unat_offset; simp)+
  show "unat (next_n + 12 + ?B) = unat head + 32 + unat ?A + unat ?B"
    "unat (next_n + 16 + ?B) = unat head + 36 + unat ?A + unat ?B"
    using r un b by (simp_all add: add.assoc unat_offset)
qed

lemma append_next_fields:
  assumes "neighbours m head next_n" and m': "m' = append_next head next_n m"
  shows "get_foot_v1 m' head + 4 = get_foot_v1 m next_n" "load32 m' (get_foot_v1 m next_n) = 0"
    "node_size m' head = node_size m head + 16 + node_size m next_n"
proof -
  let ?A = "node_size m head" and ?B = "node_size m next_n"
  have r: "unat head + 40 + unat ?A + unat ?B \<le> 2 ^ 32"
    using assms(1) unfolding neighbours_def by blast
  have n: "next_n = head + 20 + ?A"
    using assms(1) by (simp add: neighbours_def get_foot_v1_def algebra_simps)
  note u = neighbours_unat [OF assms(1)]
  have s: "apart (head + 4) 4 (next_n + 4) 4" "apart (head + 4) 4 next_n 4"
    "apart (head + 4) 4 (next_n + 16 + ?B) 4" "apart (head + 4) 4 (next_n + 12 + ?B) 4"
    "apart next_n 4 (next_n + 16 + ?B) 4" "apart (next_n + 4) 4 (next_n + 16 + ?B) 4"
    "apart (next_n + 12 + ?B) 4 (next_n + 16 + ?B) 4"
    by (rule apart_bounds; use r u in simp)+
  note s' = s(1-4) s(2) [unfolded apart_sym [of "head + 4"]] s(1) [unfolded apart_sym [of "head + 4"]]
    s(3) [unfolded apart_sym [of "head + 4"]] s(4) [unfolded apart_sym [of "head + 4"]] s(5-7)
  have f: "32 + (head + (load32 m (head + 4) + load32 m (next_n + 4))) =
      next_n + 12 + load32 m (next_n + 4)"
    by (simp add: n node_size_def algebra_simps)
  have m'_eq: "m' = store32 (put_hole next_n 0 (put_size next_n 0 (store32
      (put_size head (?A + (16 + ?B)) m) (next_n + 16 + ?B) 0))) (next_n + 12 + ?B) head"
    using s' by (simp add: m' append_next_def Let_def get_foot_v1_def node_size_def put_size_def put_hole_def
        load32_store32_apart f)
  show sz: "node_size m' head = ?A + 16 + ?B"
    using s' by (simp add: m'_eq node_size_def put_size_def put_hole_def load32_store32_apart add.assoc)
  show "get_foot_v1 m' head + 4 = get_foot_v1 m next_n"
    unfolding get_foot_v1_def sz by (simp add: n algebra_simps)
  show "load32 m' (get_foot_v1 m next_n) = 0"
    using s' by (simp add: m'_eq get_foot_v1_def put_size_def put_hole_def load32_store32_apart)
qed

lemma merge_next_result:
  assumes bl: "bin_list (ram s) (bins_at (ram s) heap (get_bin_index_v1 (node_size (ram s) next_n))) xs"
    and x: "next_n \<in> set xs" and nb: "neighbours (ram s) head next_n"
    and hd: "apart (bins_at (ram s) heap (get_bin_index_v1 (node_size (ram s) next_n))) 4 head 16"
      "\<And>x. x \<in> set xs \<Longrightarrow> sep2 x head"
    and hole: "node_hole (ram s) next_n \<noteq> 0"
  shows "\<exists>m'. merge_next heap next_n head s = Some (s\<lparr>ram := m'\<rparr>) \<and>
    get_foot_v1 m' head + 4 = get_foot_v1 (ram s) next_n \<and>
    load32 m' (get_foot_v1 (ram s) next_n) = 0 \<and>
    node_size m' head = node_size (ram s) head + 16 + node_size (ram s) next_n"
proof -
  let ?bin = "bins_at (ram s) heap (get_bin_index_v1 (node_size (ram s) next_n))"
  obtain m1 where m1: "remove_node ?bin next_n s = Some (s\<lparr>ram := m1\<rparr>)"
    "links_only ?bin (set xs) (ram s) m1"
    using remove_node_list [OF bl x] by blast
  have n: "node_size m1 next_n = node_size (ram s) next_n"
    using links_only_sizes(1) [OF m1(2) bin_list_facts(1,2) [OF bl] x] by (simp add: node_fields_eq)
  have h: "node_size m1 head = node_size (ram s) head"
    using links_only_size(1) [OF m1(2) apart_mono [OF hd(1), of 4 8]] hd(2) by (simp add: node_fields_eq)
  have nb': "neighbours m1 head next_n"
    using nb unfolding neighbours_def get_foot_v1_def n h .
  show ?thesis
    using m1(1) hole append_next_fields [OF nb' refl] n h
    by (intro exI [of _ "append_next head next_n m1"]) (simp add: merge_next_def get_foot_v1_def)
qed

text \<open>
  A free node behind the released one is merged without the bytes of its footer: the merged
  node ends 4 bytes too early, its footer is not where the node behind it looks, and what that
  node finds there is the null pointer.  (The current \<open>kheap_free\<close> adds the 4 bytes.)
\<close>

theorem merge_next_loses_footer:
  assumes "bin_list (ram s) (bins_at (ram s) heap (get_bin_index_v1 (node_size (ram s) next_n))) xs"
    and "next_n \<in> set xs" and "neighbours (ram s) head next_n"
    and "apart (bins_at (ram s) heap (get_bin_index_v1 (node_size (ram s) next_n))) 4 head 16"
    and "\<And>x. x \<in> set xs \<Longrightarrow> sep2 x head"
    and "node_hole (ram s) next_n \<noteq> 0"
  shows "\<exists>m'. merge_next heap next_n head s = Some (s\<lparr>ram := m'\<rparr>) \<and>
    (let behind = get_foot_v1 (ram s) next_n + 4
     in get_foot_v1 m' head = behind - 8 \<and> load32 m' (behind - 4) = 0)"
proof -
  obtain m' where "merge_next heap next_n head s = Some (s\<lparr>ram := m'\<rparr>)"
    "get_foot_v1 m' head + 4 = get_foot_v1 (ram s) next_n" "load32 m' (get_foot_v1 (ram s) next_n) = 0"
    using merge_next_result [OF assms] by blast
  then show ?thesis by (intro exI [of _ m']) (simp add: Let_def eq_diff_eq algebra_simps)
qed

text \<open>A heap structure at \<open>0x200000\<close>, a used node of 100 bytes and a free one of 24 behind it.\<close>

definition two_nodes :: mem where
  "two_nodes = put_size 0xC0000000 100 (put_size 0xC0000078 24 (put_hole 0xC0000078 1
     (put_head 0x300000 0xC0000078 (store32 (\<lambda>_. 0) 0x200018 0x300000))))"

lemma two_nodes_fields:
  "node_size two_nodes 0xC0000000 = 100" "node_size two_nodes 0xC0000078 = 24"
  "node_hole two_nodes 0xC0000078 = 1" "bins_at two_nodes 0x200000 2 = 0x300000"
  "bin_list two_nodes 0x300000 [0xC0000078]"
  by (simp_all add: two_nodes_def node_size_def node_hole_def put_size_def put_hole_def put_head_def
      bins_at_def load32_store32_apart bin_list_def bin_head_def blk_next_def separated_def sep2_def)

theorem merge_next_loses_footer_witness:
  "\<exists>m'. merge_next 0x200000 0xC0000078 0xC0000000 (v1_state0\<lparr>ram := two_nodes\<rparr>) =
      Some (v1_state0\<lparr>ram := m'\<rparr>) \<and> get_foot_v1 m' 0xC0000000 = 0xC000009C \<and> load32 m' 0xC00000A0 = 0"
proof -
  let ?s = "v1_state0\<lparr>ram := two_nodes\<rparr>"
  have i: "get_bin_index_v1 (node_size (ram ?s) 0xC0000078) = 2"
    by (simp add: two_nodes_fields get_bin_index_v1_def log_loop.simps)
  have bl: "bin_list (ram ?s) (bins_at (ram ?s) 0x200000
      (get_bin_index_v1 (node_size (ram ?s) 0xC0000078))) [0xC0000078]"
    unfolding i by (simp add: two_nodes_fields)
  have nb: "neighbours (ram ?s) 0xC0000000 0xC0000078"
    by (simp add: neighbours_def get_foot_v1_def two_nodes_fields)
  have ap: "apart (bins_at (ram ?s) 0x200000 (get_bin_index_v1 (node_size (ram ?s) 0xC0000078))) 4
      0xC0000000 16"
    unfolding i by (simp add: two_nodes_fields)
  have sp: "\<And>x. x \<in> set [0xC0000078] \<Longrightarrow> sep2 x 0xC0000000" by (simp add: sep2_def)
  have ho: "node_hole (ram ?s) 0xC0000078 \<noteq> 0" by (simp add: two_nodes_fields)
  show ?thesis
    using merge_next_loses_footer [OF bl _ nb ap sp ho]
    by (simp add: get_foot_v1_def two_nodes_fields)
qed

section \<open>Splitting\<close>

text \<open>The address \<open>a\<close> bytes into the region at \<open>f\<close>.\<close>

definition off :: "u32 \<Rightarrow> nat \<Rightarrow> u32" where
  "off f a = f + word_of_nat a"

lemma off_add: "off f a + 4 = off f (a + 4)" "off f a + 8 = off f (a + 8)" "off f a + 16 = off f (a + 16)"
  "off f a + word_of_nat b = off f (a + b)"
  by (simp_all add: off_def)

lemma off_unat: "unat f + a < 2 ^ 32 \<Longrightarrow> unat (off f a) = unat f + a"
  unfolding off_def by (subst unat_offset) (simp_all add: unat_of_nat)

lemma off_apart:
  assumes "a + i \<le> b" "unat f + b + j \<le> 2 ^ 32" "0 < i" "0 < j"
  shows "apart (off f a) i (off f b) j" "apart (off f b) j (off f a) i"
proof -
  show "apart (off f a) i (off f b) j"
    by (rule apart_bounds) (use assms in \<open>simp_all add: off_unat\<close>)
  then show "apart (off f b) j (off f a) i" by (simp add: apart_sym)
qed

lemma off_outside:
  assumes "apart x k f w" "a + i \<le> w" "unat f + w \<le> 2 ^ 32" "0 < i" "0 < k"
  shows "apart x k (off f a) i" "apart (off f a) i x k"
proof -
  show "apart x k (off f a) i" unfolding off_def
    by (rule apart_shift_right [OF assms(1)]) (use assms in \<open>simp_all add: unat_of_nat\<close>)
  then show "apart (off f a) i x k" by (simp add: apart_sym)
qed

lemma bin_list_single:
  "bin_list m bin [x] \<longleftrightarrow> bin_head m bin = x \<and> x \<noteq> 0 \<and> blk_next m x = 0 \<and> apart bin 4 x 16"
  by (auto simp: bin_list_def separated_def sep2_def)

lemma bin_list_at_most:
  assumes "bin_list m bin xs" "xs = [] \<or> xs = [f]"
    "load32 m' bin = load32 m bin" "load32 m' (f + 8) = load32 m (f + 8)"
  shows "bin_list m' bin xs"
  using assms by (auto simp: bin_list_single) (auto simp: bin_list_def bin_head_def blk_next_def)

text \<open>
  A free node at \<open>f\<close> of \<open>n + 20 + r\<close> bytes, from which \<open>n\<close> are asked, and the bin for the rest of
  \<open>r\<close> bytes: empty or holding just the node itself, as in a heap that was only initialised.  The
  region of \<open>40 + 16 * n + r\<close> bytes is what \<open>split_node\<close> writes in.
\<close>

definition lone_node :: "u32 \<Rightarrow> u32 \<Rightarrow> nat \<Rightarrow> nat \<Rightarrow> mem \<Rightarrow> bool" where
  "lone_node heap f n r m \<longleftrightarrow>
     (let bin = bins_at m heap (get_bin_index_v1 (word_of_nat r)); w = 40 + 16 * n + r in
      node_size m f = word_of_nat (n + 20 + r) \<and> f \<noteq> 0 \<and> 0 < n \<and> 15 * n + 16 \<le> r \<and>
      unat f + w \<le> 2 ^ 32 \<and> apart bin 4 f w \<and> apart (heap + 16) 36 f w \<and>
      (bin_list m bin [] \<or> bin_list m bin [f]))"

lemma lone_nodeD:
  assumes "lone_node heap f n r m"
  shows "node_size m f = word_of_nat (n + 20 + r)" "f \<noteq> 0" "0 < n" "15 * n + 16 \<le> r"
    "unat f + (40 + 16 * n + r) \<le> 2 ^ 32" "apart (heap + 16) 36 f (40 + 16 * n + r)"
    "apart (bins_at m heap (get_bin_index_v1 (word_of_nat r))) 4 f (40 + 16 * n + r)"
  using assms unfolding lone_node_def Let_def by blast+

lemma lone_node_bin:
  assumes "lone_node heap f n r m"
  obtains xs where "bin_list m (bins_at m heap (get_bin_index_v1 (word_of_nat r))) xs"
    "xs = [] \<or> xs = [f]"
  using assms unfolding lone_node_def Let_def by blast

text \<open>The memory \<open>split_node\<close> has written when it puts the rest into its bin.\<close>

definition rest_written :: "u32 \<Rightarrow> nat \<Rightarrow> nat \<Rightarrow> mem \<Rightarrow> mem" where
  "rest_written f n r m =
     store32 (store32 (store32 m (off f (24 + 16 * n)) (word_of_nat r)) (off f (20 + 16 * n)) 1)
       (off f (36 + 16 * n + r)) (off f (20 + 16 * n))"

lemma rest_written_load:
  assumes "apart (off f (24 + 16 * n)) 4 a 4" "apart (off f (20 + 16 * n)) 4 a 4"
    "apart (off f (36 + 16 * n + r)) 4 a 4"
  shows "load32 (rest_written f n r m) a = load32 m a"
  using assms by (simp add: rest_written_def load32_store32_apart)

lemma rest_written_size:
  assumes "unat f + (40 + 16 * n + r) \<le> 2 ^ 32"
  shows "load32 (rest_written f n r m) (off f (24 + 16 * n)) = word_of_nat r"
  using off_apart [of "20 + 16 * n" 4 "24 + 16 * n" f 4] assms
    off_apart [of "24 + 16 * n" 4 "36 + 16 * n + r" f 4]
  by (simp add: rest_written_def load32_store32_apart)

lemma rest_written_bin:
  assumes l: "lone_node heap f n r m"
  defines "bin \<equiv> bins_at m heap (get_bin_index_v1 (word_of_nat r))"
  shows "bins_at (rest_written f n r m) heap (get_bin_index_v1 (word_of_nat r)) = bin"
    "bin_list m bin xs \<Longrightarrow> xs = [] \<or> xs = [f] \<Longrightarrow> bin_list (rest_written f n r m) bin xs"
proof -
  note d = lone_nodeD [OF l]
  have i: "unat (4 * get_bin_index_v1 x) + 4 \<le> 36" for x
    using get_bin_index_range [of x] by (simp add: get_bin_index_v1_eq unat_word_ariths)
  have slot: "apart (heap + 16 + 4 * get_bin_index_v1 x) 4 f (40 + 16 * n + r)" for x
    by (rule apart_shift_left [OF d(6) i]) simp_all
  show "bins_at (rest_written f n r m) heap (get_bin_index_v1 (word_of_nat r)) = bin"
    unfolding bins_at_def bin_def
    by (rule rest_written_load; rule off_outside(2) [OF slot _ d(5)]) auto
  have "load32 (rest_written f n r m) bin = load32 m bin"
    by (rule rest_written_load; rule off_outside(2) [OF d(7) [folded bin_def] _ d(5)]) auto
  moreover have "load32 (rest_written f n r m) (off f 8) = load32 m (off f 8)"
    by (rule rest_written_load; rule off_apart(2)) (use d(5) in auto)
  ultimately show "bin_list m bin xs \<Longrightarrow> xs = [] \<or> xs = [f] \<Longrightarrow> bin_list (rest_written f n r m) bin xs"
    using bin_list_at_most [of m bin xs f] by (simp add: off_def)
qed

lemma split_node_start:
  assumes l: "lone_node heap f n r m"
  shows "split_node heap f (word_of_nat n) m =
    do {
      m \<leftarrow> add_node (bins_at m heap (get_bin_index_v1 (word_of_nat r))) (off f (20 + 16 * n))
            (rest_written f n r m);
      Some (create_foot_v1 f (put_size f (word_of_nat n) m))
    }"
proof -
  note d = lone_nodeD [OF l]
  let ?sp = "off f (20 + 16 * n)"
  have sp: "f + 16 + 4 + 16 * word_of_nat n = ?sp" by (simp add: off_def algebra_simps)
  have sz: "word_of_nat (n + 20 + r) - word_of_nat n - 16 - 4 = (word_of_nat r :: u32)"
    by (simp add: algebra_simps)
  have sp4: "?sp + 4 = off f (24 + 16 * n)" by (simp add: off_def)
  have ft: "?sp + 16 + word_of_nat r = off f (36 + 16 * n + r)" by (simp add: off_def)
  have ap: "apart ?sp 4 (off f (24 + 16 * n)) 4" by (rule off_apart) (use d(5) in auto)
  have m1: "create_foot_v1 ?sp (put_hole ?sp 1 (put_size ?sp (word_of_nat r) m)) = rest_written f n r m"
    using ap by (simp add: create_foot_v1_def get_foot_v1_def node_size_def put_hole_def put_size_def
        sp4 load32_store32_apart ft rest_written_def)
  have "node_size (rest_written f n r m) ?sp = word_of_nat r"
    unfolding node_size_def sp4 using d(5) by (rule rest_written_size)
  then show ?thesis
    unfolding split_node_def Let_def sp d(1) sz m1 by (simp add: rest_written_bin(1) [OF l])
qed

lemma links_only_word:
  assumes "links_only bin S m m'" "apart bin 4 a 4" "\<And>x. x \<in> S \<Longrightarrow> apart (x + 8) 8 a 4"
  shows "load32 m' a = load32 m a"
proof (rule load32_cong)
  fix c :: u32 assume c: "unat c < 4"
  have "apart bin 4 (a + c) 1" by (rule apart_shift_right [OF assms(2)]) (use c in auto)
  moreover have "apart (x + 8) 8 (a + c) 1" if "x \<in> S" for x
    by (rule apart_shift_right [OF assms(3) [OF that]]) (use c in auto)
  ultimately show "m' (a + c) = m (a + c)" using assms(1) by (simp add: links_only_def)
qed

lemma split_node_added:
  assumes l: "lone_node heap f n r m"
  obtains m2 where "split_node heap f (word_of_nat n) m = Some (store32 (store32 m2 (off f 4) (word_of_nat n))
      (off f (16 + n)) f)"
    "\<And>a. 16 \<le> a \<Longrightarrow> a + 4 \<le> 20 + 16 * n \<or> a = 24 + 16 * n \<or> 36 + 16 * n \<le> a \<Longrightarrow> a \<le> 36 + 16 * n + r \<Longrightarrow>
      load32 m2 (off f a) = load32 (rest_written f n r m) (off f a)"
proof -
  note d = lone_nodeD [OF l]
  let ?bin = "bins_at m heap (get_bin_index_v1 (word_of_nat r))" and ?sp = "off f (20 + 16 * n)"
  let ?m1 = "rest_written f n r m"
  obtain xs where xs: "bin_list m ?bin xs" "xs = [] \<or> xs = [f]" by (rule lone_node_bin [OF l])
  have bl: "bin_list ?m1 ?bin xs" using rest_written_bin(2) [OF l xs(1)] xs(2) .
  have spu: "unat ?sp = unat f + (20 + 16 * n)" using d(5) by (intro off_unat) auto
  have f0: "off f 0 = f" by (simp add: off_def)
  have fs: "apart f 16 ?sp 16" "apart ?sp 16 f 16"
    using off_apart [of 0 16 "20 + 16 * n" f 16] d(5) by (simp_all add: f0)
  have sp0: "?sp \<noteq> 0" "?sp \<noteq> f" using spu by (auto simp: word_unat_eq_iff)
  have bs: "apart ?bin 4 ?sp 16" by (rule off_outside(1) [OF d(7) _ d(5)]) auto
  have sep: "separated (insert ?sp (set xs))" using xs(2) fs by (auto simp: separated_def sep2_def)
  obtain m2 where m2: "add_node ?bin ?sp ?m1 = Some m2" "links_only ?bin (insert ?sp (set xs)) ?m1 m2"
    using add_block_sorted_list [OF bl sp0(1) _ bs sep] xs(2) sp0(2) by (auto simp: add_node_eq)
  have "split_node heap f (word_of_nat n) m =
      Some (store32 (store32 m2 (off f 4) (word_of_nat n)) (off f (16 + n)) f)"
    unfolding split_node_start [OF l] m2(1)
    by (simp add: create_foot_v1_def get_foot_v1_def node_size_def put_size_def off_def add.assoc)
  moreover have "load32 m2 (off f a) = load32 ?m1 (off f a)"
    if a: "16 \<le> a" "a + 4 \<le> 20 + 16 * n \<or> a = 24 + 16 * n \<or> 36 + 16 * n \<le> a" "a \<le> 36 + 16 * n + r" for a
  proof (rule links_only_word [OF m2(2)])
    show "apart ?bin 4 (off f a) 4" by (rule off_outside(1) [OF d(7) _ d(5)]) (use a d in auto)
    show "apart (x + 8) 8 (off f a) 4" if "x \<in> insert ?sp (set xs)" for x
    proof (cases "x = ?sp")
      case True
      have "?sp + 8 = off f (28 + 16 * n)" by (simp add: off_def)
      then show ?thesis
        using True a d(5) off_apart(1) [of "28 + 16 * n" 8 a f 4] off_apart(2) [of a 4 "28 + 16 * n" f 8]
        by auto
    next
      case False
      then have "x + 8 = off f 8" using that xs(2) by (auto simp: off_def)
      then show ?thesis using a(1,3) d(5) off_apart(1) [of 8 8 a f 4] by auto
    qed
  qed
  ultimately show thesis by (rule that) auto
qed

text \<open>
  A split counts the requested bytes as nodes: from a node of \<open>n + 20 + r\<close> bytes \<open>split_node\<close>
  leaves a rest of \<open>r\<close> bytes that starts \<open>16 * n\<close> bytes behind the footer's place instead of \<open>n\<close>, so
  its own footer lies \<open>15 * n\<close> bytes behind the node it was taken from.  The footer at the end of that
  node still names the node that is handed out.
\<close>

theorem split_node_overshoots:
  assumes "lone_node heap f n r m"
  shows "\<exists>m' split. split_node heap f (word_of_nat n) m = Some m' \<and>
    split = f + 20 + 16 * word_of_nat n \<and>
    node_size m' f = word_of_nat n \<and> load32 m' (get_foot_v1 m' f) = f \<and>
    node_size m' split = word_of_nat r \<and> load32 m' (get_foot_v1 m' split) = split \<and>
    get_foot_v1 m' split = get_foot_v1 m f + 15 * word_of_nat n \<and>
    load32 m' (get_foot_v1 m f) = load32 m (get_foot_v1 m f)"
proof -
  note d = lone_nodeD [OF assms]
  let ?sp = "off f (20 + 16 * n)" and ?m1 = "rest_written f n r m"
  obtain m2 where m2: "split_node heap f (word_of_nat n) m =
      Some (store32 (store32 m2 (off f 4) (word_of_nat n)) (off f (16 + n)) f)"
    "\<And>a. 16 \<le> a \<Longrightarrow> a + 4 \<le> 20 + 16 * n \<or> a = 24 + 16 * n \<or> 36 + 16 * n \<le> a \<Longrightarrow> a \<le> 36 + 16 * n + r \<Longrightarrow>
      load32 m2 (off f a) = load32 (rest_written f n r m) (off f a)"
    using split_node_added [OF assms] by blast
  define m' where "m' = store32 (store32 m2 (off f 4) (word_of_nat n)) (off f (16 + n)) f"
  have keep: "load32 m' (off f a) = load32 m2 (off f a)" if "20 + n \<le> a" "a \<le> 36 + 16 * n + r" for a
    using off_apart(1) [of "16 + n" 4 a f 4] off_apart(1) [of 4 4 a f 4] that d(5)
    by (simp add: m'_def load32_store32_apart)
  have foot: "get_foot_v1 m f = off f (36 + n + r)"
    using d(1) by (simp add: get_foot_v1_def off_def algebra_simps)
  have szf: "node_size m' f = word_of_nat n"
    using off_apart(2) [of 4 4 "16 + n" f 4] d(5)
    by (simp add: m'_def node_size_def off_def load32_store32_apart)
  have "load32 m' (off f (24 + 16 * n)) = word_of_nat r"
    using keep [of "24 + 16 * n"] m2(2) [of "24 + 16 * n"] rest_written_size [OF d(5)] by simp
  then have szs: "node_size m' ?sp = word_of_nat r" by (simp add: node_size_def off_add)
  have foots: "get_foot_v1 m' ?sp = off f (36 + 16 * n + r)"
    by (simp add: get_foot_v1_def szs off_add)
  have "load32 m' (off f (36 + 16 * n + r)) = ?sp"
    using keep [of "36 + 16 * n + r"] m2(2) [of "36 + 16 * n + r"] by (simp add: rest_written_def)
  moreover have "load32 m' (off f (36 + n + r)) = load32 m (off f (36 + n + r))"
  proof -
    have "load32 ?m1 (off f (36 + n + r)) = load32 m (off f (36 + n + r))"
      by (rule rest_written_load; rule off_apart) (use d(3-5) in auto)
    then show ?thesis using keep [of "36 + n + r"] m2(2) [of "36 + n + r"] d(3,4) by simp
  qed
  moreover have "load32 m' (get_foot_v1 m' f) = f"
  proof -
    have "get_foot_v1 m' f = off f (16 + n)" by (simp add: get_foot_v1_def szf off_def)
    then show ?thesis by (simp add: m'_def)
  qed
  moreover have "off f (36 + 16 * n + r) = get_foot_v1 m f + 15 * word_of_nat n"
    unfolding foot by (simp add: off_def algebra_simps)
  ultimately show ?thesis
    using m2(1) szf szs foots foot
    by (intro exI [of _ m'] exI [of _ ?sp]) (simp add: m'_def [symmetric], simp add: off_def)
qed

text \<open>A heap as \<open>init_heap\<close> leaves it: one node from \<open>0xC0000000\<close> on in the last bin.\<close>

definition initial_heap :: "mem" where
  "initial_heap = put_size 0xC0000000 (KHEAP_INIT_SIZE - 20) (put_head 0x300000 0xC0000000
     (store32 (\<lambda>_. 0) 0x200030 0x300000))"

theorem split_node_overshoots_witness:
  "\<exists>m'. split_node 0x200000 0xC0000000 256 initial_heap = Some m' \<and>
    get_foot_v1 m' 0xC0001014 = 0xC1000000 - 4 + 15 * 256"
proof -
  have sz: "node_size initial_heap 0xC0000000 = 0xFFFFEC"
    by (simp add: initial_heap_def node_fields_eq KHEAP_INIT_SIZE_def)
  have i: "get_bin_index_v1 0xFFFED8 = 8"
    by (simp add: get_bin_index_v1_def log_loop.simps)
  have b: "bins_at initial_heap 0x200000 8 = 0x300000"
    by (simp add: initial_heap_def bins_at_def put_size_def put_head_def load32_store32_apart)
  have "bin_list initial_heap 0x300000 [0xC0000000]"
    by (simp add: bin_list_single initial_heap_def put_size_def put_head_def bin_head_def blk_next_def
        load32_store32_apart)
  then have "lone_node 0x200000 0xC0000000 256 0xFFFED8 initial_heap"
    by (simp add: lone_node_def Let_def i b sz apart_def)
  from split_node_overshoots [OF this] show ?thesis by (auto simp: get_foot_v1_def [of initial_heap] sz)
qed

section \<open>The heap after initialisation\<close>

lemma struct_field:
  assumes "apart heap 52 x k" "unat c + n \<le> 52" "0 < n" "0 < k"
  shows "apart (heap + c) n x k" "apart x k (heap + c) n"
  using apart_shift_left [OF assms] by (simp_all add: apart_sym)

text \<open>
  On a heap structure whose last bin is empty, \<open>init_heap\<close> ends with one free node that fills
  the initial heap, alone in the last bin, with its footer at the end of the heap, so it is the
  wilderness; the structure holds the bounds it was given.
\<close>

theorem init_heap_one_node:
  fixes heap start :: u32
  assumes "apart heap 52 start 0x1000000" and "unat start + 0x1000000 \<le> 2 ^ 32" and "start \<noteq> 0"
    and "apart (bins_at m heap 8) 4 start 0x1000000" and "apart heap 52 (bins_at m heap 8) 4"
    and "list_head m (bins_at m heap 8) = 0"
  shows "\<exists>m'. init_heap heap start (start + KHEAP_INIT_SIZE) mx super ro m = Some m' \<and>
    bins_at m' heap 8 = bins_at m heap 8 \<and> bin_list m' (bins_at m heap 8) [start] \<and>
    node_size m' start = KHEAP_INIT_SIZE - 20 \<and> node_hole m' start = 1 \<and>
    get_wilderness_v1 m' heap = start \<and>
    load32 m' heap = start \<and> load32 m' (heap + 4) = start + KHEAP_INIT_SIZE \<and> load32 m' (heap + 8) = mx"
proof -
  let ?bin = "bins_at m heap 8" and ?f = "off start 0xFFFFFC"
  have in_heap: "apart heap 52 (off start a) n" "apart ?bin 4 (off start a) n" "apart (off start a) n ?bin 4"
    if "a + n \<le> 0x1000000" "0 < n" for a n
    using off_outside(1) [OF assms(1) that(1) assms(2) that(2)]
      off_outside [OF assms(4) that(1) assms(2) that(2)] by simp_all
  have o: "off start 0 = start" "off start 4 = start + 4" "off start 8 = start + 8"
    "off start 12 = start + 12" by (simp_all add: off_def)
  have i: "get_bin_index_v1 0xFFFFEC = 8" by (simp add: get_bin_index_v1_def log_loop.simps)
  have fields: "apart (heap + c) n (off start a) 4" "apart (off start a) 4 (heap + c) n"
    if "unat c + n \<le> 52" "0 < n" "a + 4 \<le> 0x1000000" for c n a
    using struct_field [OF in_heap(1) [of a 4] that(1,2)] that(3) by simp_all
  have s: "apart (heap + c) n start 4" "apart (heap + c) n (start + 4) 4" "apart (heap + c) n (start + 8) 4"
    "apart (heap + c) n ?f 4" "apart start 4 (heap + c) n" "apart (start + 4) 4 (heap + c) n"
    "apart (start + 8) 4 (heap + c) n" "apart (start + 12) 4 (heap + c) n" "apart ?f 4 (heap + c) n"
    "apart (heap + c) n ?bin 4" "apart ?bin 4 (heap + c) n"
    if "unat c + n \<le> 52" "0 < n" for c n
    using fields [OF that, of 0] fields [OF that, of 4] fields [OF that, of 8] fields [OF that, of 12]
      fields [OF that, of "0xFFFFFC"] struct_field [OF assms(5) that] by (simp_all add: o)
  note s0 = s [of 0 4, simplified]
  have b: "apart start 4 ?bin 4" "apart (start + 4) 4 ?bin 4" "apart (start + 8) 4 ?bin 4"
    "apart (start + 12) 4 ?bin 4" "apart ?f 4 ?bin 4" "apart ?bin 4 start 4" "apart ?bin 4 (start + 4) 4"
    "apart ?bin 4 (start + 8) 4" "apart ?bin 4 ?f 4" "apart ?bin 4 start 16"
    using in_heap(2,3) [of 0 4] in_heap(2,3) [of 4 4] in_heap(2,3) [of 8 4] in_heap(2,3) [of 12 4]
      in_heap(2,3) [of "0xFFFFFC" 4] in_heap(2) [of 0 16] by (simp_all add: o)
  have w: "apart start 4 ?f 4" "apart (start + 4) 4 ?f 4" "apart (start + 8) 4 ?f 4" "apart (start + 12) 4 ?f 4"
    "apart ?f 4 start 4" "apart ?f 4 (start + 4) 4" "apart ?f 4 (start + 8) 4"
    using off_apart [of 0 4 "0xFFFFFC" start 4] off_apart [of 4 4 "0xFFFFFC" start 4]
      off_apart [of 8 4 "0xFFFFFC" start 4] off_apart [of 12 4 "0xFFFFFC" start 4] assms(2)
    by (simp_all add: o)
  define m3 where "m3 = store32 (put_size start 0xFFFFEC (put_hole start 1 m)) ?f start"
  define m4 where "m4 = put_head ?bin start (put_prev start 0 (put_next start 0 m3))"
  define m' where "m' = (store32 (store32 (store32 m4 heap start) (heap + 4) (start + KHEAP_INIT_SIZE))
      (heap + 8) mx)(heap + 12 := super, heap + 13 := ro)"
  have ft: "0xFFFFFC + start = ?f" by (simp add: off_def)
  have m3: "create_foot_v1 start (put_size start 0xFFFFEC (put_hole start 1 m)) = m3"
    by (simp add: create_foot_v1_def get_foot_v1_def node_fields_eq m3_def ft)
  have sz: "node_size m3 start = 0xFFFFEC"
    using w by (simp add: m3_def node_size_def put_size_def load32_store32_apart)
  have b8: "bins_at x heap 8 = load32 x (heap + 48)" for x
    by (simp add: bins_at_def add.commute)
  have bin: "bins_at m3 heap 8 = ?bin"
    using s [of 48 4] by (simp add: m3_def b8 put_size_def put_hole_def load32_store32_apart)
  have add: "add_node ?bin start m3 = Some m4"
    using b assms(6)
    by (simp add: add_node_def Let_def m4_def list_head_def m3_def put_next_def put_prev_def
        put_size_def put_hole_def load32_store32_apart)
  have r: "init_heap heap start (start + KHEAP_INIT_SIZE) mx super ro m = Some m'"
    using sz bin add by (simp add: init_heap_def KHEAP_INIT_SIZE_def m3 i m'_def)
  note simps = m'_def m4_def m3_def put_head_def put_next_def put_prev_def put_size_def put_hole_def
    load32_store32_apart load32_upd_apart
  have heap: "load32 m' heap = start" "load32 m' (heap + 4) = start + KHEAP_INIT_SIZE"
    "load32 m' (heap + 8) = mx"
    by (simp_all add: m'_def load32_store32_apart load32_upd_apart)
  have bins: "bins_at m' heap 8 = ?bin"
    using s [of 48 4] by (simp add: b8 simps)
  have nodes: "node_size m' start = 0xFFFFEC" "node_hole m' start = 1" "blk_next m' start = 0"
    "load32 m' ?f = start" "bin_head m' ?bin = start"
    using w b s0 s [of 4 4] s [of 8 4] s [of 12 1] s [of 13 1]
    by (simp_all add: node_size_def node_hole_def blk_next_def bin_head_def simps)
  have "bin_list m' ?bin [start]" using nodes b assms(3) by (simp add: bin_list_single)
  moreover have "get_wilderness_v1 m' heap = start"
    using nodes(4) by (simp add: get_wilderness_v1_def heap KHEAP_INIT_SIZE_def ft)
  ultimately show ?thesis using r heap bins nodes by (simp add: KHEAP_INIT_SIZE_def)
qed

theorem init_heap_one_node_witness:
  "\<exists>m'. init_heap 0x200000 0xC0000000 0xC1000000 KHEAP_MAX 1 0 (store32 (\<lambda>_. 0) 0x200030 0x300000) =
      Some m' \<and> get_wilderness_v1 m' 0x200000 = 0xC0000000 \<and> bin_list m' 0x300000 [0xC0000000]"
proof -
  let ?m = "store32 (\<lambda>_. 0) 0x200030 0x300000 :: mem"
  have b: "bins_at ?m 0x200000 8 = 0x300000" "list_head ?m 0x300000 = 0"
    by (simp_all add: bins_at_def list_head_def load32_store32_apart)
  have "apart 0x200000 52 0xC0000000 0x1000000" "unat (0xC0000000 :: u32) + 0x1000000 \<le> 2 ^ 32"
    "(0xC0000000 :: u32) \<noteq> 0" "apart (bins_at ?m 0x200000 8) 4 0xC0000000 0x1000000"
    "apart 0x200000 52 (bins_at ?m 0x200000 8) 4" "list_head ?m (bins_at ?m 0x200000 8) = 0"
    by (simp_all add: b apart_def)
  from init_heap_one_node [OF this, of KHEAP_MAX 1 0] show ?thesis
    by (auto simp: b KHEAP_INIT_SIZE_def)
qed

end
