(* ===== verification/V1_Vmm.thy ===== *)
theory V1_Vmm
  imports V1_Heap
begin

text \<open>
  The start of memory management in the first version: \<open>init_pmm\<close> of v1/os/pmm.c, which pushes the
  frames of the multiboot memory map (structures of v1/os/include/multiboot.h), and the rest of
  v1/os/vmm.c: \<open>page_round\<close>, \<open>init_paging\<close>, \<open>switch_page_directory\<close> and \<open>page_fault\<close>.  \<open>sizeof(heap_t)\<close>
  is 52 and \<open>sizeof(bin_t)\<close> 8.  Proved: which frames a region of the map contributes, that the pages
  up to the placement address are mapped to themselves, and what the two bins too many overwrite.
\<close>

section \<open>The memory map\<close>

definition mbi_flags :: "mem \<Rightarrow> u32 \<Rightarrow> u32" where "mbi_flags m p = load32 m p"
definition mbi_mmap_length :: "mem \<Rightarrow> u32 \<Rightarrow> u32" where "mbi_mmap_length m p = load32 m (p + 44)"
definition mbi_mmap_addr :: "mem \<Rightarrow> u32 \<Rightarrow> u32" where "mbi_mmap_addr m p = load32 m (p + 48)"
definition ent_size :: "mem \<Rightarrow> u32 \<Rightarrow> u32" where "ent_size m p = load32 m p"
definition ent_addr :: "mem \<Rightarrow> u32 \<Rightarrow> u64" where "ent_addr m p = load64 m (p + 4)"
definition ent_len :: "mem \<Rightarrow> u32 \<Rightarrow> u64" where "ent_len m p = load64 m (p + 12)"
definition ent_type :: "mem \<Rightarrow> u32 \<Rightarrow> u32" where "ent_type m p = load32 m (p + 20)"

partial_function (option) push_region ::
    "'a malloc \<Rightarrow> u32 \<Rightarrow> u32 \<Rightarrow> u32 \<Rightarrow> 'a v1_state_scheme \<Rightarrow> 'a v1_state_scheme option" where
  "push_region km kern_end cur stop s =
     (if cur < stop then
        do {
          s \<leftarrow> (if kern_end < cur then push_frame km cur s else Some s);
          push_region km kern_end (cur + 0x1000) stop s
        }
      else Some s)"

definition round_start :: "u32 \<Rightarrow> u32" where
  "round_start a = (if a mod 0x1000 \<noteq> 0 then a + (0x1000 - a mod 0x1000) else a)"

definition round_end :: "u32 \<Rightarrow> u32" where
  "round_end a = (if a mod 0x1000 \<noteq> 0 then a - a mod 0x1000 else a)"

text \<open>
  The loop over the map.  It steps to the next entry before it looks at one: the first entry is
  skipped and the last step reads behind the map.
\<close>

partial_function (option) walk_map ::
    "'a malloc \<Rightarrow> u32 \<Rightarrow> u32 \<Rightarrow> u32 \<Rightarrow> 'a v1_state_scheme \<Rightarrow> 'a v1_state_scheme option" where
  "walk_map km kern_end stop mmap s =
     (if mmap < stop then
        do {
          let mmap = mmap + ent_size (ram s) mmap + 4;
          let alloc_start = (ucast (ent_addr (ram s) mmap) :: u32);
          let alloc_end = (ucast (ent_addr (ram s) mmap + ent_len (ram s) mmap) :: u32);
          if ent_type (ram s) mmap = 1 \<and> 0x100000 \<le> ent_addr (ram s) mmap then
            do {
              let alloc_start = round_start alloc_start;
              let alloc_end = round_end alloc_end;
              let s = vga_write_v1 (str ''Memory Map: \<newline>'') s;
              let s = vga_write_v1 (str ''START: '') s;
              s \<leftarrow> write_num alloc_start 16 s;
              let s = vga_write_v1 (str '' END: '') s;
              s \<leftarrow> write_num alloc_end 16 s;
              let s = vga_write_v1 (str ''\<newline>'') s;
              s \<leftarrow> push_region km kern_end alloc_start (alloc_end - 0x1000) s;
              walk_map km kern_end stop mmap s
            }
          else walk_map km kern_end stop mmap s
        }
      else Some s)"

definition init_pmm ::
    "'a malloc \<Rightarrow> u32 \<Rightarrow> u32 \<Rightarrow> 'a v1_state_scheme \<Rightarrow> 'a v1_state_scheme option" where
  "init_pmm km mbi kern_end s =
     (let s = s\<lparr>placement_addr := kern_end\<rparr>;
          s = s\<lparr>bottom_v1 := kern_end\<rparr>
      in if mbi_flags (ram s) mbi AND 64 \<noteq> 0 then
           (let maddr = mbi_mmap_addr (ram s) mbi;
                mlen = mbi_mmap_length (ram s) mbi
            in walk_map km kern_end (maddr + mlen) maddr s)
         else Some s)"

section \<open>Paging\<close>

definition kmalloc_page :: "'a malloc \<Rightarrow> 'a v1_state_scheme \<Rightarrow> (u32 \<times> 'a v1_state_scheme) option" where
  "kmalloc_page km s = km 0x1000 s"

definition page_round :: "'a v1_state_scheme \<Rightarrow> 'a v1_state_scheme" where
  "page_round s =
     (let s = s\<lparr>placement_addr := placement_addr s AND 0xFFFFF000\<rparr>
      in s\<lparr>placement_addr := placement_addr s + 0x1000\<rparr>)"

text \<open>\<open>kheap->bins[k] = kmalloc(sizeof(bin_t))\<close> for the \<open>k\<close> of the list.\<close>

fun make_bins :: "'a malloc \<Rightarrow> nat list \<Rightarrow> 'a v1_state_scheme \<Rightarrow> 'a v1_state_scheme option" where
  "make_bins km [] s = Some s"
| "make_bins km (k # ks) s =
     do {
       (b, s) \<leftarrow> km 8 s;
       make_bins km ks (s\<lparr>ram := store32 (ram s) (kheap_v1 s + 16 + 4 * word_of_nat k) b\<rparr>)
     }"

partial_function (option) map_low :: "u32 \<Rightarrow> u32 \<Rightarrow> u32 \<Rightarrow> mem \<Rightarrow> (u32 \<times> mem) option" where
  "map_low paging limit addr m =
     (if addr \<le> limit then
        (let (page, m) = get_page_v1 addr paging m
         in map_low paging limit (addr + 0x1000) (store32 m page (addr OR 3)))
      else Some (addr, m))"

partial_function (option) set_dir :: "u32 \<Rightarrow> u32 \<Rightarrow> u32 \<Rightarrow> mem \<Rightarrow> mem option" where
  "set_dir paging index i m =
     (if i \<le> index then set_dir paging index (i + 1) (store32 m (dir_entry paging i) (table_addr paging i OR 3))
      else Some m)"

definition map_heap_v1 :: "'a v1_state_scheme \<Rightarrow> 'a v1_state_scheme" where
  "map_heap_v1 s =
     fold (\<lambda>k s. let (page, m) = get_page_v1 (KHEAP_START_v1 + 0x1000 * word_of_nat k) (kpaging s) (ram s)
                 in alloc_frame page 0 0 (s\<lparr>ram := m\<rparr>)) [0..<4096] s"

definition switch_page_directory_v1 :: "u32 \<Rightarrow> 'a machine_scheme \<Rightarrow> 'a machine_scheme" where
  "switch_page_directory_v1 dir s =
     (let s = s\<lparr>cr3 := dir\<rparr> in s\<lparr>cr0 := cr0 s OR 0x80000000\<rparr>)"

definition init_paging :: "'a malloc \<Rightarrow> 'a v1_state_scheme \<Rightarrow> 'a v1_state_scheme option" where
  "init_paging km s =
     do {
       (h, s) \<leftarrow> km 52 s;
       s \<leftarrow> make_bins km [0..<11] (s\<lparr>kheap_v1 := h\<rparr>);
       let s = page_round s;
       let m = fold (\<lambda>i m. store32 m (dir_entry (kpaging s) (word_of_nat i)) 0x2) [0..<1024] (ram s);
       (addr, m) \<leftarrow> map_low (kpaging s) (placement_addr s) 0 m;
       let index = drop_bit 12 addr div 1024;
       m \<leftarrow> set_dir (kpaging s) index 0 m;
       let s = map_heap_v1 (s\<lparr>ram := m\<rparr>);
       let s = add_handler 14 Page_fault_v1 s;
       let s = switch_page_directory_v1 (kpaging s) s;
       m \<leftarrow> init_heap (kheap_v1 s) KHEAP_START_v1 (KHEAP_START_v1 + KHEAP_INIT_SIZE) KHEAP_MAX 1 0 (ram s);
       Some (s\<lparr>ram := m, kheap_init_v1 := 1\<rparr>)
     }"

definition page_fault_v1 :: "regs_t \<Rightarrow> 'a klib_scheme \<Rightarrow> 'a klib_scheme flow option" where
  "page_fault_v1 r s =
     do {
       let present = (err_code r AND 0x1 = 0);
       let rw = err_code r AND 0x2;
       let us = err_code r AND 0x4;
       let reserved = err_code r AND 0x8;
       let s = vga_write_v1 (str ''Page fault! ( '') s;
       let s = (if present then vga_write_v1 (str ''present '') s else s);
       let s = (if rw \<noteq> 0 then vga_write_v1 (str ''read-only '') s else s);
       let s = (if us \<noteq> 0 then vga_write_v1 (str ''user-mode '') s else s);
       let s = (if reserved \<noteq> 0 then vga_write_v1 (str ''reserved '') s else s);
       let s = vga_write_v1 (str '') at 0x'') s;
       s \<leftarrow> write_num (cr2 s) 16 s;
       let s = vga_write_v1 (str ''\<newline>'') s;
       Some (Stopped (s\<lparr>halted := True\<rparr>))
     }"

declare push_region.simps [simp del] walk_map.simps [simp del] map_low.simps [simp del]
  set_dir.simps [simp del]

section \<open>The frames of a region\<close>

text \<open>The pages from \<open>cur\<close> on that start below \<open>stop\<close>.\<close>

definition region_pages :: "u32 \<Rightarrow> u32 \<Rightarrow> u32 list" where
  "region_pages cur stop =
     map (\<lambda>k. cur + 0x1000 * word_of_nat k) [0..<(unat stop - unat cur + 4095) div 4096]"

lemma region_pages_step:
  assumes "cur < stop" "unat stop mod 4096 = 0"
  shows "region_pages cur stop = cur # region_pages (cur + 0x1000) stop"
proof -
  let ?n = "unat stop - unat cur"
  have lt: "unat cur < unat stop" using assms(1) by (simp add: word_less_nat_alt)
  have "unat stop \<le> 4294963200" using assms(2) by (rule page_aligned_bound)
  then have u: "unat (cur + 0x1000) = unat cur + 4096"
    using lt by (subst unat_offset) simp_all
  have n: "(?n + 4095) div 4096 = Suc ((unat stop - unat (cur + 0x1000) + 4095) div 4096)"
  proof (cases "?n \<le> 4096")
    case True
    then have "(?n + 4095) div 4096 = 1" using lt by (intro div_nat_eqI) auto
    then show ?thesis using True by (simp add: u)
  next
    case False
    then have "?n + 4095 = (?n - 4096 + 4095) + 4096" by simp
    then have "(?n + 4095) div 4096 = (?n - 4096 + 4095) div 4096 + 1"
      by (metis div_add_self2 zero_neq_numeral)
    then show ?thesis by (simp only: u diff_diff_left Suc_eq_plus1)
  qed
  have "map (\<lambda>k. cur + 0x1000 * word_of_nat k) [0..<Suc N] =
      cur # map (\<lambda>k. cur + 0x1000 + 0x1000 * word_of_nat k) [0..<N]" for N
    by (simp add: upt_conv_Cons map_Suc_upt [symmetric] algebra_simps del: upt_Suc)
  then show ?thesis unfolding region_pages_def n .
qed

lemma push_region_frames:
  assumes "unat stop mod 4096 = 0"
  shows "push_region km kern_end cur stop s =
    push_frames km (filter (\<lambda>p. kern_end < p) (region_pages cur stop)) s"
proof (induction "length (region_pages cur stop)" arbitrary: cur s)
  case 0
  then have "\<not> cur < stop" using region_pages_step [OF _ assms, of cur] by auto
  then show ?case using 0 by (simp add: push_region.simps)
next
  case (Suc n)
  have lt: "cur < stop"
    using Suc.hyps(2) by (cases "cur < stop") (auto simp: region_pages_def word_less_nat_alt)
  note st = region_pages_step [OF lt assms]
  have "n = length (region_pages (cur + 0x1000) stop)" using Suc.hyps(2) st by simp
  then have ih: "push_region km kern_end (cur + 0x1000) stop =
      push_frames km (filter (\<lambda>p. kern_end < p) (region_pages (cur + 0x1000) stop))"
    using Suc.hyps(1) by blast
  show ?case
    using lt by (subst push_region.simps) (simp add: st ih)
qed

lemma round_end_page: "unat (round_end a - 0x1000) mod 4096 = 0"
proof -
  have "round_end a = a - a mod 0x1000" by (simp add: round_end_def)
  also have "\<dots> = 0x1000 * (a div 0x1000)" by (simp add: minus_mod_eq_mult_div)
  finally have "round_end a - 0x1000 = 0x1000 * (a div 0x1000 - 1)" by (simp add: algebra_simps)
  moreover have "unat (0x1000 * x :: u32) mod 4096 = 0" for x
    by (simp add: unat_word_ariths mod_mod_cancel)
  ultimately show ?thesis by metis
qed

text \<open>
  A region of the memory map contributes its whole pages in ascending order, except the last
  one and those up to the end of the kernel: \<open>init_pmm\<close> pushes exactly these frames, once each.
\<close>

theorem region_pushed:
  "push_region km kern_end (round_start a) (round_end e - 0x1000) s =
     push_frames km (filter (\<lambda>p. kern_end < p) (region_pages (round_start a) (round_end e - 0x1000))) s \<and>
   distinct (region_pages (round_start a) (round_end e - 0x1000)) \<and>
   round_end e - 0x1000 \<notin> set (region_pages (round_start a) (round_end e - 0x1000))"
proof -
  let ?c = "round_start a" and ?e = "round_end e - 0x1000"
  have below: "unat (cur + 0x1000 * word_of_nat k) = unat cur + 4096 * k \<and> unat cur + 4096 * k < unat stop"
    if "k < (unat stop - unat cur + 4095) div 4096" for k and cur stop :: u32
  proof -
    have lt: "unat cur + 4096 * k < unat stop" using that by linarith
    then have "unat (0x1000 * word_of_nat k :: u32) = 4096 * k"
      using unat_bound32 [of stop] by (simp add: unat_word_ariths unat_of_nat)
    then show ?thesis
      using lt unat_bound32 [of stop] unat_offset [of cur "0x1000 * word_of_nat k"] by simp
  qed
  have "inj_on (\<lambda>k. ?c + 0x1000 * word_of_nat k) {0..<(unat ?e - unat ?c + 4095) div 4096}"
  proof (rule inj_onI)
    fix x y
    assume "x \<in> {0..<(unat ?e - unat ?c + 4095) div 4096}" "y \<in> {0..<(unat ?e - unat ?c + 4095) div 4096}"
      and eq: "?c + 0x1000 * word_of_nat x = ?c + 0x1000 * word_of_nat y"
    then show "x = y" using below [of x ?e ?c] below [of y ?e ?c] by (metis add_left_cancel atLeastLessThan_iff
          mult_left_cancel zero_neq_numeral)
  qed
  then have "distinct (region_pages ?c ?e)" by (simp add: region_pages_def distinct_map)
  moreover have "?e \<notin> set (region_pages ?c ?e)"
  proof
    assume "?e \<in> set (region_pages ?c ?e)"
    then obtain k where k: "k < (unat ?e - unat ?c + 4095) div 4096" "?e = ?c + 0x1000 * word_of_nat k"
      by (auto simp: region_pages_def)
    show False using below [OF k(1)] k(2) by (metis less_irrefl)
  qed
  ultimately show ?thesis using push_region_frames [OF round_end_page] by blast
qed

section \<open>The pages up to the placement address\<close>

text \<open>The entries of \<open>paging_t\<close>: directory entry \<open>i\<close> and the entry of page \<open>k\<close>.\<close>

lemma dir_entry_off: "dir_entry p (word_of_nat i) = off p (4 * i)"
  by (simp add: dir_entry_def off_def)

lemma get_page_v1_entry: "fst (get_page_v1 a p m) = p + 4096 + 4 * drop_bit 12 a"
proof -
  let ?f = "drop_bit 12 a"
  have "?f = 1024 * (?f div 1024) + ?f mod 1024" by (rule mult_div_mod_eq [symmetric])
  then have "4 * ?f = 4 * (1024 * (?f div 1024) + ?f mod 1024)" by simp
  also have "\<dots> = 4096 * (?f div 1024) + 4 * (?f mod 1024)" by (simp add: distrib_left)
  finally show ?thesis by (simp add: get_page_v1_def Let_def table_addr_def add.assoc)
qed

lemma drop_page: "k < 2 ^ 20 \<Longrightarrow> drop_bit 12 (0x1000 * word_of_nat k :: u32) = word_of_nat k"
proof -
  assume "k < 2 ^ 20"
  then have "unat (0x1000 * word_of_nat k :: u32) = 4096 * k" "unat (word_of_nat k :: u32) = k"
    by (simp_all add: unat_word_ariths unat_of_nat)
  then show ?thesis by (simp add: word_unat_eq_iff drop_bit_eq_div unat_div)
qed

lemma get_page_v1_page:
  assumes "k < 2 ^ 20"
  shows "get_page_v1 (0x1000 * word_of_nat k) p m = (off p (4096 + 4 * k),
     if load32 m (off p (4 * (k div 1024))) AND 1 = 0
     then store32 m (off p (4 * (k div 1024))) (table_addr p (word_of_nat (k div 1024)) OR 3) else m)"
proof -
  have u: "unat (word_of_nat k :: u32) = k" using assms by (simp add: unat_of_nat)
  have "(word_of_nat k :: u32) div 1024 = word_of_nat (k div 1024)"
    using assms by (simp add: word_unat_eq_iff unat_div u unat_of_nat)
  then have "snd (get_page_v1 (0x1000 * word_of_nat k) p m) =
     (if load32 m (off p (4 * (k div 1024))) AND 1 = 0
      then store32 m (off p (4 * (k div 1024))) (table_addr p (word_of_nat (k div 1024)) OR 3) else m)"
    by (simp add: get_page_v1_def Let_def drop_page [OF assms] dir_entry_off)
  moreover have "fst (get_page_v1 (0x1000 * word_of_nat k) p m) = off p (4096 + 4 * k)"
    by (simp add: get_page_v1_entry drop_page [OF assms] off_def)
  ultimately show ?thesis by (simp add: prod_eq_iff)
qed

lemma map_low_entries:
  assumes "unat p + 0x401000 \<le> 2 ^ 32" "unat lmt < 0xFFFFF000" "j \<le> unat lmt div 4096 + 1"
  shows "\<exists>m'. map_low p lmt (0x1000 * word_of_nat j) m = Some (0x1000 * word_of_nat (unat lmt div 4096 + 1), m') \<and>
    (\<forall>k<2 ^ 20. load32 m' (off p (4096 + 4 * k)) =
      (if j \<le> k \<and> k \<le> unat lmt div 4096 then 0x1000 * word_of_nat k OR 3
       else load32 m (off p (4096 + 4 * k))))"
  using assms(3)
proof (induction "unat lmt div 4096 + 1 - j" arbitrary: j m)
  case 0
  then have j: "j = unat lmt div 4096 + 1" by simp
  have "unat lmt div 4096 \<le> 0xFFFFE" using div_le_mono [of "unat lmt" "0xFFFFEFFF" 4096] assms(2) by simp
  then have "unat (0x1000 * word_of_nat j :: u32) = 4096 * j"
    using j by (simp add: unat_word_ariths unat_of_nat)
  moreover have "unat lmt < 4096 * j"
    using j mod_less_divisor [of 4096 "unat lmt"] mult_div_mod_eq [of 4096 "unat lmt"] by linarith
  ultimately have "\<not> 0x1000 * word_of_nat j \<le> lmt" by (simp add: word_le_nat_alt)
  then show ?case using j by (subst map_low.simps) auto
next
  case (Suc n)
  then have j: "j \<le> unat lmt div 4096" by simp
  have q: "unat lmt div 4096 \<le> 0xFFFFE" using div_le_mono [of "unat lmt" "0xFFFFEFFF" 4096] assms(2) by simp
  then have j20: "j < 2 ^ 20" using j by simp
  have "unat (0x1000 * word_of_nat j :: u32) = 4096 * j"
    using j20 by (simp add: unat_word_ariths unat_of_nat)
  moreover have "4096 * j \<le> unat lmt" using j mult_div_mod_eq [of 4096 "unat lmt"] by linarith
  ultimately have le: "0x1000 * word_of_nat j \<le> lmt" by (simp add: word_le_nat_alt)
  define m1 where "m1 = (if load32 m (off p (4 * (j div 1024))) AND 1 = 0
     then store32 m (off p (4 * (j div 1024))) (table_addr p (word_of_nat (j div 1024)) OR 3) else m)"
  define m2 where "m2 = store32 m1 (off p (4096 + 4 * j)) (0x1000 * word_of_nat j OR 3)"
  have dj: "j div 1024 < 1024" using j20 by (simp add: less_mult_imp_div_less)
  have e1: "load32 m1 (off p (4096 + 4 * k)) = load32 m (off p (4096 + 4 * k))" if "k < 2 ^ 20" for k
    using off_apart(1) [of "4 * (j div 1024)" 4 "4096 + 4 * k" p 4] that dj assms(1)
    by (simp add: m1_def load32_store32_apart)
  have e2: "load32 m2 (off p (4096 + 4 * k)) =
      (if k = j then 0x1000 * word_of_nat j OR 3 else load32 m (off p (4096 + 4 * k)))" if "k < 2 ^ 20" for k
  proof (cases "k = j")
    case False
    then have "apart (off p (4096 + 4 * j)) 4 (off p (4096 + 4 * k)) 4"
      using off_apart(1) [of "4096 + 4 * j" 4 "4096 + 4 * k" p 4]
        off_apart(2) [of "4096 + 4 * k" 4 "4096 + 4 * j" p 4] that j20 assms(1)
      by (cases "j < k") simp_all
    then show ?thesis using False e1 [OF that] by (simp add: m2_def load32_store32_apart)
  qed (simp add: m2_def)
  have "map_low p lmt (0x1000 * word_of_nat j) m = map_low p lmt (0x1000 * word_of_nat (Suc j)) m2"
    using le by (subst map_low.simps)
      (simp add: get_page_v1_page [OF j20] m1_def [symmetric] m2_def distrib_left add.commute)
  moreover have n: "n = unat lmt div 4096 + 1 - Suc j" and sj: "Suc j \<le> unat lmt div 4096 + 1"
    using Suc.hyps(2) j by simp_all
  moreover obtain m' where "map_low p lmt (0x1000 * word_of_nat (Suc j)) m2 =
        Some (0x1000 * word_of_nat (unat lmt div 4096 + 1), m')"
      "\<forall>k<2 ^ 20. load32 m' (off p (4096 + 4 * k)) =
      (if Suc j \<le> k \<and> k \<le> unat lmt div 4096 then 0x1000 * word_of_nat k OR 3
       else load32 m2 (off p (4096 + 4 * k)))"
    using Suc.hyps(1) [OF n sj, of m2] by blast
  ultimately show ?case
    using j e2 by (intro exI [of _ m']) (auto simp: not_less_eq_eq Suc_le_eq)
qed

lemma set_dir_entries:
  assumes "unat p + 0x401000 \<le> 2 ^ 32" "q < 1024" "j \<le> Suc q"
  shows "\<exists>m'. set_dir p (word_of_nat q) (word_of_nat j) m = Some m' \<and>
    (\<forall>i. j \<le> i \<and> i \<le> q \<longrightarrow> load32 m' (off p (4 * i)) = table_addr p (word_of_nat i) OR 3) \<and>
    (\<forall>a. 4096 \<le> a \<and> a + 4 \<le> 0x401000 \<or> (\<exists>i<j. a = 4 * i) \<longrightarrow> load32 m' (off p a) = load32 m (off p a))"
  using assms(3)
proof (induction "Suc q - j" arbitrary: j m)
  case 0
  then have "j = Suc q" "q < j" "j \<le> 1024" using assms(2) by simp_all
  then have "\<not> (word_of_nat j :: u32) \<le> word_of_nat q"
    using assms(2) by (simp add: word_le_nat_alt unat_of_nat del: of_nat_Suc)
  then show ?case using \<open>j = Suc q\<close> by (subst set_dir.simps) (auto simp del: of_nat_Suc)
next
  case (Suc n)
  then have j: "j \<le> q" by simp
  then have le: "(word_of_nat j :: u32) \<le> word_of_nat q"
    using assms(2) by (simp add: word_le_nat_alt unat_of_nat)
  define m2 where "m2 = store32 m (off p (4 * j)) (table_addr p (word_of_nat j) OR 3)"
  have n: "n = Suc q - Suc j" and sj: "Suc j \<le> Suc q" using Suc.hyps(2) j by simp_all
  obtain m' where m': "set_dir p (word_of_nat q) (word_of_nat (Suc j)) m2 = Some m'"
    "\<forall>i. Suc j \<le> i \<and> i \<le> q \<longrightarrow> load32 m' (off p (4 * i)) = table_addr p (word_of_nat i) OR 3"
    "\<forall>a. 4096 \<le> a \<and> a + 4 \<le> 0x401000 \<or> (\<exists>i<Suc j. a = 4 * i) \<longrightarrow> load32 m' (off p a) = load32 m2 (off p a)"
    using Suc.hyps(1) [OF n sj, of m2] by blast
  have "set_dir p (word_of_nat q) (word_of_nat j) m = Some m'"
    using m'(1) le by (subst set_dir.simps) (simp add: m2_def dir_entry_off add.commute)
  moreover have "load32 m' (off p (4 * j)) = table_addr p (word_of_nat j) OR 3"
    using m'(3) by (simp add: m2_def)
  moreover have "load32 m2 (off p a) = load32 m (off p a)"
    if "4096 \<le> a \<and> a + 4 \<le> 0x401000 \<or> (\<exists>i<j. a = 4 * i)" for a
    using that off_apart(1) [of "4 * j" 4 a p 4] off_apart(2) [of a 4 "4 * j" p 4] j assms(1,2)
    by (auto simp: m2_def load32_store32_apart)
  ultimately show ?case
  proof (intro exI [of _ m'] conjI allI impI, goal_cases)
    case (2 i)
    then show ?case using m'(2) by (cases "i = j") auto
  next
    case (3 a)
    then have "4096 \<le> a \<and> a + 4 \<le> 0x401000 \<or> (\<exists>i<Suc j. a = 4 * i)" by (auto simp: less_Suc_eq)
    then show ?case using m'(3) 3 by metis
  qed
qed

text \<open>What the processor does with an address: the directory entry, the table entry, the offset.\<close>

definition mmu :: "mem \<Rightarrow> u32 \<Rightarrow> u32 \<Rightarrow> u32 option" where
  "mmu m dir a =
     (let pde = load32 m (dir + 4 * drop_bit 22 a)
      in if pde AND 1 = 0 then None
      else let pte = load32 m ((pde AND 0xFFFFF000) + 4 * (drop_bit 12 a AND 0x3FF))
      in if pte AND 1 = 0 then None else Some ((pte AND 0xFFFFF000) + (a AND 0xFFF)))"

lemma entry_flags:
  assumes "take_bit 12 x = 0"
  shows "(x OR 3) AND 0xFFFFF000 = (x :: u32)" "(x OR 3) AND 1 = (1 :: u32)"
proof -
  have three: "bit (3 :: u32) n \<longleftrightarrow> n < 2" for n
  proof -
    have "(3 :: u32) = mask 2" by (simp add: mask_numeral)
    then have "bit (3 :: u32) n = bit (mask 2 :: u32) n" by (rule arg_cong)
    then show ?thesis by (auto simp only: bit_mask_iff possible_bit_word) simp
  qed
  have "(x OR 3) AND 0xFFFFF000 = push_bit 12 (drop_bit 12 (x OR 3))" by (rule and_page_mask)
  also have "\<dots> = push_bit 12 (drop_bit 12 x)"
    by (rule bit_word_eqI) (auto simp: bit_simps three)
  also have "\<dots> = x" using bits_ident [of 12 x] assms by simp
  finally show "(x OR 3) AND 0xFFFFF000 = x" .
  show "(x OR 3) AND 1 = (1 :: u32)"
    by (rule bit_word_eqI) (auto simp: bit_simps three bit_1_iff)
qed

lemma page_multiple: "take_bit 12 (0x1000 * x :: u32) = 0"
proof -
  have "0x1000 * x = push_bit 12 x" by (simp add: push_bit_eq_mult mult.commute)
  then show ?thesis by (simp add: take_bit_push_bit)
qed

lemma table_addr_page:
  assumes "unat p mod 4096 = 0"
  shows "take_bit 12 (table_addr p i) = 0"
proof -
  have "unat (p div 0x1000) = unat p div 4096" by (simp add: unat_div)
  then have "p = 0x1000 * (p div 0x1000)"
    using assms mult_div_mod_eq [of 4096 "unat p"] unat_bound32 [of p]
    by (simp add: word_unat_eq_iff unat_word_ariths)
  then have "table_addr p i = 0x1000 * (p div 0x1000 + 1 + i)"
    by (simp add: table_addr_def distrib_left)
  then show ?thesis by (simp only: page_multiple)
qed

lemma page_of_address:
  fixes a :: u32
  defines "k \<equiv> unat a div 4096"
  shows "k < 2 ^ 20" "drop_bit 22 a = word_of_nat (k div 1024)"
    "drop_bit 12 a AND 0x3FF = word_of_nat (k mod 1024)" "0x1000 * word_of_nat k + (a AND 0xFFF) = a"
proof -
  have d: "unat (drop_bit 12 a) = k" "unat (drop_bit 22 a) = k div 1024"
    by (simp_all add: k_def drop_bit_eq_div unat_div flip: div_mult2_eq)
  show k: "k < 2 ^ 20"
    unfolding k_def using less_mult_imp_div_less [of "unat a" "2 ^ 20" 4096] unat_bound32 [of a] by simp
  show "drop_bit 22 a = word_of_nat (k div 1024)"
    using k d by (simp add: word_unat_eq_iff unat_of_nat)
  show "drop_bit 12 a AND 0x3FF = word_of_nat (k mod 1024)"
    using d by (simp add: word_unat_eq_iff and_masks unsigned_take_bit_eq take_bit_eq_mod unat_of_nat unat_mod)
  have "0x1000 * word_of_nat k = push_bit 12 (drop_bit 12 a)"
    using d(1) by (simp add: push_bit_eq_mult mult.commute flip: d(1))
  then show "0x1000 * word_of_nat k + (a AND 0xFFF) = a"
    using bits_ident [of 12 a] by (simp add: and_masks)
qed

text \<open>
  C37. The first version maps the memory it has allocated to itself: on every memory the two loops
  of \<open>init_paging\<close> end, and a processor that walks the tables afterwards finds each address up to the
  placement address at itself.
\<close>

theorem identity_mapped:
  assumes "unat p mod 4096 = 0" and "unat p + 0x401000 \<le> 2 ^ 32" and "unat lmt < 0xFFFFF000"
  shows "\<exists>addr m1 m2. map_low p lmt 0 m = Some (addr, m1) \<and>
    set_dir p (drop_bit 12 addr div 1024) 0 m1 = Some m2 \<and> (\<forall>a. a \<le> lmt \<longrightarrow> mmu m2 p a = Some a)"
proof -
  let ?L = "unat lmt div 4096" and ?q = "(unat lmt div 4096 + 1) div 1024"
  have L: "?L \<le> 0xFFFFE" using div_le_mono [of "unat lmt" "0xFFFFEFFF" 4096] assms(3) by simp
  obtain m1 where m1: "map_low p lmt 0 m = Some (0x1000 * word_of_nat (?L + 1), m1)"
    "\<And>k. k < 2 ^ 20 \<Longrightarrow> k \<le> ?L \<Longrightarrow> load32 m1 (off p (4096 + 4 * k)) = 0x1000 * word_of_nat k OR 3"
    using map_low_entries [OF assms(2,3), of 0 m] by auto
  have "drop_bit 12 (0x1000 * word_of_nat (?L + 1)) = (word_of_nat (?L + 1) :: u32)"
    by (rule drop_page) (use L in simp)
  then have q: "drop_bit 12 (0x1000 * word_of_nat (?L + 1)) div 1024 = (word_of_nat ?q :: u32)"
    using L by (simp add: word_unat_eq_iff unat_div unat_of_nat del: of_nat_add of_nat_Suc)
  have q1: "?q < 1024" using L by (simp add: less_mult_imp_div_less)
  obtain m2 where m2: "set_dir p (word_of_nat ?q) 0 m1 = Some m2"
    "\<And>i. i \<le> ?q \<Longrightarrow> load32 m2 (off p (4 * i)) = table_addr p (word_of_nat i) OR 3"
    "\<And>a. 4096 \<le> a \<Longrightarrow> a + 4 \<le> 0x401000 \<Longrightarrow> load32 m2 (off p a) = load32 m1 (off p a)"
    using set_dir_entries [OF assms(2) q1, of 0 m1] by auto
  have "mmu m2 p a = Some a" if a: "a \<le> lmt" for a
  proof -
    let ?k = "unat a div 4096"
    note pa = page_of_address [of a]
    have k: "?k \<le> ?L" using a by (simp add: word_le_nat_alt div_le_mono)
    then have i: "?k div 1024 \<le> ?q" by (simp add: div_le_mono)
    have pde: "load32 m2 (p + 4 * drop_bit 22 a) = table_addr p (word_of_nat (?k div 1024)) OR 3"
      using m2(2) [OF i] by (simp add: pa(2) off_def)
    have "4096 * (?k div 1024) + 4 * (?k mod 1024) = 4 * ?k"
      using mult_div_mod_eq [of 1024 ?k] by linarith
    then have "off p (4096 + (4096 * (?k div 1024) + 4 * (?k mod 1024))) = off p (4096 + 4 * ?k)" by simp
    then have "table_addr p (word_of_nat (?k div 1024)) + 4 * word_of_nat (?k mod 1024) = off p (4096 + 4 * ?k)"
      by (simp add: table_addr_def off_def add.assoc)
    moreover have "load32 m2 (off p (4096 + 4 * ?k)) = 0x1000 * word_of_nat ?k OR 3"
      using m2(3) [of "4096 + 4 * ?k"] m1(2) [OF pa(1) k] pa(1) by simp
    ultimately show ?thesis
      by (simp add: mmu_def Let_def pde pa(3,4) entry_flags [OF table_addr_page [OF assms(1)]]
          entry_flags [OF page_multiple])
  qed
  then show ?thesis using m1(1) m2(1) q by auto
qed

theorem identity_mapped_witness:
  "\<exists>addr m1 m2. map_low 0x400000 0x8FFFFF 0 (\<lambda>_. 0) = Some (addr, m1) \<and>
    set_dir 0x400000 (drop_bit 12 addr div 1024) 0 m1 = Some m2 \<and> mmu m2 0x400000 0x123456 = Some 0x123456"
proof -
  obtain addr m1 m2 where "map_low 0x400000 0x8FFFFF 0 (\<lambda>_. 0) = Some (addr, m1)"
    "set_dir 0x400000 (drop_bit 12 addr div 1024) 0 m1 = Some m2"
    "\<forall>a. a \<le> 0x8FFFFF \<longrightarrow> mmu m2 0x400000 a = Some a"
    using identity_mapped [of "0x400000" "0x8FFFFF" "\<lambda>_. 0"] by auto
  moreover have "(0x123456 :: u32) \<le> 0x8FFFFF" by simp
  ultimately show ?thesis by blast
qed

section \<open>The bins\<close>

lemma make_bins_kmalloc:
  "kheap_init_v1 s = 0 \<Longrightarrow> make_bins (kmalloc_v1 d) ks s = make_bins bump ks s"
  by (induction ks arbitrary: s) (simp_all add: kmalloc_v1_bump, simp add: bump_def)

lemma make_bins_bump:
  assumes "unat (kheap_v1 s) + 200 \<le> 2 ^ 32" "i \<le> 11" "placement_addr s = off (kheap_v1 s) (52 + 8 * i)"
  shows "\<exists>s'. make_bins bump [i..<11] s = Some s' \<and> kheap_v1 s' = kheap_v1 s \<and>
    (\<forall>k. i \<le> k \<and> k < 11 \<longrightarrow>
      load32 (ram s') (off (kheap_v1 s) (16 + 4 * k)) = off (kheap_v1 s) (52 + 8 * k)) \<and>
    (\<forall>a. a + 4 \<le> 16 + 4 * i \<or> 60 \<le> a \<and> a + 4 \<le> 200 \<longrightarrow>
      load32 (ram s') (off (kheap_v1 s) a) = load32 (ram s) (off (kheap_v1 s) a))"
  using assms
proof (induction "11 - i" arbitrary: i s)
  case 0
  then show ?case by (intro exI [of _ s]) auto
next
  case (Suc n)
  then have i: "i < 11" by simp
  let ?h = "kheap_v1 s"
  let ?t = "s\<lparr>placement_addr := placement_addr s + 8,
    ram := store32 (ram s) (?h + 16 + 4 * word_of_nat i) (placement_addr s)\<rparr>"
  have n: "n = 11 - Suc i" using Suc.hyps(2) i by simp
  have pl: "placement_addr ?t = off (kheap_v1 ?t) (52 + 8 * Suc i)"
    using Suc.prems(3) by (simp add: off_def algebra_simps)
  obtain s' where s': "make_bins bump [Suc i..<11] ?t = Some s'" "kheap_v1 s' = ?h"
    "\<And>k. Suc i \<le> k \<Longrightarrow> k < 11 \<Longrightarrow> load32 (ram s') (off ?h (16 + 4 * k)) = off ?h (52 + 8 * k)"
    "\<And>a. a + 4 \<le> 16 + 4 * Suc i \<or> 60 \<le> a \<and> a + 4 \<le> 200 \<Longrightarrow>
      load32 (ram s') (off ?h a) = load32 (ram ?t) (off ?h a)"
    using Suc.hyps(1) [OF n, of ?t] Suc.prems(1) i pl by auto
  have st: "?h + 16 + 4 * word_of_nat i = off ?h (16 + 4 * i)" by (simp add: off_def)
  have new: "load32 (ram ?t) (off ?h (16 + 4 * i)) = off ?h (52 + 8 * i)"
    using Suc.prems(3) by (simp add: st)
  have old: "load32 (ram ?t) (off ?h a) = load32 (ram s) (off ?h a)"
    if "a + 4 \<le> 16 + 4 * i \<or> 60 \<le> a \<and> a + 4 \<le> 200" for a
    using that off_apart(1) [of "16 + 4 * i" 4 a ?h 4] off_apart(2) [of a 4 "16 + 4 * i" ?h 4]
      i Suc.prems(1) by (auto simp: st load32_store32_apart)
  have "make_bins bump [i..<11] s = Some s'"
    using s'(1) i by (simp add: upt_conv_Cons bump_def del: upt_rec_numeral)
  then show ?case
  proof (intro exI [of _ s'] conjI allI impI, goal_cases)
    case (3 k)
    then show ?case using s'(3,4) new by (cases "k = i") auto
  next
    case (4 a)
    then show ?case using s'(4) [of a] old [of a] by auto
  qed (use s'(2) in simp_all)
qed

text \<open>
  \<open>init_paging\<close> makes eleven bins for an array of nine.  The two extra pointers land in the first
  bin, which follows the structure: its head names the tenth bin as if it were a free node, and
  a small request is given memory behind that bin as soon as the word there is large enough.
\<close>

theorem bins_overflow:
  assumes "kheap_init_v1 s = 0" and "unat (placement_addr s) + 200 \<le> 2 ^ 32"
    and "kmalloc_v1 d 52 s = Some (h, t)"
  shows "\<exists>s'. make_bins (kmalloc_v1 d) [0..<11] (t\<lparr>kheap_v1 := h\<rparr>) = Some s' \<and>
    bins_at (ram s') h 0 = h + 52 \<and> list_head (ram s') (bins_at (ram s') h 0) = bins_at (ram s') h 9 \<and>
    bins_at (ram s') h 9 = h + 124 \<and>
    (\<forall>sz. sz \<le> load32 (ram s) (h + 128) \<longrightarrow>
       get_best_fit (ram s') (bins_at (ram s') h 0) sz = Some (h + 124))"
proof -
  have h: "h = placement_addr s" and t: "t = s\<lparr>placement_addr := placement_addr s + 52\<rparr>"
    using assms(3) by (auto simp: kmalloc_v1_bump [OF assms(1)] bump_def)
  let ?s = "t\<lparr>kheap_v1 := h\<rparr>"
  have "unat (kheap_v1 ?s) + 200 \<le> 2 ^ 32" "placement_addr ?s = off (kheap_v1 ?s) (52 + 8 * 0)"
    using assms(2) by (simp_all add: h t off_def)
  then obtain s' where s': "make_bins bump [0..<11] ?s = Some s'"
    "\<And>k. k < 11 \<Longrightarrow> load32 (ram s') (off h (16 + 4 * k)) = off h (52 + 8 * k)"
    "\<And>a. 60 \<le> a \<Longrightarrow> a + 4 \<le> 200 \<Longrightarrow> load32 (ram s') (off h a) = load32 (ram s) (off h a)"
    using make_bins_bump [of ?s 0] by (auto simp: t)
  have km: "make_bins (kmalloc_v1 d) [0..<11] ?s = Some s'"
    using s'(1) assms(1) make_bins_kmalloc [of ?s d] by (simp add: t del: upt_rec_numeral)
  have b: "load32 (ram s') (h + 16) = h + 52" "load32 (ram s') (h + 52) = h + 124"
    "load32 (ram s') (h + 128) = load32 (ram s) (h + 128)"
    using s'(2) [of 0] s'(2) [of 9] s'(3) [of 128] by (simp_all add: off_def)
  have n: "h + 124 \<noteq> 0"
  proof -
    have "unat (h + 124) = unat h + 124" using assms(2) h by (subst unat_offset) simp_all
    then show ?thesis by (auto simp flip: unat_eq_0)
  qed
  have bins: "bins_at (ram s') h 0 = h + 52" "bins_at (ram s') h 9 = h + 124"
    using b(1,2) by (simp_all add: bins_at_def add.commute)
  have "get_best_fit (ram s') (h + 52) sz = Some (h + 124)" if "sz \<le> load32 (ram s) (h + 128)" for sz
    using that b n
    by (simp add: get_best_fit_def list_head_def best_fit_loop.simps node_size_def add.commute)
  then show ?thesis
    using km b bins by (intro exI [of _ s']) (simp add: list_head_def del: upt_rec_numeral)
qed

theorem bins_overflow_witness:
  "\<exists>s'. make_bins (kmalloc_v1 1) [0..<11] (v1_state0\<lparr>placement_addr := 0x200034, kheap_v1 := 0x200000\<rparr>) = Some s' \<and>
    list_head (ram s') 0x200034 = 0x20007C"
proof -
  have "kheap_init_v1 v1_state0 = 0" "unat (placement_addr v1_state0) + 200 \<le> 2 ^ 32"
    "kmalloc_v1 1 52 v1_state0 = Some (0x200000, v1_state0\<lparr>placement_addr := 0x200034\<rparr>)"
    by (simp_all add: v1_state0_def device_state.defs kmalloc_v1_bump bump_def)
  from bins_overflow [OF this] show ?thesis by auto
qed

section \<open>The frames the first version hands out\<close>

lemma push_frames_kmalloc:
  "kheap_init_v1 s = 0 \<Longrightarrow> push_frames (kmalloc_v1 d) fs s = push_frames bump fs s"
  by (induction fs arbitrary: s) (simp_all add: push_frame_def kmalloc_v1_bump, simp add: bump_def)

text \<open>
  Before the heap exists, a region of the memory map goes onto the stack of frames page by
  page, and the pages come off it in reverse order, each once; the first page stays behind, with it
  left the stack reports that there is no memory.
\<close>

theorem region_frames_popped:
  assumes "kheap_init_v1 s = 0" and "placement_addr s = bottom_v1 s"
    and "filter (\<lambda>p. kern_end < p) (region_pages (round_start a) (round_end e - 0x1000)) = f # fs"
    and "unat (bottom_v1 s) + 4 * length (f # fs) \<le> 2 ^ 32"
  shows "\<exists>s'. push_region (kmalloc_v1 d) kern_end (round_start a) (round_end e - 0x1000) s = Some s' \<and>
    fst (pop_frames (length fs) s') = rev fs \<and>
    (let t = snd (pop_frames (length fs) s') in pop_frame t = (- 1, vga_write (str ''NO MEMORY'') t))"
  unfolding push_region_frames [OF round_end_page] assms(3) push_frames_kmalloc [OF assms(1)]
  by (rule frames_popped_in_reverse [OF assms(2,4)])

theorem region_frames_popped_witness:
  "\<exists>s'. push_region (kmalloc_v1 1) 0x200000 0x300000 0x303000 v1_state0 = Some s' \<and>
    fst (pop_frames (length [0x301000 :: u32, 0x302000]) s') = [0x302000, 0x301000]"
proof -
  have r: "round_start 0x2FF123 = 0x300000" "round_end 0x304567 = 0x304000"
    by (simp_all add: round_start_def round_end_def)
  have "filter (\<lambda>p. 0x200000 < p) (region_pages (round_start 0x2FF123) (round_end 0x304567 - 0x1000)) =
      [0x300000, 0x301000, 0x302000]"
    by (simp add: r region_pages_def upt_rec)
  moreover have "kheap_init_v1 v1_state0 = 0" "placement_addr v1_state0 = bottom_v1 v1_state0"
    "unat (bottom_v1 v1_state0) + 4 * length [0x300000 :: u32, 0x301000, 0x302000] \<le> 2 ^ 32"
    by (simp_all add: v1_state0_def device_state.defs)
  ultimately obtain s' where
    "push_region (kmalloc_v1 1) 0x200000 (round_start 0x2FF123) (round_end 0x304567 - 0x1000) v1_state0 = Some s'"
    "fst (pop_frames (length [0x301000 :: u32, 0x302000]) s') = rev [0x301000, 0x302000]"
    using region_frames_popped [of v1_state0 "0x200000" "0x2FF123" "0x304567" "0x300000"
        "[0x301000, 0x302000]" 1] by blast
  then show ?thesis by (intro exI [of _ s']) (simp add: r)
qed

end
