(* ===== verification/V1_Os.thy ===== *)
theory V1_Os
  imports V1_Vmm
begin

text \<open>
  v1/os/os.c, the start of the first version of the kernel, and the C functions behind its
  interrupt vectors.  The addresses of static objects, of the end of the kernel and of the assembly
  stubs are arguments.  \<open>kmain_v1\<close> is everything before the final empty loop; \<open>d\<close> bounds the nesting
  of allocations (see V1_Heap).  Proved: a key press goes through the interrupt entry to the
  keyboard handler and is acknowledged.
\<close>

section \<open>Handlers\<close>

definition run_v1 ::
    "(u16 \<Rightarrow> u8) \<Rightarrow> isr_t \<Rightarrow> regs_t \<Rightarrow> 'a device_state_scheme \<Rightarrow> 'a device_state_scheme option" where
  "run_v1 inport h r s =
     (case h of
        Page_fault_v1 \<Rightarrow>
          (case page_fault_v1 r s of Some (Returned s) \<Rightarrow> Some s | _ \<Rightarrow> None)
      | Timer_v1 \<Rightarrow> timer_handler_v1 s
      | Keyboard_v1 \<Rightarrow> keyboard_handler inport s)"

section \<open>kmain\<close>

text \<open>The C string at an address; \<open>None\<close> if no byte from there on is zero.\<close>

partial_function (option) c_string :: "mem \<Rightarrow> u32 \<Rightarrow> u8 list option" where
  "c_string m p =
     (if m p = 0 then Some []
      else do { cs \<leftarrow> c_string m (p + 1); Some (m p # cs) })"

definition text_a :: "u8 list" where
  "text_a = str ''this char array was allocated at compile time... lame''"

definition text_c :: "u8 list" where
  "text_c = str ''this char array was dynamically allocated at runtime!'' @ [0]"

definition kmain_early_v1 ::
    "u32 \<Rightarrow> u32 \<Rightarrow> (nat \<Rightarrow> u32) \<Rightarrow> (nat \<Rightarrow> u32) \<Rightarrow> 'a device_state_scheme \<Rightarrow> 'a device_state_scheme option" where
  "kmain_early_v1 segments_addr entries_addr isr irq s =
     do {
       let s = init_vga s;
       s \<leftarrow> init_gdt segments_addr s;
       let s = set_color 0x2 0 s;
       let s = vga_writeln_v1 (Some (str ''kernel loaded!'')) s;
       let s = set_color 0xb 0 s;
       let s = vga_writeln_v1 (Some (str ''GDT installed!'')) s;
       let s = init_idt entries_addr isr irq s;
       let s = set_color 0x4 0 s;
       let s = vga_writeln_v1 (Some (str ''IDT installed!'')) s;
       let s = vga_writeln_v1 None s;
       let s = set_color 0xd 0 s;
       Some (init_keyboard s)
     }"

definition kmain_v1 ::
    "nat \<Rightarrow> u32 \<Rightarrow> u32 \<Rightarrow> (nat \<Rightarrow> u32) \<Rightarrow> (nat \<Rightarrow> u32) \<Rightarrow> u32 \<Rightarrow> u32 \<Rightarrow> u32
     \<Rightarrow> 'a v1_state_scheme \<Rightarrow> 'a v1_state_scheme option" where
  "kmain_v1 d segments_addr entries_addr isr irq mbi end_addr a_addr s =
     do {
       s \<leftarrow> kmain_early_v1 segments_addr entries_addr isr irq s;
       s \<leftarrow> init_pmm (kmalloc_v1 d) mbi end_addr s;
       s \<leftarrow> init_paging (kmalloc_v1 d) s;
       let s = vga_write_v1 (str ''end of kernel: '') s;
       (i, s) \<leftarrow> itoa_v1 end_addr 16 s;
       let s = vga_writeln_v1 (Some (drop i (itoa_buf s))) s;
       let s = set_color 0x8 0 s;
       let s = vga_writeln_v1 (Some (str ''Paging enabled!'')) s;
       let s = vga_writeln_v1 None s;
       let s = set_color 0x9 0 s;
       let s = vga_writeln_v1 (Some text_a) s;
       let s = vga_write_v1 (str ''address: '') s;
       (i, s) \<leftarrow> itoa_v1 a_addr 16 s;
       let s = vga_writeln_v1 (Some (drop i (itoa_buf s))) s;
       let s = vga_writeln_v1 None s;
       (b, s) \<leftarrow> kmalloc_v1 d 256 s;
       let s = s\<lparr>ram := fold (\<lambda>i m. m(b + word_of_nat i := text_c ! i)) [0..<54] (ram s)\<rparr>;
       cs \<leftarrow> c_string (ram s) b;
       let s = vga_writeln_v1 (Some cs) s;
       let s = vga_write_v1 (str ''address: '') s;
       (i, s) \<leftarrow> itoa_v1 b 16 s;
       let s = vga_writeln_v1 (Some (drop i (itoa_buf s))) s;
       kfree_v1 b s
     }"

lemma text_c_length: "length text_c = 54"
  by (simp add: text_c_def)

section \<open>From the interrupt to the handler\<close>

lemma outport_fields [simp]:
  "itoa_buf (outport p x s) = itoa_buf s" "modifiers (outport p x s) = modifiers s"
  "ports (outport p x s) = ports s @ [(p, x)]"
  by (simp_all add: outport_def)

text \<open>
  After \<open>init_keyboard\<close>, interrupt 33 is a key: whatever the scan code, the entry point returns,
  the modifiers are those the handler computes, a scan code that prints nothing leaves the screen
  alone, and the last thing that happens is the acknowledgement of the master controller.
\<close>

theorem keyboard_interrupt:
  assumes "length (handlers_v1 s) = 256" and "itoa_buf_ok (itoa_buf s)" and "int_no r = 33"
  shows "\<exists>s' ps. irq_handler_v1 (run_v1 inport) r (init_keyboard s) = Some s' \<and>
    modifiers s' = toggle_modifier (inport 0x60) (modifiers s) \<and>
    ports s' = ps @ [(0x20, 0x20)] \<and>
    (\<not> prints_key (inport 0x60) \<longrightarrow> vga_mem s' = vga_mem s \<and> cursor s' = cursor s)"
proof -
  let ?s = "init_keyboard s"
  have k: "itoa_buf ?s = itoa_buf s" "modifiers ?s = modifiers s" "vga_mem ?s = vga_mem s"
    "cursor ?s = cursor s" "length (handlers_v1 ?s) = 256" "handlers_v1 ?s ! 33 = Some Keyboard_v1"
    using assms(1) by (simp_all add: init_keyboard_def add_handler_def)
  obtain t where t: "keyboard_handler (\<lambda>_. inport 0x60) ?s = Some t"
    "modifiers t = toggle_modifier (inport 0x60) (modifiers ?s)"
    "\<not> prints_key (inport 0x60) \<longrightarrow> vga_mem t = vga_mem ?s \<and> cursor t = cursor ?s"
    using keyboard_handler_step [of ?s "inport 0x60"] assms(2) k(1) by auto
  have "keyboard_handler inport ?s = Some t" using t(1) by (simp add: keyboard_handler_def)
  then have "irq_handler_v1 (run_v1 inport) r ?s = Some (outport 0x20 0x20 t)"
    using k(5,6) assms(3) irq_handler_v1_runs [of r ?s "run_v1 inport"]
    by (simp add: run_v1_def slave_eoi_def outports_def)
  then show ?thesis using t(2,3) k by (auto simp: outport_def)
qed

theorem keyboard_interrupt_witness:
  "\<exists>s' ps. irq_handler_v1 (run_v1 (\<lambda>_. 42)) (regs_of 33 0) (init_keyboard device0) = Some s' \<and>
    shift (modifiers s') \<and> ports s' = ps @ [(0x20, 0x20)]"
proof -
  have d: "length (handlers_v1 device0) = 256" "itoa_buf_ok (itoa_buf device0)" "int_no (regs_of 33 0) = 33"
    "\<not> shift (modifiers device0)"
    by (simp_all add: device0_def idt_state.defs idt0_def gdt_state.defs gdt0_def klib.defs klib0_def
        console.defs itoa_buf_ok_def regs_of_def)
  obtain s' ps where "irq_handler_v1 (run_v1 (\<lambda>_. 42)) (regs_of 33 0) (init_keyboard device0) = Some s'"
    "modifiers s' = toggle_modifier 42 (modifiers device0)" "ports s' = ps @ [(0x20, 0x20)]"
    using keyboard_interrupt [OF d(1-3), of "\<lambda>_. 42"] by auto
  then show ?thesis using d(4) by (intro exI [of _ s'] exI [of _ ps]) (simp add: toggle_modifier_fields)
qed

end
