(* ===== verification/Table_Load.thy ===== *)
theory Table_Load
  imports V1_Stubs
begin

text \<open>
  The assembly routines that load the descriptor tables: kern/asm/gdt.S and, for the first version,
  v1/os/asm/dt.asm, and \<open>get_eip\<close> of kern/asm/proc.S, which nothing calls.  In the C model \<open>gdt_install\<close> copies the static structure \<open>gdt_ptr\<close> to the
  register; here the routine finds the structure in memory, where its argument on the stack
  points.  Proved: when that structure is \<open>gdt_ptr\<close> the routine does what the C model says, loads
  the segment registers and returns to its caller; the current version leaves \<open>%gs\<close> alone, the
  first version loads it too.
\<close>

record segments = regs +
  seg_ss :: u16

definition load16 :: "mem \<Rightarrow> u32 \<Rightarrow> u16" where
  "load16 m p = ucast (m p) OR push_bit 8 (ucast (m (p + 1)))"

text \<open>The packed structure of six bytes.\<close>

definition table_pointer :: "mem \<Rightarrow> u32 \<Rightarrow> dt_p" where
  "table_pointer m p = \<lparr>lim = load16 m p, base = load32 m (p + 2)\<rparr>"

definition gdt_install_asm :: "segments \<times> 'a gdt_state_scheme \<Rightarrow> segments \<times> 'a gdt_state_scheme" where
  "gdt_install_asm = (\<lambda>(c, s).
     let c = c\<lparr>eax := load32 (ram s) (esp s + 4)\<rparr>;
         s = s\<lparr>gdtr := table_pointer (ram s) (eax c)\<rparr>;
         c = c\<lparr>eax := (eax c AND 0xffff0000) OR 0x10\<rparr>;
         c = c\<lparr>seg_ds := 0x10, seg_es := 0x10, seg_fs := 0x10, seg_ss := 0x10\<rparr>;
         c = c\<lparr>seg_cs := 0x08\<rparr>;
         (v, s) = pop s
     in (c\<lparr>eip := v\<rparr>, s))"

definition gdt_install_dt :: "segments \<times> 'a gdt_state_scheme \<Rightarrow> segments \<times> 'a gdt_state_scheme" where
  "gdt_install_dt = (\<lambda>(c, s).
     let c = c\<lparr>eax := load32 (ram s) (esp s + 4)\<rparr>;
         s = s\<lparr>gdtr := table_pointer (ram s) (eax c)\<rparr>;
         c = c\<lparr>eax := (eax c AND 0xffff0000) OR 0x10\<rparr>;
         c = c\<lparr>seg_ds := 0x10, seg_es := 0x10, seg_fs := 0x10, seg_gs := 0x10, seg_ss := 0x10\<rparr>;
         c = c\<lparr>seg_cs := 0x08\<rparr>;
         (v, s) = pop s
     in (c\<lparr>eip := v\<rparr>, s))"

definition idt_install_dt :: "segments \<times> 'a idt_state_scheme \<Rightarrow> segments \<times> 'a idt_state_scheme" where
  "idt_install_dt = (\<lambda>(c, s).
     let c = c\<lparr>eax := load32 (ram s) (esp s + 4)\<rparr>;
         s = s\<lparr>idtr := table_pointer (ram s) (eax c)\<rparr>;
         s = s\<lparr>interrupts_on := True\<rparr>;
         (v, s) = pop s
     in (c\<lparr>eip := v\<rparr>, s))"

text \<open>\<open>get_eip\<close> of kern/asm/proc.S: the call returns to its caller with the address it returned to.\<close>

definition get_eip :: "segments \<times> 'a machine_scheme \<Rightarrow> segments \<times> 'a machine_scheme" where
  "get_eip = (\<lambda>(c, s).
     let (v, s) = pop s; c = c\<lparr>eax := v\<rparr>
     in (c\<lparr>eip := eax c\<rparr>, s))"

section \<open>Properties\<close>

text \<open>
  Called with the address of the structures that the C code has filled, the assembly routines
  do to the kernel's state what the C model has for them, pop the return address and go on there,
  with the code segment 0x08 and the data segments 0x10; of the segment registers the current
  version does not load \<open>%gs\<close>.  \<open>get_eip\<close> returns, too, and its result is where it returned to.
\<close>

theorem table_routines_refine:
  assumes "table_pointer (ram s) (load32 (ram s) (esp s + 4)) = gdt_ptr s"
    and "table_pointer (ram t) (load32 (ram t) (esp t + 4)) = idt_ptr t"
  shows "(\<exists>c'. gdt_install_asm (c, s) = (c', (gdt_install s)\<lparr>esp := esp s + 4\<rparr>) \<and> eip c' = load32 (ram s) (esp s) \<and>
      seg_cs c' = 8 \<and> [seg_ds c', seg_es c', seg_fs c', seg_ss c'] = replicate 4 0x10 \<and> seg_gs c' = seg_gs c) \<and>
    (\<exists>c'. gdt_install_dt (c, s) = (c', (gdt_install_v1 s)\<lparr>esp := esp s + 4\<rparr>) \<and> eip c' = load32 (ram s) (esp s) \<and>
      seg_cs c' = 8 \<and> [seg_ds c', seg_es c', seg_fs c', seg_gs c', seg_ss c'] = replicate 5 0x10) \<and>
    (\<exists>c'. idt_install_dt (d, t) = (c', (idt_install_v1 t)\<lparr>esp := esp t + 4\<rparr>) \<and> eip c' = load32 (ram t) (esp t)) \<and>
    (\<exists>c'. get_eip (c, s) = (c', s\<lparr>esp := esp s + 4\<rparr>) \<and> eip c' = load32 (ram s) (esp s) \<and> eax c' = eip c')"
  using assms
  by (auto simp: get_eip_def gdt_install_asm_def gdt_install_dt_def idt_install_dt_def gdt_install_def gdt_install_v1_def
      idt_install_v1_def pop_def Let_def numeral_eq_Suc)

text \<open>The structure at 0x7000, its address and the return address on the stack at 0x9000.\<close>

definition table_example :: idt_state where
  "table_example = idt0\<lparr>ram := store32 (store32 (store32 (\<lambda>_. 0) 0x9004 0x7000) 0x9000 0xC0100080) 0x7000 39, esp := 0x9000,
     gdt_ptr := \<lparr>lim = 39, base = 0\<rparr>, idt_ptr := \<lparr>lim = 39, base = 0\<rparr>\<rparr>"

theorem table_routines_refine_witness:
  "\<exists>c'. gdt_install_dt (regs.extend regs_example \<lparr>seg_ss = 0\<rparr>, table_example) =
     (c', (gdt_install_v1 table_example)\<lparr>esp := 0x9004\<rparr>) \<and> eip c' = 0xC0100080 \<and> seg_cs c' = 8"
proof -
  have e: "esp table_example = 0x9000" "gdt_ptr table_example = \<lparr>lim = 39, base = 0\<rparr>"
    "idt_ptr table_example = \<lparr>lim = 39, base = 0\<rparr>"
    "ram table_example = store32 (store32 (store32 (\<lambda>_. 0) 0x9004 0x7000) 0x9000 0xC0100080) 0x7000 39"
    by (simp_all add: table_example_def)
  have w: "load32 (ram table_example) 0x9004 = 0x7000" "load32 (ram table_example) 0x9000 = 0xC0100080"
    by (simp_all add: e(4) load32_store32_apart)
  have b: "ram table_example 0x7000 = 39" "ram table_example 0x7001 = 0" "ram table_example 0x7002 = 0"
    "ram table_example 0x7003 = 0" "ram table_example 0x7004 = 0" "ram table_example 0x7005 = 0"
    by (simp_all add: e(4) store32_def)
  have "table_pointer (ram table_example) 0x7000 = \<lparr>lim = 39, base = 0\<rparr>"
    by (simp add: table_pointer_def load16_def load32_def b)
  then have p: "table_pointer (ram table_example) (load32 (ram table_example) (esp table_example + 4)) = gdt_ptr table_example"
    "table_pointer (ram table_example) (load32 (ram table_example) (esp table_example + 4)) = idt_ptr table_example"
    by (simp_all add: e(1-3) w)
  show ?thesis
    using table_routines_refine [OF p, of "regs.extend regs_example \<lparr>seg_ss = 0\<rparr>" "regs.extend regs_example \<lparr>seg_ss = 0\<rparr>"]
    unfolding e(1) by (elim exE conjE) (auto simp: w)
qed

end
