(* ===== verification/V1_Boot.thy ===== *)
theory V1_Boot
  imports Table_Load
begin

text \<open>
  How earlier versions of the kernel are entered: the multiboot header and the entry code of
  v1/os/asm/boot.asm, the boot sector v1/old_bootloader/bootloader.asm it had before, and
  kern/asm/.boot.S, from before the current kernel moved to the higher half.  The
  addresses the linker chooses are arguments, and so is the BIOS, a function on the registers.
  Proved: with what stack \<open>kmain\<close> starts, and that the boot sector enters the kernel with a data
  segment that ends below it.
\<close>

section \<open>boot.asm\<close>

definition MBOOT_PAGE_ALIGN :: u32 where "MBOOT_PAGE_ALIGN = push_bit 0 1"
definition MBOOT_MEM_INFO :: u32 where "MBOOT_MEM_INFO = push_bit 1 1"
definition MBOOT_HEADER_MAGIC :: u32 where "MBOOT_HEADER_MAGIC = 0x1BADB002"
definition MBOOT_HEADER_FLAGS :: u32 where "MBOOT_HEADER_FLAGS = MBOOT_PAGE_ALIGN OR MBOOT_MEM_INFO"
definition MBOOT_CHECKSUM :: u32 where "MBOOT_CHECKSUM = - (MBOOT_HEADER_MAGIC + MBOOT_HEADER_FLAGS)"

definition mboot :: "u32 \<Rightarrow> u32 \<Rightarrow> u32 \<Rightarrow> u32 \<Rightarrow> u32 \<Rightarrow> u32 list" where
  "mboot mboot_addr code bss end_addr boot_entry =
     [MBOOT_HEADER_MAGIC, MBOOT_HEADER_FLAGS, MBOOT_CHECKSUM, mboot_addr, code, bss, end_addr, boot_entry]"

text \<open>\<open>stack\<close> is the end of the 8 KB of the section \<open>.bss\<close>; \<open>ret\<close> is the return address of the call.\<close>

definition boot_entry :: "u32 \<Rightarrow> u32 \<Rightarrow> u32 \<Rightarrow> regs \<times> 'a idt_state_scheme \<Rightarrow> regs \<times> 'a idt_state_scheme" where
  "boot_entry stack kmain_addr ret = (\<lambda>(c, s).
     let s = s\<lparr>esp := stack\<rparr>;
         s = s\<lparr>interrupts_on := False\<rparr>;
         s = push (ebx s) s;
         s = push ret s
     in (c\<lparr>eip := kmain_addr\<rparr>, s))"

section \<open>.boot.S\<close>

text \<open>The header has the constants of the current kern/asm/boot.S.\<close>

definition multiboot_header_low :: "u32 list" where
  "multiboot_header_low =
     (let MB_MAGIC = 0x1BADB002;
          MB_FLAGS = push_bit 0 1 OR push_bit 1 1
      in [MB_MAGIC, MB_FLAGS, - (MB_MAGIC + MB_FLAGS), 0, 0, 0, 0, 0, 0, 0, 0, 32])"

definition start_low :: "u32 \<Rightarrow> u32 \<Rightarrow> u32 \<Rightarrow> regs \<times> 'a idt_state_scheme \<Rightarrow> regs \<times> 'a idt_state_scheme" where
  "start_low stack_top kmain_addr ret = (\<lambda>(c, s).
     let s = s\<lparr>esp := stack_top\<rparr>;
         s = s\<lparr>esp := esp s AND - 16\<rparr>;
         s = push (esp s) s;
         s = push (eax c) s;
         s = push (ebx s) s;
         s = s\<lparr>interrupts_on := False\<rparr>;
         s = push ret s
     in (c\<lparr>eip := kmain_addr\<rparr>, s))"

section \<open>The boot sector\<close>

record loader =
  l_eax :: u32
  l_ebx :: u32
  l_ecx :: u32
  l_edx :: u32
  l_esp :: u32
  l_eip :: u32
  l_cs :: u16
  l_ds :: u16
  l_es :: u16
  l_ss :: u16
  l_cr0 :: u32
  l_gdtr :: dt_p
  l_if :: bool
  l_df :: bool

definition set_low :: "u8 \<Rightarrow> u32 \<Rightarrow> u32" where "set_low v r = (r AND 0xffffff00) OR ucast v"
definition set_high :: "u8 \<Rightarrow> u32 \<Rightarrow> u32" where "set_high v r = (r AND 0xffff00ff) OR push_bit 8 (ucast v)"
definition set_word :: "u16 \<Rightarrow> u32 \<Rightarrow> u32" where "set_word v r = (r AND 0xffff0000) OR ucast v"

text \<open>The code up to the switch; the constant for \<open>bx\<close> does not fit into 16 bits and is cut off.\<close>

definition read_request :: "loader \<Rightarrow> loader" where
  "read_request c =
     (let c = c\<lparr>l_ebx := set_word (ucast (0x100000 - 0x1000 :: u32)) (l_ebx c)\<rparr>;
          c = c\<lparr>l_eax := set_low 25 (l_eax c)\<rparr>;
          c = c\<lparr>l_ecx := set_high 0 (l_ecx c)\<rparr>;
          c = c\<lparr>l_ecx := set_low 2 (l_ecx c)\<rparr>;
          c = c\<lparr>l_edx := set_high 0 (l_edx c)\<rparr>;
          c = c\<lparr>l_edx := set_low 0 (l_edx c)\<rparr>
      in c\<lparr>l_eax := set_high 0x02 (l_eax c)\<rparr>)"

definition boot_sector :: "(loader \<Rightarrow> loader) \<Rightarrow> loader \<Rightarrow> loader" where
  "boot_sector int13 c =
     (let c = c\<lparr>l_if := False, l_df := False\<rparr>;
          c = c\<lparr>l_eax := set_high 0 (l_eax c)\<rparr>;
          c = int13 c
      in int13 (read_request c))"

definition gdt_kernel_code :: gdt_e where
  "gdt_kernel_code = \<lparr>lim_low = 0xFFFF, base_low = 0, base_mid = 0, access = 0x9A, gran = 0xCF, base_high = 0\<rparr>"

definition gdt_kernel_data :: gdt_e where
  "gdt_kernel_data = \<lparr>lim_low = 0xFFFF, base_low = 0, base_mid = 0, access = 0x92, gran = 0x0F, base_high = 0\<rparr>"

definition loader_gdt :: "gdt_e list" where
  "loader_gdt = [zero_gdt_e, gdt_kernel_code, gdt_kernel_data]"

definition gdt_desc :: "u32 \<Rightarrow> dt_p" where
  "gdt_desc gdt_addr = \<lparr>lim = word_of_nat (8 * length loader_gdt) - 1, base = gdt_addr\<rparr>"

definition pm_switch :: "u32 \<Rightarrow> loader \<Rightarrow> loader" where
  "pm_switch gdt_addr c =
     (let c = c\<lparr>l_eax := set_word 0 (l_eax c)\<rparr>;
          c = c\<lparr>l_ds := ucast (l_eax c)\<rparr>;
          c = c\<lparr>l_gdtr := gdt_desc gdt_addr\<rparr>;
          c = c\<lparr>l_eax := l_cr0 c\<rparr>;
          c = c\<lparr>l_eax := l_eax c OR 1\<rparr>;
          c = c\<lparr>l_cr0 := l_eax c\<rparr>
      in c\<lparr>l_cs := 0x08\<rparr>)"

definition select_jump :: "loader \<Rightarrow> loader" where
  "select_jump c =
     (let c = c\<lparr>l_eax := 0\<rparr>;
          c = c\<lparr>l_eax := set_word 0x10 (l_eax c)\<rparr>;
          c = c\<lparr>l_ds := ucast (l_eax c)\<rparr>;
          c = c\<lparr>l_ss := ucast (l_eax c)\<rparr>;
          c = c\<lparr>l_es := ucast (l_eax c)\<rparr>;
          c = c\<lparr>l_esp := 0x9000\<rparr>
      in c\<lparr>l_cs := 0x08, l_eip := 0x100000\<rparr>)"

definition loader_run :: "(loader \<Rightarrow> loader) \<Rightarrow> u32 \<Rightarrow> loader \<Rightarrow> loader" where
  "loader_run int13 gdt_addr c = select_jump (pm_switch gdt_addr (boot_sector int13 c))"

text \<open>The descriptor a selector names, in the table of the boot sector.\<close>

definition descriptor :: "u16 \<Rightarrow> gdt_e" where
  "descriptor s = loader_gdt ! unat (drop_bit 3 s)"

section \<open>Properties\<close>

text \<open>
  Both entries call \<open>kmain\<close> with interrupts off and with the multiboot pointer as its first argument,
  right above the return address at the top of the stack, and write nothing but the words they push;
  the earlier entry of the current kernel also passes the magic number of the loader and its
  aligned stack pointer.  The header adds up to zero.
\<close>

theorem earlier_entries_call_kmain:
  assumes "boot_entry stack kmain_addr ret (c, s) = (c', s')"
    and "start_low stk kmain_addr ret (c, s) = (d, t)"
  shows "eip c' = kmain_addr \<and> esp s' = stack - 8 \<and> stacked (ram s') (esp s') [ret, ebx s] \<and> \<not> interrupts_on s' \<and>
    (\<forall>a. apart (stack - 8) 8 a 1 \<longrightarrow> ram s' a = ram s a) \<and>
    eip d = kmain_addr \<and> esp t = (stk AND - 16) - 16 \<and>
    stacked (ram t) (esp t) [ret, ebx s, eax c, stk AND - 16] \<and> \<not> interrupts_on t \<and>
    (\<forall>a. apart ((stk AND - 16) - 16) 16 a 1 \<longrightarrow> ram t a = ram s a) \<and>
    sum_list (take 3 (mboot m code bss e b)) = 0 \<and> take 3 (mboot m code bss e b) = take 3 multiboot_header_low"
proof -
  let ?s = "s\<lparr>esp := stack\<rparr>" and ?t = "s\<lparr>esp := stk AND - 16\<rparr>"
  let ?xs = "[ebx s, ret]" and ?ys = "[stk AND - 16, eax c, ebx s, ret]"
  have s': "s' = (fold push ?xs ?s)\<lparr>interrupts_on := False\<rparr>" "eip c' = kmain_addr"
    using assms(1) by (auto simp: boot_entry_def Let_def)
  have t: "t = (fold push ?ys ?t)\<lparr>interrupts_on := False\<rparr>" "eip d = kmain_addr"
    using assms(2) by (auto simp: start_low_def Let_def push_def)
  have i: "\<not> interrupts_on s'" "\<not> interrupts_on t" unfolding s'(1) t(1) by simp_all
  have e: "esp s' = stack - 8" "esp t = (stk AND - 16) - 16"
    using fold_push_esp [of ?xs ?s] fold_push_esp [of ?ys ?t] unfolding s'(1) t(1) by simp_all
  have "stacked (ram s') (esp s') [ret, ebx s]" "stacked (ram t) (esp t) [ret, ebx s, eax c, stk AND - 16]"
    using fold_push_stacked [of ?xs "[]" ?s] fold_push_stacked [of ?ys "[]" ?t] unfolding s'(1) t(1) by simp_all
  moreover have "ram s' a = ram s a" if "apart (stack - 8) 8 a 1" for a
    using fold_push_ram_other [of ?xs ?s a] that unfolding s'(1) by simp
  moreover have "ram t a = ram s a" if "apart ((stk AND - 16) - 16) 16 a 1" for a
    using fold_push_ram_other [of ?ys ?t a] that unfolding t(1) by simp
  moreover have "take 3 (mboot m code bss e b) = take 3 multiboot_header_low" "sum_list (take 3 (mboot m code bss e b)) = 0"
    by (simp_all add: mboot_def multiboot_header_low_def MBOOT_HEADER_MAGIC_def MBOOT_HEADER_FLAGS_def MBOOT_CHECKSUM_def
        MBOOT_PAGE_ALIGN_def MBOOT_MEM_INFO_def)
  ultimately show ?thesis using i e s'(2) t(2) by (simp del: stacked.simps)
qed

theorem earlier_entries_call_kmain_witness:
  "\<exists>c' s'. boot_entry 0x10A000 0x100400 0x100050 (regs_example, int0\<lparr>ebx := 0x9000\<rparr>) = (c', s') \<and>
    eip c' = 0x100400 \<and> stacked (ram s') 0x109FF8 [0x100050, 0x9000]"
proof -
  let ?s = "int0\<lparr>ebx := 0x9000\<rparr>"
  obtain c' s' d t where b: "boot_entry 0x10A000 0x100400 0x100050 (regs_example, ?s) = (c', s')"
    "start_low 0x10A000 0x100400 0x100050 (regs_example, ?s) = (d, t)"
    by (metis surj_pair)
  note t = earlier_entries_call_kmain [OF b]
  have "eip c' = 0x100400" "esp s' = 0x10A000 - 8" "stacked (ram s') (esp s') [0x100050, ebx ?s]"
    using t by blast+
  then have "eip c' = 0x100400 \<and> stacked (ram s') 0x109FF8 [0x100050, 0x9000]" by (simp del: stacked.simps)
  then show ?thesis using b(1) by blast
qed

text \<open>
  Whatever the BIOS does, the boot sector enters 0x100000 in protected mode with the code segment flat,
  but the data and the stack segment end at 1 MB, right below the code it jumps to, because the byte
  that is meant to make them page-granular is the limit alone; and it has the disk read to offset
  0xF000 of the data segment, not to the address before the kernel.
\<close>

theorem loader_segments:
  "(\<exists>d. d = loader_run int13 gdt_addr c \<and> l_eip d = 0x100000 \<and> bit (l_cr0 d) 0 \<and> l_gdtr d = \<lparr>lim = 23, base = gdt_addr\<rparr> \<and>
      seg_base (descriptor (l_cs d)) = 0 \<and> seg_top (descriptor (l_cs d)) = 0xFFFFFFFF \<and>
      l_ss d = l_ds d \<and> l_es d = l_ds d \<and> seg_base (descriptor (l_ds d)) = 0 \<and>
      seg_top (descriptor (l_ds d)) = l_eip d - 1) \<and>
    take_bit 16 (l_ebx (read_request c)) = 0xF000 \<and> take_bit 16 (l_eax (read_request c)) = 0x0219"
proof -
  have 1: "set_word 0x10 0 = 0x10" by (simp add: set_word_def)
  have d: "descriptor 8 = gdt_kernel_code" "descriptor 0x10 = gdt_kernel_data"
  proof -
    have "unat (drop_bit 3 (8 :: u16)) = 1" "unat (drop_bit 3 (0x10 :: u16)) = 2" by simp_all
    then show "descriptor 8 = gdt_kernel_code" "descriptor 0x10 = gdt_kernel_data"
      by (simp_all only: descriptor_def loader_gdt_def) (simp_all add: numeral_2_eq_2)
  qed
  have s: "seg_top gdt_kernel_code = 0xFFFFFFFF" "seg_top gdt_kernel_data = 0xFFFFF"
    "seg_base gdt_kernel_code = 0" "seg_base gdt_kernel_data = 0"
    by (simp_all add: seg_top_def seg_limit_def seg_base_def gdt_kernel_code_def gdt_kernel_data_def)
  let ?b = "boot_sector int13 c" and ?d = "loader_run int13 gdt_addr c"
  have f: "l_eip ?d = 0x100000" "l_cs ?d = 8" "l_ds ?d = 0x10" "l_ss ?d = 0x10" "l_es ?d = 0x10"
    "l_cr0 ?d = l_cr0 ?b OR 1" "l_gdtr ?d = \<lparr>lim = 23, base = gdt_addr\<rparr>"
    by (simp_all add: loader_run_def select_jump_def pm_switch_def Let_def 1 gdt_desc_def loader_gdt_def)
  have "bit (l_cr0 ?d) 0" by (simp add: f(6) bit_simps)
  moreover have "take_bit 16 (l_ebx (read_request c)) = 0xF000"
    by (simp add: read_request_def Let_def set_word_def)
  moreover have "take_bit 16 (l_eax (read_request c)) = 0x0219"
    by (simp add: read_request_def Let_def set_low_def set_high_def bit.conj_disj_distrib2 and.assoc)
  ultimately show ?thesis using f d s by (intro conjI exI [of _ ?d]) simp_all
qed

end
