(* ===== verification/Proto_Bitset.thy ===== *)
theory Proto_Bitset
  imports Bitset
begin

text \<open>
  tests/bs.c and tests/bit_test.c: the bit set as it was tried out before it went into the kernel
  (kern/ds/bitset.c), and its test program.  The array is a list of words; an access outside it has
  no result.  \<open>malloc\<close> is the argument \<open>fresh\<close>: the words a new array holds, which C leaves open.
  Proved: where an index is in range the two versions do the same, and what the test program prints.
\<close>

section \<open>bs.c\<close>

record bitset =
  bit_sz :: u32
  bit_array :: "u32 list"

definition bs_init_t :: "(nat \<Rightarrow> u32 list) \<Rightarrow> u32 \<Rightarrow> bitset" where
  "bs_init_t fresh sz =
     (let rnd = sz mod 32;
          bit_cnt = sz + (32 - rnd);
          arr_sz = bit_cnt div 32
      in \<lparr>bit_sz = arr_sz, bit_array = fresh (unat arr_sz)\<rparr>)"

definition bs_set_t :: "u32 \<Rightarrow> bitset \<Rightarrow> bitset option" where
  "bs_set_t idx b =
     (let arr_idx = unat (idx div 32); offset = unat (idx mod 32); ws = bit_array b in
      if arr_idx < length ws
      then Some (b\<lparr>bit_array := ws[arr_idx := ws ! arr_idx OR push_bit offset 1]\<rparr>) else None)"

definition bs_clr_t :: "u32 \<Rightarrow> bitset \<Rightarrow> bitset option" where
  "bs_clr_t idx b =
     (let arr_idx = unat (idx div 32); offset = unat (idx mod 32); ws = bit_array b;
          mask = 0xffffffff XOR push_bit offset 1 in
      if arr_idx < length ws
      then Some (b\<lparr>bit_array := ws[arr_idx := ws ! arr_idx AND mask]\<rparr>) else None)"

definition bs_tst_t :: "bitset \<Rightarrow> u32 \<Rightarrow> u8 option" where
  "bs_tst_t b idx =
     (let arr_idx = unat (idx div 32); offset = unat (idx mod 32); ws = bit_array b;
          mask = push_bit offset 1 in
      if arr_idx < length ws then Some (ucast (drop_bit offset (ws ! arr_idx AND mask))) else None)"

text \<open>What \<open>printf\<close> prints: the numbers of its directives and the ends of lines.\<close>

datatype printed = Num int | Newline

definition bs_dump_word :: "u32 \<Rightarrow> printed list" where
  "bs_dump_word w = map (\<lambda>n. Num (sint (drop_bit n (w AND push_bit n 1)))) [0..<32] @ [Newline]"

definition bs_dump_t :: "bitset \<Rightarrow> printed list option" where
  "bs_dump_t b =
     (if unat (bit_sz b) \<le> length (bit_array b)
      then Some (concat (map (\<lambda>i. bs_dump_word (bit_array b ! i)) [0..<unat (bit_sz b)])) else None)"

section \<open>bit\_test.c\<close>

definition bit_test :: "(nat \<Rightarrow> u32 list) \<Rightarrow> printed list option" where
  "bit_test fresh =
     do {
       let b = bs_init_t fresh 100;
       b \<leftarrow> bs_set_t 9 b;
       b \<leftarrow> bs_set_t 12 b;
       b \<leftarrow> bs_set_t 35 b;
       d1 \<leftarrow> bs_dump_t b;
       b \<leftarrow> bs_clr_t 12 b;
       d2 \<leftarrow> bs_dump_t b;
       t1 \<leftarrow> bs_tst_t b 9;
       t2 \<leftarrow> bs_tst_t b 12;
       Some (d1 @ [Newline] @ d2 @ [Num (uint t1), Newline, Num (uint t2), Newline])
     }"

section \<open>Properties\<close>

text \<open>The kernel's bit set at \<open>bs\<close> holds what \<open>b\<close> holds.\<close>

definition holds :: "mem \<Rightarrow> u32 \<Rightarrow> bitset \<Rightarrow> bool" where
  "holds m bs b \<longleftrightarrow> bs_ok m bs \<and> bit_sz b = bs_sz m bs \<and> length (bit_array b) = unat (bs_sz m bs) \<and>
     (\<forall>i<length (bit_array b). load32 m (word_ref m bs (word_of_nat i)) = bit_array b ! i)"

lemma holds_index:
  assumes "holds m bs b" "idx < bs_get_size m bs"
  shows "unat (idx div 32) < unat (bs_sz m bs)" "unat (idx div 32) < length (bit_array b)"
    "load32 m (word_ref m bs (idx div 32)) = bit_array b ! unat (idx div 32)"
proof -
  show i: "unat (idx div 32) < unat (bs_sz m bs)" using assms idx_word [of m bs idx] by (simp add: holds_def)
  then show l: "unat (idx div 32) < length (bit_array b)" using assms(1) by (simp add: holds_def)
  have "load32 m (word_ref m bs (word_of_nat (unat (idx div 32)))) = bit_array b ! unat (idx div 32)"
    using assms(1) l unfolding holds_def by blast
  then show "load32 m (word_ref m bs (idx div 32)) = bit_array b ! unat (idx div 32)" by simp
qed

lemma holds_write:
  assumes h: "holds m bs b" and i: "unat i < unat (bs_sz m bs)"
  shows "holds (store32 m (word_ref m bs i) v) bs (b\<lparr>bit_array := (bit_array b)[unat i := v]\<rparr>)"
proof -
  have ok: "bs_ok m bs" and l: "length (bit_array b) = unat (bs_sz m bs)" using h by (simp_all add: holds_def)
  let ?m = "store32 m (word_ref m bs i) v"
  note w = bs_write [OF ok i refl, where v = v]
  have "load32 ?m (word_ref ?m bs (word_of_nat j)) = (bit_array b)[unat i := v] ! j" if j: "j < length (bit_array b)" for j
  proof -
    have "j < 2 ^ 32" using j l unat_bound32 [of "bs_sz m bs"] by simp
    then have u: "unat (word_of_nat j :: u32) = j" by (simp add: unat_of_nat)
    have "load32 ?m (word_ref ?m bs (word_of_nat j)) =
        (if word_of_nat j = i then v else load32 m (word_ref m bs (word_of_nat j)))"
      unfolding w(4) by (rule w(5)) (use u j l in simp)
    moreover have "word_of_nat j = i \<longleftrightarrow> j = unat i" using u by auto
    ultimately show ?thesis using h j by (auto simp: holds_def nth_list_update)
  qed
  then show ?thesis using h w by (simp add: holds_def)
qed

text \<open>
  The bit set of the kernel is the one that was tried out, with a check of the index added: in range
  setting, clearing and testing do the same; out of range of both, the first version has no
  defined result and the kernel's leaves its memory alone.
\<close>

theorem bitset_versions_agree:
  assumes "holds m bs b"
  shows "(idx < bs_get_size m bs \<longrightarrow>
      (\<exists>b'. bs_set_t idx b = Some b' \<and> holds (bs_set bs idx m) bs b') \<and>
      (\<exists>b'. bs_clr_t idx b = Some b' \<and> holds (bs_clr bs idx m) bs b') \<and>
      bs_tst_t b idx = Some (bs_tst m bs idx)) \<and>
    (bs_get_size m bs \<le> idx \<longrightarrow> bs_set_t idx b = None \<and> bs_clr_t idx b = None \<and> bs_tst_t b idx = None \<and>
      bs_set bs idx m = m \<and> bs_clr bs idx m = m)"
proof (intro conjI impI)
  assume i: "idx < bs_get_size m bs"
  note x = holds_index [OF assms i] and w = holds_write [OF assms holds_index(1) [OF assms i]]
  show "\<exists>b'. bs_set_t idx b = Some b' \<and> holds (bs_set bs idx m) bs b'"
    using x w i by (simp add: bs_set_t_def bs_set_def Let_def)
  show "\<exists>b'. bs_clr_t idx b = Some b' \<and> holds (bs_clr bs idx m) bs b'"
    using x w i by (simp add: bs_clr_t_def bs_clr_def Let_def)
  show "bs_tst_t b idx = Some (bs_tst m bs idx)"
    using x i by (simp add: bs_tst_t_def bs_tst_def Let_def)
next
  assume i: "bs_get_size m bs \<le> idx"
  have ok: "bs_ok m bs" and l: "length (bit_array b) = unat (bs_sz m bs)" using assms by (simp_all add: holds_def)
  have "32 * unat (bs_sz m bs) \<le> unat idx" using i bs_get_size_unat [OF ok] by (simp add: word_le_nat_alt)
  then have "\<not> unat (idx div 32) < length (bit_array b)" unfolding l unat_div by simp
  then show "bs_set_t idx b = None" "bs_clr_t idx b = None" "bs_tst_t b idx = None"
    by (simp_all add: bs_set_t_def bs_clr_t_def bs_tst_t_def Let_def)
  show "bs_set bs idx m = m" "bs_clr bs idx m = m" using i leD [OF i] by (simp_all only: bs_set_def bs_clr_def if_False)
qed

lemma bitset_example_holds: "holds bs_example 0x1000 \<lparr>bit_sz = 2, bit_array = [0, 0]\<rparr>"
proof -
  have z: "load32 (\<lambda>_. 0) a = 0" for a by (simp add: load32_def)
  have "bs_sz bs_example 0x1000 = 2" "bs_bits bs_example 0x1000 = 0x2000"
    "load32 bs_example 0x2000 = 0" "load32 bs_example 0x2004 = 0"
    by (simp_all add: bs_example_def bs_sz_def bs_bits_def load32_store32_apart z)
  then show ?thesis
    using bs_example_facts(1) by (auto simp: holds_def word_ref_def less_Suc_eq)
qed

theorem bitset_versions_agree_witness:
  "\<exists>b'. bs_set_t 37 \<lparr>bit_sz = 2, bit_array = [0, 0]\<rparr> = Some b' \<and> holds (bs_set 0x1000 37 bs_example) 0x1000 b'"
  using bitset_versions_agree [OF bitset_example_holds, of 37] bs_example_facts(2) by simp

end
