(* ===== verification/Spec2Isabelle.thy ===== *)
theory Spec2Isabelle
  imports Kheap_Life Static Boot Kernel_Start Sched_Fork V1_Boot Proto_Llist
begin

text \<open>
  The toe-s kernel: src/kern/ is a 32-bit x86 kernel that is loaded at 1 MB, runs at
  0xC0000000 and above, takes its memory map from a multiboot loader, allocates frames, pages and
  heap blocks for itself and switches between kernel tasks from the timer interrupt.  This library
  models its C code and its assembly, from the entry point and the interrupt stubs to the switch of
  stacks, and proves what each part promises to the parts above it.

  \<^bold>\<open>How the program is modelled.\<close>
  There is one state, a record that each component extends with the file-scope variables of its
  file: \<open>machine\<close> (memory, port log, control registers, the registers a context switch saves),
  \<open>console\<close>, \<open>klib\<close>, \<open>gdt_state\<close>, \<open>idt_state\<close>, \<open>int_state\<close>, \<open>heap_state\<close>, \<open>paging_state\<close>,
  \<open>pmm_state\<close>, \<open>sched_state\<close>, \<open>timer_state\<close>.  Integers are machine words of the width the C type
  has, so every addition wraps as it does in C.  Memory is a total map from 32-bit addresses to
  bytes; the C structures are read and written through it at the offsets the i386 layout gives
  them (\<open>blk_size\<close>, \<open>dir_table\<close>, \<open>tsk_next\<close>, ...), so aliasing and overlap are part of the model.
  A function whose loop may not end, or which runs past a string, is a
  \<open>partial_function (option)\<close> or built from one: \<open>None\<close> means it has no defined result, and the
  properties state \<open>Some\<close> where the code returns.  A function that may also leave the control flow tells in a
  \<open>flow\<close> how: it returned, the processor goes on in another task, or it stopped.  Loops that count to a bound are total functions
  with a \<open>termination\<close> proof; fuel is used only for the recursion of
  the first version's \<open>alloc\<close> through \<open>kmalloc\<close> (see V1_Heap), where more of it never changes an answer.

  \<^bold>\<open>The theories, in the order they build on each other.\<close>
  \<^item> Prelude: machine integers, little-endian loads and stores, \<open>apart\<close> (two regions of the
    address space do not meet) and the rules \<open>mem_simps\<close> that compute loads after stores.
  \<^item> Machine (sys/system.c, misc/klib.c): port writes, \<open>memset\<close> and \<open>memcpy\<close> with closed forms, and \<open>flow\<close>.
  \<^item> Vga (misc/vga.c): the text console; the cursor stays on the screen and no cell outside it is
    written, except by a backspace at the top left corner, which writes the cell before the screen and leaves
    the cursor there.
  \<^item> Klib (misc/klib.c): \<open>itoa\<close> and \<open>kprintf\<close>; digits read back as the number, \<open>kprintf\<close> returns
    and touches only the console.
  \<^item> Gdt, Idt, Interrupts (x86/gdt.c, x86/idt.c, x86/int.c, asm/gdt.S): descriptor encodings read
    back by the processor's decoding, the 48 gates, the table of handlers and the two entry points.
    A C function pointer is a constructor of \<open>handler\<close>, and the argument \<open>run\<close> of the entry points
    says what each of them does; Timer supplies it.
  \<^item> Kheap (mm/kheap.c): blocks, footers, bins and every operation of the heap.
  \<^item> Kheap_Bins: a bin represents a list of blocks sorted by size; the operations on it are sorted
    insertion, removal and best-fit search (locale \<open>keyed_bin\<close>).
  \<^item> Kheap_Tiling: the blocks tile the heap from its start to its end (\<open>tiled\<close>), the free ones are
    exactly what the bins represent (\<open>bins_ok\<close>), and what a write must avoid to keep both.
  \<^item> Kheap_Alloc, Kheap_Free, Kheap_Aligned: the invariant \<open>heap_inv\<close> through \<open>kheap_alloc\<close>,
    \<open>kheap_free\<close> and \<open>kheap_alloc_a\<close>: which block is handed out or taken back, how the free blocks
    change, and that no block in use is touched.
  \<^item> Kheap_Life: \<open>kheap_init\<close> establishes the invariant; \<open>heap_run\<close> is the step relation of a client
    that allocates and frees, and the invariant holds in everything it reaches.  Its steps ask for
    what the code does not check: that some block is large enough (\<open>has_room\<close>; otherwise the
    search of the bins leaves their array), that the wilderness has room for an aligned block and
    for the piece before it (\<open>has_page_room\<close>), and that what is freed is in use and, if it is the
    last block, that the word behind the heap does not read as a free block (\<open>may_free\<close>).  Without a
    block that is large enough \<open>kheap_alloc\<close> hands out what the words behind the bins lead to.
  \<^item> Paging (inc/x86.h, inc/pmm.h): page table entries, directories, \<open>get_physical\<close>, and the page walk of
    the processor (\<open>translate\<close>), which later theories state the address space with.
  \<^item> Kmalloc (mm/kmalloc.c): the bump pointer before \<open>kheap_init\<close>, the heap after it, and
    \<open>kheap_pre_init\<close>.
  \<^item> Bitset (ds/bitset.c): the words represent a set of indices (locale \<open>bitmap\<close>).
  \<^item> Pmm (mm/pmm.c, inc/multiboot.h): frames and the memory map; the bit set refines the set of
    free frames, which are handed out once each.  The frames \<open>pmm_init\<close> reserves are stated by the bytes of
    the regions of the memory map (\<open>covers\<close>), for regions below 4 GB, and but for the last page of an
    unaligned region that the loop can miss (\<open>missed\<close>).
  \<^item> Vmm (mm/vmm.c): tables, mapping, the directories of the kernel and of a forked task, moving
    the boot stack.
  \<^item> Vmm_Loops, Vmm_Start, Vmm_Init: \<open>vmm_init\<close> as a whole.  Its two loops keep a description of the tables
    that are made and of the frames that are taken; \<open>vmm_room\<close> says what the memory must offer
    before.  Afterwards the page walk finds the two ranges \<open>kernel_frames\<close> and \<open>heap_frames\<close> and nothing
    else, the heap's pages are reached from one address only, and the heap invariant holds.
  \<^item> Vmm_Copy: one page of \<open>copy_pg_dir\<close> through its window, and the tables the copy shares.  What frame
    the window shows while the page is copied is stated by the walk of the processor (\<open>window_linked\<close>: in the
    directory of the kernel).
  \<^item> Sched (proc/sched.c, proc/task.c, proc/kidle.c, asm/switch.S): the ready list in memory refines
    an abstract queue (locale \<open>task_queue\<close>).  \<open>tasking_init\<close> puts the running task into the list, so the same
    task can come twice and the links can run into a cycle; a \<open>queue\<close> therefore is a list and the cycle it ends
    in, and its operations say when the code does not end.  With the two tasks of \<open>kmain\<close> every turn ends; with a
    third one the turns do not.  The switch saves and restores the registers through the two stacks.
  \<^item> Sched_Fork: what \<open>fork\<close> does with the task and the directory it has allocated, and where the child
    goes on when it is switched to.
  \<^item> Timer (misc/timer.c): the handler that calls \<open>schedule\<close>, run through \<open>irq_handler\<close>.
  \<^item> Kmain (kmain.c): the order of initialisation and the bodies of the endless loops.
  \<^item> Kernel_Start: the way of \<open>kmain\<close> from the boot state to the heap, through Kmain, Pmm and Vmm_Init.
  \<^item> Static: the sizes of the static tables and the buffer of \<open>itoa\<close> as a type of the state, kept in
    everything that the operations of the kernel reach after the early start (\<open>served\<close>: the rest of \<open>kmain\<close>,
    the heap, frames and pages, tasks, prints, interrupts), and which interrupts return in such states:
    the handler for page faults does not, it stops the processor.
  \<^item> Stubs (asm/int.S): what the processor and the stubs do around \<open>isr_handler\<close> and \<open>irq_handler\<close>, on the
    stack of the interrupted program; the registers of \<open>regs\<close> stand beside the kernel state.  A C function gets
    what it sees of the processor, the direction flag and the segments (\<open>c_view\<close>); compiled code is defined
    only with the kernel's segments and the flag clear (\<open>c_code\<close>).  What the interrupted program sees of an
    interrupt, with the C handlers in place.
  \<^item> Boot (asm/boot.S): the multiboot header, the page directory the kernel starts with, and the code
    up to the call of \<open>kmain\<close>, against the page walk of the processor.

  \<^bold>\<open>The first version.\<close>
  src/v1/os/ holds an earlier kernel, a program of its own.  Its theories are the V1_ ones; where its
  structures are those of the current version they use the same records, and names both versions
  have carry the suffix \<open>_v1\<close>.
  \<^item> V1_Console (vga.c, sys.c), V1_Tables (gdt.c, idt.c): equal in effect to the current version, but
    for \<open>itoa\<close> of zero.
  \<^item> V1_Devices (isr.c, timer.c, keyboard.c): acknowledgements, the divisor of the timer, the
    modifier flags of the keyboard.
  \<^item> V1_Llist (llist.c): the lists of free nodes; a second interpretation of \<open>keyed_bin\<close>.
  \<^item> V1_Frames (push and pop of pmm.c, page entries of vmm.c): the stack of frames as a list.
  \<^item> V1_Heap (kheap.c, kmalloc of vmm.c): every operation of the first heap.  \<open>alloc\<close> calls itself
    through \<open>contract\<close>, \<open>free_frame\<close>, \<open>push_frame\<close> and \<open>kmalloc\<close>; \<open>alloc d\<close> is the code with at most \<open>d\<close>
    nested calls.  Only a wilderness of more than 16 MB is contracted, so a depth of 1 is the code
    while the heap is smaller.  Proved: what the heap is after \<open>init_heap\<close>, that \<open>expand\<close> ends, and
    where splitting, merging and shrinking break the layout.
  \<^item> V1_Vmm (init_pmm of pmm.c, vmm.c): which frames are handed out, the identity mapping as a walk
    of the tables finds it, and the bins that \<open>init_paging\<close> overwrites.
  \<^item> V1_Os (os.c): the start of the kernel and a key press from the interrupt to the handler.
  \<^item> V1_Stubs (asm/int.asm): its interrupt stubs, which do not clear the direction flag, compared with those
    of the current version, and a key press as the interrupted program sees it.
  \<^item> Table_Load (asm/dt.asm, kern/asm/gdt.S, kern/asm/proc.S): the assembly behind \<open>gdt_install\<close> and
    \<open>idt_install\<close>, against what the C models have for it.
  \<^item> V1_Boot (asm/boot.asm, v1/old_bootloader/bootloader.asm, kern/asm/.boot.S): earlier entries of the
    kernel, and the segments the boot sector leaves.

  \<^bold>\<open>Prototypes.\<close>
  Proto_Bitset (src/tests/bs.c, bit_test.c) and Proto_Llist (src/v1/testing/llist.c) are the bit set and the
  list of free nodes as they were tried out on their own; they are compared with what went into the kernel.
  They are programs of a hosted system: an access through a null pointer has no result (\<open>None\<close>).

  \<^bold>\<open>Not modelled.\<close>
  An interrupt that changes the privilege level or the stack (the kernel never leaves ring 0, and its switch
  of tasks inside an interrupt is Timer's).  The list macros of inc/list.h, which no code uses;
  \<open>inport\<close>, \<open>interrupt\<close> and \<open>bochs_break\<close>, which read a device or change nothing the state holds.  The labels
  of the assembly code are parameters.
  Memory is the kernel's own address space as it is mapped at the time: what a frame holds that is
  mapped nowhere is not represented, and neither are the stack frames of C calls, except where
  \<open>ctx_swtch\<close> and \<open>relocate_stack\<close> read them.  \<open>tasking_init\<close> and \<open>fork\<close> are modelled, but not proved from the state
  \<open>vmm_init\<close> leaves: Vmm_Copy and Sched_Fork start behind their allocations.  Of the first version, the
  drafts in v1/os/old/, which use a type that no header declares, and v1/os/heap_list.c, whose
  bodies are empty; old_bootloader/boot.asm, which jumps to a label it does not define; and the test
  programs src/tests/dllist.c and src/v1/testing/test.c, the latter of which uses a result that
  \<open>make_node\<close> does not return.
\<close>

end
